(* ===== verification/Prelude.thy ===== *)
theory Prelude
  imports Main "HOL-Library.Word" "HOL-Library.Sublist"
begin

text \<open>
  Shared vocabulary of the development.

  The program is C.  What a C function does beyond returning a value is made explicit:
  \<^item> \<open>fatal()\<close> (\<open>src/src/utils.c\<close>) logs and exits the process, and an out-of-bounds,
    null or indeterminate access is undefined behaviour; both are values of the type
    \<open>fault\<close>, and a routine that can run into one returns a \<open>result\<close>;
  \<^item> a byte is a \<open>char\<close> (256 values); a C string is the list of its bytes before the
    terminating NUL; a char array written by \<open>strncpy\<close> and read as a string is the list of the
    bytes before its first NUL;
  \<^item> a block of memory is a list of cells; a cell that was never written is \<open>None\<close>;
  \<^item> \<open>size_t\<close> arithmetic is arithmetic on \<open>nat\<close> reduced by \<open>size_mod\<close> (modulo 2 to the 64).
\<close>

section \<open>Faults and results\<close>

datatype fault =
    Fatal string        \<comment> \<open>the process logged the message and exited\<close>
  | OutOfBounds         \<comment> \<open>an access outside the block\<close>
  | NullDeref           \<comment> \<open>an access through a null pointer\<close>
  | Indeterminate       \<comment> \<open>a read of a byte that was never written\<close>

type_synonym 'a result = "fault + 'a"
type_synonym byte = char
type_synonym mem_block = "char option list"

abbreviation NUL :: char where "NUL \<equiv> CHR 0x00"

fun bindR :: "'a result \<Rightarrow> ('a \<Rightarrow> 'b result) \<Rightarrow> 'b result" where
  "bindR (Inl e) f = Inl e"
| "bindR (Inr x) f = f x"

fun foldR :: "('s \<Rightarrow> 'a \<Rightarrow> 's result) \<Rightarrow> 's \<Rightarrow> 'a list \<Rightarrow> 's result" where
  "foldR f s [] = Inr s"
| "foldR f s (x # xs) = bindR (f s x) (\<lambda>s'. foldR f s' xs)"

section \<open>Machine arithmetic of sizes\<close>

definition size_mod :: "nat \<Rightarrow> nat" where
  "size_mod n = n mod 2 ^ 64"

section \<open>Memory blocks\<close>

definition block_of :: "byte list \<Rightarrow> mem_block" where
  "block_of xs = map Some xs"

text \<open>Writing \<open>xs\<close> at an offset: \<open>memcpy(blk + off, xs, length xs)\<close>.\<close>

definition mem_write :: "mem_block \<Rightarrow> nat \<Rightarrow> byte list \<Rightarrow> mem_block result" where
  "mem_write blk off xs =
     (if off + length xs \<le> length blk
      then Inr (take off blk @ block_of xs @ drop (off + length xs) blk)
      else Inl OutOfBounds)"

text \<open>Reading \<open>n\<close> bytes at an offset; every one of them must have been written.\<close>

definition mem_read :: "mem_block \<Rightarrow> nat \<Rightarrow> nat \<Rightarrow> byte list result" where
  "mem_read blk off n =
     (if off + n \<le> length blk
      then (let cells = take n (drop off blk)
            in if None \<in> set cells then Inl Indeterminate else Inr (map the cells))
      else Inl OutOfBounds)"

section \<open>C strings\<close>

definition cstr :: "byte list \<Rightarrow> bool" where
  "cstr s \<longleftrightarrow> NUL \<notin> set s"

text \<open>The string a \<open>char *\<close> denotes: the bytes before the first NUL.\<close>

definition cstring :: "byte list \<Rightarrow> byte list" where
  "cstring xs = takeWhile (\<lambda>c. c \<noteq> NUL) xs"

text \<open>
  \<open>strncpy(dst, src, n)\<close> into an array that is zero beyond \<open>n\<close>, or of which \<open>n\<close> is the whole
  size and \<open>src\<close> is shorter: the string then held by the array.
\<close>

definition strncpy :: "nat \<Rightarrow> byte list \<Rightarrow> byte list" where
  "strncpy n s = take n s"

text \<open>\<open>strncmp(a, b, n) == 0\<close> on strings without NUL.\<close>

definition strncmp_eq :: "nat \<Rightarrow> byte list \<Rightarrow> byte list \<Rightarrow> bool" where
  "strncmp_eq n a b \<longleftrightarrow> take n a = take n b"

section \<open>Shared lemmas\<close>

named_theorems result_simps \<open>rewrite rules for the result type\<close>
named_theorems mem_simps \<open>rewrite rules for memory blocks\<close>

lemma bindR_Inr_iff [result_simps]:
  "bindR m f = Inr y \<longleftrightarrow> (\<exists>x. m = Inr x \<and> f x = Inr y)"
  by (cases m) auto

lemma bindR_Inl_iff [result_simps]:
  "bindR m f = Inl e \<longleftrightarrow> m = Inl e \<or> (\<exists>x. m = Inr x \<and> f x = Inl e)"
  by (cases m) auto

lemma bindR_assoc: "bindR (bindR m f) g = bindR m (\<lambda>x. bindR (f x) g)"
  by (cases m) auto

lemma foldR_append:
  "foldR f s (xs @ ys) = bindR (foldR f s xs) (\<lambda>s'. foldR f s' ys)"
  by (induction xs arbitrary: s) (auto simp: bindR_assoc)

lemma size_mod_id [simp]: "n < 2 ^ 64 \<Longrightarrow> size_mod n = n"
  by (simp add: size_mod_def)

lemma size_mod_less: "size_mod n < 2 ^ 64"
  by (simp add: size_mod_def)

lemma length_block_of [simp]: "length (block_of xs) = length xs"
  by (simp add: block_of_def)

lemma block_of_append: "block_of (xs @ ys) = block_of xs @ block_of ys"
  by (simp add: block_of_def)

lemma block_of_inject [simp]: "block_of xs = block_of ys \<longleftrightarrow> xs = ys"
  by (auto simp: block_of_def inj_map_eq_map)

lemma None_notin_block_of [simp]: "None \<notin> set (block_of xs)"
  by (auto simp: block_of_def)

lemma map_the_block_of [simp]: "map the (block_of xs) = xs"
  by (simp add: block_of_def comp_def)

lemma take_block_of: "take n (block_of xs) = block_of (take n xs)"
  by (simp add: block_of_def take_map)

lemma drop_block_of: "drop n (block_of xs) = block_of (drop n xs)"
  by (simp add: block_of_def drop_map)

lemma mem_read_prefix [mem_simps]:
  assumes "take n blk = block_of xs" "n \<le> length blk" "off + k \<le> n"
  shows "mem_read blk off k = Inr (take k (drop off xs))"
proof -
  have "take k (drop off blk) = take k (drop off (take n blk))"
    using assms(3) by (simp add: drop_take min_def)
  also have "\<dots> = block_of (take k (drop off xs))"
    using assms(1) by (simp add: take_block_of drop_block_of)
  finally show ?thesis
    using assms by (simp add: mem_read_def)
qed

lemma mem_write_ok [mem_simps]:
  "off + length xs \<le> length blk \<Longrightarrow>
   mem_write blk off xs = Inr (take off blk @ block_of xs @ drop (off + length xs) blk)"
  by (simp add: mem_write_def)

lemma cstr_simps [simp]:
  "cstr []" "cstr (c # s) \<longleftrightarrow> c \<noteq> NUL \<and> cstr s" "cstr (s @ t) \<longleftrightarrow> cstr s \<and> cstr t"
  by (auto simp: cstr_def)

lemma cstr_take [intro]: "cstr s \<Longrightarrow> cstr (take n s)"
  by (auto simp: cstr_def dest: in_set_takeD)

lemma cstring_append_NUL [simp]: "cstr s \<Longrightarrow> cstring (s @ NUL # t) = s"
  by (induction s) (auto simp: cstring_def)

lemma cstring_cstr [simp]: "cstr s \<Longrightarrow> cstring s = s"
  by (auto simp: cstring_def cstr_def takeWhile_eq_all_conv)

lemma strncmp_eq_refl [simp]: "strncmp_eq n s s"
  by (simp add: strncmp_eq_def)

lemma strncmp_eq_sym: "strncmp_eq n a b \<longleftrightarrow> strncmp_eq n b a"
  by (auto simp: strncmp_eq_def)

lemma strncmp_eq_len: "length a < n \<Longrightarrow> strncmp_eq n a b \<longleftrightarrow> a = b"
proof
  assume "length a < n" "strncmp_eq n a b"
  then have "take n b = a" by (simp add: strncmp_eq_def)
  moreover from this have "length b < n" using \<open>length a < n\<close> by (metis length_take min_less_iff_conj nat_neq_iff)
  ultimately show "a = b" by simp
qed (simp add: strncmp_eq_def)

lemma strncmp_eq_short:
  "length a < n \<Longrightarrow> length b < n \<Longrightarrow> strncmp_eq n a b \<longleftrightarrow> a = b"
  by (simp add: strncmp_eq_def)

end
