(* ===== verification/Utils.thy ===== *)
theory Utils
  imports Prelude
begin

text \<open>
  The string, number and memory-search routines of \<open>src/src/utils.c\<close>: \<open>kore_strlcpy\<close>,
  \<open>kore_strtonum\<close>, \<open>kore_strtonum64\<close>, \<open>kore_split_string\<close>, \<open>kore_strip_chars\<close>,
  \<open>kore_date_to_time\<close>, \<open>kore_mem_find\<close>, \<open>kore_text_trim\<close>, \<open>kore_read_line\<close> and
  \<open>kore_worker_name\<close>, over the parts of the C library they call (\<open>strtoll\<close>, \<open>strtoull\<close>,
  \<open>strsep\<close>, \<open>isspace\<close>, decimal \<open>printf\<close>), written as functions.  The lemmas show what each
  routine computes; the reference definitions they are compared with stand next to the lemmas.
\<close>

section \<open>The C library routines used\<close>

text \<open>\<open>isspace\<close> in the C locale: blank, horizontal and vertical tab, newline, form feed, return.\<close>

definition isspace :: "char \<Rightarrow> bool" where
  "isspace c \<longleftrightarrow> c = CHR '' '' \<or> (9 \<le> (of_char c :: nat) \<and> (of_char c :: nat) \<le> 13)"

text \<open>\<open>tolower\<close> in the C locale, and \<open>strcasecmp(a, b) == 0\<close> on strings without NUL.\<close>

definition tolower :: "char \<Rightarrow> char" where
  "tolower c =
     (if 65 \<le> (of_char c :: nat) \<and> (of_char c :: nat) \<le> 90 then char_of ((of_char c :: nat) + 32) else c)"

definition strcase_eq :: "string \<Rightarrow> string \<Rightarrow> bool" where
  "strcase_eq a b \<longleftrightarrow> map tolower a = map tolower b"

definition digit_val :: "char \<Rightarrow> nat option" where
  "digit_val c =
     (let n = (of_char c :: nat) in
      if 48 \<le> n \<and> n \<le> 57 then Some (n - 48)
      else if 97 \<le> n \<and> n \<le> 122 then Some (n - 87)
      else if 65 \<le> n \<and> n \<le> 90 then Some (n - 55)
      else None)"

definition is_digit :: "nat \<Rightarrow> char \<Rightarrow> bool" where
  "is_digit base c = (case digit_val c of None \<Rightarrow> False | Some d \<Rightarrow> d < base)"

fun digits_value :: "nat \<Rightarrow> nat \<Rightarrow> string \<Rightarrow> nat" where
  "digits_value base acc [] = acc"
| "digits_value base acc (c # cs) =
     digits_value base (acc * base + (case digit_val c of None \<Rightarrow> 0 | Some d \<Rightarrow> d)) cs"

text \<open>
  The subject sequence of \<open>strtoll\<close> and \<open>strtoull\<close>: optional white space, an optional sign, for
  base 16 an optional \<open>0x\<close>, then digits.  The result is the sign, the magnitude and how many
  bytes were consumed; no digits means nothing is consumed.
\<close>

definition strto_sign :: "string \<Rightarrow> bool \<times> string" where
  "strto_sign s =
     (case s of [] \<Rightarrow> (False, [])
      | c # cs \<Rightarrow> if c = CHR ''-'' then (True, cs)
                  else if c = CHR ''+'' then (False, cs) else (False, s))"

definition strto_hex :: "nat \<Rightarrow> string \<Rightarrow> string" where
  "strto_hex base s =
     (case s of z # x # d # r \<Rightarrow>
        if base = 16 \<and> z = CHR ''0'' \<and> (x = CHR ''x'' \<or> x = CHR ''X'') \<and> is_digit 16 d
        then d # r else s
      | _ \<Rightarrow> s)"

definition strto_parse :: "nat \<Rightarrow> string \<Rightarrow> bool \<times> nat \<times> nat" where
  "strto_parse base s =
     (let (neg, s1) = strto_sign (dropWhile isspace s);
          s2 = strto_hex base s1;
          ds = takeWhile (is_digit base) s2
      in if ds = [] then (False, 0, 0)
         else (neg, digits_value base 0 ds, length s - length (dropWhile (is_digit base) s2)))"

abbreviation LLONG_MAX :: int where "LLONG_MAX \<equiv> 9223372036854775807"
abbreviation LLONG_MIN :: int where "LLONG_MIN \<equiv> - 9223372036854775808"
abbreviation ULLONG_MAX :: int where "ULLONG_MAX \<equiv> 18446744073709551615"

datatype cerrno = ENONE | EINVAL | ERANGE | EOTHER

text \<open>\<open>strtoll\<close>: value, bytes consumed, and whether \<open>errno\<close> is set to \<open>ERANGE\<close>.\<close>

definition strtoll :: "nat \<Rightarrow> string \<Rightarrow> int \<times> nat \<times> bool" where
  "strtoll base s =
     (let (neg, m, n) = strto_parse base s;
          v = (if neg then - int m else int m)
      in if v < LLONG_MIN then (LLONG_MIN, n, True)
         else if LLONG_MAX < v then (LLONG_MAX, n, True)
         else (v, n, False))"

definition strtoull :: "nat \<Rightarrow> string \<Rightarrow> int \<times> nat \<times> bool" where
  "strtoull base s =
     (let (neg, m, n) = strto_parse base s
      in if ULLONG_MAX < int m then (ULLONG_MAX, n, True)
         else ((if neg then - int m else int m) mod 2 ^ 64, n, False))"

text \<open>\<open>strsep\<close>: the token before the first delimiter, and what is left (null when none was met).\<close>

definition strsep :: "string \<Rightarrow> string \<Rightarrow> string \<times> string option" where
  "strsep delim s =
     (case dropWhile (\<lambda>c. c \<notin> set delim) s of
        [] \<Rightarrow> (s, None)
      | _ # r \<Rightarrow> (takeWhile (\<lambda>c. c \<notin> set delim) s, Some r))"

text \<open>The conversions \<open>%u\<close> and \<open>%d\<close> of \<open>printf\<close>.\<close>

definition digit_char :: "nat \<Rightarrow> char" where
  "digit_char d = char_of (48 + d)"

fun nat_str :: "nat \<Rightarrow> string" where
  "nat_str n = (if n < 10 then [digit_char n] else nat_str (n div 10) @ [digit_char (n mod 10)])"

declare nat_str.simps [simp del]

definition int_str :: "int \<Rightarrow> string" where
  "int_str i = (if i < 0 then CHR ''-'' # nat_str (nat (- i)) else nat_str (nat i))"

section \<open>Copying and stripping\<close>

fun strlcpy_loop :: "mem_block \<Rightarrow> nat \<Rightarrow> string \<Rightarrow> nat \<Rightarrow> mem_block result" where
  "strlcpy_loop blk d [] e = mem_write blk d [NUL]"
| "strlcpy_loop blk d (c # s) e =
     bindR (mem_write blk d [c])
       (\<lambda>blk'. if d = e then mem_write blk' d [NUL] else strlcpy_loop blk' (Suc d) s e)"

definition kore_strlcpy :: "mem_block \<Rightarrow> string \<Rightarrow> nat \<Rightarrow> (mem_block \<times> nat) result" where
  "kore_strlcpy dst src len =
     (if len = 0 then Inl (Fatal ''kore_strlcpy: len == 0'')
      else bindR (strlcpy_loop dst 0 src (len - 1)) (\<lambda>blk. Inr (blk, length src)))"

text \<open>
  The length is kept in a 32-bit integer, so only that many bytes are looked at; the copy drops
  every byte equal to \<open>strip\<close>.
\<close>

fun strip_loop :: "char \<Rightarrow> string \<Rightarrow> string" where
  "strip_loop strip [] = []"
| "strip_loop strip (c # s) = (if c = strip then strip_loop strip s else c # strip_loop strip s)"

definition kore_strip_chars :: "string \<Rightarrow> char \<Rightarrow> string" where
  "kore_strip_chars inp strip = strip_loop strip (take (length inp mod 2 ^ 32) inp)"

text \<open>
  Trimming in place: the start moves right over white space, the end moves left, neither past
  the other, so one byte always remains of a non-empty text.
\<close>

fun trim_left :: "string \<Rightarrow> string" where
  "trim_left (c # d # s) = (if isspace c then trim_left (d # s) else c # d # s)"
| "trim_left s = s"

definition kore_text_trim :: "string \<Rightarrow> string" where
  "kore_text_trim s = rev (trim_left (rev (trim_left s)))"

text \<open>What \<open>kore_read_line\<close> makes of the bytes \<open>fgets\<close> stored.\<close>

definition kore_read_line :: "string \<Rightarrow> string" where
  "kore_read_line inp =
     (let p = dropWhile isspace (takeWhile (\<lambda>c. c \<noteq> CHR 0x0A) inp)
      in case p of
           [] \<Rightarrow> []
         | c # _ \<Rightarrow> if c = CHR ''#'' then []
                     else map (\<lambda>t. if t = CHR 0x09 then CHR '' '' else t) p)"

text \<open>The reserved worker identifiers are constants of a header that is not part of the sources.\<close>

definition kore_worker_name :: "int \<Rightarrow> int \<Rightarrow> int \<Rightarrow> string" where
  "kore_worker_name keymgr acme i =
     (if i = keymgr then ''[keymgr]''
      else if i = acme then ''[acme]''
      else take 63 (''[wrk '' @ int_str i @ '']''))"

section \<open>Numbers\<close>

text \<open>\<open>None\<close> is the error return, with value 0 and \<open>*err = KORE_RESULT_ERROR\<close>.\<close>

definition kore_strtonum :: "string \<Rightarrow> nat \<Rightarrow> int \<Rightarrow> int \<Rightarrow> int option" where
  "kore_strtonum str base mn mx =
     (if mn > mx then None
      else let (l, n, erange) = strtoll base str
           in if erange \<or> n = 0 \<or> n \<noteq> length str then None
              else if l < mn then None
              else if l > mx then None
              else Some l)"

text \<open>
  \<open>kore_strtonum64\<close> never clears \<open>errno\<close>: it is an argument and a result.  A signed request
  returns the value converted to an unsigned 64-bit integer.
\<close>

definition stale :: "cerrno \<Rightarrow> bool" where
  "stale e \<longleftrightarrow> e = EINVAL \<or> e = ERANGE"

definition kore_strtonum64 :: "cerrno \<Rightarrow> string \<Rightarrow> bool \<Rightarrow> cerrno \<times> 64 word option" where
  "kore_strtonum64 errno0 str sign =
     (let (ll, n, er) = strtoll 10 str;
          errno1 = (if er then ERANGE else errno0);
          bad = stale errno1 \<and> (ll = LLONG_MIN \<or> ll = LLONG_MAX)
      in if bad \<and> sign then (errno1, None)
         else let check = \<not> bad
              in if \<not> sign
                 then (let (l, n2, er2) = strtoull 10 str;
                           errno2 = (if er2 then ERANGE else errno1)
                       in if stale errno2 \<and> l = ULLONG_MAX then (errno2, None)
                          else if check \<and> ll < 0 then (errno2, None)
                          else if n2 = 0 \<or> n2 \<noteq> length str then (errno2, None)
                          else (errno2, Some (word_of_int l)))
                 else if n = 0 \<or> n \<noteq> length str then (errno1, None)
                 else (errno1, Some (word_of_int ll)))"

section \<open>Splitting and searching\<close>

text \<open>
  The loop of \<open>kore_split_string\<close>: \<open>k\<close> output slots are left before the last one, which is kept
  for the terminating null pointer; empty tokens are skipped.
\<close>

function split_loop :: "string \<Rightarrow> nat \<Rightarrow> string option \<Rightarrow> string list" where
  "split_loop delim 0 inp = []"
| "split_loop delim (Suc k) None = []"
| "split_loop delim (Suc k) (Some s) =
     (let (tok, rest) = strsep delim s
      in if tok = [] then split_loop delim (Suc k) rest else tok # split_loop delim k rest)"
  by pat_completeness auto

definition split_measure :: "string option \<Rightarrow> nat" where
  "split_measure inp = (case inp of None \<Rightarrow> 0 | Some s \<Rightarrow> Suc (length s))"

lemma strsep_measure: "split_measure (snd (strsep delim s)) < split_measure (Some s)"
proof -
  have "length (dropWhile (\<lambda>c. c \<notin> set delim) s) \<le> length s"
    by (rule length_dropWhile_le)
  then show ?thesis
    by (simp add: strsep_def split_measure_def split: list.split)
      (metis length_Cons Suc_le_eq)
qed

termination split_loop
  by (relation "measure (\<lambda>(delim, k, inp). split_measure inp)")
    (auto simp: prod_eq_iff strsep_measure)

definition kore_split_string :: "string \<Rightarrow> string \<Rightarrow> nat \<Rightarrow> string list" where
  "kore_split_string inp delim ele = (if ele = 0 then [] else split_loop delim (ele - 1) (Some inp))"

text \<open>
  \<open>needle\<close> is the object the pointer designates; \<open>len\<close> of its bytes are compared, and its first
  byte is read whenever there is a byte to look at.  \<open>src\<close> is the region of \<open>slen\<close> bytes.
\<close>

fun mem_find_loop :: "string \<Rightarrow> nat \<Rightarrow> string \<Rightarrow> nat \<Rightarrow> nat option result" where
  "mem_find_loop [] pos needle len = Inr None"
| "mem_find_loop (x # xs) pos needle len =
     (if needle = [] then Inl OutOfBounds
      else if x \<noteq> hd needle then mem_find_loop xs (Suc pos) needle len
      else if length (x # xs) < len then Inr None
      else if length needle < len then Inl OutOfBounds
      else if take len (x # xs) = take len needle then Inr (Some pos)
      else mem_find_loop xs (Suc pos) needle len)"

definition kore_mem_find :: "string \<Rightarrow> string \<Rightarrow> nat \<Rightarrow> nat option result" where
  "kore_mem_find src needle len = mem_find_loop src 0 needle len"

section \<open>HTTP dates\<close>

record tm =
  tm_sec :: int
  tm_min :: int
  tm_hour :: int
  tm_mday :: int
  tm_mon :: int
  tm_year :: int
  tm_isdst :: int

definition month_names :: "(string \<times> int) list" where
  "month_names =
     [(''Jan'', 0), (''Feb'', 1), (''Mar'', 2), (''Apr'', 3), (''May'', 4), (''Jun'', 5),
      (''Jul'', 6), (''Aug'', 7), (''Sep'', 8), (''Oct'', 9), (''Nov'', 10), (''Dec'', 11)]"

text \<open>The broken-down time read from the text; \<open>None\<close> for each misformed part.\<close>

definition http_date_tm :: "int \<Rightarrow> string \<Rightarrow> tm option" where
  "http_date_tm isdst http_date =
     (let args = kore_split_string http_date '' '' 7 in
      if length args \<noteq> 6 then None
      else case kore_strtonum (args ! 3) 10 1900 2068 of None \<Rightarrow> None | Some year \<Rightarrow>
           (case map_of month_names (args ! 2) of None \<Rightarrow> None | Some mon \<Rightarrow>
           (case kore_strtonum (args ! 1) 10 1 31 of None \<Rightarrow> None | Some mday \<Rightarrow>
           (let tbuf = kore_split_string (args ! 4) '':'' 5 in
            if length tbuf \<noteq> 3 then None
            else case kore_strtonum (tbuf ! 0) 10 0 23 of None \<Rightarrow> None | Some hour \<Rightarrow>
                 (case kore_strtonum (tbuf ! 1) 10 0 59 of None \<Rightarrow> None | Some mins \<Rightarrow>
                 (case kore_strtonum (tbuf ! 2) 10 0 60 of None \<Rightarrow> None | Some sec \<Rightarrow>
                    Some \<lparr>tm_sec = sec, tm_min = mins, tm_hour = hour, tm_mday = mday,
                          tm_mon = mon, tm_year = year - 1900, tm_isdst = isdst\<rparr>))))))"

text \<open>
  \<open>mktime\<close> and the local zone (daylight flag and offset of the current time) belong to the
  system: they are arguments.  A misformed date returns \<open>KORE_RESULT_ERROR\<close>, which is 0.
\<close>

definition kore_date_to_time :: "(tm \<Rightarrow> int) \<Rightarrow> int \<Rightarrow> int \<Rightarrow> string \<Rightarrow> int" where
  "kore_date_to_time mktime isdst gmtoff http_date =
     (case http_date_tm isdst http_date of
        None \<Rightarrow> 0
      | Some t \<Rightarrow> (let r = mktime t + gmtoff in if r = - 1 then 0 else r))"

section \<open>Reference definitions\<close>

text \<open>All fields of a text, empty ones included.\<close>

fun fields :: "string \<Rightarrow> string \<Rightarrow> string list" where
  "fields delim [] = [[]]"
| "fields delim (c # s) =
     (if c \<in> set delim then [] # fields delim s
      else (c # hd (fields delim s)) # tl (fields delim s))"

text \<open>The least position at which a pattern occurs.\<close>

fun find_sub :: "'a list \<Rightarrow> 'a list \<Rightarrow> nat option" where
  "find_sub pat [] = (if pat = [] then Some 0 else None)"
| "find_sub pat (c # s) =
     (if prefix pat (c # s) then Some 0 else map_option Suc (find_sub pat s))"

section \<open>Splitting and searching: lemmas\<close>

lemma fields_nonempty [simp]: "fields delim s \<noteq> []"
  by (cases s) auto

lemma fields_strsep:
  "fields delim s = fst (strsep delim s) #
     (case snd (strsep delim s) of None \<Rightarrow> [] | Some r \<Rightarrow> fields delim r)"
proof (induction s)
  case Nil
  show ?case by (simp add: strsep_def)
next
  case (Cons c s)
  show ?case
  proof (cases "c \<in> set delim")
    case True
    then show ?thesis by (simp add: strsep_def)
  next
    case False
    then have "strsep delim (c # s) = (c # fst (strsep delim s), snd (strsep delim s))"
      by (cases "dropWhile (\<lambda>c. c \<notin> set delim) s")
        (auto simp: strsep_def simp del: dropWhile_eq_Nil_conv)
    with False Cons.IH show ?thesis by simp
  qed
qed

lemma split_loop_fields:
  "split_loop delim k inp =
     take k (case inp of None \<Rightarrow> [] | Some s \<Rightarrow> filter (\<lambda>f. f \<noteq> []) (fields delim s))"
proof (induction delim k inp rule: split_loop.induct)
  case (3 delim k s)
  obtain tok rest where sep: "strsep delim s = (tok, rest)" by (cases "strsep delim s")
  then have "fields delim s = tok # (case rest of None \<Rightarrow> [] | Some r \<Rightarrow> fields delim r)"
    using fields_strsep [of delim s] by simp
  with sep 3 show ?case by (auto split: option.splits)
qed auto

lemma find_sub_Some:
  "find_sub pat s = Some i \<Longrightarrow>
     s = take i s @ pat @ drop (i + length pat) s \<and> i + length pat \<le> length s"
proof (induction s arbitrary: i)
  case Nil
  then show ?case by (auto split: if_splits)
next
  case (Cons c s)
  then show ?case
    by (auto split: if_splits simp: prefix_def dest: prefix_length_le)
      (metis length_Cons length_append le_add1)
qed

lemma find_sub_shorter:
  "find_sub pat s = Some i \<Longrightarrow> pat \<noteq> [] \<Longrightarrow> length s - (i + length pat) < length s"
  using find_sub_Some [of pat s i] by (cases pat) auto

lemma find_sub_least:
  "find_sub pat s = Some i \<Longrightarrow> j < i \<Longrightarrow> \<not> prefix pat (drop j s)"
proof (induction s arbitrary: i j)
  case Nil
  then show ?case by (auto split: if_splits)
next
  case (Cons c s)
  then show ?case by (cases j) (auto split: if_splits)
qed

lemma find_sub_None: "find_sub pat s = None \<longleftrightarrow> \<not> sublist pat s"
  by (induction s) (auto simp: sublist_Cons_right)

lemma mem_find_loop_find_sub:
  assumes "pat \<noteq> []"
  shows "mem_find_loop src pos (pat @ rest) (length pat) =
           Inr (map_option (\<lambda>i. pos + i) (find_sub pat src))"
proof (induction src arbitrary: pos)
  case Nil
  with assms show ?case by simp
next
  case (Cons x xs)
  obtain p ps where pat: "pat = p # ps" using assms by (cases pat) auto
  have short: "length (x # xs) < length pat \<Longrightarrow> find_sub pat (x # xs) = None"
    by (auto simp: find_sub_None dest: sublist_length_le prefix_length_le)
  have pre: "prefix pat (x # xs) \<longleftrightarrow> take (length pat) (x # xs) = pat"
    by (auto simp: prefix_def) (metis append_take_drop_id)
  show ?case
  proof (cases "length (x # xs) < length pat")
    case True
    then have sub: "find_sub pat xs = None"
      by (auto simp: find_sub_None dest: sublist_length_le)
    have "mem_find_loop (x # xs) pos (pat @ rest) (length pat) = Inr None"
      using True Cons.IH sub pat by auto
    with short [OF True] show ?thesis by simp
  next
    case False
    then show ?thesis
      using Cons.IH pat pre by (auto simp: option.map_comp comp_def split: if_splits)
  qed
qed

lemma kore_mem_find_eq:
  "pat \<noteq> [] \<Longrightarrow> kore_mem_find src (pat @ rest) (length pat) = Inr (find_sub pat src)"
  by (simp add: kore_mem_find_def mem_find_loop_find_sub option.map_ident)

section \<open>Copying: lemmas\<close>

lemma strlcpy_loop_ok:
  assumes "d \<le> e" "e < length blk"
  shows "strlcpy_loop blk d s e =
           Inr (take d blk @ block_of (take (e - d) s @ [NUL]) @
                drop (d + length (take (e - d) s) + 1) blk)"
  using assms
proof (induction s arbitrary: blk d)
  case Nil
  then show ?case by (simp add: mem_write_def block_of_def)
next
  case (Cons c s)
  let ?blk = "take d blk @ block_of [c] @ drop (d + 1) blk"
  have w: "mem_write blk d [c] = Inr ?blk"
    using Cons.prems by (simp add: mem_write_def)
  show ?case
  proof (cases "d = e")
    case True
    then show ?thesis using Cons.prems w
      by (simp add: mem_write_def min_def block_of_def)
  next
    case False
    have len: "length ?blk = length blk" using Cons.prems by simp
    have IH: "strlcpy_loop ?blk (Suc d) s e =
       Inr (take (Suc d) ?blk @ block_of (take (e - Suc d) s @ [NUL]) @
            drop (Suc d + length (take (e - Suc d) s) + 1) ?blk)"
      using Cons.prems False len by (intro Cons.IH) auto
    have tk: "take (Suc d) ?blk = take d blk @ block_of [c]"
      using Cons.prems by (simp add: block_of_def min_def)
    have dr: "drop (Suc d + k) ?blk = drop (Suc d + k) blk" for k
      using Cons.prems by (simp add: block_of_def min_def add.commute)
    have "e - d = Suc (e - Suc d)" using Cons.prems False by simp
    then show ?thesis
      using IH w False tk dr [of "length (take (e - Suc d) s) + 1"]
      by (simp add: block_of_def del: append_assoc)
  qed
qed

section \<open>Decimal numerals: lemmas\<close>

lemma digit_char_less:
  "d < 10 \<Longrightarrow> (of_char (digit_char d) :: nat) = 48 + d"
  by (simp add: digit_char_def)

lemma digit_val_digit_char [simp]: "d < 10 \<Longrightarrow> digit_val (digit_char d) = Some d"
  by (simp add: digit_val_def digit_char_less)

lemma is_digit_digit_char [simp]: "d < 10 \<Longrightarrow> is_digit 10 (digit_char d)"
  by (simp add: is_digit_def)

lemma is_digit_10_iff: "is_digit 10 c \<longleftrightarrow> 48 \<le> (of_char c :: nat) \<and> (of_char c :: nat) \<le> 57"
  by (auto simp: is_digit_def digit_val_def Let_def)

lemma is_digit_not [simp]:
  "is_digit 10 c \<Longrightarrow> \<not> isspace c"
  "is_digit 10 c \<Longrightarrow> c \<noteq> CHR ''-''"
  "is_digit 10 c \<Longrightarrow> c \<noteq> CHR ''+''"
  by (auto simp: is_digit_10_iff isspace_def)

lemma nat_str_digits: "c \<in> set (nat_str n) \<Longrightarrow> is_digit 10 c"
  by (induction n rule: nat_str.induct) (subst (asm) (2) nat_str.simps, auto split: if_splits)

lemma nat_str_nonempty [simp]: "nat_str n \<noteq> []"
  by (subst nat_str.simps) simp

lemma digits_value_append:
  "digits_value b acc (xs @ ys) = digits_value b (digits_value b acc xs) ys"
  by (induction xs arbitrary: acc) auto

lemma digits_value_nat_str: "digits_value 10 0 (nat_str n) = n"
proof (induction n rule: nat_str.induct)
  case (1 n)
  then show ?case
    by (subst nat_str.simps) (auto simp: digits_value_append)
qed

lemma takeWhile_nat_str [simp]:
  "takeWhile (is_digit 10) (nat_str n) = nat_str n"
  "dropWhile (is_digit 10) (nat_str n) = []"
  using nat_str_digits by (auto simp: takeWhile_eq_all_conv)

lemma strto_hex_10 [simp]: "strto_hex 10 s = s"
  by (auto simp: strto_hex_def split: list.splits)

lemma strto_parse_nat_str: "strto_parse 10 (nat_str n) = (False, n, length (nat_str n))"
proof -
  obtain c cs where c: "nat_str n = c # cs" by (cases "nat_str n") auto
  then have "is_digit 10 c" using nat_str_digits [of c n] by simp
  then have "strto_sign (dropWhile isspace (nat_str n)) = (False, nat_str n)"
    by (simp add: c strto_sign_def)
  then show ?thesis
    by (simp add: strto_parse_def digits_value_nat_str)
qed

lemma strto_parse_neg_nat_str:
  "strto_parse 10 (CHR ''-'' # nat_str n) = (True, n, Suc (length (nat_str n)))"
proof -
  have "\<not> isspace (CHR ''-'')" by (simp add: isspace_def)
  then show ?thesis
    by (simp add: strto_parse_def strto_sign_def digits_value_nat_str)
qed

lemma strto_parse_int_str:
  "strto_parse 10 (int_str i) = (i < 0, nat \<bar>i\<bar>, length (int_str i))"
  by (simp add: int_str_def strto_parse_nat_str strto_parse_neg_nat_str)

lemma int_str_nonempty [simp]: "int_str i \<noteq> []"
  by (simp add: int_str_def)

lemma strtoll_int_str:
  "LLONG_MIN \<le> i \<Longrightarrow> i \<le> LLONG_MAX \<Longrightarrow> strtoll 10 (int_str i) = (i, length (int_str i), False)"
  by (auto simp: strtoll_def strto_parse_int_str)

section \<open>Properties\<close>

text \<open>
  \<open>kore_split_string\<close> returns the non-empty fields of its input in order, at most one fewer than
  the output array has elements; with no element it returns none.
\<close>

theorem kore_split_string_fields:
  "kore_split_string inp delim ele =
     (if ele = 0 then [] else take (ele - 1) (filter (\<lambda>f. f \<noteq> []) (fields delim inp)))"
  by (simp add: kore_split_string_def split_loop_fields)

text \<open>
  \<open>kore_mem_find\<close> with a non-empty needle returns the least position at which the needle occurs
  in the region, and null exactly when it does not occur; it never reads outside its operands.
\<close>

theorem kore_mem_find_first:
  assumes "pat \<noteq> []"
  shows "\<exists>r. kore_mem_find src (pat @ rest) (length pat) = Inr r \<and>
     (case r of
        None \<Rightarrow> \<not> sublist pat src
      | Some i \<Rightarrow> src = take i src @ pat @ drop (i + length pat) src \<and>
                  (\<forall>j<i. \<not> prefix pat (drop j src)))"
proof (cases "find_sub pat src")
  case None
  then show ?thesis using assms find_sub_None [of pat src] by (simp add: kore_mem_find_eq)
next
  case (Some i)
  have "src = take i src @ pat @ drop (i + length pat) src"
    using find_sub_Some [OF Some] by blast
  moreover have "\<forall>j<i. \<not> prefix pat (drop j src)"
    using find_sub_least [OF Some] by blast
  ultimately show ?thesis using assms Some by (simp add: kore_mem_find_eq)
qed

theorem kore_mem_find_first_witness:
  "\<exists>r. kore_mem_find ''GET /x HTTP'' (''HTTP'' @ [NUL]) (length ''HTTP'') = Inr r \<and>
     (case r of
        None \<Rightarrow> \<not> sublist ''HTTP'' ''GET /x HTTP''
      | Some i \<Rightarrow> ''GET /x HTTP'' =
            take i ''GET /x HTTP'' @ ''HTTP'' @ drop (i + length ''HTTP'') ''GET /x HTTP'' \<and>
            (\<forall>j<i. \<not> prefix ''HTTP'' (drop j ''GET /x HTTP'')))"
  by (rule kore_mem_find_first) simp

text \<open>
  \<open>kore_strtonum\<close> reads back every decimal numeral: within the bounds it returns the number that
  was printed, and outside them it reports an error, whatever the number's size.
\<close>

theorem kore_strtonum_int_str:
  assumes "LLONG_MIN \<le> mn" "mx \<le> LLONG_MAX"
  shows "kore_strtonum (int_str i) 10 mn mx = (if mn \<le> i \<and> i \<le> mx then Some i else None)"
proof (cases "LLONG_MIN \<le> i \<and> i \<le> LLONG_MAX")
  case True
  then show ?thesis by (auto simp: kore_strtonum_def strtoll_int_str)
next
  case False
  then show ?thesis using assms
    by (auto simp: kore_strtonum_def strtoll_def strto_parse_int_str)
qed

theorem kore_strtonum_int_str_witness:
  "LLONG_MIN \<le> 0 \<and> (65535::int) \<le> LLONG_MAX \<and>
   kore_strtonum (int_str 8888) 10 0 65535 = Some 8888"
  using kore_strtonum_int_str [of 0 65535 8888] by simp

text \<open>
  \<open>kore_strlcpy\<close> into a destination of at least \<open>len\<close> bytes stays inside it, always terminates the
  copy, leaves the bytes after the terminator alone, and returns the length of the source.
\<close>

theorem kore_strlcpy_bounded:
  assumes "0 < len" "len \<le> length dst"
  shows "kore_strlcpy dst src len =
           Inr (block_of (take (len - 1) src @ [NUL]) @
                drop (Suc (min (len - 1) (length src))) dst, length src)"
  using assms strlcpy_loop_ok [of 0 "len - 1" dst src]
  by (simp add: kore_strlcpy_def min.commute)

theorem kore_strlcpy_bounded_witness:
  "kore_strlcpy (replicate 4 None) ''abcdef'' 4 = Inr (map Some [CHR ''a'', CHR ''b'', CHR ''c'', NUL], 6)"
  using kore_strlcpy_bounded [of 4 "replicate 4 None" "''abcdef''"]
  by (simp add: block_of_def)

text \<open>
  The 64-bit reader is not exact at its upper end: the largest unsigned 64-bit number is refused
  although it fits, whatever \<open>errno\<close> was before, because \<open>errno\<close> is not cleared between
  \<open>strtoll\<close> and \<open>strtoull\<close>; and after a number above the signed range was read, the
  smallest signed number is refused although it is accepted in a fresh state.
\<close>

theorem kore_strtonum64_errno_leak:
  "snd (kore_strtonum64 e (nat_str 18446744073709551615) False) = None \<and>
   kore_strtonum64 ENONE (nat_str 9223372036854775808) False = (ERANGE, Some 9223372036854775808) \<and>
   snd (kore_strtonum64 ERANGE (int_str LLONG_MIN) True) = None \<and>
   snd (kore_strtonum64 ENONE (int_str LLONG_MIN) True) = Some 9223372036854775808"
  by (simp add: kore_strtonum64_def strtoll_def strtoull_def strto_parse_nat_str
      strto_parse_int_str stale_def)

end
