(* ===== verification/Buf.thy ===== *)
theory Buf
  imports Utils
begin

text \<open>
  The growable byte buffer of \<open>src/src/buf.c\<close>.

  A buffer is a pointer to a block (\<open>None\<close> is the null pointer), its capacity, the number of
  bytes used and whether the structure itself was allocated by \<open>kore_buf_alloc\<close>.  The allocator
  of \<open>src/src/mem.c\<close> appears through its contract: a fresh block has indeterminate bytes,
  \<open>kore_malloc(0)\<close> gives eight bytes, and \<open>kore_realloc\<close> keeps the common prefix; running out
  of memory ends the process there and is not a case of this model.

  The abstraction of a buffer is \<open>buf_bytes\<close>, the list of the bytes appended so far.  The
  interface other components rely on is the locale \<open>octet_buffer\<close>, interpreted on this
  model at the end of the theory.
\<close>

section \<open>Allocation\<close>

definition kore_malloc :: "nat \<Rightarrow> mem_block" where
  "kore_malloc n = replicate (if n = 0 then 8 else n) None"

definition kore_realloc :: "mem_block option \<Rightarrow> nat \<Rightarrow> mem_block" where
  "kore_realloc p n =
     (case p of
        None \<Rightarrow> kore_malloc n
      | Some blk \<Rightarrow>
          if n = length blk then blk
          else (let k = min n (length blk) in take k blk @ drop k (kore_malloc n)))"

section \<open>The buffer\<close>

record kore_buf =
  buf_data :: "mem_block option"
  buf_length :: nat
  buf_offset :: nat
  buf_owner_api :: bool

definition kore_buf_init :: "nat \<Rightarrow> kore_buf" where
  "kore_buf_init initial =
     \<lparr>buf_data = (if initial > 0 then Some (kore_malloc initial) else None),
      buf_length = initial, buf_offset = 0, buf_owner_api = False\<rparr>"

definition kore_buf_alloc :: "nat \<Rightarrow> kore_buf" where
  "kore_buf_alloc initial = (kore_buf_init initial)\<lparr>buf_owner_api := True\<rparr>"

definition kore_buf_cleanup :: "kore_buf \<Rightarrow> kore_buf" where
  "kore_buf_cleanup b = b\<lparr>buf_data := None, buf_offset := 0, buf_length := 0\<rparr>"

text \<open>\<open>None\<close> after \<open>kore_buf_free\<close>: the structure itself was released.\<close>

definition kore_buf_free :: "kore_buf \<Rightarrow> kore_buf option" where
  "kore_buf_free b =
     (let b' = kore_buf_cleanup b in if buf_owner_api b' then None else Some b')"

definition buf_grow :: "kore_buf \<Rightarrow> nat \<Rightarrow> kore_buf" where
  "buf_grow b len =
     (if size_mod (buf_offset b + len) > buf_length b
      then (let l = size_mod (buf_length b + len)
            in b\<lparr>buf_length := l, buf_data := Some (kore_realloc (buf_data b) l)\<rparr>)
      else b)"

definition kore_buf_append :: "kore_buf \<Rightarrow> byte list \<Rightarrow> kore_buf result" where
  "kore_buf_append b xs =
     (let len = length xs in
      if size_mod (buf_offset b + len) < len then Inl (Fatal ''overflow in kore_buf_append'')
      else let b1 = buf_grow b len in
           if len = 0 then Inr b1
           else case buf_data b1 of
                  None \<Rightarrow> Inl NullDeref
                | Some blk \<Rightarrow>
                    bindR (mem_write blk (buf_offset b1) xs)
                      (\<lambda>blk'. Inr (b1\<lparr>buf_data := Some blk',
                                       buf_offset := size_mod (buf_offset b1 + len)\<rparr>)))"

text \<open>
  \<open>kore_buf_appendv\<close>: \<open>formatted\<close> is what \<open>vsnprintf\<close> makes of the format and its arguments and
  \<open>formatted2\<close> what \<open>vasprintf\<close> makes of them, \<open>None\<close> for an error return; \<open>bufsiz\<close> is the
  size of the array on the stack.  \<open>kore_buf_appendf\<close> is the same call with the arguments in line.
\<close>

definition kore_buf_appendv ::
  "nat \<Rightarrow> kore_buf \<Rightarrow> string option \<Rightarrow> string option \<Rightarrow> kore_buf result" where
  "kore_buf_appendv bufsiz b formatted formatted2 =
     (case formatted of
        None \<Rightarrow> Inl (Fatal ''kore_buf_appendv(): vsnprintf error'')
      | Some s \<Rightarrow>
          if length s \<ge> bufsiz
          then (case formatted2 of
                  None \<Rightarrow> Inl (Fatal ''kore_buf_appendv(): error or truncation'')
                | Some s2 \<Rightarrow> kore_buf_append b s2)
          else kore_buf_append b s)"

text \<open>
  \<open>kore_buf_stringify\<close> returns the pointer to the block; it denotes the string before the first
  NUL.  The reported length is the offset before the terminator is appended.
\<close>

definition kore_buf_stringify :: "kore_buf \<Rightarrow> (string \<times> nat \<times> kore_buf) result" where
  "kore_buf_stringify b =
     bindR (kore_buf_append b [NUL])
       (\<lambda>b'. case buf_data b' of
               None \<Rightarrow> Inl NullDeref
             | Some blk \<Rightarrow> bindR (mem_read blk 0 (buf_offset b'))
                             (\<lambda>s. Inr (cstring s, buf_offset b, b')))"

definition kore_buf_release :: "kore_buf \<Rightarrow> mem_block option \<times> nat \<times> kore_buf option" where
  "kore_buf_release b = (buf_data b, buf_offset b, kore_buf_free (b\<lparr>buf_data := None\<rparr>))"

definition kore_buf_reset :: "kore_buf \<Rightarrow> kore_buf" where
  "kore_buf_reset b = b\<lparr>buf_offset := 0\<rparr>"

text \<open>
  One turn of \<open>kore_buf_replace_string\<close>: the bytes from \<open>off\<close> on are searched for \<open>src\<close>; on a
  match at \<open>key\<close> a fresh block receives what precedes it, the replacement and what follows it.
  The new offset is returned, or \<open>None\<close> when nothing was found.  A null \<open>dst\<close> leaves the gap of
  \<open>len\<close> bytes unwritten.
\<close>

definition region :: "kore_buf \<Rightarrow> nat \<Rightarrow> nat \<Rightarrow> byte list result" where
  "region b off n =
     (if n = 0 then Inr []
      else case buf_data b of None \<Rightarrow> Inl NullDeref | Some blk \<Rightarrow> mem_read blk off n)"

definition replace_step ::
  "string \<Rightarrow> byte list option \<Rightarrow> nat \<Rightarrow> nat \<Rightarrow> kore_buf \<Rightarrow> (nat \<times> kore_buf) option result" where
  "replace_step src dst len off b =
     (let blen = buf_offset b; nlen = size_mod (blen + len); klen = length src in
      bindR (region b off (blen - off)) (\<lambda>hay.
      bindR (kore_mem_find hay (src @ [NUL]) klen) (\<lambda>found.
        case found of
          None \<Rightarrow> Inr None
        | Some i \<Rightarrow>
            (let off1 = off + i; end = off1 + klen; off2 = blen - end; tmp0 = kore_malloc nlen in
             bindR (region b 0 off1) (\<lambda>pre.
             bindR (region b end off2) (\<lambda>post.
             bindR (mem_write tmp0 0 pre) (\<lambda>tmp1.
             bindR (case dst of None \<Rightarrow> Inr tmp1 | Some d \<Rightarrow> mem_write tmp1 off1 (take len d)) (\<lambda>tmp2.
             bindR (mem_write tmp2 (off1 + len) post) (\<lambda>tmp3.
               Inr (Some (off1 + len,
                 b\<lparr>buf_data := Some tmp3, buf_offset := size_mod (off1 + len + off2),
                   buf_length := nlen\<rparr>))))))))))) "

partial_function (option) replace_loop ::
  "string \<Rightarrow> byte list option \<Rightarrow> nat \<Rightarrow> nat \<Rightarrow> kore_buf \<Rightarrow> kore_buf result option" where
  "replace_loop src dst len off b =
     (case replace_step src dst len off b of
        Inl e \<Rightarrow> Some (Inl e)
      | Inr None \<Rightarrow> Some (Inr b)
      | Inr (Some (off', b')) \<Rightarrow> replace_loop src dst len off' b')"

text \<open>The outer \<open>None\<close> is a loop that does not end (it can only happen for an empty \<open>src\<close>).\<close>

definition kore_buf_replace_string ::
  "kore_buf \<Rightarrow> string \<Rightarrow> byte list option \<Rightarrow> nat \<Rightarrow> kore_buf result option" where
  "kore_buf_replace_string b src dst len = replace_loop src dst len 0 b"

section \<open>Abstraction and invariant\<close>

definition buf_bytes :: "kore_buf \<Rightarrow> byte list" where
  "buf_bytes b =
     (case buf_data b of None \<Rightarrow> [] | Some blk \<Rightarrow> map the (take (buf_offset b) blk))"

text \<open>The block is at least as large as recorded and every used byte has been written.\<close>

definition buf_wf :: "kore_buf \<Rightarrow> bool" where
  "buf_wf b \<longleftrightarrow>
     buf_offset b \<le> buf_length b \<and> buf_length b < 2 ^ 64 \<and>
     (case buf_data b of
        None \<Rightarrow> buf_length b = 0
      | Some blk \<Rightarrow> buf_length b \<le> length blk \<and> None \<notin> set (take (buf_offset b) blk))"

text \<open>There is room for \<open>n\<close> more bytes: the capacity cannot wrap around.\<close>

definition buf_room :: "kore_buf \<Rightarrow> nat \<Rightarrow> bool" where
  "buf_room b n \<longleftrightarrow> buf_wf b \<and> buf_length b + n < 2 ^ 64"

text \<open>Replacement of every occurrence, left to right, without looking into what was put in.\<close>

function replace_all :: "'a list \<Rightarrow> 'a list \<Rightarrow> 'a list \<Rightarrow> 'a list" where
  "replace_all pat new s =
     (case find_sub pat s of
        None \<Rightarrow> s
      | Some i \<Rightarrow>
          if pat = [] then s
          else take i s @ new @ replace_all pat new (drop (i + length pat) s))"
  by pat_completeness auto

termination replace_all
  by (relation "measure (\<lambda>(pat, new, s). length s)") (auto dest: find_sub_shorter)

declare replace_all.simps [simp del]

section \<open>The interface of a byte buffer\<close>

text \<open>
  What a client of the buffer relies on: an append succeeds while there is room, adds exactly the
  given bytes at the end and uses up exactly that much of the room.
\<close>

locale octet_buffer =
  fixes append :: "'b \<Rightarrow> byte list \<Rightarrow> 'b result"
    and bytes :: "'b \<Rightarrow> byte list"
    and room :: "'b \<Rightarrow> nat \<Rightarrow> bool"
  assumes append_room:
      "room b (length xs + k) \<Longrightarrow>
         \<exists>b'. append b xs = Inr b' \<and> bytes b' = bytes b @ xs \<and> room b' k"
    and room_mono: "room b n \<Longrightarrow> m \<le> n \<Longrightarrow> room b m"
begin

lemma append_bytes:
  assumes "room b (length xs)"
  obtains b' where "append b xs = Inr b'" "bytes b' = bytes b @ xs"
  using append_room [of b xs 0] assms by auto

text \<open>A run of appends is one append of the concatenation.\<close>

lemma append_run:
  "room b (length (concat xss) + k) \<Longrightarrow>
     \<exists>b'. foldR append b xss = Inr b' \<and> bytes b' = bytes b @ concat xss \<and> room b' k"
proof (induction xss arbitrary: b)
  case Nil
  then show ?case by simp
next
  case (Cons xs xss)
  then have "room b (length xs + (length (concat xss) + k))"
    by (simp add: add.assoc)
  from append_room [OF this] obtain b1 where
    b1: "append b xs = Inr b1" "bytes b1 = bytes b @ xs" "room b1 (length (concat xss) + k)"
    by blast
  from Cons.IH [OF b1(3)] show ?case using b1 by auto
qed

text \<open>A writer adds a fixed text to the buffer; writers compose.\<close>

definition writes :: "('b \<Rightarrow> 'b result) \<Rightarrow> byte list \<Rightarrow> bool" where
  "writes f xs \<longleftrightarrow>
     (\<forall>b k. room b (length xs + k) \<longrightarrow>
        (\<exists>b'. f b = Inr b' \<and> bytes b' = bytes b @ xs \<and> room b' k))"

lemma writes_append: "writes (\<lambda>b. append b xs) xs"
  using append_room by (auto simp: writes_def)

lemma writes_nothing: "writes Inr []"
  by (simp add: writes_def)

lemma writes_bind: "writes f xs \<Longrightarrow> writes g ys \<Longrightarrow> writes (\<lambda>b. bindR (f b) g) (xs @ ys)"
  unfolding writes_def by (fastforce simp: add.assoc)

end

section \<open>Lemmas\<close>

lemma length_kore_malloc [simp]: "0 < n \<Longrightarrow> length (kore_malloc n) = n"
  by (simp add: kore_malloc_def)

lemma kore_malloc_length_ge: "n \<le> length (kore_malloc n)"
  by (simp add: kore_malloc_def)

lemma kore_realloc_grow:
  assumes "length blk \<le> n" "0 < n"
  shows "take (length blk) (kore_realloc (Some blk) n) = blk"
    and "length (kore_realloc (Some blk) n) = n"
  using assms by (auto simp: kore_realloc_def Let_def min_def)

lemma kore_realloc_length: "0 < n \<Longrightarrow> length (kore_realloc p n) = n"
  by (auto simp: kore_realloc_def Let_def min_def split: option.splits)

lemma kore_realloc_take:
  "k \<le> n \<Longrightarrow> k \<le> length blk \<Longrightarrow> take k (kore_realloc (Some blk) n) = take k blk"
  by (auto simp: kore_realloc_def Let_def min_def)

lemma buf_wf_init [simp]: "n < 2 ^ 64 \<Longrightarrow> buf_wf (kore_buf_init n)"
  by (simp add: buf_wf_def kore_buf_init_def)

lemma buf_wf_alloc [simp]: "n < 2 ^ 64 \<Longrightarrow> buf_wf (kore_buf_alloc n)"
  by (simp add: buf_wf_def kore_buf_init_def kore_buf_alloc_def)

lemma buf_wf_cleanup: "buf_wf (kore_buf_cleanup b)"
  by (simp add: buf_wf_def kore_buf_cleanup_def)

lemma buf_wf_reset: "buf_wf b \<Longrightarrow> buf_wf (kore_buf_reset b)"
  by (auto simp: buf_wf_def kore_buf_reset_def split: option.splits)

lemma buf_bytes_init [simp]: "buf_bytes (kore_buf_init n) = []" "buf_bytes (kore_buf_alloc n) = []"
  by (simp_all add: buf_bytes_def kore_buf_init_def kore_buf_alloc_def split: option.splits)

lemma buf_bytes_reset [simp]: "buf_bytes (kore_buf_reset b) = []"
  by (simp add: buf_bytes_def kore_buf_reset_def split: option.splits)

lemma buf_length_init [simp]: "buf_length (kore_buf_init n) = n" "buf_length (kore_buf_alloc n) = n"
  by (simp_all add: kore_buf_init_def kore_buf_alloc_def)

lemma length_buf_bytes: "buf_wf b \<Longrightarrow> length (buf_bytes b) = buf_offset b"
  by (auto simp: buf_wf_def buf_bytes_def split: option.splits)

lemma buf_block:
  assumes "buf_wf b" "buf_data b = Some blk"
  shows "take (buf_offset b) blk = block_of (buf_bytes b)"
proof -
  have "map Some (map the (take (buf_offset b) blk)) = take (buf_offset b) blk"
    using assms by (auto simp: buf_wf_def intro!: map_idI) (metis option.exhaust_sel)
  with assms show ?thesis by (simp add: buf_bytes_def block_of_def)
qed

text \<open>Growing keeps the bytes and makes enough space, as long as the capacity does not wrap.\<close>

lemma buf_grow_ok:
  assumes "buf_wf b" "buf_length b + n < 2 ^ 64"
  shows "buf_wf (buf_grow b n)" "buf_bytes (buf_grow b n) = buf_bytes b"
    "buf_offset (buf_grow b n) = buf_offset b"
    "buf_offset b + n \<le> buf_length (buf_grow b n)"
    "buf_length (buf_grow b n) \<le> buf_length b + n"
    "0 < n \<Longrightarrow> buf_data (buf_grow b n) \<noteq> None"
    "buf_owner_api (buf_grow b n) = buf_owner_api b"
proof -
  have off: "buf_offset b \<le> buf_length b" using assms by (simp add: buf_wf_def)
  then have sm: "size_mod (buf_offset b + n) = buf_offset b + n"
    "size_mod (buf_length b + n) = buf_length b + n"
    using assms by auto
  show "buf_offset (buf_grow b n) = buf_offset b"
    "buf_offset b + n \<le> buf_length (buf_grow b n)"
    "buf_length (buf_grow b n) \<le> buf_length b + n"
    "buf_owner_api (buf_grow b n) = buf_owner_api b"
    using sm off by (auto simp: buf_grow_def Let_def)
  show "0 < n \<Longrightarrow> buf_data (buf_grow b n) \<noteq> None"
    using sm assms off by (auto simp: buf_grow_def Let_def buf_wf_def split: option.splits)
  show "buf_wf (buf_grow b n)" "buf_bytes (buf_grow b n) = buf_bytes b"
    using sm assms off
    by (auto simp: buf_grow_def Let_def buf_wf_def buf_bytes_def kore_realloc_length
        kore_realloc_take split: option.splits)
qed

lemma kore_buf_append_ok:
  assumes "buf_room b (length xs + k)"
  shows "\<exists>b'. kore_buf_append b xs = Inr b' \<and> buf_bytes b' = buf_bytes b @ xs \<and> buf_room b' k \<and>
              buf_owner_api b' = buf_owner_api b"
proof (cases "xs = []")
  case True
  then show ?thesis
    using assms buf_grow_ok [of b 0]
    by (auto simp: kore_buf_append_def buf_room_def)
next
  case False
  let ?n = "length xs"
  have wf: "buf_wf b" and room: "buf_length b + ?n < 2 ^ 64"
    using assms by (auto simp: buf_room_def)
  note g = buf_grow_ok [OF wf room]
  let ?b1 = "buf_grow b ?n"
  obtain blk where blk: "buf_data ?b1 = Some blk" using g(6) False by auto
  have sm: "size_mod (buf_offset b + ?n) = buf_offset b + ?n"
    using wf room by (auto simp: buf_wf_def)
  have len: "buf_length ?b1 \<le> length blk" using g(1) blk by (simp add: buf_wf_def)
  have tk: "take (buf_offset b) blk = block_of (buf_bytes b)"
    using buf_block [OF g(1) blk] g by simp
  let ?blk' = "take (buf_offset b) blk @ block_of xs @ drop (buf_offset b + ?n) blk"
  let ?b' = "?b1\<lparr>buf_data := Some ?blk', buf_offset := buf_offset b + ?n\<rparr>"
  have "kore_buf_append b xs = Inr ?b'"
    using g False blk sm len by (simp add: kore_buf_append_def mem_write_def Let_def)
  moreover have "take (buf_offset b + ?n) ?blk' = block_of (buf_bytes b @ xs)"
    using g(4) len tk by (simp add: block_of_append min_def length_buf_bytes [OF wf])
  then have "buf_bytes ?b' = buf_bytes b @ xs" "None \<notin> set (take (buf_offset b + ?n) ?blk')"
    by (simp_all add: buf_bytes_def)
  moreover have "buf_room ?b' k"
    using g len assms calculation(3) by (auto simp: buf_room_def buf_wf_def)
  ultimately show ?thesis using g(7) by auto
qed

interpretation kb: octet_buffer kore_buf_append buf_bytes buf_room
proof unfold_locales
  fix b and xs :: "byte list" and k
  assume "buf_room b (length xs + k)"
  then show "\<exists>b'. kore_buf_append b xs = Inr b' \<and> buf_bytes b' = buf_bytes b @ xs \<and> buf_room b' k"
    using kore_buf_append_ok by blast
next
  fix b n m
  assume "buf_room b n" "m \<le> n"
  then show "buf_room b m" by (simp add: buf_room_def)
qed

lemma kore_buf_stringify_ok:
  assumes "buf_room b 1" "cstr (buf_bytes b)"
  shows "\<exists>b'. kore_buf_stringify b = Inr (buf_bytes b, length (buf_bytes b), b') \<and> buf_wf b'"
proof -
  obtain b' where b': "kore_buf_append b [NUL] = Inr b'" "buf_bytes b' = buf_bytes b @ [NUL]"
    "buf_room b' 0"
    using kb.append_room [of b "[NUL]" 0] assms by auto
  then have wf: "buf_wf b'" by (simp add: buf_room_def)
  then have "length (buf_bytes b') = buf_offset b'" by (rule length_buf_bytes)
  with b' wf obtain blk where blk: "buf_data b' = Some blk"
    by (cases "buf_data b'") (auto simp: buf_bytes_def)
  have "mem_read blk 0 (buf_offset b') = Inr (buf_bytes b')"
    using mem_read_prefix [OF buf_block [OF wf blk], of 0 "buf_offset b'"] wf blk
      length_buf_bytes [OF wf]
    by (auto simp: buf_wf_def)
  with b' blk wf assms show ?thesis
    by (auto simp: kore_buf_stringify_def length_buf_bytes buf_room_def)
qed

section \<open>Replacing strings: lemmas\<close>

lemma region_ok:
  assumes "buf_wf b" "off + n \<le> buf_offset b"
  shows "region b off n = Inr (take n (drop off (buf_bytes b)))"
proof (cases "n = 0")
  case True
  then show ?thesis by (simp add: region_def)
next
  case False
  with assms obtain blk where blk: "buf_data b = Some blk"
    by (cases "buf_data b") (auto simp: buf_wf_def)
  then show ?thesis
    using mem_read_prefix [OF buf_block [OF assms(1) blk], of off n] assms False
    by (auto simp: region_def buf_wf_def)
qed

lemma replace_step_None:
  assumes "buf_wf b" "off \<le> buf_offset b" "src \<noteq> []" "find_sub src (drop off (buf_bytes b)) = None"
  shows "replace_step src dst len off b = Inr None"
proof -
  have "region b off (buf_offset b - off) = Inr (drop off (buf_bytes b))"
    using region_ok [OF assms(1), of off "buf_offset b - off"] assms(2)
    by (simp add: length_buf_bytes [OF assms(1)])
  with assms show ?thesis
    by (simp add: replace_step_def Let_def kore_mem_find_eq)
qed

lemma three_writes:
  assumes "length pre + length mid + length post \<le> n" "0 < n"
  shows "bindR (mem_write (kore_malloc n) 0 pre) (\<lambda>t1.
         bindR (mem_write t1 (length pre) mid) (\<lambda>t2.
           mem_write t2 (length pre + length mid) post)) =
         Inr (block_of (pre @ mid @ post) @
              drop (length pre + length mid + length post) (kore_malloc n))"
  using assms by (simp add: mem_write_def block_of_append add.commute add.left_commute)

lemma replace_step_Some:
  assumes wf: "buf_wf b" and off: "off \<le> buf_offset b" and src: "src \<noteq> []"
    and i: "find_sub src (drop off (buf_bytes b)) = Some i"
    and len: "buf_offset b + length d < 2 ^ 64"
  shows "\<exists>b'. replace_step src (Some d) (length d) off b = Inr (Some (off + i + length d, b')) \<and>
     buf_wf b' \<and>
     buf_bytes b' = take (off + i) (buf_bytes b) @ d @ drop (off + i + length src) (buf_bytes b)"
proof -
  let ?s = "buf_bytes b" and ?k = "length src"
  let ?pre = "take (off + i) ?s" and ?post = "drop (off + i + ?k) ?s"
  let ?n = "buf_offset b + length d"
  have ls: "length ?s = buf_offset b" by (rule length_buf_bytes [OF wf])
  have ik: "off + i + ?k \<le> buf_offset b"
    using find_sub_Some [OF i] off ls by auto
  have pos: "0 < ?n" using ik src by (cases src) auto
  have hay: "region b off (buf_offset b - off) = Inr (drop off ?s)"
    using region_ok [OF wf, of off "buf_offset b - off"] off ls by simp
  have pre: "region b 0 (off + i) = Inr ?pre"
    using region_ok [OF wf, of 0 "off + i"] ik by simp
  have post: "region b (off + i + ?k) (buf_offset b - (off + i + ?k)) = Inr ?post"
    using region_ok [OF wf, of "off + i + ?k" "buf_offset b - (off + i + ?k)"] ik ls by simp
  have lpre: "length ?pre = off + i" using ik ls by simp
  let ?blk = "block_of (?pre @ d @ ?post) @ drop (off + i + length d + length ?post) (kore_malloc ?n)"
  let ?o = "off + i + length d + (buf_offset b - (off + i + ?k))"
  let ?b' = "b\<lparr>buf_data := Some ?blk, buf_offset := ?o, buf_length := ?n\<rparr>"
  have fit: "length ?pre + length d + length ?post \<le> ?n" using ik ls by simp
  have w: "bindR (mem_write (kore_malloc ?n) 0 ?pre) (\<lambda>t1.
           bindR (mem_write t1 (off + i) d) (\<lambda>t2.
             mem_write t2 (off + i + length d) ?post)) = Inr ?blk"
    using three_writes [OF fit pos] lpre by simp
  have "replace_step src (Some d) (length d) off b =
          bindR (bindR (mem_write (kore_malloc ?n) 0 ?pre) (\<lambda>t1.
                 bindR (mem_write t1 (off + i) d) (\<lambda>t2.
                   mem_write t2 (off + i + length d) ?post)))
            (\<lambda>t. Inr (Some (off + i + length d, b\<lparr>buf_data := Some t, buf_offset := ?o, buf_length := ?n\<rparr>)))"
    using hay pre post i src len ik
    by (simp add: replace_step_def Let_def kore_mem_find_eq bindR_assoc)
  also have "\<dots> = Inr (Some (off + i + length d, ?b'))" using w by simp
  finally have step: "replace_step src (Some d) (length d) off b = \<dots>" .
  have o: "?o = length (?pre @ d @ ?post)" using ik ls by simp
  then have tk: "take ?o ?blk = block_of (?pre @ d @ ?post)"
    by (simp only: append_eq_conv_conj length_block_of take_append) simp
  have "buf_bytes ?b' = ?pre @ d @ ?post"
    using tk by (simp add: buf_bytes_def)
  moreover have "buf_wf ?b'"
    using tk o fit len pos by (auto simp: buf_wf_def)
  ultimately show ?thesis using step by blast
qed

lemma replace_loop_ok:
  assumes "buf_wf b" "off \<le> buf_offset b" "src \<noteq> []"
    and "buf_offset b + Suc (buf_offset b - off) * length d < 2 ^ 64"
  shows "\<exists>b'. replace_loop src (Some d) (length d) off b = Some (Inr b') \<and> buf_wf b' \<and>
     buf_bytes b' = take off (buf_bytes b) @ replace_all src d (drop off (buf_bytes b))"
  using assms
proof (induction "buf_offset b - off" arbitrary: b off rule: less_induct)
  case less
  let ?s = "buf_bytes b"
  have ls: "length ?s = buf_offset b" by (rule length_buf_bytes [OF less.prems(1)])
  show ?case
  proof (cases "find_sub src (drop off ?s)")
    case None
    then have "replace_loop src (Some d) (length d) off b = Some (Inr b)"
      using replace_step_None [OF less.prems(1-3)] by (subst replace_loop.simps) simp
    then show ?thesis using None less.prems(1) by (simp add: replace_all.simps)
  next
    case (Some i)
    let ?off' = "off + i + length d"
    have room: "buf_offset b + length d < 2 ^ 64" using less.prems(4) by simp
    from replace_step_Some [OF less.prems(1-3) Some room] obtain b' where
      step: "replace_step src (Some d) (length d) off b = Inr (Some (?off', b'))" and
      wf': "buf_wf b'" and
      b': "buf_bytes b' = take (off + i) ?s @ d @ drop (off + i + length src) ?s"
      by blast
    have ik: "off + i + length src \<le> buf_offset b"
      using find_sub_Some [OF Some] less.prems(2) ls by auto
    have k: "0 < length src" using less.prems(3) by simp
    have o': "buf_offset b' = buf_offset b - length src + length d"
      using length_buf_bytes [OF wf'] b' ik ls by simp
    have rem: "buf_offset b' - ?off' = buf_offset b - (off + i + length src)"
      using o' ik by simp
    have dec: "buf_offset b' - ?off' < buf_offset b - off" using rem ik k by linarith
    have le: "?off' \<le> buf_offset b'" using o' ik by simp
    have "buf_offset b' + Suc (buf_offset b' - ?off') * length d
            \<le> buf_offset b + length d + (buf_offset b - off) * length d"
      using dec o' by (intro add_mono mult_right_mono) auto
    then have bound: "buf_offset b' + Suc (buf_offset b' - ?off') * length d < 2 ^ 64"
      using less.prems(4) by (simp add: algebra_simps)
    from less.hyps [OF dec wf' le less.prems(3) bound] obtain b'' where
      b'': "replace_loop src (Some d) (length d) ?off' b' = Some (Inr b'')" "buf_wf b''"
      "buf_bytes b'' = take ?off' (buf_bytes b') @ replace_all src d (drop ?off' (buf_bytes b'))"
      by blast
    have split: "take ?off' (buf_bytes b') = take (off + i) ?s @ d"
      "drop ?off' (buf_bytes b') = drop (off + i + length src) ?s"
      using b' ik ls by simp_all
    have "replace_all src d (drop off ?s) =
            take i (drop off ?s) @ d @ replace_all src d (drop (off + i + length src) ?s)"
      using Some less.prems(3)
      by (subst replace_all.simps) (simp add: add.commute add.left_commute)
    then have "buf_bytes b'' = take off ?s @ replace_all src d (drop off ?s)"
      using b''(3) split by (simp add: take_add)
    moreover have "replace_loop src (Some d) (length d) off b = Some (Inr b'')"
      using step b''(1) by (subst replace_loop.simps) simp
    ultimately show ?thesis using b''(2) by blast
  qed
qed

section \<open>Properties\<close>

text \<open>
  C32. The buffer refines a list of bytes: starting from a fresh buffer of any initial capacity, any
  sequence of appends succeeds as long as the total fits the address space, every access stays
  inside the allocated block, and the buffer then holds exactly the concatenation.
\<close>

theorem kore_buf_append_refines:
  assumes "n + length (concat xss) < 2 ^ 64"
  shows "\<exists>b. foldR kore_buf_append (kore_buf_init n) xss = Inr b \<and> buf_wf b \<and>
             buf_bytes b = concat xss"
proof -
  have "buf_room (kore_buf_init n) (length (concat xss) + 0)"
    using assms by (simp add: buf_room_def)
  from kb.append_run [OF this] show ?thesis by (auto simp: buf_room_def)
qed

theorem kore_buf_append_refines_witness:
  "\<exists>b. foldR kore_buf_append (kore_buf_init 2) [''GET'', '' /''] = Inr b \<and> buf_wf b \<and>
       buf_bytes b = concat [''GET'', '' /'']"
  by (rule kore_buf_append_refines) simp

text \<open>
  \<open>kore_buf_replace_string\<close> with a non-empty search string ends, never leaves the blocks it
  allocates, and replaces exactly the occurrences a left-to-right scan finds, without rescanning
  what it inserted.
\<close>

theorem kore_buf_replace_string_correct:
  assumes "buf_wf b" "src \<noteq> []" "buf_offset b + Suc (buf_offset b) * length d < 2 ^ 64"
  shows "\<exists>b'. kore_buf_replace_string b src (Some d) (length d) = Some (Inr b') \<and> buf_wf b' \<and>
              buf_bytes b' = replace_all src d (buf_bytes b)"
  using replace_loop_ok [of b 0 src d] assms by (simp add: kore_buf_replace_string_def)

theorem kore_buf_replace_string_correct_witness:
  "\<exists>b b'. foldR kore_buf_append (kore_buf_init 0) [''a$b$''] = Inr b \<and>
     kore_buf_replace_string b ''$'' (Some ''xy'') (length ''xy'') = Some (Inr b') \<and>
     buf_bytes b' = replace_all ''$'' ''xy'' ''a$b$''"
proof -
  let ?b = "\<lparr>buf_data = Some (map Some ''a$b$''), buf_length = 4, buf_offset = 4, buf_owner_api = False\<rparr>"
  have b: "foldR kore_buf_append (kore_buf_init 0) [''a$b$''] = Inr ?b"
    by (simp add: kore_buf_append_def kore_buf_init_def buf_grow_def kore_realloc_def kore_malloc_def
        mem_write_def block_of_def Let_def)
  have wf: "buf_wf ?b" and bb: "buf_bytes ?b = ''a$b$''"
    by (auto simp: buf_wf_def buf_bytes_def)
  have "\<exists>b'. kore_buf_replace_string ?b ''$'' (Some ''xy'') (length ''xy'') = Some (Inr b') \<and>
             buf_wf b' \<and> buf_bytes b' = replace_all ''$'' ''xy'' (buf_bytes ?b)"
    by (rule kore_buf_replace_string_correct [OF wf]) simp_all
  with b bb show ?thesis by auto
qed

end
