(* ===== verification/Base64.thy ===== *)
theory Base64
  imports Buf
begin

unbundle bit_operations_syntax

text \<open>
  The base64 encoder and decoder of \<open>src/src/utils.c\<close>, over the byte buffer of \<open>Buf\<close>.

  \<open>b64_enc_loop\<close> and \<open>b64_dec_loop\<close> are the loops of \<open>utils_base64_encode\<close> and
  \<open>utils_base64_decode\<close>; they keep the 32-bit accumulator of the code as a \<open>32 word\<close>.  The flag
  \<open>raw\<close> is \<open>flags & KORE_BASE64_RAW\<close>.  The inner \<open>None\<close> of a result is the return value
  \<open>KORE_RESULT_ERROR\<close>.  The lemmas compare the loops with the reference encoding \<open>b64_spec\<close>; they
  are stated for any alphabet (locale \<open>b64_alphabet\<close>) and used for the two tables of the code.
\<close>

section \<open>The tables\<close>

definition b64_table :: string where
  "b64_table = ''ABCDEFGHIJKLMNOPQRSTUVWXYZabcdefghijklmnopqrstuvwxyz0123456789+/''"

definition b64url_table :: string where
  "b64url_table = ''ABCDEFGHIJKLMNOPQRSTUVWXYZabcdefghijklmnopqrstuvwxyz0123456789-_''"

section \<open>Conversions between bytes and 32-bit integers\<close>

definition u32 :: "byte \<Rightarrow> 32 word" where
  "u32 c = of_nat (of_char c)"

definition u8 :: "32 word \<Rightarrow> byte" where
  "u8 w = char_of (unat w)"

section \<open>Encoding\<close>

definition b64_char :: "string \<Rightarrow> 32 word \<Rightarrow> nat \<Rightarrow> byte list" where
  "b64_char table bytes k = [table ! unat (drop_bit k bytes AND 0x3f)]"

definition b64_bytes3 :: "byte \<Rightarrow> byte \<Rightarrow> byte \<Rightarrow> 32 word" where
  "b64_bytes3 x y z = push_bit 16 (u32 x) OR push_bit 8 (u32 y) OR u32 z"

definition b64_bytes2 :: "byte \<Rightarrow> byte \<Rightarrow> 32 word" where
  "b64_bytes2 x y = push_bit 16 (u32 x) OR push_bit 8 (u32 y)"

definition b64_bytes1 :: "byte \<Rightarrow> 32 word" where
  "b64_bytes1 x = push_bit 16 (u32 x)"

fun b64_enc_loop :: "string \<Rightarrow> byte list \<Rightarrow> nat \<Rightarrow> kore_buf \<Rightarrow> (nat \<times> kore_buf) result" where
  "b64_enc_loop table (x # y # z # r) nb res =
     (let bytes = b64_bytes3 x y z in
      bindR (foldR kore_buf_append res
               [b64_char table bytes 18, b64_char table bytes 12,
                b64_char table bytes 6, b64_char table bytes 0])
        (\<lambda>res'. b64_enc_loop table r 3 res'))"
| "b64_enc_loop table [x, y] nb res =
     (let bytes = b64_bytes2 x y in
      bindR (foldR kore_buf_append res
               [b64_char table bytes 18, b64_char table bytes 12, b64_char table bytes 6])
        (\<lambda>res'. Inr (2, res')))"
| "b64_enc_loop table [x] nb res =
     (let bytes = b64_bytes1 x in
      bindR (foldR kore_buf_append res [b64_char table bytes 18, b64_char table bytes 12])
        (\<lambda>res'. Inr (1, res')))"
| "b64_enc_loop table [] nb res = Inr (nb, res)"

definition utils_base64_encode :: "string \<Rightarrow> bool \<Rightarrow> byte list \<Rightarrow> string option result" where
  "utils_base64_encode table raw data =
     bindR (b64_enc_loop table data 0 (kore_buf_init (size_mod (length data div 3 * 4))))
       (\<lambda>(nb, res).
          let finish = (\<lambda>r. bindR (kore_buf_stringify r) (\<lambda>(s, _, _). Inr (Some s))) in
          if raw then finish res
          else if nb = 1 then bindR (kore_buf_append res ''=='') finish
          else if nb = 2 then bindR (kore_buf_append res ''='') finish
          else if nb = 3 then finish res
          else Inr None)"

definition kore_base64_encode :: "byte list \<Rightarrow> string option result" where
  "kore_base64_encode data = utils_base64_encode b64_table False data"

definition kore_base64url_encode :: "bool \<Rightarrow> byte list \<Rightarrow> string option result" where
  "kore_base64url_encode raw data = utils_base64_encode b64url_table raw data"

section \<open>Decoding\<close>

text \<open>The search for a character runs over the whole array, its terminating NUL included.\<close>

fun table_index :: "string \<Rightarrow> char \<Rightarrow> nat \<Rightarrow> nat option" where
  "table_index [] c k = None"
| "table_index (t # ts) c k = (if t = c then Some k else table_index ts c (Suc k))"

text \<open>
  The state of the decoding loop is the counter \<open>i\<close>, the accumulator \<open>b\<close>, the last character
  looked at and the output buffer; \<open>Inr None\<close> is a character outside the alphabet.
\<close>

fun b64_dec_loop ::
  "string \<Rightarrow> string \<Rightarrow> nat \<Rightarrow> 32 word \<Rightarrow> char \<Rightarrow> kore_buf \<Rightarrow>
   (nat \<times> 32 word \<times> char \<times> kore_buf) option result" where
  "b64_dec_loop table [] i b c res = Inr (Some (i, b, c, res))"
| "b64_dec_loop table (ch # cs) i b c res =
     (if ch = CHR ''='' then Inr (Some (i, b, ch, res))
      else case table_index (table @ [NUL]) ch 0 of
             None \<Rightarrow> Inr None
           | Some d \<Rightarrow>
               (let b' = b OR push_bit ((i - 1) * 6) (of_nat d AND 0x3f); i' = i - 1
                in if i' = 0
                   then bindR (foldR kore_buf_append res
                                 [[u8 (drop_bit 16 b')], [u8 (drop_bit 8 b')],
                                  [u8 (drop_bit 0 b')]])
                          (\<lambda>res'. b64_dec_loop table cs 4 0 ch res')
                   else b64_dec_loop table cs i' b' ch res))"

text \<open>The bytes written for a last group that was padded: from position 2 down to \<open>o\<close>.\<close>

definition b64_tail :: "nat \<Rightarrow> 32 word \<Rightarrow> byte list list" where
  "b64_tail lo b = map (\<lambda>i. [u8 (drop_bit (8 * i) b)]) (rev [lo..<3])"

definition b64_decode_run :: "string \<Rightarrow> string \<Rightarrow> byte list option result" where
  "b64_decode_run table ptr =
     bindR (b64_dec_loop table ptr 4 0 NUL (kore_buf_alloc (length ptr)))
       (\<lambda>st. case st of
          None \<Rightarrow> Inr None
        | Some (i, b, c, res) \<Rightarrow>
            (let finish = (\<lambda>r. bindR (region r 0 (buf_offset r)) (\<lambda>out. Inr (Some out))) in
             if c = CHR ''=''
             then if i > 2 then Inr None
                  else bindR (foldR kore_buf_append res (b64_tail i b)) finish
             else finish res))"

text \<open>
  The length is a 32-bit integer.  In raw mode the padding the length calls for is put back first;
  a length that is 0 or 1 modulo 4 is an error there.
\<close>

definition utils_base64_decode :: "string \<Rightarrow> bool \<Rightarrow> string \<Rightarrow> byte list option result" where
  "utils_base64_decode table raw inp =
     (let len = length inp mod 2 ^ 32; s = take len inp in
      if raw
      then (if len mod 4 = 2 then b64_decode_run table (s @ ''=='')
            else if len mod 4 = 3 then b64_decode_run table (s @ ''='')
            else Inr None)
      else b64_decode_run table s)"

definition kore_base64_decode :: "string \<Rightarrow> byte list option result" where
  "kore_base64_decode inp = utils_base64_decode b64_table False inp"

definition kore_base64url_decode :: "bool \<Rightarrow> string \<Rightarrow> byte list option result" where
  "kore_base64url_decode raw inp = utils_base64_decode b64url_table raw inp"

section \<open>Reference encoding\<close>

fun b64_spec :: "string \<Rightarrow> byte list \<Rightarrow> string" where
  "b64_spec t (x # y # z # r) =
     concat (map (b64_char t (b64_bytes3 x y z)) [18, 12, 6, 0]) @ b64_spec t r"
| "b64_spec t [x, y] = concat (map (b64_char t (b64_bytes2 x y)) [18, 12, 6])"
| "b64_spec t [x] = concat (map (b64_char t (b64_bytes1 x)) [18, 12])"
| "b64_spec t [] = []"

definition b64_padding :: "nat \<Rightarrow> string" where
  "b64_padding n = (if n mod 3 = 1 then ''=='' else if n mod 3 = 2 then ''='' else [])"

section \<open>Lemmas on the bits\<close>

lemma bit_u32: "bit (u32 c) n \<Longrightarrow> n < 8"
proof -
  assume b: "bit (u32 c) n"
  have "take_bit 8 (of_char c :: nat) = of_char c" by (simp add: take_bit_eq_mod)
  then have "take_bit 8 (u32 c) = u32 c"
    by (metis u32_def take_bit_of_nat)
  with b show ?thesis by (metis bit_take_bit_iff)
qed

lemma u8_eqI:
  assumes "take_bit 8 w = u32 c"
  shows "u8 w = c"
proof -
  have "unat (u32 c) = of_char c"
    using order_less_trans [OF nat_of_char_less_256 [of c], of "2 ^ 32"]
    by (simp add: u32_def unat_of_nat)
  moreover have "take_bit 8 (unat w) = unat (take_bit 8 w)" by (simp add: unsigned_take_bit_eq)
  ultimately show ?thesis using assms by (simp add: u8_def char_of_eq_iff)
qed

lemma u8_bytes3:
  "u8 (drop_bit 16 (take_bit 24 (b64_bytes3 x y z))) = x"
  "u8 (drop_bit 8 (take_bit 24 (b64_bytes3 x y z))) = y"
  "u8 (take_bit 24 (b64_bytes3 x y z)) = z"
  by (rule u8_eqI, rule bit_word_eqI, auto simp: b64_bytes3_def bit_simps dest: bit_u32)+

definition regroup :: "32 word \<Rightarrow> 32 word" where
  "regroup b = push_bit 18 (take_bit 6 (drop_bit 18 b)) OR push_bit 12 (take_bit 6 (drop_bit 12 b)) OR
     push_bit 6 (take_bit 6 (drop_bit 6 b)) OR take_bit 6 b"

lemma regroup_eq: "regroup b = take_bit 24 b"
proof (rule bit_word_eqI)
  fix n :: nat
  consider "n < 6" | "6 \<le> n" "n < 12" | "12 \<le> n" "n < 18" | "18 \<le> n" by linarith
  then show "bit (regroup b) n = bit (take_bit 24 b) n"
    by cases (auto simp: regroup_def bit_simps)
qed

lemma regroup2:
  "push_bit 18 (take_bit 6 (drop_bit 18 (b64_bytes2 x y))) OR
   push_bit 12 (take_bit 6 (drop_bit 12 (b64_bytes2 x y))) OR
   push_bit 6 (take_bit 6 (drop_bit 6 (b64_bytes2 x y))) = take_bit 24 (b64_bytes2 x y)"
proof -
  have "take_bit 6 (b64_bytes2 x y) = 0"
    by (rule bit_word_eqI) (auto simp: b64_bytes2_def bit_simps)
  then show ?thesis using regroup_eq [of "b64_bytes2 x y"] by (simp add: regroup_def)
qed

lemma regroup1:
  "push_bit 18 (take_bit 6 (drop_bit 18 (b64_bytes1 x))) OR
   push_bit 12 (take_bit 6 (drop_bit 12 (b64_bytes1 x))) = take_bit 24 (b64_bytes1 x)"
proof -
  have "take_bit 6 (b64_bytes1 x) = 0" "take_bit 6 (drop_bit 6 (b64_bytes1 x)) = 0"
    by (rule bit_word_eqI, auto simp: b64_bytes1_def bit_simps)+
  then show ?thesis using regroup_eq [of "b64_bytes1 x"] by (simp add: regroup_def)
qed

lemma u8_bytes2:
  "u8 (drop_bit 16 (take_bit 24 (b64_bytes2 x y))) = x"
  "u8 (drop_bit 8 (take_bit 24 (b64_bytes2 x y))) = y"
  by (rule u8_eqI, rule bit_word_eqI, auto simp: b64_bytes2_def bit_simps dest: bit_u32)+

lemma u8_bytes1: "u8 (drop_bit 16 (take_bit 24 (b64_bytes1 x))) = x"
  by (rule u8_eqI, rule bit_word_eqI, auto simp: b64_bytes1_def bit_simps dest: bit_u32)

lemma b64_tail_simps:
  "b64_tail (Suc 0) b = [[u8 (drop_bit 16 b)], [u8 (drop_bit 8 b)]]"
  "b64_tail 2 b = [[u8 (drop_bit 16 b)]]"
  by (simp_all add: b64_tail_def upt_rec numeral_3_eq_3 numeral_2_eq_2)

section \<open>Lemmas on the encoder\<close>

lemma triples_induct [case_names triple pair single empty]:
  fixes P :: "byte list \<Rightarrow> bool"
  assumes "\<And>x y z r. P r \<Longrightarrow> P (x # y # z # r)" "\<And>x y. P [x, y]" "\<And>x. P [x]" "P []"
  shows "P data"
  by (rule b64_spec.induct [of "\<lambda>_. P" undefined data]) (use assms in auto)

lemma length_b64_char [simp]: "length (b64_char t b k) = 1"
  by (simp add: b64_char_def)

lemma length_b64_spec:
  "length (b64_spec t data) =
     length data div 3 * 4 + (if length data mod 3 = 0 then 0 else Suc (length data mod 3))"
proof (induction data rule: triples_induct)
  case (triple x y z r)
  have "Suc (Suc (Suc (length r))) div 3 = Suc (length r div 3)"
    "Suc (Suc (Suc (length r))) mod 3 = length r mod 3" by presburger+
  with triple show ?case by simp
qed auto

lemma b64_enc_loop_ok:
  assumes "buf_room res (length (b64_spec t data) + k)"
  shows "\<exists>res'. b64_enc_loop t data nb res =
            Inr (if data = [] then nb else if length data mod 3 = 0 then 3 else length data mod 3, res') \<and>
          buf_bytes res' = buf_bytes res @ b64_spec t data \<and> buf_room res' k"
  using assms
proof (induction data arbitrary: nb res rule: triples_induct)
  case (triple x y z r)
  let ?xss = "map (b64_char t (b64_bytes3 x y z)) [18, 12, 6, 0]"
  have "buf_room res (length (concat ?xss) + (length (b64_spec t r) + k))"
    using triple.prems by (simp add: add.assoc)
  from kb.append_run [OF this] obtain res1 where
    1: "foldR kore_buf_append res ?xss = Inr res1" "buf_bytes res1 = buf_bytes res @ concat ?xss"
       "buf_room res1 (length (b64_spec t r) + k)" by blast
  have "b64_enc_loop t (x # y # z # r) nb res = b64_enc_loop t r 3 res1"
    using 1(1) by (simp add: Let_def del: foldR.simps)
  moreover have "Suc (Suc (Suc (length r))) mod 3 = length r mod 3" by presburger
  ultimately show ?case using triple.IH [OF 1(3), of 3] 1(2) by auto
next
  case (pair x y)
  let ?xss = "map (b64_char t (b64_bytes2 x y)) [18, 12, 6]"
  have "buf_room res (length (concat ?xss) + k)" using pair.prems by simp
  from kb.append_run [OF this] show ?case by (auto simp: Let_def simp del: foldR.simps)
next
  case (single x)
  let ?xss = "map (b64_char t (b64_bytes1 x)) [18, 12]"
  have "buf_room res (length (concat ?xss) + k)" using single.prems by simp
  from kb.append_run [OF this] show ?case by (auto simp: Let_def simp del: foldR.simps)
next
  case empty
  then show ?case by simp
qed

section \<open>Lemmas for any alphabet\<close>

locale b64_alphabet =
  fixes table :: string
  assumes length_table: "length table = 64"
    and distinct_table: "distinct table"
    and no_pad: "CHR ''='' \<notin> set table"
    and no_nul: "NUL \<notin> set table"
begin

definition sextet :: "32 word \<Rightarrow> nat \<Rightarrow> nat" where
  "sextet b k = unat (drop_bit k b AND 0x3f)"

lemma sextet_less: "sextet b k < 64"
proof -
  have "unat (drop_bit k b AND 0x3f) \<le> unat (0x3f :: 32 word)"
    by (rule word_and_le1 [THEN word_le_nat_alt [THEN iffD1]])
  then show ?thesis by (simp add: sextet_def)
qed

lemma of_nat_sextet: "of_nat (sextet b k) AND (0x3f :: 32 word) = take_bit 6 (drop_bit k b)"
proof -
  have "(0x3f :: 32 word) = mask 6" by (simp add: mask_eq_exp_minus_1)
  then show ?thesis by (simp add: sextet_def take_bit_eq_mask)
qed

lemma index_nth: "k < length ts \<Longrightarrow> distinct ts \<Longrightarrow> table_index (ts @ us) (ts ! k) n = Some (n + k)"
proof (induction ts arbitrary: k n)
  case Nil
  then show ?case by simp
next
  case (Cons t ts)
  show ?case
  proof (cases k)
    case 0
    then show ?thesis by simp
  next
    case (Suc j)
    then have "t \<noteq> ts ! j" using Cons.prems by auto
    with Suc Cons show ?thesis by simp
  qed
qed

lemma index_char: "table_index (table @ [NUL]) (table ! sextet b k) 0 = Some (sextet b k)"
  using index_nth [of "sextet b k" table] sextet_less distinct_table length_table by simp

lemma char_not_pad: "table ! sextet b k \<noteq> CHR ''=''"
  using no_pad sextet_less [of b k] length_table nth_mem [of "sextet b k" table] by metis

lemma char_not_nul: "table ! sextet b k \<noteq> NUL"
  using no_nul sextet_less [of b k] length_table nth_mem [of "sextet b k" table] by metis

lemma b64_char_eq: "b64_char table b k = [table ! sextet b k]"
  by (simp add: b64_char_def sextet_def)

lemma cstr_spec: "cstr (b64_spec table data)"
  by (induction data rule: triples_induct) (auto simp: b64_char_eq char_not_nul)

text \<open>One character moves its six bits into the accumulator.\<close>

lemma dec_step:
  "1 < i \<Longrightarrow> b64_dec_loop table (table ! sextet b k # cs) i acc c res =
     b64_dec_loop table cs (i - 1) (acc OR push_bit ((i - 1) * 6) (take_bit 6 (drop_bit k b)))
       (table ! sextet b k) res"
  by (simp add: char_not_pad index_char of_nat_sextet Let_def)

lemma dec_step_last:
  "b64_dec_loop table (table ! sextet b k # cs) (Suc 0) acc c res =
     (let b' = acc OR take_bit 6 (drop_bit k b) in
      bindR (foldR kore_buf_append res
               [[u8 (drop_bit 16 b')], [u8 (drop_bit 8 b')], [u8 (drop_bit 0 b')]])
        (\<lambda>res'. b64_dec_loop table cs 4 0 (table ! sextet b k) res'))"
  by (simp add: char_not_pad index_char of_nat_sextet Let_def)

declare b64_dec_loop.simps(2) [simp del]

text \<open>Four characters of a full group give back its three bytes.\<close>

lemma dec_group:
  "b64_dec_loop table (concat (map (b64_char table (b64_bytes3 x y z)) [18, 12, 6, 0]) @ cs) 4 0 c res =
     bindR (foldR kore_buf_append res [[x], [y], [z]])
       (\<lambda>res'. b64_dec_loop table cs 4 0 (table ! sextet (b64_bytes3 x y z) 0) res')"
proof -
  let ?b = "b64_bytes3 x y z"
  have acc: "0 OR push_bit 18 (take_bit 6 (drop_bit 18 ?b)) OR push_bit 12 (take_bit 6 (drop_bit 12 ?b)) OR
      push_bit 6 (take_bit 6 (drop_bit 6 ?b)) OR take_bit 6 (drop_bit 0 ?b) = take_bit 24 ?b"
    using regroup_eq [of ?b] by (simp add: regroup_def or.assoc)
  show ?thesis
    by (simp add: b64_char_eq dec_step dec_step_last Let_def u8_bytes3
        acc [simplified or.assoc [symmetric], simplified] or.assoc [symmetric])
qed

lemma dec_pad:
  "b64_dec_loop table (CHR ''='' # cs) i b c res = Inr (Some (i, b, CHR ''='', res))"
  by (simp add: b64_dec_loop.simps(2))

definition dec_post :: "byte list \<Rightarrow> byte list \<Rightarrow> nat \<Rightarrow> char \<Rightarrow> nat \<times> 32 word \<times> char \<times> kore_buf \<Rightarrow> bool" where
  "dec_post out data k c st =
     (case st of (i, b, c', res') \<Rightarrow>
        if length data mod 3 = 0
        then buf_bytes res' = out @ data \<and> (c' = c \<or> c' \<noteq> CHR ''='') \<and> buf_room res' k
        else c' = CHR ''='' \<and> i \<le> 2 \<and> buf_bytes res' @ concat (b64_tail i b) = out @ data \<and>
             buf_room res' (length (concat (b64_tail i b)) + k))"

text \<open>The decoding loop undoes the reference encoding, whatever precedes and follows.\<close>

lemma dec_loop_spec:
  assumes "buf_room res (length data + k)"
  shows "\<exists>st. b64_dec_loop table (b64_spec table data @ b64_padding (length data)) 4 0 c res =
                Inr (Some st) \<and> dec_post (buf_bytes res) data k c st"
  using assms
proof (induction data arbitrary: c res rule: triples_induct)
  case (triple x y z r)
  have m3: "Suc (Suc (Suc (length r))) mod 3 = length r mod 3" by presburger
  then have padeq: "b64_padding (length (x # y # z # r)) = b64_padding (length r)"
    by (simp add: b64_padding_def)
  have "buf_room res (length (concat [[x], [y], [z]]) + (length r + k))"
    using triple.prems by (simp add: add.assoc)
  from kb.append_run [OF this] obtain res1 where
    1: "foldR kore_buf_append res [[x], [y], [z]] = Inr res1"
       "buf_bytes res1 = buf_bytes res @ [x, y, z]" "buf_room res1 (length r + k)" by auto
  let ?c = "table ! sextet (b64_bytes3 x y z) 0"
  from triple.IH [OF 1(3), of ?c] obtain st where
    st: "b64_dec_loop table (b64_spec table r @ b64_padding (length r)) 4 0 ?c res1 = Inr (Some st)"
        "dec_post (buf_bytes res1) r k ?c st" by blast
  have "b64_dec_loop table (b64_spec table (x # y # z # r) @ b64_padding (length (x # y # z # r))) 4 0 c res
          = Inr (Some st)"
    using dec_group [of x y z "b64_spec table r @ b64_padding (length r)" c res] 1(1) st(1) padeq
    by (simp del: foldR.simps)
  moreover have "dec_post (buf_bytes res) (x # y # z # r) k c st"
    using st(2) 1(2) m3 char_not_pad [of "b64_bytes3 x y z" 0]
    by (auto simp: dec_post_def split: prod.splits)
  ultimately show ?case by blast
next
  case (pair x y)
  then show ?case
    by (auto simp: b64_padding_def b64_char_eq dec_step dec_pad dec_post_def b64_tail_simps
        regroup2 or.assoc u8_bytes2 numeral_2_eq_2)
next
  case (single x)
  then show ?case
    by (auto simp: b64_padding_def b64_char_eq dec_step dec_pad dec_post_def b64_tail_simps
        b64_tail_simps(2) [unfolded numeral_2_eq_2] regroup1 or.assoc u8_bytes1 numeral_2_eq_2)
next
  case empty
  then show ?case by (simp add: b64_padding_def dec_post_def)
qed

lemma finish_region:
  "buf_wf r \<Longrightarrow> bindR (region r 0 (buf_offset r)) (\<lambda>out. Inr (Some out)) = Inr (Some (buf_bytes r))"
  using region_ok [of r 0 "buf_offset r"] by (simp add: length_buf_bytes)

lemma decode_run_spec:
  assumes "2 * length (b64_spec table data) + 8 < 2 ^ 64"
  shows "b64_decode_run table (b64_spec table data @ b64_padding (length data)) = Inr (Some data)"
proof -
  let ?s = "b64_spec table data @ b64_padding (length data)"
  have len: "length data \<le> length (b64_spec table data)"
    unfolding length_b64_spec by presburger
  have pad: "length (b64_padding (length data)) \<le> 2" by (simp add: b64_padding_def)
  have "buf_room (kore_buf_alloc (length ?s)) (length data + 0)"
    using assms len pad by (simp add: buf_room_def)
  from dec_loop_spec [OF this, of NUL] obtain i b c' res' where
    st: "b64_dec_loop table ?s 4 0 NUL (kore_buf_alloc (length ?s)) = Inr (Some (i, b, c', res'))"
        "dec_post [] data 0 NUL (i, b, c', res')" by auto
  show ?thesis
  proof (cases "length data mod 3 = 0")
    case True
    with st finish_region [of res'] show ?thesis
      by (auto simp: b64_decode_run_def dec_post_def buf_room_def)
  next
    case False
    with st(2) have p: "c' = CHR ''=''" "i \<le> 2" "buf_bytes res' @ concat (b64_tail i b) = data"
      "buf_room res' (length (concat (b64_tail i b)) + 0)"
      by (auto simp: dec_post_def)
    from kb.append_run [OF p(4)] obtain r2 where
      "foldR kore_buf_append res' (b64_tail i b) = Inr r2" "buf_bytes r2 = data" "buf_room r2 0"
      using p(3) by auto
    with st(1) p finish_region [of r2] show ?thesis
      by (simp add: b64_decode_run_def buf_room_def)
  qed
qed

lemma encode_spec:
  assumes "4 * length data + 8 < 2 ^ 64"
  shows "utils_base64_encode table raw data =
     Inr (if raw then Some (b64_spec table data)
          else if data = [] then None
          else Some (b64_spec table data @ b64_padding (length data)))"
proof -
  let ?n = "length data div 3 * 4" and ?l = "length (b64_spec table data)"
  have n: "?n \<le> 2 * length data" by presburger
  have l: "?l \<le> 2 * length data + 1" unfolding length_b64_spec by presburger
  have sm: "size_mod ?n = ?n" using n assms by simp
  have "buf_room (kore_buf_init (size_mod ?n)) (?l + 3)"
    using n l assms by (simp add: buf_room_def sm)
  from b64_enc_loop_ok [OF this, of 0] obtain res where
    res: "b64_enc_loop table data 0 (kore_buf_init (size_mod ?n)) =
            Inr (if data = [] then 0 else if length data mod 3 = 0 then 3 else length data mod 3, res)"
         "buf_bytes res = b64_spec table data" "buf_room res 3" by auto
  have str: "bindR (kore_buf_stringify r) (\<lambda>(s, _, _). Inr (Some s)) = Inr (Some (buf_bytes r))"
    if "buf_room r 1" "cstr (buf_bytes r)" for r
    using kore_buf_stringify_ok [OF that] by auto
  have app: "\<exists>r. kore_buf_append res p = Inr r \<and> buf_bytes r = b64_spec table data @ p \<and> buf_room r 1"
    if "length p \<le> 2" for p
    using kb.append_room [of res p 1] kb.room_mono [OF res(3), of "length p + 1"] that res(2) by auto
  have fin: "bindR (kore_buf_stringify res) (\<lambda>(s, _, _). Inr (Some s)) = Inr (Some (b64_spec table data))"
    using str [of res] kb.room_mono [OF res(3), of 1] cstr_spec [of data] res(2) by simp
  have finp: "bindR (kore_buf_append res p) (\<lambda>r. bindR (kore_buf_stringify r) (\<lambda>(s, _, _). Inr (Some s))) =
      Inr (Some (b64_spec table data @ p))" if "length p \<le> 2" "cstr p" for p
  proof -
    from app [OF that(1)] obtain r where
      "kore_buf_append res p = Inr r" "buf_bytes r = b64_spec table data @ p" "buf_room r 1" by blast
    then show ?thesis using str [of r] cstr_spec [of data] that(2) by simp
  qed
  consider "data = []" | "data \<noteq> []" "length data mod 3 = 0" | "length data mod 3 = 1"
    | "length data mod 3 = 2" by linarith
  then show ?thesis
    using res(1) fin finp [of "''==''"] finp [of "''=''"]
    by cases (simp_all add: utils_base64_encode_def b64_padding_def)
qed

end

section \<open>The two tables of the code\<close>

interpretation b64: b64_alphabet b64_table
  by unfold_locales code_simp+

interpretation b64url: b64_alphabet b64url_table
  by unfold_locales code_simp+

lemma length_spec_le: "length (b64_spec t data) \<le> 2 * length data + 1"
  unfolding length_b64_spec by presburger

lemma decode_take:
  "length s < 2 ^ 32 \<Longrightarrow> utils_base64_decode t False s = b64_decode_run t s"
  by (simp add: utils_base64_decode_def)

text \<open>The padded encoding, and its length as the decoder sees it.\<close>

lemma encoded_short:
  assumes "4 * length data + 8 < 2 ^ 32"
  shows "length (b64_spec t data @ b64_padding (length data)) < 2 ^ 32"
    "2 * length (b64_spec t data) + 8 < 2 ^ 64" "4 * length data + 8 < 2 ^ 64"
proof -
  have "length (b64_padding (length data)) \<le> 2" by (simp add: b64_padding_def)
  then show "length (b64_spec t data @ b64_padding (length data)) < 2 ^ 32"
    "2 * length (b64_spec t data) + 8 < 2 ^ 64" "4 * length data + 8 < 2 ^ 64"
    using length_spec_le [of t data] assms by simp_all
qed

lemma raw_decode:
  assumes "length (b64_spec t data) < 2 ^ 32"
  shows "utils_base64_decode t True (b64_spec t data) =
     (if length data mod 3 = 0 then Inr None
      else b64_decode_run t (b64_spec t data @ b64_padding (length data)))"
proof -
  have m: "length (b64_spec t data) mod 4 = (if length data mod 3 = 0 then 0 else Suc (length data mod 3))"
    using mod_less_divisor [of 3 "length data"] by (simp add: length_b64_spec)
  have c: "length data mod 3 = 0 \<or> length data mod 3 = 1 \<or> length data mod 3 = 2" by linarith
  show ?thesis
    using c m assms by (auto simp: utils_base64_decode_def b64_padding_def Let_def)
qed

section \<open>Properties\<close>

text \<open>
  C33. Encoding and then decoding gives the data back, for both alphabets and any non-empty data whose
  encoding fits the 32-bit length: neither call fails, and no access leaves a buffer.
\<close>

theorem kore_base64_roundtrip:
  assumes "data \<noteq> []" "4 * length data + 8 < 2 ^ 32"
  shows "\<exists>s u. kore_base64_encode data = Inr (Some s) \<and> kore_base64_decode s = Inr (Some data) \<and>
               kore_base64url_encode False data = Inr (Some u) \<and>
               kore_base64url_decode False u = Inr (Some data)"
  using assms encoded_short [OF assms(2)]
  by (simp add: kore_base64_encode_def kore_base64url_encode_def kore_base64_decode_def
      kore_base64url_decode_def b64.encode_spec b64url.encode_spec decode_take
      b64.decode_run_spec b64url.decode_run_spec)

theorem kore_base64_roundtrip_witness:
  "\<exists>s u. kore_base64_encode ''kore'' = Inr (Some s) \<and> kore_base64_decode s = Inr (Some ''kore'') \<and>
         kore_base64url_encode False ''kore'' = Inr (Some u) \<and>
         kore_base64url_decode False u = Inr (Some ''kore'')"
  by (rule kore_base64_roundtrip) simp_all

text \<open>
  The unpadded variant is lossy by length: what \<open>kore_base64url_encode\<close> writes with
  \<open>KORE_BASE64_RAW\<close> is read back by \<open>kore_base64url_decode\<close> with the same flag exactly when the number of bytes
  is not a multiple of three; otherwise the decoder refuses a correct encoding.
\<close>

theorem kore_base64url_raw_roundtrip:
  assumes "4 * length data + 8 < 2 ^ 32"
  shows "\<exists>s. kore_base64url_encode True data = Inr (Some s) \<and>
     kore_base64url_decode True s = Inr (if length data mod 3 = 0 then None else Some data)"
proof -
  have "length (b64_spec b64url_table data) < 2 ^ 32"
    using encoded_short(1) [OF assms, of b64url_table] by simp
  then show ?thesis
    using encoded_short(1,2) [OF assms, of b64url_table] encoded_short(3) [OF assms]
    by (simp add: kore_base64url_encode_def kore_base64url_decode_def b64url.encode_spec
        raw_decode b64url.decode_run_spec)
qed

theorem kore_base64url_raw_roundtrip_witness:
  "\<exists>s. kore_base64url_encode True ''abc'' = Inr (Some s) \<and>
       kore_base64url_decode True s = Inr None"
  using kore_base64url_raw_roundtrip [of "''abc''"] by simp

end
