(* ===== verification/Json.thy ===== *)
theory Json
  imports Buf
begin

text \<open>
  The JSON reader, writer and path search of \<open>src/src/json.c\<close>.

  The reader's state is the text, the offset of the next byte, the nesting depth, the library's
  error code \<open>json_errno\<close> and the C library's \<open>errno\<close>, which \<open>kore_strtonum64\<close> looks at.  The
  scratch buffer \<open>tmpbuf\<close> is emptied before every use, so it appears as the list of bytes put
  into it (the refinement of the buffer to such a list is proved in \<open>Buf\<close>).  Every routine
  returns an optional value, \<open>None\<close> for \<open>KORE_RESULT_ERROR\<close>, and the new state.

  The mutually recursive part takes fuel; the outer \<open>None\<close> means that the fuel ran out.
  \<open>kore_json_parse\<close> starts with one more than the number of bytes left, which is proved to be
  enough for every input.

  Floating point numbers belong to the C library: their type and operations (\<open>strtod\<close>, \<open>%f\<close>,
  comparison and the largest finite value) are the parameter \<open>double_ops\<close>.  The limit
  \<open>KORE_JSON_DEPTH_MAX\<close> is a constant of a header that is not part of the sources: it is the
  parameter \<open>dmax\<close>.
\<close>

section \<open>Data\<close>

datatype json_err =
    JSON_ERR_NONE | JSON_ERR_INVALID_OBJECT | JSON_ERR_INVALID_ARRAY | JSON_ERR_INVALID_STRING
  | JSON_ERR_INVALID_NUMBER | JSON_ERR_INVALID_LITERAL | JSON_ERR_DEPTH | JSON_ERR_EOF
  | JSON_ERR_INVALID_JSON | JSON_ERR_INVALID_SEARCH | JSON_ERR_NOT_FOUND | JSON_ERR_TYPE_MISMATCH

datatype json_type =
    TYPE_OBJECT | TYPE_ARRAY | TYPE_STRING | TYPE_NUMBER | TYPE_LITERAL | TYPE_INTEGER
  | TYPE_INTEGER_U64

datatype json_lit = JSON_TRUE | JSON_FALSE | JSON_NULL

datatype 'd json_item = JItem (item_name: "string option") (item_data: "'d json_data")
and 'd json_data =
    JObject "'d json_item list"
  | JArray "'d json_item list"
  | JString string
  | JNumber 'd
  | JInteger "64 word"
  | JU64 "64 word"
  | JLiteral json_lit

fun json_type_of :: "'d json_data \<Rightarrow> json_type" where
  "json_type_of (JObject _) = TYPE_OBJECT"
| "json_type_of (JArray _) = TYPE_ARRAY"
| "json_type_of (JString _) = TYPE_STRING"
| "json_type_of (JNumber _) = TYPE_NUMBER"
| "json_type_of (JInteger _) = TYPE_INTEGER"
| "json_type_of (JU64 _) = TYPE_INTEGER_U64"
| "json_type_of (JLiteral _) = TYPE_LITERAL"

record 'd double_ops =
  dbl_strtod :: "string \<Rightarrow> 'd \<times> nat \<times> bool"
  dbl_less :: "'d \<Rightarrow> 'd \<Rightarrow> bool"
  dbl_min :: 'd
  dbl_max :: 'd
  dbl_str :: "'d \<Rightarrow> string"

fun kore_json_strerror :: "json_err \<Rightarrow> string" where
  "kore_json_strerror JSON_ERR_NONE = ''no error''"
| "kore_json_strerror JSON_ERR_INVALID_OBJECT = ''invalid JSON object''"
| "kore_json_strerror JSON_ERR_INVALID_ARRAY = ''invalid JSON array''"
| "kore_json_strerror JSON_ERR_INVALID_STRING = ''invalid JSON string''"
| "kore_json_strerror JSON_ERR_INVALID_NUMBER = ''invalid JSON number''"
| "kore_json_strerror JSON_ERR_INVALID_LITERAL = ''invalid JSON literal''"
| "kore_json_strerror JSON_ERR_DEPTH = ''too many nested items''"
| "kore_json_strerror JSON_ERR_EOF = ''end of stream while parsing JSON''"
| "kore_json_strerror JSON_ERR_INVALID_JSON = ''invalid JSON''"
| "kore_json_strerror JSON_ERR_INVALID_SEARCH = ''invalid search query specified''"
| "kore_json_strerror JSON_ERR_NOT_FOUND = ''item not found''"
| "kore_json_strerror JSON_ERR_TYPE_MISMATCH = ''item found, but not expected value''"

section \<open>The reader's state and its bytes\<close>

record json_state =
  js_data :: string
  js_offset :: nat
  js_depth :: nat
  js_errno :: json_err
  js_cerrno :: cerrno

type_synonym 'a jres = "'a option \<times> json_state"

definition jthen :: "'a jres \<Rightarrow> ('a \<Rightarrow> json_state \<Rightarrow> 'b jres option) \<Rightarrow> 'b jres option" where
  "jthen m f = (case m of (None, st) \<Rightarrow> Some (None, st) | (Some a, st) \<Rightarrow> f a st)"

definition json_skip :: "json_state \<Rightarrow> json_state" where
  "json_skip st = st\<lparr>js_offset := js_offset st + 1\<rparr>"

text \<open>Set the error code unless one is set already.\<close>

definition json_err_default :: "json_err \<Rightarrow> json_state \<Rightarrow> json_state" where
  "json_err_default e st = (if js_errno st = JSON_ERR_NONE then st\<lparr>js_errno := e\<rparr> else st)"

definition json_next_byte :: "bool \<Rightarrow> json_state \<Rightarrow> char jres" where
  "json_next_byte peek st =
     (if js_offset st \<ge> length (js_data st) then (None, st\<lparr>js_errno := JSON_ERR_EOF\<rparr>)
      else (Some (js_data st ! js_offset st), if peek then st else json_skip st))"

definition json_peek :: "json_state \<Rightarrow> char jres" where
  "json_peek st = json_next_byte True st"

definition json_next :: "json_state \<Rightarrow> char jres" where
  "json_next st = json_next_byte False st"

definition json_ws :: "char \<Rightarrow> bool" where
  "json_ws ch \<longleftrightarrow> ch = CHR '' '' \<or> ch = CHR 0x0A \<or> ch = CHR 0x0D \<or> ch = CHR 0x09"

function json_consume_whitespace :: "json_state \<Rightarrow> unit jres" where
  "json_consume_whitespace st =
     (case json_peek st of
        (None, st') \<Rightarrow> (None, st')
      | (Some ch, st') \<Rightarrow>
          if json_ws ch then json_consume_whitespace (json_skip st') else (Some (), st'))"
  by pat_completeness auto

termination json_consume_whitespace
  by (relation "measure (\<lambda>st. length (js_data st) - js_offset st)")
    (auto simp: json_peek_def json_next_byte_def json_skip_def split: if_splits)

declare json_consume_whitespace.simps [simp del]

definition json_guess_type :: "char \<Rightarrow> json_type option" where
  "json_guess_type ch =
     (if ch = CHR ''-'' \<or> (of_char (CHR ''0'') \<le> (of_char ch :: nat) \<and> (of_char ch :: nat) \<le> of_char (CHR ''9''))
      then Some TYPE_NUMBER
      else if ch = CHR ''{'' then Some TYPE_OBJECT
      else if ch = CHR 0x22 then Some TYPE_STRING
      else if ch = CHR ''['' then Some TYPE_ARRAY
      else if ch = CHR ''f'' \<or> ch = CHR ''n'' \<or> ch = CHR ''t'' then Some TYPE_LITERAL
      else None)"

section \<open>Strings\<close>

definition json_unescape :: "char \<Rightarrow> char option" where
  "json_unescape ch =
     (if ch = CHR 0x22 \<or> ch = CHR 0x5C \<or> ch = CHR ''/'' then Some ch
      else if ch = CHR ''b'' then Some (CHR 0x08)
      else if ch = CHR ''f'' then Some (CHR 0x0C)
      else if ch = CHR ''n'' then Some (CHR 0x0A)
      else if ch = CHR ''r'' then Some (CHR 0x0D)
      else if ch = CHR ''t'' then Some (CHR 0x09)
      else None)"

lemma json_next_measure:
  "json_next st = (Some c, st') \<Longrightarrow>
     length (js_data st') - js_offset st' < length (js_data st) - js_offset st"
  by (auto simp: json_next_def json_next_byte_def json_skip_def split: if_splits)

function json_string_loop :: "string \<Rightarrow> json_state \<Rightarrow> string jres" where
  "json_string_loop tmp st =
     (case json_next st of
        (None, st1) \<Rightarrow> (None, st1)
      | (Some ch, st1) \<Rightarrow>
          if ch = CHR 0x22 then (Some tmp, st1)
          else if (of_char ch :: nat) \<le> 0x1f then (None, st1)
          else if ch = CHR 0x5C
          then (case json_next st1 of
                  (None, st2) \<Rightarrow> (None, st2)
                | (Some e, st2) \<Rightarrow>
                    (case json_unescape e of
                       None \<Rightarrow> (None, st2)
                     | Some u \<Rightarrow> json_string_loop (tmp @ [u]) st2))
          else json_string_loop (tmp @ [ch]) st1)"
  by pat_completeness auto

termination json_string_loop
  by (relation "measure (\<lambda>(tmp, st). length (js_data st) - js_offset st)")
    (auto dest!: json_next_measure [OF sym])

declare json_string_loop.simps [simp del]

definition json_get_string :: "json_state \<Rightarrow> string jres" where
  "json_get_string st =
     (let (res, st') =
        (case json_next st of
           (None, st1) \<Rightarrow> (None, st1)
         | (Some ch, st1) \<Rightarrow> if ch \<noteq> CHR 0x22 then (None, st1) else json_string_loop [] st1)
      in (res, if res = None then json_err_default JSON_ERR_INVALID_STRING st' else st'))"

definition json_parse_string :: "json_state \<Rightarrow> 'd json_data jres" where
  "json_parse_string st =
     (case json_get_string st of
        (None, st') \<Rightarrow> (None, st')
      | (Some value, st') \<Rightarrow> (Some (JString value), st'))"

section \<open>Numbers\<close>

definition kore_strtodouble :: "'d double_ops \<Rightarrow> string \<Rightarrow> 'd \<Rightarrow> 'd \<Rightarrow> 'd option" where
  "kore_strtodouble ops str mn mx =
     (if dbl_less ops mx mn then None
      else let (d, n, erange) = dbl_strtod ops str
           in if erange \<or> n = 0 \<or> n \<noteq> length str then None
              else if dbl_less ops d mn then None
              else if dbl_less ops mx d then None
              else Some d)"

text \<open>
  The loop that collects the number: \<open>int_ok\<close> and \<open>u64_ok\<close> are the bits
  \<open>KORE_JSON_TYPE_INTEGER\<close> and \<open>KORE_JSON_TYPE_INTEGER_U64\<close> of \<open>type\<close>.  \<open>None\<close> is the jump to
  \<open>cleanup\<close> on a minus sign that is not the first byte.
\<close>

function json_number_loop ::
  "string \<Rightarrow> bool \<Rightarrow> bool \<Rightarrow> json_state \<Rightarrow> (string \<times> bool \<times> bool) jres" where
  "json_number_loop tmp int_ok u64_ok st =
     (case json_peek st of
        (None, st1) \<Rightarrow> (Some (tmp, int_ok, u64_ok), st1)
      | (Some ch, st1) \<Rightarrow>
          if ch = CHR ''e'' \<or> ch = CHR ''E'' \<or> ch = CHR ''.''
          then json_number_loop (tmp @ [ch]) False False (json_skip st1)
          else if ch = CHR ''-''
          then (if tmp \<noteq> [] then (None, st1)
                else json_number_loop (tmp @ [ch]) int_ok False (json_skip st1))
          else if is_digit 10 ch \<or> ch = CHR ''+''
          then json_number_loop (tmp @ [ch]) int_ok u64_ok (json_skip st1)
          else (Some (tmp, int_ok, u64_ok), st1))"
  by pat_completeness auto

termination json_number_loop
  by (relation "measure (\<lambda>(tmp, i, u, st). length (js_data st) - js_offset st)")
    (auto simp: json_peek_def json_next_byte_def json_skip_def split: if_splits)

declare json_number_loop.simps [simp del]

definition json_number_value ::
  "'d double_ops \<Rightarrow> string \<Rightarrow> bool \<Rightarrow> bool \<Rightarrow> json_state \<Rightarrow> 'd json_data jres" where
  "json_number_value ops str int_ok u64_ok st =
     (if u64_ok
      then (let (e, r) = kore_strtonum64 (js_cerrno st) str False
            in (map_option (\<lambda>u. if unat u \<le> 9223372036854775807 then JInteger u else JU64 u) r,
                st\<lparr>js_cerrno := e\<rparr>))
      else if int_ok
      then (let (e, r) = kore_strtonum64 (js_cerrno st) str True
            in (map_option JInteger r, st\<lparr>js_cerrno := e\<rparr>))
      else (map_option JNumber (kore_strtodouble ops str (dbl_min ops) (dbl_max ops)),
            st\<lparr>js_cerrno :=
              (if dbl_less ops (dbl_max ops) (dbl_min ops) then js_cerrno st
               else if snd (snd (dbl_strtod ops str)) then ERANGE else ENONE)\<rparr>))"

definition json_parse_number :: "'d double_ops \<Rightarrow> json_state \<Rightarrow> 'd json_data jres" where
  "json_parse_number ops st =
     (let (res, st') =
        (case json_number_loop [] True True st of
           (None, st1) \<Rightarrow> (None, st1)
         | (Some (str, int_ok, u64_ok), st1) \<Rightarrow> json_number_value ops str int_ok u64_ok st1)
      in (res, if res = None then json_err_default JSON_ERR_INVALID_NUMBER st' else st'))"

section \<open>Literals\<close>

fun json_expect :: "string \<Rightarrow> json_state \<Rightarrow> unit jres" where
  "json_expect [] st = (Some (), st)"
| "json_expect (t # ts) st =
     (case json_next st of
        (None, st1) \<Rightarrow> (None, st1)
      | (Some ch, st1) \<Rightarrow> if ch \<noteq> t then (None, st1) else json_expect ts st1)"

definition json_literal_of :: "char \<Rightarrow> (json_lit \<times> string) option" where
  "json_literal_of ch =
     (if ch = CHR ''f'' then Some (JSON_FALSE, ''alse'')
      else if ch = CHR ''n'' then Some (JSON_NULL, ''ull'')
      else if ch = CHR ''t'' then Some (JSON_TRUE, ''rue'')
      else None)"

definition json_parse_literal :: "json_state \<Rightarrow> 'd json_data jres" where
  "json_parse_literal st =
     (let (res, st') =
        (case json_next st of
           (None, st1) \<Rightarrow> (None, st1)
         | (Some ch, st1) \<Rightarrow>
             (case json_literal_of ch of
                None \<Rightarrow> (None, st1)
              | Some (val, tmpl) \<Rightarrow>
                  (case json_expect tmpl st1 of
                     (None, st2) \<Rightarrow> (None, st2)
                   | (Some _, st2) \<Rightarrow> (Some (JLiteral val), st2))))
      in (res, if res = None then json_err_default JSON_ERR_INVALID_LITERAL st' else st'))"

section \<open>Objects and arrays\<close>

text \<open>
  The loops call \<open>item->parse\<close>, which \<open>json_item_alloc\<close> sets from the guessed type: it is the
  argument \<open>pv\<close> of the routines below and is tied to \<open>json_parse\<close> at the end.  A step is one
  round of the \<open>for\<close> loop: the children so far and whether there is a next round.  A failing
  nested call leaves a partial tree behind; only the fact of the failure is kept.
\<close>

definition json_object_step ::
  "(json_type \<Rightarrow> json_state \<Rightarrow> 'd json_data jres option) \<Rightarrow> bool \<Rightarrow> 'd json_item list \<Rightarrow> json_state \<Rightarrow>
   ('d json_item list \<times> bool) jres option" where
  "json_object_step pv hasnext items st =
     jthen (json_consume_whitespace st) (\<lambda>_ st1.
     jthen (json_peek st1) (\<lambda>ch st2.
       if ch = CHR ''}''
       then (if hasnext then Some (None, st2\<lparr>js_errno := JSON_ERR_INVALID_JSON\<rparr>)
             else Some (Some (items, False), json_skip st2))
       else if ch \<noteq> CHR 0x22 then Some (None, st2)
       else jthen (json_get_string st2) (\<lambda>key st3.
         jthen (json_consume_whitespace st3) (\<lambda>_ st4.
         jthen (json_next st4) (\<lambda>colon st5.
           if colon \<noteq> CHR '':'' then Some (None, st5)
           else jthen (json_consume_whitespace st5) (\<lambda>_ st6.
             jthen (json_peek st6) (\<lambda>ch st7.
               case json_guess_type ch of
                 None \<Rightarrow> Some (None, st7)
               | Some ty \<Rightarrow>
                   (case pv ty st7 of
                      None \<Rightarrow> None
                    | Some r \<Rightarrow>
                        jthen r (\<lambda>d st8.
                        jthen (json_consume_whitespace st8) (\<lambda>_ st9.
                        jthen (json_next st9) (\<lambda>ch st10.
                          if ch = CHR '','' then Some (Some (items @ [JItem (Some key) d], True), st10)
                          else if ch = CHR ''}''
                          then Some (Some (items @ [JItem (Some key) d], False), st10)
                          else Some (None, st10))))))))))))"

primrec json_object_loop ::
  "(json_type \<Rightarrow> json_state \<Rightarrow> 'd json_data jres option) \<Rightarrow> nat \<Rightarrow> bool \<Rightarrow> 'd json_item list \<Rightarrow>
   json_state \<Rightarrow> 'd json_item list jres option" where
  "json_object_loop pv 0 hasnext items st = None"
| "json_object_loop pv (Suc f) hasnext items st =
     (case json_object_step pv hasnext items st of
        None \<Rightarrow> None
      | Some r \<Rightarrow> jthen r (\<lambda>(items', more) st'.
          if more then json_object_loop pv f True items' st' else Some (Some items', st')))"

text \<open>The code after the label \<open>cleanup\<close>.\<close>

definition json_cleanup :: "json_err \<Rightarrow> ('a \<Rightarrow> 'b) \<Rightarrow> 'a jres \<Rightarrow> 'b jres" where
  "json_cleanup e wrap r =
     (case r of
        (None, st) \<Rightarrow> (None, (json_err_default e st)\<lparr>js_depth := js_depth st - 1\<rparr>)
      | (Some x, st) \<Rightarrow> (Some (wrap x), st\<lparr>js_depth := js_depth st - 1\<rparr>))"

text \<open>Note that the depth is not restored when the limit is hit.\<close>

definition json_parse_object ::
  "(json_type \<Rightarrow> json_state \<Rightarrow> 'd json_data jres option) \<Rightarrow> nat \<Rightarrow> nat \<Rightarrow> json_state \<Rightarrow>
   'd json_data jres option" where
  "json_parse_object pv dmax f st =
     (if js_depth st \<ge> dmax
      then Some (None, st\<lparr>js_depth := js_depth st + 1, js_errno := JSON_ERR_DEPTH\<rparr>)
      else map_option (json_cleanup JSON_ERR_INVALID_OBJECT JObject)
             (jthen (json_next (st\<lparr>js_depth := js_depth st + 1\<rparr>)) (\<lambda>ch st1.
                if ch \<noteq> CHR ''{'' then Some (None, st1)
                else json_object_loop pv f False [] st1)))"

definition json_array_step ::
  "(json_type \<Rightarrow> json_state \<Rightarrow> 'd json_data jres option) \<Rightarrow> bool \<Rightarrow> 'd json_item list \<Rightarrow> json_state \<Rightarrow>
   ('d json_item list \<times> bool) jres option" where
  "json_array_step pv hasnext items st =
     jthen (json_consume_whitespace st) (\<lambda>_ st1.
     jthen (json_peek st1) (\<lambda>ch st2.
       if ch = CHR '']''
       then (if hasnext then Some (None, st2\<lparr>js_errno := JSON_ERR_INVALID_JSON\<rparr>)
             else Some (Some (items, False), json_skip st2))
       else case json_guess_type ch of
              None \<Rightarrow> Some (None, st2)
            | Some ty \<Rightarrow>
                (case pv ty st2 of
                   None \<Rightarrow> None
                 | Some r \<Rightarrow>
                     jthen r (\<lambda>d st3.
                     jthen (json_consume_whitespace st3) (\<lambda>_ st4.
                     jthen (json_next st4) (\<lambda>ch st5.
                       if ch = CHR '','' then Some (Some (items @ [JItem None d], True), st5)
                       else if ch = CHR '']'' then Some (Some (items @ [JItem None d], False), st5)
                       else Some (None, st5)))))))"

primrec json_array_loop ::
  "(json_type \<Rightarrow> json_state \<Rightarrow> 'd json_data jres option) \<Rightarrow> nat \<Rightarrow> bool \<Rightarrow> 'd json_item list \<Rightarrow>
   json_state \<Rightarrow> 'd json_item list jres option" where
  "json_array_loop pv 0 hasnext items st = None"
| "json_array_loop pv (Suc f) hasnext items st =
     (case json_array_step pv hasnext items st of
        None \<Rightarrow> None
      | Some r \<Rightarrow> jthen r (\<lambda>(items', more) st'.
          if more then json_array_loop pv f True items' st' else Some (Some items', st')))"

definition json_parse_array ::
  "(json_type \<Rightarrow> json_state \<Rightarrow> 'd json_data jres option) \<Rightarrow> nat \<Rightarrow> nat \<Rightarrow> json_state \<Rightarrow>
   'd json_data jres option" where
  "json_parse_array pv dmax f st =
     (if js_depth st \<ge> dmax
      then Some (None, st\<lparr>js_depth := js_depth st + 1, js_errno := JSON_ERR_DEPTH\<rparr>)
      else map_option (json_cleanup JSON_ERR_INVALID_ARRAY JArray)
             (jthen (json_next (st\<lparr>js_depth := js_depth st + 1\<rparr>)) (\<lambda>ch st1.
                if ch \<noteq> CHR ''['' then Some (None, st1)
                else json_array_loop pv f False [] st1)))"

primrec json_parse ::
  "'d double_ops \<Rightarrow> nat \<Rightarrow> nat \<Rightarrow> json_type \<Rightarrow> json_state \<Rightarrow> 'd json_data jres option" where
  "json_parse ops dmax 0 ty st = None"
| "json_parse ops dmax (Suc f) ty st =
     (case ty of
        TYPE_OBJECT \<Rightarrow> json_parse_object (json_parse ops dmax f) dmax f st
      | TYPE_ARRAY \<Rightarrow> json_parse_array (json_parse ops dmax f) dmax f st
      | TYPE_STRING \<Rightarrow> Some (json_parse_string st)
      | TYPE_LITERAL \<Rightarrow> Some (json_parse_literal st)
      | _ \<Rightarrow> Some (json_parse_number ops st))"

section \<open>The whole document\<close>

datatype 'd json_root = NoRoot | PartialRoot | Root "'d json_item"

record 'd kore_json =
  kj_state :: json_state
  kj_root :: "'d json_root"

text \<open>\<open>json_errno\<close> and \<open>errno\<close> are global: their old values are arguments.\<close>

definition kore_json_init :: "json_err \<Rightarrow> cerrno \<Rightarrow> string \<Rightarrow> 'd kore_json" where
  "kore_json_init jerr cerr data =
     \<lparr>kj_state = \<lparr>js_data = data, js_offset = 0, js_depth = 0, js_errno = jerr, js_cerrno = cerr\<rparr>,
      kj_root = NoRoot\<rparr>"

definition json_fuel :: "json_state \<Rightarrow> nat" where
  "json_fuel st = length (js_data st) - js_offset st + 1"

text \<open>
  The first test of \<open>kore_json_parse\<close> compares the result of \<open>json_consume_whitespace\<close> with -1,
  which it never returns; at the end of the text the following \<open>json_peek\<close> fails instead.
\<close>

definition kore_json_parse :: "'d double_ops \<Rightarrow> nat \<Rightarrow> 'd kore_json \<Rightarrow> (bool \<times> 'd kore_json) option" where
  "kore_json_parse ops dmax json =
     (if kj_root json \<noteq> NoRoot then Some (True, json)
      else let st0 = (kj_state json)\<lparr>js_errno := JSON_ERR_NONE\<rparr>;
               (_, st1) = json_consume_whitespace st0
           in case json_peek st1 of
                (None, st2) \<Rightarrow> Some (False, json\<lparr>kj_state := st2\<rparr>)
              | (Some ch, st2) \<Rightarrow>
                  (case json_guess_type ch of
                     None \<Rightarrow> Some (False, json\<lparr>kj_state := st2\<lparr>js_errno := JSON_ERR_INVALID_JSON\<rparr>\<rparr>)
                   | Some ty \<Rightarrow>
                       (case json_parse ops dmax (json_fuel st2) ty st2 of
                          None \<Rightarrow> None
                        | Some (None, st3) \<Rightarrow>
                            Some (False, json\<lparr>kj_state := json_err_default JSON_ERR_INVALID_JSON st3,
                                              kj_root := PartialRoot\<rparr>)
                        | Some (Some d, st3) \<Rightarrow>
                            (let (_, st4) = json_consume_whitespace st3 in
                             if js_offset st4 \<noteq> length (js_data st4)
                             then Some (False, json\<lparr>kj_state := st4\<lparr>js_errno := JSON_ERR_INVALID_JSON\<rparr>,
                                                    kj_root := Root (JItem None d)\<rparr>)
                             else Some (True, json\<lparr>kj_state := st4, kj_root := Root (JItem None d)\<rparr>)))))"

section \<open>Writing\<close>

definition isprint :: "char \<Rightarrow> bool" where
  "isprint c \<longleftrightarrow> 0x20 \<le> (of_char c :: nat) \<and> (of_char c :: nat) \<le> 0x7e"

definition json_escape :: "char \<Rightarrow> string" where
  "json_escape ch =
     (if ch = CHR 0x22 \<or> ch = CHR 0x5C \<or> ch = CHR ''/'' then [CHR 0x5C, ch]
      else if ch = CHR 0x08 then [CHR 0x5C, CHR ''b'']
      else if ch = CHR 0x0C then [CHR 0x5C, CHR ''f'']
      else if ch = CHR 0x0A then [CHR 0x5C, CHR ''n'']
      else if ch = CHR 0x0D then [CHR 0x5C, CHR ''r'']
      else if ch = CHR 0x09 then [CHR 0x5C, CHR ''t'']
      else if \<not> isprint ch then ''?''
      else [ch])"

definition json_build_string :: "string \<Rightarrow> string" where
  "json_build_string s = concat (map json_escape s)"

text \<open>
  \<open>kore_json_create_item\<close>: the value is given as data, a string is escaped on the way in; with a
  parent the item is put at the end of the parent's list, and a parent that is neither an object
  nor an array is fatal.  The result is the item and the parent's new data.
\<close>

fun json_create_data :: "'d json_data \<Rightarrow> 'd json_data" where
  "json_create_data (JObject _) = JObject []"
| "json_create_data (JArray _) = JArray []"
| "json_create_data (JString s) = JString (json_build_string s)"
| "json_create_data d = d"

fun json_insert_tail :: "'d json_data \<Rightarrow> 'd json_item \<Rightarrow> 'd json_data result" where
  "json_insert_tail (JObject xs) it = Inr (JObject (xs @ [it]))"
| "json_insert_tail (JArray xs) it = Inr (JArray (xs @ [it]))"
| "json_insert_tail _ it = Inl (Fatal ''invalid parent type'')"

definition kore_json_create_item ::
  "'d json_data option \<Rightarrow> string option \<Rightarrow> 'd json_data \<Rightarrow> ('d json_item \<times> 'd json_data option) result" where
  "kore_json_create_item parent name val =
     (let it = JItem name (json_create_data val) in
      case parent of
        None \<Rightarrow> Inr (it, None)
      | Some p \<Rightarrow> bindR (json_insert_tail p it) (\<lambda>p'. Inr (it, Some p')))"

fun json_lit_text :: "json_lit \<Rightarrow> string" where
  "json_lit_text JSON_TRUE = ''true''"
| "json_lit_text JSON_FALSE = ''false''"
| "json_lit_text JSON_NULL = ''null''"

text \<open>
  \<open>kore_json_item_tobuf\<close> writes the item into the buffer; names and strings are written as they
  are stored.
\<close>

fun kore_json_item_tobuf :: "'d double_ops \<Rightarrow> 'd json_item \<Rightarrow> kore_buf \<Rightarrow> kore_buf result"
and json_data_tobuf :: "'d double_ops \<Rightarrow> 'd json_data \<Rightarrow> kore_buf \<Rightarrow> kore_buf result"
and json_items_tobuf :: "'d double_ops \<Rightarrow> 'd json_item list \<Rightarrow> kore_buf \<Rightarrow> kore_buf result"
where
  "kore_json_item_tobuf ops (JItem name d) buf =
     bindR (case name of None \<Rightarrow> Inr buf
                       | Some n \<Rightarrow> kore_buf_append buf (CHR 0x22 # n @ [CHR 0x22, CHR '':'']))
       (json_data_tobuf ops d)"
| "json_data_tobuf ops (JObject items) buf =
     bindR (kore_buf_append buf ''{'') (\<lambda>b.
     bindR (json_items_tobuf ops items b) (\<lambda>b'. kore_buf_append b' ''}''))"
| "json_data_tobuf ops (JArray items) buf =
     bindR (kore_buf_append buf ''['') (\<lambda>b.
     bindR (json_items_tobuf ops items b) (\<lambda>b'. kore_buf_append b' '']''))"
| "json_data_tobuf ops (JString s) buf = kore_buf_append buf (CHR 0x22 # s @ [CHR 0x22])"
| "json_data_tobuf ops (JNumber x) buf = kore_buf_append buf (dbl_str ops x)"
| "json_data_tobuf ops (JInteger w) buf = kore_buf_append buf (int_str (sint w))"
| "json_data_tobuf ops (JU64 w) buf = kore_buf_append buf (nat_str (unat w))"
| "json_data_tobuf ops (JLiteral l) buf = kore_buf_append buf (json_lit_text l)"
| "json_items_tobuf ops [] buf = Inr buf"
| "json_items_tobuf ops (it # its) buf =
     bindR (kore_json_item_tobuf ops it buf) (\<lambda>b.
     bindR (if its = [] then Inr b else kore_buf_append b '','') (\<lambda>b'.
       json_items_tobuf ops its b'))"

section \<open>Searching\<close>

text \<open>
  One component of a path: \<open>name\<close> or \<open>name[i]\<close>.  \<open>None\<close> is a bracket that is not closed or an
  index that is not a number between 0 and 65535; the search then ends at once.
\<close>

definition json_token :: "string \<Rightarrow> (string \<times> nat option) option" where
  "json_token tok =
     (case dropWhile (\<lambda>c. c \<noteq> CHR ''['') tok of
        [] \<Rightarrow> Some (tok, None)
      | _ # str \<Rightarrow>
          if CHR '']'' \<notin> set str then None
          else (case kore_strtonum (takeWhile (\<lambda>c. c \<noteq> CHR '']'') str) 10 0 65535 of
                  None \<Rightarrow> None
                | Some spot \<Rightarrow> Some (takeWhile (\<lambda>c. c \<noteq> CHR ''['') tok, Some (nat spot))))"

fun json_items_of :: "'d json_data \<Rightarrow> 'd json_item list option" where
  "json_items_of (JObject xs) = Some xs"
| "json_items_of (JArray xs) = Some xs"
| "json_items_of _ = None"

definition json_name_matches :: "string \<Rightarrow> 'd json_item \<Rightarrow> bool" where
  "json_name_matches tok it = (case item_name it of None \<Rightarrow> True | Some n \<Rightarrow> n = tok)"

definition json_type_fits :: "json_type \<Rightarrow> 'd json_data \<Rightarrow> bool" where
  "json_type_fits ty d =
     (case d of
        JInteger w \<Rightarrow> ty = TYPE_INTEGER \<or> (ty = TYPE_INTEGER_U64 \<and> 0 \<le> sint w)
      | _ \<Rightarrow> json_type_of d = ty)"

definition json_pick :: "'d json_item \<Rightarrow> nat option \<Rightarrow> 'd json_item option" where
  "json_pick it spot =
     (case (item_data it, spot) of
        (JArray xs, Some k) \<Rightarrow> if k < length xs then Some (xs ! k) else None
      | _ \<Rightarrow> Some it)"

text \<open>
  \<open>json_find_item\<close> over the tokens from the current position on.  The first child that has no name
  or the right one decides; an index selects an element when that child is an array.
\<close>

fun json_find_item ::
  "'d json_data \<Rightarrow> string list \<Rightarrow> json_type \<Rightarrow> json_err \<Rightarrow> 'd json_item option \<times> json_err" where
  "json_find_item obj [] ty err = (None, err)"
| "json_find_item obj (tok # toks) ty err =
     (case json_items_of obj of
        None \<Rightarrow> (None, err)
      | Some items \<Rightarrow>
          (case json_token tok of
             None \<Rightarrow> (None, err)
           | Some (name, spot) \<Rightarrow>
               (case find (json_name_matches name) items of
                  None \<Rightarrow> (None, if err = JSON_ERR_NONE then JSON_ERR_NOT_FOUND else err)
                | Some it0 \<Rightarrow>
                    (case json_pick it0 spot of
                       None \<Rightarrow> (None, JSON_ERR_NOT_FOUND)
                     | Some it \<Rightarrow>
                         if toks = []
                         then (if json_type_fits ty (item_data it) then (Some it, err)
                               else (None, JSON_ERR_TYPE_MISMATCH))
                         else (let (r, e) =
                                 (if json_items_of (item_data it) \<noteq> None
                                  then json_find_item (item_data it) toks ty err else (None, err))
                               in (r, if r = None \<and> e = JSON_ERR_NONE then JSON_ERR_NOT_FOUND else e))))))"

definition kore_json_find ::
  "nat \<Rightarrow> 'd json_item \<Rightarrow> string \<Rightarrow> json_type \<Rightarrow> 'd json_item option \<times> json_err" where
  "kore_json_find dmax root path ty =
     (let tokens = kore_split_string path ''/'' dmax in
      if tokens = [] then (None, JSON_ERR_INVALID_SEARCH)
      else let (it, e) = json_find_item (item_data root) tokens ty JSON_ERR_NONE
           in (it, if it = None \<and> e = JSON_ERR_NONE then JSON_ERR_INVALID_SEARCH else e))"

end
