(* ===== verification/Json_Correct.thy ===== *)
theory Json_Correct
  imports Json
begin

text \<open>
  Correctness of the JSON component.

  \<^item> Reading: \<open>kore_json_parse\<close> ends on every input, never looks past the end of the text, and
    what it accepts is a tree of bounded depth whose children are named exactly below objects.
    The rule \<open>pmoves_jthen\<close> carries these proofs through the sequencing of the reader.
  \<^item> Writing: \<open>kore_json_item_tobuf\<close> appends the text \<open>json_text\<close> of the item.
  \<^item> Both: the text of a tree without floating point numbers and without characters that need
    escaping is read back as the same tree.
\<close>

section \<open>Specifications\<close>

definition json_rest :: "json_state \<Rightarrow> string" where
  "json_rest st = drop (js_offset st) (js_data st)"

text \<open>
  A reader step keeps the text, goes forward and stays inside the text; when it succeeds its
  value and its state satisfy \<open>Q\<close> and the depth is as before.
\<close>

definition json_moves :: "('a \<Rightarrow> json_state \<Rightarrow> bool) \<Rightarrow> json_state \<Rightarrow> 'a jres \<Rightarrow> bool" where
  "json_moves Q st r \<longleftrightarrow>
     js_data (snd r) = js_data st \<and>
     js_offset st \<le> js_offset (snd r) \<and>
     js_offset (snd r) \<le> max (js_offset st) (length (js_data st)) \<and>
     (\<forall>a. fst r = Some a \<longrightarrow> Q a (snd r) \<and> js_depth (snd r) = js_depth st)"

text \<open>The same for a step that might run out of fuel: it does not.\<close>

definition pmoves :: "('a \<Rightarrow> json_state \<Rightarrow> bool) \<Rightarrow> json_state \<Rightarrow> 'a jres option \<Rightarrow> bool" where
  "pmoves Q st x \<longleftrightarrow> (\<exists>r. x = Some r \<and> json_moves Q st r)"

text \<open>
  The trees the reader builds: nesting at most \<open>n\<close>, names below objects and only there, no NUL in
  names and strings, and unsigned integers only where a signed one does not do.
\<close>

fun json_tree :: "nat \<Rightarrow> 'd json_data \<Rightarrow> bool"
and json_children :: "bool \<Rightarrow> nat \<Rightarrow> 'd json_item list \<Rightarrow> bool"
where
  "json_tree n (JObject xs) = (0 < n \<and> json_children True (n - 1) xs)"
| "json_tree n (JArray xs) = (0 < n \<and> json_children False (n - 1) xs)"
| "json_tree n (JString s) = (CHR 0x00 \<notin> set s)"
| "json_tree n (JU64 w) = (9223372036854775807 < unat w)"
| "json_tree n (JNumber _) = True"
| "json_tree n (JInteger _) = True"
| "json_tree n (JLiteral _) = True"
| "json_children named n [] = True"
| "json_children named n (JItem nm d # xs) =
     ((case nm of None \<Rightarrow> \<not> named | Some s \<Rightarrow> named \<and> CHR 0x00 \<notin> set s) \<and>
      json_tree n d \<and> json_children named n xs)"

section \<open>The reader goes forward\<close>

lemma json_moves_refl: "Q a st \<Longrightarrow> json_moves Q st (Some a, st)"
  by (simp add: json_moves_def)

lemma json_moves_fail: "json_moves Q st (None, st)"
  by (simp add: json_moves_def)

lemma json_moves_trans:
  assumes "json_moves P st (Some a, st')" "json_moves Q st' r"
  shows "json_moves Q st r"
  using assms by (auto simp: json_moves_def)

lemma json_moves_failed: "json_moves P st (None, st') \<Longrightarrow> json_moves Q st (None, st')"
  by (simp add: json_moves_def)

lemma json_moves_err:
  "json_moves Q st (None, st'\<lparr>js_errno := e\<rparr>) = json_moves Q st (None, st')"
  "json_moves Q st (None, json_err_default e st') = json_moves Q st (None, st')"
  by (auto simp: json_moves_def json_err_default_def)

lemma json_moves_cerrno:
  "json_moves (\<lambda>a _. Q a) st (r, st'\<lparr>js_cerrno := e\<rparr>) = json_moves (\<lambda>a _. Q a) st (r, st')"
  by (simp add: json_moves_def)

lemma json_moves_weaken:
  "json_moves P st r \<Longrightarrow> (\<And>a st'. P a st' \<Longrightarrow> Q a st') \<Longrightarrow> json_moves Q st r"
  by (auto simp: json_moves_def)

lemma pmoves_jthen:
  assumes "json_moves P st m"
    and "\<And>a st'. m = (Some a, st') \<Longrightarrow> json_moves P st (Some a, st') \<Longrightarrow> pmoves Q st' (f a st')"
  shows "pmoves Q st (jthen m f)"
proof (cases m)
  case (Pair r st')
  show ?thesis
  proof (cases r)
    case None
    then show ?thesis using assms(1) Pair
      by (auto simp: pmoves_def jthen_def intro: json_moves_failed)
  next
    case (Some a)
    then have "pmoves Q st' (f a st')" using assms Pair by (auto simp: json_moves_def)
    then show ?thesis using assms(1) Pair Some
      by (auto simp: pmoves_def jthen_def intro: json_moves_trans)
  qed
qed

lemma pmoves_Some [simp]: "pmoves Q st (Some r) = json_moves Q st r"
  by (simp add: pmoves_def)

lemma pmoves_None [simp]: "\<not> pmoves Q st None"
  by (simp add: pmoves_def)

lemma json_next_byte_moves: "json_moves (\<lambda>_ _. True) st (json_next_byte p st)"
  by (auto simp: json_moves_def json_next_byte_def json_skip_def)

lemma json_next_moves: "json_moves (\<lambda>_ _. True) st (json_next st)"
  and json_peek_moves: "json_moves (\<lambda>_ _. True) st (json_peek st)"
  by (simp_all add: json_next_def json_peek_def json_next_byte_moves)

lemma json_peek_Some:
  "json_peek st = (Some c, st') \<longleftrightarrow> st' = st \<and> js_offset st < length (js_data st) \<and> c = js_data st ! js_offset st"
  by (auto simp: json_peek_def json_next_byte_def)

lemma json_next_Some:
  "json_next st = (Some c, st') \<longleftrightarrow>
     st' = json_skip st \<and> js_offset st < length (js_data st) \<and> c = js_data st ! js_offset st"
  by (auto simp: json_next_def json_next_byte_def)

lemma json_skip_moves:
  "js_offset st < length (js_data st) \<Longrightarrow> Q a (json_skip st) \<Longrightarrow> json_moves Q st (Some a, json_skip st)"
  by (simp add: json_moves_def json_skip_def)

lemma json_consume_whitespace_eq:
  "json_consume_whitespace st =
     (if js_offset st \<ge> length (js_data st) then (None, st\<lparr>js_errno := JSON_ERR_EOF\<rparr>)
      else if json_ws (js_data st ! js_offset st) then json_consume_whitespace (json_skip st)
      else (Some (), st))"
  by (subst json_consume_whitespace.simps) (simp add: json_peek_def json_next_byte_def)

lemma json_moves_skip:
  "js_offset st < length (js_data st) \<Longrightarrow> json_moves Q (json_skip st) r \<Longrightarrow> json_moves Q st r"
  by (auto simp: json_moves_def json_skip_def)

lemma json_moves_skip_fail [simp]:
  "js_offset st < length (js_data st) \<Longrightarrow> json_moves Q st (None, json_skip st)"
  by (simp add: json_moves_def json_skip_def)

lemma json_state_induct [case_names step]:
  assumes "\<And>st. (\<And>st'. length (js_data st') - js_offset st' < length (js_data st) - js_offset st \<Longrightarrow> P st') \<Longrightarrow> P st"
  shows "P st"
  using assms by (induction "length (js_data st) - js_offset st" arbitrary: st rule: less_induct) blast

lemma json_skip_less:
  "js_offset st < length (js_data st) \<Longrightarrow>
     length (js_data (json_skip st)) - js_offset (json_skip st) < length (js_data st) - js_offset st"
  by (simp add: json_skip_def)

lemma json_consume_whitespace_moves: "json_moves (\<lambda>_ _. True) st (json_consume_whitespace st)"
proof (induction st rule: json_state_induct)
  case (step st)
  show ?case
  proof (cases "js_offset st < length (js_data st)")
    case True
    then have "json_moves (\<lambda>_ _. True) st (json_consume_whitespace (json_skip st))"
      using json_moves_skip [OF True step [OF json_skip_less [OF True]]] by blast
    then show ?thesis
      using True by (subst json_consume_whitespace_eq) (simp add: json_moves_refl)
  next
    case False
    then show ?thesis
      by (subst json_consume_whitespace_eq) (simp add: json_moves_err json_moves_fail)
  qed
qed

text \<open>The strings read contain no NUL.\<close>

lemma json_unescape_nonzero: "json_unescape e = Some u \<Longrightarrow> u \<noteq> CHR 0x00"
  by (auto simp: json_unescape_def split: if_splits)

lemma not_control_nonzero: "\<not> (of_char c :: nat) \<le> 0x1f \<Longrightarrow> c \<noteq> CHR 0x00"
  by (cases "c = CHR 0x00") auto

abbreviation nonul :: "string \<Rightarrow> bool" where
  "nonul s \<equiv> CHR 0x00 \<notin> set s"

lemma json_next_eq:
  "json_next st =
     (if js_offset st \<ge> length (js_data st) then (None, st\<lparr>js_errno := JSON_ERR_EOF\<rparr>)
      else (Some (js_data st ! js_offset st), json_skip st))"
  by (simp add: json_next_def json_next_byte_def)

lemma json_string_loop_moves: "nonul tmp \<Longrightarrow> json_moves (\<lambda>s _. nonul s) st (json_string_loop tmp st)"
proof (induction st arbitrary: tmp rule: json_state_induct)
  case (step st)
  show ?case
  proof (cases "js_offset st < length (js_data st)")
    case off: True
    let ?c = "js_data st ! js_offset st" and ?st1 = "json_skip st"
    have esc: "json_moves (\<lambda>s _. nonul s) ?st1
       (case json_next ?st1 of
          (None, st2) \<Rightarrow> (None, st2)
        | (Some e, st2) \<Rightarrow> (case json_unescape e of
             None \<Rightarrow> (None, st2) | Some u \<Rightarrow> json_string_loop (tmp @ [u]) st2))"
    proof (cases "js_offset ?st1 < length (js_data ?st1)")
      case True
      have "json_moves (\<lambda>s _. nonul s) ?st1 (json_string_loop (tmp @ [u]) (json_skip ?st1))"
        if "json_unescape e = Some u" for e u
        using json_skip_less [OF True] json_skip_less [OF off] step.prems json_unescape_nonzero [OF that]
        by (intro json_moves_skip [OF True step.IH]) auto
      then show ?thesis
        using True
        by (auto simp: json_next_eq split: option.splits)
    next
      case False
      then show ?thesis by (simp add: json_next_eq json_moves_err json_moves_fail)
    qed
    have plain: "json_moves (\<lambda>s _. nonul s) ?st1 (json_string_loop (tmp @ [?c]) ?st1)"
      if "\<not> (of_char ?c :: nat) \<le> 0x1f"
      using not_control_nonzero [OF that] step.prems by (intro step.IH json_skip_less [OF off]) auto
    show ?thesis
      using off step.prems json_moves_skip [OF off esc] json_moves_skip [OF off plain]
        json_moves_skip [OF off json_moves_refl [of  \<open>\<lambda>s _. nonul s\<close> tmp]]
      by (subst json_string_loop.simps) (simp add: json_next_eq [of st])
  next
    case False
    then show ?thesis
      by (subst json_string_loop.simps) (simp add: json_next_eq json_moves_err json_moves_fail)
  qed
qed

lemma json_moves_default:
  assumes "json_moves Q st x"
  shows "json_moves Q st
    (let (res, st') = x in (res, if res = None then json_err_default e st' else st'))"
proof (cases x)
  case (Pair r st')
  then show ?thesis using assms by (cases r) (simp_all add: json_moves_err)
qed

lemma json_get_string_moves: "json_moves (\<lambda>s _. nonul s) st (json_get_string st)"
proof -
  define x where "x = (case json_next st of
           (None, st1) \<Rightarrow> (None, st1)
         | (Some ch, st1) \<Rightarrow> if ch \<noteq> CHR 0x22 then (None, st1) else json_string_loop [] st1)"
  have "json_moves (\<lambda>s _. nonul s) st x"
  proof (cases "js_offset st < length (js_data st)")
    case True
    have "json_moves (\<lambda>s _. nonul s) st (json_string_loop [] (json_skip st))"
      by (rule json_moves_skip [OF True json_string_loop_moves]) simp
    then show ?thesis
      using True by (simp add: x_def json_next_eq)
  next
    case False
    then show ?thesis by (simp add: x_def json_next_eq json_moves_err json_moves_fail)
  qed
  then show ?thesis
    unfolding json_get_string_def x_def by (rule json_moves_default)
qed

lemma json_number_loop_moves: "json_moves (\<lambda>_ _. True) st (json_number_loop tmp i u st)"
proof (induction st arbitrary: tmp i u rule: json_state_induct)
  case (step st)
  show ?case
  proof (cases "js_offset st < length (js_data st)")
    case True
    have "json_moves (\<lambda>_ _. True) st (json_number_loop tmp' i' u' (json_skip st))" for tmp' i' u'
      by (rule json_moves_skip [OF True step [OF json_skip_less [OF True]]])
    then show ?thesis
      using True
      by (subst json_number_loop.simps)
        (auto simp: json_peek_def json_next_byte_def json_moves_refl json_moves_fail)
  next
    case False
    then show ?thesis
      by (subst json_number_loop.simps)
        (simp add: json_peek_def json_next_byte_def json_moves_def)
  qed
qed

lemma json_number_value_moves:
  "json_moves (\<lambda>d _. json_tree n d) st (json_number_value ops str i u st)"
  by (auto simp: json_number_value_def json_moves_def split: prod.splits)

lemma json_parse_number_moves: "json_moves (\<lambda>d _. json_tree n d) st (json_parse_number ops st)"
proof -
  define x where "x = (case json_number_loop [] True True st of
           (None, st1) \<Rightarrow> (None, st1)
         | (Some (str, int_ok, u64_ok), st1) \<Rightarrow> json_number_value ops str int_ok u64_ok st1)"
  have "json_moves (\<lambda>d _. json_tree n d) st x"
    using json_number_loop_moves [of st "[]" True True] unfolding x_def
    by (auto split: prod.splits option.splits
        intro: json_moves_failed json_moves_trans [OF _ json_number_value_moves])
  then show ?thesis
    unfolding json_parse_number_def x_def by (rule json_moves_default)
qed

lemma json_expect_moves: "json_moves (\<lambda>_ _. True) st (json_expect ts st)"
proof (induction ts arbitrary: st)
  case Nil
  then show ?case by (simp add: json_moves_refl)
next
  case (Cons t ts)
  show ?case
    using Cons.IH [of "json_skip st"] json_moves_skip [OF _ Cons.IH]
    by (simp add: json_next_eq json_moves_err json_moves_fail)
qed

lemma json_parse_literal_moves: "json_moves (\<lambda>d _. json_tree n d) st (json_parse_literal st)"
proof -
  define x :: "'a json_data jres" where "x = (case json_next st of
           (None, st1) \<Rightarrow> (None, st1)
         | (Some ch, st1) \<Rightarrow>
             (case json_literal_of ch of
                None \<Rightarrow> (None, st1)
              | Some (val, tmpl) \<Rightarrow>
                  (case json_expect tmpl st1 of
                     (None, st2) \<Rightarrow> (None, st2)
                   | (Some _, st2) \<Rightarrow> (Some (JLiteral val), st2))))"
  have e: "json_moves (\<lambda>d _. json_tree n d) st1
     (case json_expect tmpl st1 of (None, st2) \<Rightarrow> (None, st2) | (Some _, st2) \<Rightarrow> (Some (JLiteral val), st2))"
    for tmpl st1 val
    using json_expect_moves [of st1 tmpl] by (auto simp: json_moves_def split: prod.splits option.splits)
  have "json_moves (\<lambda>d _. json_tree n d) st x"
    using json_moves_skip [OF _ e] unfolding x_def
    by (auto simp: json_next_eq json_moves_err json_moves_fail not_le split: option.splits)
  then show ?thesis
    unfolding json_parse_literal_def x_def by (rule json_moves_default)
qed

text \<open>One rule for each kind of step the loops take.\<close>

definition json_left :: "json_state \<Rightarrow> nat" where
  "json_left st = length (js_data st) - js_offset st"

definition json_adv :: "json_state \<Rightarrow> json_state \<Rightarrow> bool" where
  "json_adv st st' \<longleftrightarrow> js_depth st' = js_depth st \<and> json_left st' \<le> json_left st"

lemma json_adv_refl: "json_adv st st"
  by (simp add: json_adv_def)

lemma json_adv_trans: "json_adv st st' \<Longrightarrow> json_adv st' st'' \<Longrightarrow> json_adv st st''"
  by (simp add: json_adv_def)

lemma json_moves_adv: "json_moves Q st (Some a, st') \<Longrightarrow> json_adv st st' \<and> Q a st'"
  by (auto simp: json_moves_def json_adv_def json_left_def)

lemma json_adv_skip:
  "js_offset st < length (js_data st) \<Longrightarrow> json_adv st (json_skip st) \<and> json_left (json_skip st) < json_left st"
  by (auto simp: json_adv_def json_left_def json_skip_def)

lemma pmoves_ws:
  assumes "\<And>st'. json_adv st st' \<Longrightarrow> pmoves Q st' (f () st')"
  shows "pmoves Q st (jthen (json_consume_whitespace st) f)"
  by (rule pmoves_jthen [OF json_consume_whitespace_moves]) (auto intro: assms dest: json_moves_adv)

lemma pmoves_peek:
  assumes "\<And>c. js_offset st < length (js_data st) \<Longrightarrow> pmoves Q st (f c st)"
  shows "pmoves Q st (jthen (json_peek st) f)"
  by (rule pmoves_jthen [OF json_peek_moves]) (auto intro: assms simp: json_peek_Some)

lemma pmoves_next:
  assumes "\<And>c st'. json_adv st st' \<Longrightarrow> json_left st' < json_left st \<Longrightarrow> pmoves Q st' (f c st')"
  shows "pmoves Q st (jthen (json_next st) f)"
  by (rule pmoves_jthen [OF json_next_moves]) (auto simp: json_next_Some json_adv_skip intro!: assms)

lemma pmoves_string:
  assumes "\<And>s st'. json_adv st st' \<Longrightarrow> nonul s \<Longrightarrow> pmoves Q st' (f s st')"
  shows "pmoves Q st (jthen (json_get_string st) f)"
  by (rule pmoves_jthen [OF json_get_string_moves]) (auto intro!: assms dest: json_moves_adv)

lemma pmoves_call:
  assumes "pmoves P st x"
    and "\<And>a st'. json_adv st st' \<Longrightarrow> P a st' \<Longrightarrow> pmoves Q st' (f a st')"
  shows "pmoves Q st (case x of None \<Rightarrow> None | Some r \<Rightarrow> jthen r f)"
proof -
  obtain r where r: "x = Some r" "json_moves P st r" using assms(1) by (auto simp: pmoves_def)
  have "pmoves Q st (jthen r f)"
    by (rule pmoves_jthen [OF r(2)]) (auto intro!: assms(2) dest: json_moves_adv)
  then show ?thesis using r by simp
qed

text \<open>What the loops need of the value parser: it works with less text left than \<open>m\<close>.\<close>

definition pv_ok ::
  "(json_type \<Rightarrow> json_state \<Rightarrow> 'd json_data jres option) \<Rightarrow> nat \<Rightarrow> nat \<Rightarrow> nat \<Rightarrow> bool" where
  "pv_ok pv n depth m \<longleftrightarrow>
     (\<forall>ty st. js_depth st = depth \<longrightarrow> json_left st < m \<longrightarrow> pmoves (\<lambda>d _. json_tree n d) st (pv ty st))"

definition step_ok :: "bool \<Rightarrow> nat \<Rightarrow> json_state \<Rightarrow> 'd json_item list \<times> bool \<Rightarrow> json_state \<Rightarrow> bool" where
  "step_ok named n st0 r st' \<longleftrightarrow>
     json_children named n (fst r) \<and> (snd r \<longrightarrow> json_left st' < json_left st0)"

lemma json_children_snoc [simp]:
  "json_children named n (xs @ [JItem nm d]) =
     (json_children named n xs \<and> (case nm of None \<Rightarrow> \<not> named | Some s \<Rightarrow> named \<and> nonul s) \<and> json_tree n d)"
proof (induction xs)
  case Nil
  then show ?case by simp
next
  case (Cons x xs)
  then show ?case by (cases x) auto
qed

lemma pmoves_fail [simp]: "pmoves Q st (Some (None, st))"
  by (simp add: json_moves_fail)

lemma pmoves_ok: "Q a st \<Longrightarrow> pmoves Q st (Some (Some a, st))"
  by (simp add: json_moves_refl)

lemma pmoves_guess:
  "(\<And>ty. pmoves Q st (f ty)) \<Longrightarrow> pmoves Q st (case x of None \<Rightarrow> Some (None, st) | Some ty \<Rightarrow> f ty)"
  by (cases x) (simp_all add: json_moves_fail)

lemma json_array_step_ok:
  assumes pv: "pv_ok pv n (js_depth st) m" and m: "json_left st < m"
    and items: "json_children False n items"
  shows "pmoves (step_ok False n st) st (json_array_step pv hasnext items st)"
  unfolding json_array_step_def
proof (intro pmoves_ws pmoves_peek, goal_cases)
  case (1 st1 ch)
  have call: "pmoves (\<lambda>d _. json_tree n d) st1 (pv ty st1)" for ty
    using pv m 1 by (simp add: pv_ok_def json_adv_def)
  have skip: "pmoves (step_ok False n st) st1 (Some (Some (items, False), json_skip st1))"
    using 1 items by (simp add: json_skip_moves step_ok_def)
  have rest: "pmoves (step_ok False n st) st1
     (case pv ty st1 of None \<Rightarrow> None
      | Some r \<Rightarrow> jthen r (\<lambda>d st3.
          jthen (json_consume_whitespace st3) (\<lambda>_ st4.
          jthen (json_next st4) (\<lambda>ch st5.
            if ch = CHR '','' then Some (Some (items @ [JItem None d], True), st5)
            else if ch = CHR '']'' then Some (Some (items @ [JItem None d], False), st5)
            else Some (None, st5)))))" for ty
    using 1 items
    by (intro pmoves_call [OF call] pmoves_ws pmoves_next)
      (auto intro!: pmoves_ok simp del: pmoves_Some simp: step_ok_def json_adv_def)
  show ?case
    using skip rest by (simp add: json_moves_err json_moves_fail split: option.split)
qed

lemma json_object_step_ok:
  assumes pv: "pv_ok pv n (js_depth st) m" and m: "json_left st < m"
    and items: "json_children True n items"
  shows "pmoves (step_ok True n st) st (json_object_step pv hasnext items st)"
  unfolding json_object_step_def
proof (intro pmoves_ws pmoves_peek, goal_cases)
  case (1 st1 ch)
  have skip: "pmoves (step_ok True n st) st1 (Some (Some (items, False), json_skip st1))"
    using 1 items by (simp add: json_skip_moves step_ok_def)
  have call: "pmoves (\<lambda>d _. json_tree n d) st7 (pv ty st7)" if "json_adv st st7" for ty st7
    using pv m that by (simp add: pv_ok_def json_adv_def)
  have rest: "pmoves (step_ok True n st) st7
     (case pv ty st7 of None \<Rightarrow> None
      | Some r \<Rightarrow> jthen r (\<lambda>d st8.
          jthen (json_consume_whitespace st8) (\<lambda>_ st9.
          jthen (json_next st9) (\<lambda>ch st10.
            if ch = CHR '','' then Some (Some (items @ [JItem (Some key) d], True), st10)
            else if ch = CHR ''}'' then Some (Some (items @ [JItem (Some key) d], False), st10)
            else Some (None, st10)))))" if "json_adv st st7" "nonul key" for ty st7 key
    using that items
    by (intro pmoves_call [OF call] pmoves_ws pmoves_next)
      (auto intro!: pmoves_ok simp del: pmoves_Some simp: step_ok_def json_adv_def)
  have key: "pmoves (step_ok True n st) st1
     (jthen (json_get_string st1) (\<lambda>key st3.
         jthen (json_consume_whitespace st3) (\<lambda>_ st4.
         jthen (json_next st4) (\<lambda>colon st5.
           if colon \<noteq> CHR '':'' then Some (None, st5)
           else jthen (json_consume_whitespace st5) (\<lambda>_ st6.
             jthen (json_peek st6) (\<lambda>ch st7.
               case json_guess_type ch of
                 None \<Rightarrow> Some (None, st7)
               | Some ty \<Rightarrow>
                   (case pv ty st7 of
                      None \<Rightarrow> None
                    | Some r \<Rightarrow>
                        jthen r (\<lambda>d st8.
                        jthen (json_consume_whitespace st8) (\<lambda>_ st9.
                        jthen (json_next st9) (\<lambda>ch st10.
                          if ch = CHR '','' then Some (Some (items @ [JItem (Some key) d], True), st10)
                          else if ch = CHR ''}''
                          then Some (Some (items @ [JItem (Some key) d], False), st10)
                          else Some (None, st10)))))))))))"
  proof (intro pmoves_string pmoves_ws pmoves_next, goal_cases)
    case (1 key st3 st4 colon st5)
    have "json_adv st st5"
      using 1 \<open>json_adv st st1\<close> by (blast intro: json_adv_trans)
    then show ?case
      using 1 by (auto simp del: pmoves_Some intro!: pmoves_ws pmoves_peek pmoves_guess rest
          intro: json_adv_trans)
  qed
  show ?case
    using skip key by (simp add: json_moves_err json_moves_fail)
qed

lemma json_array_loop_ok:
  "json_left st < m \<Longrightarrow> json_left st < f \<Longrightarrow> pv_ok pv n (js_depth st) m \<Longrightarrow> json_children False n items \<Longrightarrow>
     pmoves (\<lambda>xs _. json_children False n xs) st (json_array_loop pv f hasnext items st)"
proof (induction f arbitrary: hasnext items st)
  case 0
  then show ?case by simp
next
  case (Suc f)
  show ?case
    using Suc.prems unfolding json_array_loop.simps
    by (intro pmoves_call [OF json_array_step_ok])
      (auto simp: step_ok_def json_adv_def simp del: pmoves_Some intro!: Suc.IH pmoves_ok split: prod.split)
qed

lemma json_object_loop_ok:
  "json_left st < m \<Longrightarrow> json_left st < f \<Longrightarrow> pv_ok pv n (js_depth st) m \<Longrightarrow> json_children True n items \<Longrightarrow>
     pmoves (\<lambda>xs _. json_children True n xs) st (json_object_loop pv f hasnext items st)"
proof (induction f arbitrary: hasnext items st)
  case 0
  then show ?case by simp
next
  case (Suc f)
  show ?case
    using Suc.prems unfolding json_object_loop.simps
    by (intro pmoves_call [OF json_object_step_ok])
      (auto simp: step_ok_def json_adv_def simp del: pmoves_Some intro!: Suc.IH pmoves_ok split: prod.split)
qed

lemma json_cleanup_moves:
  assumes "pmoves P (st\<lparr>js_depth := Suc (js_depth st)\<rparr>) x"
    and "\<And>a st'. P a st' \<Longrightarrow> Q (wrap a)"
  shows "pmoves (\<lambda>d _. Q d) st (map_option (json_cleanup e wrap) x)"
proof -
  obtain r st' where r: "x = Some (r, st')" "json_moves P (st\<lparr>js_depth := Suc (js_depth st)\<rparr>) (r, st')"
    using assms(1) by (auto simp: pmoves_def)
  then show ?thesis
    using assms(2) by (cases r) (auto simp: json_cleanup_def json_moves_def json_err_default_def)
qed

lemma json_parse_array_ok:
  assumes "\<And>depth. pv_ok pv (dmax - depth) depth (json_left st)" "json_left st \<le> f"
  shows "pmoves (\<lambda>d _. json_tree (dmax - js_depth st) d) st (json_parse_array pv dmax f st)"
proof (cases "dmax \<le> js_depth st")
  case True
  then show ?thesis by (simp add: json_parse_array_def json_moves_def)
next
  case False
  let ?st = "st\<lparr>js_depth := Suc (js_depth st)\<rparr>"
  have left: "json_left ?st = json_left st" by (simp add: json_left_def)
  have "pmoves (\<lambda>xs _. json_children False (dmax - Suc (js_depth st)) xs) ?st
     (jthen (json_next ?st) (\<lambda>ch st1.
        if ch \<noteq> CHR ''['' then Some (None, st1) else json_array_loop pv f False [] st1))"
    using assms left
    by (intro pmoves_next) (auto simp: json_adv_def simp del: pmoves_Some
        intro!: json_array_loop_ok [where m = "json_left st"])
  from json_cleanup_moves [OF this, where Q = "json_tree (dmax - js_depth st)" and wrap = JArray]
  show ?thesis
    using False by (simp add: json_parse_array_def)
qed

lemma json_parse_object_ok:
  assumes "\<And>depth. pv_ok pv (dmax - depth) depth (json_left st)" "json_left st \<le> f"
  shows "pmoves (\<lambda>d _. json_tree (dmax - js_depth st) d) st (json_parse_object pv dmax f st)"
proof (cases "dmax \<le> js_depth st")
  case True
  then show ?thesis by (simp add: json_parse_object_def json_moves_def)
next
  case False
  let ?st = "st\<lparr>js_depth := Suc (js_depth st)\<rparr>"
  have left: "json_left ?st = json_left st" by (simp add: json_left_def)
  have "pmoves (\<lambda>xs _. json_children True (dmax - Suc (js_depth st)) xs) ?st
     (jthen (json_next ?st) (\<lambda>ch st1.
        if ch \<noteq> CHR ''{'' then Some (None, st1) else json_object_loop pv f False [] st1))"
    using assms left
    by (intro pmoves_next) (auto simp: json_adv_def simp del: pmoves_Some
        intro!: json_object_loop_ok [where m = "json_left st"])
  from json_cleanup_moves [OF this, where Q = "json_tree (dmax - js_depth st)" and wrap = JObject]
  show ?thesis
    using False by (simp add: json_parse_object_def)
qed

lemma json_parse_string_moves: "json_moves (\<lambda>d _. json_tree n d) st (json_parse_string st)"
  using json_get_string_moves [of st]
  by (auto simp: json_parse_string_def json_moves_def split: prod.splits option.splits)

lemma json_parse_ok:
  "json_left st < f \<Longrightarrow>
     pmoves (\<lambda>d _. json_tree (dmax - js_depth st) d) st (json_parse ops dmax f ty st)"
proof (induction f arbitrary: ty st)
  case 0
  then show ?case by simp
next
  case (Suc f)
  have pv: "pv_ok (json_parse ops dmax f) (dmax - depth) depth (json_left st)" for depth
    unfolding pv_ok_def
  proof (intro allI impI)
    fix ty and st' :: json_state
    assume "js_depth st' = depth" "json_left st' < json_left st"
    then show "pmoves (\<lambda>d _. json_tree (dmax - depth) d) st' (json_parse ops dmax f ty st')"
      using Suc.IH [of st' ty] Suc.prems by simp
  qed
  have le: "json_left st \<le> f" using Suc.prems by simp
  show ?case
    using json_parse_object_ok [OF pv le] json_parse_array_ok [OF pv le]
    by (cases ty)
      (simp_all add: json_parse_string_moves json_parse_literal_moves json_parse_number_moves)
qed

text \<open>What a call of \<open>kore_json_parse\<close> on a fresh reader leaves behind.\<close>

definition json_parsed :: "nat \<Rightarrow> string \<Rightarrow> bool \<Rightarrow> 'd kore_json \<Rightarrow> bool" where
  "json_parsed dmax data ok json' \<longleftrightarrow>
     js_data (kj_state json') = data \<and> js_offset (kj_state json') \<le> length data \<and>
     (if ok then js_offset (kj_state json') = length data \<and>
                 (\<exists>d. kj_root json' = Root (JItem None d) \<and> json_tree dmax d)
      else js_errno (kj_state json') \<noteq> JSON_ERR_NONE)"

lemma json_consume_whitespace_keeps:
  "json_consume_whitespace st = (r, st') \<Longrightarrow>
     js_data st' = js_data st \<and> js_depth st' = js_depth st \<and> js_offset st \<le> js_offset st' \<and>
     (js_offset st \<le> length (js_data st) \<longrightarrow> js_offset st' \<le> length (js_data st))"
proof (induction st rule: json_state_induct)
  case (step st)
  show ?case
  proof (cases "js_offset st < length (js_data st) \<and> json_ws (js_data st ! js_offset st)")
    case True
    then have "json_consume_whitespace (json_skip st) = (r, st')"
      using step.prems by (subst (asm) json_consume_whitespace_eq) simp
    from step.IH [OF json_skip_less this] True show ?thesis by (simp add: json_skip_def)
  next
    case False
    then show ?thesis
      using step.prems by (subst (asm) json_consume_whitespace_eq) (auto split: if_splits)
  qed
qed

section \<open>Text of a tree\<close>

fun json_text :: "'d double_ops \<Rightarrow> 'd json_item \<Rightarrow> string"
and json_body :: "'d double_ops \<Rightarrow> 'd json_data \<Rightarrow> string"
and json_items_text :: "'d double_ops \<Rightarrow> 'd json_item list \<Rightarrow> string"
where
  "json_text ops (JItem name d) =
     (case name of None \<Rightarrow> [] | Some n \<Rightarrow> CHR 0x22 # n @ [CHR 0x22, CHR '':'']) @ json_body ops d"
| "json_body ops (JObject xs) = ''{'' @ json_items_text ops xs @ ''}''"
| "json_body ops (JArray xs) = ''['' @ json_items_text ops xs @ '']''"
| "json_body ops (JString s) = CHR 0x22 # s @ [CHR 0x22]"
| "json_body ops (JNumber x) = dbl_str ops x"
| "json_body ops (JInteger w) = int_str (sint w)"
| "json_body ops (JU64 w) = nat_str (unat w)"
| "json_body ops (JLiteral l) = json_lit_text l"
| "json_items_text ops [] = []"
| "json_items_text ops (x # xs) =
     json_text ops x @ (if xs = [] then [] else '','') @ json_items_text ops xs"

lemma tobuf_writes:
  "kb.writes (kore_json_item_tobuf ops it) (json_text ops it)"
  "kb.writes (json_data_tobuf ops d) (json_body ops d)"
  "kb.writes (json_items_tobuf ops its) (json_items_text ops its)"
proof (induction ops it and ops d and ops its
    rule: json_text_json_body_json_items_text.induct)
  case (1 ops name d)
  show ?case
    using kb.writes_bind [OF kb.writes_nothing 1] 
      kb.writes_bind [OF kb.writes_append [of "CHR 0x22 # the name @ [CHR 0x22, CHR '':'']"] 1]
    by (cases name) simp_all
next
  case (2 ops xs)
  show ?case
    using kb.writes_bind [OF kb.writes_append [of "''{''"] kb.writes_bind [OF 2 kb.writes_append [of "''}''"]]] by simp
next
  case (3 ops xs)
  show ?case
    using kb.writes_bind [OF kb.writes_append [of "''[''"] kb.writes_bind [OF 3 kb.writes_append [of "'']''"]]] by simp
next
  case (10 ops x xs)
  show ?case
    using kb.writes_bind [OF 10(1) kb.writes_bind [OF kb.writes_nothing 10(2)]]
      kb.writes_bind [OF 10(1) kb.writes_bind [OF kb.writes_append [of "'',''"] 10(2)]]
    by (cases "xs = []") simp_all
qed (simp_all add: kb.writes_append kb.writes_nothing)

section \<open>Reading back what was written\<close>

text \<open>
  What the reader makes of the contents of a quoted string, and of the text of a tree.  \<open>None\<close>
  where it does not read the text back: a quote, a control character or an unknown escape in a
  string, a floating point number (which depends on the C library), and the two integers at the
  ends of the ranges, which \<open>kore_strtonum64\<close> refuses.
\<close>

fun json_decode :: "string \<Rightarrow> string option" where
  "json_decode [] = Some []"
| "json_decode (c # cs) =
     (if c = CHR 0x22 \<or> (of_char c :: nat) \<le> 0x1f then None
      else if c = CHR 0x5C
      then (case cs of
              [] \<Rightarrow> None
            | e # cs' \<Rightarrow>
                (case json_unescape e of
                   None \<Rightarrow> None
                 | Some u \<Rightarrow> map_option ((#) u) (json_decode cs')))
      else map_option ((#) c) (json_decode cs))"

fun json_reads :: "'d json_data \<Rightarrow> 'd json_data option"
and json_reads_items :: "bool \<Rightarrow> 'd json_item list \<Rightarrow> 'd json_item list option"
where
  "json_reads (JObject xs) = map_option JObject (json_reads_items True xs)"
| "json_reads (JArray xs) = map_option JArray (json_reads_items False xs)"
| "json_reads (JString s) = map_option JString (json_decode s)"
| "json_reads (JNumber x) = None"
| "json_reads (JInteger w) = (if sint w = LLONG_MIN then None else Some (JInteger w))"
| "json_reads (JU64 w) =
     (if unat w \<le> 9223372036854775807 then Some (JInteger w)
      else if unat w < 18446744073709551615 then Some (JU64 w) else None)"
| "json_reads (JLiteral l) = Some (JLiteral l)"
| "json_reads_items named [] = Some []"
| "json_reads_items named (JItem nm d # xs) =
     (case (case nm of None \<Rightarrow> if named then None else Some None
                     | Some n \<Rightarrow> if named then map_option Some (json_decode n) else None) of
        None \<Rightarrow> None
      | Some nm' \<Rightarrow>
          (case json_reads d of
             None \<Rightarrow> None
           | Some d' \<Rightarrow> map_option ((#) (JItem nm' d')) (json_reads_items named xs)))"

definition json_at :: "json_state \<Rightarrow> string \<Rightarrow> bool" where
  "json_at st xs \<longleftrightarrow> js_offset st \<le> length (js_data st) \<and> json_rest st = xs"

lemma json_at_Cons:
  assumes "json_at st (c # cs)"
  shows "js_offset st < length (js_data st)" "js_data st ! js_offset st = c" "json_at (json_skip st) cs"
proof -
  have d: "drop (js_offset st) (js_data st) = c # cs"
    using assms by (simp add: json_at_def json_rest_def)
  show lt: "js_offset st < length (js_data st)"
    using d by (metis drop_all list.distinct(1) not_le)
  show "js_data st ! js_offset st = c"
    using d lt by (metis hd_drop_conv_nth list.sel(1))
  show "json_at (json_skip st) cs"
    using d lt by (simp add: json_at_def json_rest_def json_skip_def) (metis drop_Suc list.sel(3) tl_drop)
qed

lemma json_at_left: "json_at st xs \<Longrightarrow> json_left st = length xs"
  by (auto simp: json_at_def json_rest_def json_left_def)

lemma json_next_at: "json_at st (c # cs) \<Longrightarrow> json_next st = (Some c, json_skip st)"
  and json_peek_at: "json_at st (c # cs) \<Longrightarrow> json_peek st = (Some c, st)"
  by (auto dest: json_at_Cons simp: json_next_eq json_peek_def json_next_byte_def)

lemma json_ws_at: "json_at st (c # cs) \<Longrightarrow> \<not> json_ws c \<Longrightarrow> json_consume_whitespace st = (Some (), st)"
  by (auto dest: json_at_Cons simp: json_consume_whitespace_eq [of st])

lemma json_skip_depth [simp]: "js_depth (json_skip st) = js_depth st"
  by (simp add: json_skip_def)

lemma json_string_loop_at:
  "json_decode t = Some s \<Longrightarrow> json_at st (t @ CHR 0x22 # r) \<Longrightarrow>
     \<exists>st'. json_string_loop tmp st = (Some (tmp @ s), st') \<and> json_at st' r \<and> js_depth st' = js_depth st"
proof (induction t arbitrary: s st tmp rule: json_decode.induct)
  case 1
  then show ?case
    using json_at_Cons [of st] by (subst json_string_loop.simps) (simp add: json_next_at)
next
  case (2 c cs)
  have nx: "json_next st = (Some c, json_skip st)" and at: "json_at (json_skip st) (cs @ CHR 0x22 # r)"
    using 2(4) json_next_at json_at_Cons(3) by auto
  have c: "c \<noteq> CHR 0x22" "\<not> (of_char c :: nat) \<le> 0x1f"
    using "2.prems"(1) by (auto split: if_splits)
  show ?case
  proof (cases "c = CHR 0x5C")
    case True
    then obtain e cs' u s' where e: "cs = e # cs'" "json_unescape e = Some u" "json_decode cs' = Some s'" "s = u # s'"
      using "2.prems"(1) c by (auto split: list.splits option.splits)
    have nx2: "json_next (json_skip st) = (Some e, json_skip (json_skip st))"
      and at2: "json_at (json_skip (json_skip st)) (cs' @ CHR 0x22 # r)"
      using at e json_next_at json_at_Cons(3) by auto
    from "2.IH"(1) [OF _ True e(1,2,3) at2, of "tmp @ [u]"] c show ?thesis
      using nx nx2 e True by (subst json_string_loop.simps) simp
  next
    case False
    then obtain s' where s': "json_decode cs = Some s'" "s = c # s'"
      using "2.prems"(1) c by auto
    from "2.IH"(2) [OF _ False s'(1) at, of "tmp @ [c]"] c show ?thesis
      using nx s' False by (subst json_string_loop.simps) simp
  qed
qed

lemma json_get_string_at:
  assumes "json_decode t = Some s" "json_at st (CHR 0x22 # t @ CHR 0x22 # r)"
  shows "\<exists>st'. json_get_string st = (Some s, st') \<and> json_at st' r \<and> js_depth st' = js_depth st"
  using json_string_loop_at [OF assms(1) json_at_Cons(3) [OF assms(2)], of "[]"] json_next_at [OF assms(2)]
  by (auto simp: json_get_string_def)

text \<open>What follows a value: the end of the text, a comma or a closing bracket.\<close>

definition json_end :: "string \<Rightarrow> bool" where
  "json_end r \<longleftrightarrow> (case r of [] \<Rightarrow> True | c # _ \<Rightarrow> c = CHR '','' \<or> c = CHR '']'' \<or> c = CHR ''}'')"

lemma json_at_Nil: "json_at st [] \<Longrightarrow> json_peek st = (None, st\<lparr>js_errno := JSON_ERR_EOF\<rparr>)"
  by (auto simp: json_at_def json_rest_def json_peek_def json_next_byte_def)

lemma json_at_errno [simp]:
  "json_at (st\<lparr>js_errno := e\<rparr>) xs = json_at st xs" "json_at (st\<lparr>js_cerrno := ce\<rparr>) xs = json_at st xs"
  "json_at (st\<lparr>js_depth := n\<rparr>) xs = json_at st xs"
  by (simp_all add: json_at_def json_rest_def)

lemma digit_not_special: "is_digit 10 c \<Longrightarrow> c \<noteq> CHR ''e'' \<and> c \<noteq> CHR ''E'' \<and> c \<noteq> CHR ''.'' \<and> c \<noteq> CHR ''-''"
  by (auto simp: is_digit_10_iff)

lemma json_number_loop_digits:
  "(\<And>c. c \<in> set ds \<Longrightarrow> is_digit 10 c) \<Longrightarrow> json_at st (ds @ r) \<Longrightarrow> json_end r \<Longrightarrow>
     \<exists>st'. json_number_loop tmp i u st = (Some (tmp @ ds, i, u), st') \<and> json_at st' r \<and>
           js_depth st' = js_depth st"
proof (induction ds arbitrary: tmp st)
  case Nil
  show ?case
  proof (cases r)
    case Nil
    then show ?thesis
      using Nil.prems by (subst json_number_loop.simps) (simp add: json_at_Nil)
  next
    case (Cons c cs)
    then have "c = CHR '','' \<or> c = CHR '']'' \<or> c = CHR ''}''"
      using Nil.prems(3) by (simp add: json_end_def)
    then have "\<not> is_digit 10 c \<and> c \<noteq> CHR ''+'' \<and> c \<noteq> CHR ''e'' \<and> c \<noteq> CHR ''E'' \<and> c \<noteq> CHR ''.'' \<and> c \<noteq> CHR ''-''"
      by (auto simp: is_digit_10_iff)
    then show ?thesis
      using Nil.prems Cons by (subst json_number_loop.simps) (simp add: json_peek_at)
  qed
next
  case (Cons d ds)
  have d: "is_digit 10 d" using Cons.prems(1) by simp
  have at: "json_at st (d # (ds @ r))" using Cons.prems(2) by simp
  from Cons.IH [OF Cons.prems(1) json_at_Cons(3) [OF at] Cons.prems(3), of "tmp @ [d]"] show ?case
    using d digit_not_special [OF d] json_peek_at [OF at]
    by (subst json_number_loop.simps) simp
qed

lemma json_number_loop_int:
  assumes "json_at st (int_str i @ r)" "json_end r"
  shows "\<exists>st'. json_number_loop [] True True st = (Some (int_str i, True, 0 \<le> i), st') \<and> json_at st' r \<and>
           js_depth st' = js_depth st"
proof (cases "i < 0")
  case True
  let ?ds = "nat_str (nat (- i))"
  have at: "json_at st (CHR ''-'' # (?ds @ r))" using assms True by (simp add: int_str_def)
  from json_number_loop_digits [OF nat_str_digits json_at_Cons(3) [OF at] assms(2), where tmp = "''-''" and i = True and u = False]
  show ?thesis
    using True json_peek_at [OF at]
    by (subst json_number_loop.simps) (simp add: int_str_def)
next
  case False
  have "json_at st (nat_str (nat i) @ r)" using assms False by (simp add: int_str_def)
  from json_number_loop_digits [OF nat_str_digits this assms(2), where tmp = "[]" and i = True and u = True]
  show ?thesis using False by (simp add: int_str_def)
qed

lemma kore_strtonum64_signed:
  assumes "LLONG_MIN < i" "i < 0"
  shows "\<exists>e. kore_strtonum64 e0 (int_str i) True = (e, Some (word_of_int i))"
  using assms by (simp add: kore_strtonum64_def strtoll_int_str Let_def)

lemma kore_strtonum64_unsigned:
  assumes "n < 18446744073709551615"
  shows "\<exists>e. kore_strtonum64 e0 (nat_str n) False = (e, Some (of_nat n))"
proof -
  have u: "strtoull 10 (nat_str n) = (int n, length (nat_str n), False)"
    using assms by (simp add: strtoull_def strto_parse_nat_str)
  obtain ll k er where s: "strtoll 10 (nat_str n) = (ll, k, er)" by (cases "strtoll 10 (nat_str n)")
  then have "0 \<le> ll" by (auto simp: strtoll_def strto_parse_nat_str split: if_splits)
  then show ?thesis
    using assms by (simp add: kore_strtonum64_def u s Let_def)
qed

lemma json_parse_number_int:
  assumes "json_at st (int_str i @ r)" "json_end r" "LLONG_MIN < i" "i < 18446744073709551615"
  shows "\<exists>st'. json_parse_number ops st =
      (Some (if i \<le> 9223372036854775807 then JInteger (word_of_int i) else JU64 (word_of_int i)), st') \<and>
     json_at st' r \<and> js_depth st' = js_depth st"
proof -
  obtain st1 where l: "json_number_loop [] True True st = (Some (int_str i, True, 0 \<le> i), st1)"
    "json_at st1 r" "js_depth st1 = js_depth st"
    using json_number_loop_int [OF assms(1,2)] by blast
  show ?thesis
  proof (cases "0 \<le> i")
    case True
    then have n: "nat i < 18446744073709551615" and istr: "int_str i = nat_str (nat i)"
      using assms by (simp_all add: int_str_def)
    obtain e where e: "kore_strtonum64 (js_cerrno st1) (nat_str (nat i)) False = (e, Some (of_nat (nat i)))"
      using kore_strtonum64_unsigned [OF n] by blast
    have w: "(of_nat (nat i) :: 64 word) = word_of_int i"
      using True by (simp add: word_of_int_nat [symmetric])
    have "unat (of_nat (nat i) :: 64 word) = nat i"
      using n by (simp add: unat_of_nat)
    then show ?thesis
      using l e True istr w by (auto simp: json_parse_number_def json_number_value_def Let_def)
  next
    case False
    then obtain e where "kore_strtonum64 (js_cerrno st1) (int_str i) True = (e, Some (word_of_int i))"
      using kore_strtonum64_signed [of i "js_cerrno st1"] assms by auto
    then show ?thesis
      using l False by (auto simp: json_parse_number_def json_number_value_def Let_def)
  qed
qed

lemma json_expect_at:
  "json_at st (ts @ r) \<Longrightarrow>
     \<exists>st'. json_expect ts st = (Some (), st') \<and> json_at st' r \<and> js_depth st' = js_depth st"
proof (induction ts arbitrary: st)
  case Nil
  then show ?case by simp
next
  case (Cons t ts)
  then have at: "json_at st (t # (ts @ r))" by simp
  from Cons.IH [OF json_at_Cons(3) [OF at]] show ?case
    by (simp add: json_next_at [OF at])
qed

lemma json_parse_literal_at:
  assumes "json_at st (json_lit_text l @ r)"
  shows "\<exists>st'. json_parse_literal st = (Some (JLiteral l), st') \<and> json_at st' r \<and> js_depth st' = js_depth st"
proof -
  obtain c t where t: "json_lit_text l = c # t" "json_literal_of c = Some (l, t)"
    by (cases l) (simp_all add: json_literal_of_def)
  then have at: "json_at st (c # (t @ r))" using assms by simp
  from json_expect_at [OF json_at_Cons(3) [OF at]] show ?thesis
    using t by (auto simp: json_parse_literal_def json_next_at [OF at])
qed

definition json_body_reads :: "'d double_ops \<Rightarrow> nat \<Rightarrow> 'd json_data \<Rightarrow> 'd json_data \<Rightarrow> bool" where
  "json_body_reads ops dmax d d' \<longleftrightarrow>
     (\<exists>c cs ty. json_body ops d = c # cs \<and> \<not> json_ws c \<and> c \<noteq> CHR '']'' \<and> json_guess_type c = Some ty \<and>
        (\<forall>f st r. json_at st (json_body ops d @ r) \<longrightarrow> json_end r \<longrightarrow>
           json_tree (dmax - js_depth st) d' \<longrightarrow> json_left st < f \<longrightarrow>
           (\<exists>st'. json_parse ops dmax f ty st = Some (Some d', st') \<and> json_at st' r \<and>
                  js_depth st' = js_depth st)))"

lemma json_body_readsI:
  assumes "json_body ops d = c # cs" "\<not> json_ws c" "c \<noteq> CHR '']''" "json_guess_type c = Some ty"
    and "\<And>f st r. json_at st (c # cs @ r) \<Longrightarrow> json_end r \<Longrightarrow> json_tree (dmax - js_depth st) d' \<Longrightarrow>
           json_left st \<le> f \<Longrightarrow>
           \<exists>st'. json_parse ops dmax (Suc f) ty st = Some (Some d', st') \<and> json_at st' r \<and>
                 js_depth st' = js_depth st"
  shows "json_body_reads ops dmax d d'"
  unfolding json_body_reads_def
proof (rule exI [of _ c], rule exI [of _ cs], rule exI [of _ ty], intro conjI allI impI)
  fix f st r
  assume a: "json_at st (json_body ops d @ r)" "json_end r" "json_tree (dmax - js_depth st) d'" "json_left st < f"
  from assms(5) [of st r "f - 1"] a assms(1)
  show "\<exists>st'. json_parse ops dmax f ty st = Some (Some d', st') \<and> json_at st' r \<and> js_depth st' = js_depth st"
    by (cases f) simp_all
qed (use assms in auto)

lemma jthen_Some [simp]: "jthen (Some a, st) f = f a st"
  by (simp add: jthen_def)

lemma json_not_ws [simp]:
  "\<not> json_ws (CHR ''{'')" "\<not> json_ws (CHR ''['')" "\<not> json_ws (CHR ''}'')" "\<not> json_ws (CHR '']'')"
  "\<not> json_ws (CHR 0x22)" "\<not> json_ws (CHR '','')" "\<not> json_ws (CHR '':'')"
  by (simp_all add: json_ws_def)

lemma int_str_first: "\<exists>c cs. int_str i = c # cs \<and> \<not> json_ws c \<and> c \<noteq> CHR '']'' \<and> json_guess_type c = Some TYPE_NUMBER"
proof -
  obtain c cs where c: "int_str i = c # cs" by (cases "int_str i") auto
  have "c = CHR ''-'' \<or> is_digit 10 c"
  proof (cases "i < 0")
    case True
    then show ?thesis using c by (simp add: int_str_def)
  next
    case False
    then have "c \<in> set (nat_str (nat i))" using c by (simp add: int_str_def)
    then show ?thesis using nat_str_digits by blast
  qed
  then have "\<not> json_ws c \<and> c \<noteq> CHR '']'' \<and> json_guess_type c = Some TYPE_NUMBER"
    by (auto simp: is_digit_10_iff json_ws_def json_guess_type_def)
  then show ?thesis using c by blast
qed

lemma json_body_reads_int:
  assumes "json_body ops d = int_str i" "LLONG_MIN < i" "i < 18446744073709551615"
    and "d' = (if i \<le> 9223372036854775807 then JInteger (word_of_int i) else JU64 (word_of_int i))"
  shows "json_body_reads ops dmax d d'"
proof -
  obtain c cs where c: "int_str i = c # cs" "\<not> json_ws c" "c \<noteq> CHR '']''" "json_guess_type c = Some TYPE_NUMBER"
    using int_str_first by blast
  show ?thesis
  proof (rule json_body_readsI)
    show "json_body ops d = c # cs" using assms(1) c(1) by simp
    fix f st r
    assume "json_at st (c # cs @ r)" "json_end r"
    then have "json_at st (int_str i @ r)" "json_end r" using c(1) by simp_all
    from json_parse_number_int [OF this assms(2,3), of ops]
    show "\<exists>st'. json_parse ops dmax (Suc f) TYPE_NUMBER st = Some (Some d', st') \<and> json_at st' r \<and>
        js_depth st' = js_depth st"
      using assms(4) by simp
  qed (use c in auto)
qed

text \<open>One child of an array and of an object, followed by a comma or the closing bracket.\<close>

lemma json_array_step_at:
  assumes v: "json_body_reads ops dmax d d'"
    and at: "json_at st (json_body ops d @ s # r)" "s = CHR '','' \<or> s = CHR '']''"
    and t: "json_tree (dmax - js_depth st) d'" and f: "json_left st < f"
  shows "\<exists>st'. json_array_step (json_parse ops dmax f) hasnext items st =
           Some (Some (items @ [JItem None d'], s = CHR '',''), st') \<and> json_at st' r \<and> js_depth st' = js_depth st"
proof -
  obtain c cs ty where c: "json_body ops d = c # cs" "\<not> json_ws c" "c \<noteq> CHR '']''" "json_guess_type c = Some ty"
    and p: "\<And>f st r. json_at st (json_body ops d @ r) \<Longrightarrow> json_end r \<Longrightarrow>
           json_tree (dmax - js_depth st) d' \<Longrightarrow> json_left st < f \<Longrightarrow>
           \<exists>st'. json_parse ops dmax f ty st = Some (Some d', st') \<and> json_at st' r \<and> js_depth st' = js_depth st"
    using v unfolding json_body_reads_def by blast
  have "json_end (s # r)" using at(2) by (auto simp: json_end_def)
  from p [OF at(1) this t f] obtain st1 where
    st1: "json_parse ops dmax f ty st = Some (Some d', st1)" "json_at st1 (s # r)" "js_depth st1 = js_depth st"
    by blast
  have "json_at st (c # (cs @ s # r))" using at(1) c(1) by simp
  note st = json_ws_at [OF this c(2)] json_peek_at [OF this]
  have "\<not> json_ws s" using at(2) by auto
  note st1' = json_ws_at [OF st1(2) this] json_next_at [OF st1(2)] json_at_Cons(3) [OF st1(2)]
  show ?thesis
    using at(2) c st st1 st1' by (auto simp: json_array_step_def)
qed

lemma json_object_step_at:
  assumes v: "json_body_reads ops dmax d d'" and n: "json_decode nm = Some nm'"
    and at: "json_at st (CHR 0x22 # nm @ CHR 0x22 # CHR '':'' # json_body ops d @ s # r)" "s = CHR '','' \<or> s = CHR ''}''"
    and t: "json_tree (dmax - js_depth st) d'" and f: "json_left st < f"
  shows "\<exists>st'. json_object_step (json_parse ops dmax f) hasnext items st =
           Some (Some (items @ [JItem (Some nm') d'], s = CHR '',''), st') \<and> json_at st' r \<and> js_depth st' = js_depth st"
proof -
  obtain c cs ty where c: "json_body ops d = c # cs" "\<not> json_ws c" "c \<noteq> CHR '']''" "json_guess_type c = Some ty"
    and p: "\<And>f st r. json_at st (json_body ops d @ r) \<Longrightarrow> json_end r \<Longrightarrow>
           json_tree (dmax - js_depth st) d' \<Longrightarrow> json_left st < f \<Longrightarrow>
           \<exists>st'. json_parse ops dmax f ty st = Some (Some d', st') \<and> json_at st' r \<and> js_depth st' = js_depth st"
    using v unfolding json_body_reads_def by blast
  note q = json_ws_at [OF at(1)] json_peek_at [OF at(1)]
  obtain st1 where st1: "json_get_string st = (Some nm', st1)"
    "json_at st1 (CHR '':'' # json_body ops d @ s # r)" "js_depth st1 = js_depth st"
    using json_get_string_at [OF n at(1)] by blast
  note st1' = json_ws_at [OF st1(2)] json_next_at [OF st1(2)] json_at_Cons(3) [OF st1(2)]
  let ?st2 = "json_skip st1"
  have at2: "json_at ?st2 (c # (cs @ s # r))" using st1'(3) c(1) by simp
  note st2' = json_ws_at [OF at2 c(2)] json_peek_at [OF at2]
  have "json_end (s # r)" using at(2) by (auto simp: json_end_def)
  moreover have "json_left ?st2 < f"
    using f json_at_left [OF at(1)] json_at_left [OF st1'(3)] by simp
  ultimately obtain st3 where
    st3: "json_parse ops dmax f ty ?st2 = Some (Some d', st3)" "json_at st3 (s # r)" "js_depth st3 = js_depth st"
    using p [OF st1'(3)] t st1(3) by auto
  have "\<not> json_ws s" using at(2) by auto
  note st3' = json_ws_at [OF st3(2) this] json_next_at [OF st3(2)] json_at_Cons(3) [OF st3(2)]
  show ?thesis
    using at(2) c q st1 st1' st2' st3 st3' by (auto simp: json_object_step_def)
qed

definition json_child_reads ::
  "'d double_ops \<Rightarrow> nat \<Rightarrow> bool \<Rightarrow> 'd json_item \<Rightarrow> 'd json_item \<Rightarrow> bool" where
  "json_child_reads ops dmax named x x' \<longleftrightarrow>
     json_body_reads ops dmax (item_data x) (item_data x') \<and>
     (if named then \<exists>n n'. item_name x = Some n \<and> item_name x' = Some n' \<and> json_decode n = Some n'
      else item_name x = None \<and> item_name x' = None)"

lemma json_array_loop_at:
  assumes "list_all2 (json_child_reads ops dmax False) xs xs'"
    and "json_at st (json_items_text ops xs @ CHR '']'' # r)"
    and "json_children False (dmax - js_depth st) xs'" "json_left st < f" "json_left st < f0"
    and "hasnext \<longrightarrow> xs \<noteq> []"
  shows "\<exists>st'. json_array_loop (json_parse ops dmax f0) f hasnext acc st = Some (Some (acc @ xs'), st') \<and>
           json_at st' r \<and> js_depth st' = js_depth st"
  using assms
proof (induction xs xs' arbitrary: st f hasnext acc rule: list_all2_induct)
  case Nil
  then have at: "json_at st (CHR '']'' # r)" by simp
  note q = json_ws_at [OF at] json_peek_at [OF at] json_at_Cons(3) [OF at]
  obtain f' where "f = Suc f'" using Nil.prems by (cases f) auto
  then show ?case using q Nil.prems by (simp add: json_array_step_def)
next
  case (Cons x xs x' xs')
  obtain d d' where d: "x = JItem None d" "x' = JItem None d'" "json_body_reads ops dmax d d'"
    using Cons.hyps(1) by (cases x; cases x') (auto simp: json_child_reads_def)
  define s where "s = (if xs = [] then CHR '']'' else CHR '','')"
  define r' where "r' = (if xs = [] then r else json_items_text ops xs @ CHR '']'' # r)"
  have at: "json_at st (json_body ops d @ s # r')"
    using Cons.prems(1) d by (auto simp: s_def r'_def)
  have t: "json_tree (dmax - js_depth st) d'" "json_children False (dmax - js_depth st) xs'"
    using Cons.prems(2) d by auto
  have s: "s = CHR '','' \<or> s = CHR '']''" "s = CHR '','' \<longleftrightarrow> xs \<noteq> []" by (auto simp: s_def)
  obtain st1 where st1: "json_array_step (json_parse ops dmax f0) hasnext acc st =
      Some (Some (acc @ [JItem None d'], xs \<noteq> []), st1)" "json_at st1 r'" "js_depth st1 = js_depth st"
    using json_array_step_at [OF d(3) at s(1) t(1) Cons.prems(4)] s(2) by auto
  obtain f' where f: "f = Suc f'" using Cons.prems(3) by (cases f) auto
  show ?case
  proof (cases "xs = []")
    case True
    then have "xs' = []" using Cons.hyps(2) by simp
    then show ?thesis using True st1 f d by (simp add: r'_def)
  next
    case False
    have "json_left st1 < json_left st"
      using json_at_left [OF at] json_at_left [OF st1(2)] by simp
    moreover have "json_at st1 (json_items_text ops xs @ CHR '']'' # r)"
      using st1(2) False by (simp add: r'_def)
    ultimately have "\<exists>st'. json_array_loop (json_parse ops dmax f0) f' True (acc @ [JItem None d']) st1 =
        Some (Some ((acc @ [JItem None d']) @ xs'), st') \<and> json_at st' r \<and> js_depth st' = js_depth st1"
      using Cons.prems(3,4) f t(2) st1(3) False by (intro Cons.IH) auto
    then show ?thesis using False st1 f d by auto
  qed
qed

lemma json_object_loop_at:
  assumes "list_all2 (json_child_reads ops dmax True) xs xs'"
    and "json_at st (json_items_text ops xs @ CHR ''}'' # r)"
    and "json_children True (dmax - js_depth st) xs'" "json_left st < f" "json_left st < f0"
    and "hasnext \<longrightarrow> xs \<noteq> []"
  shows "\<exists>st'. json_object_loop (json_parse ops dmax f0) f hasnext acc st = Some (Some (acc @ xs'), st') \<and>
           json_at st' r \<and> js_depth st' = js_depth st"
  using assms
proof (induction xs xs' arbitrary: st f hasnext acc rule: list_all2_induct)
  case Nil
  then have at: "json_at st (CHR ''}'' # r)" by simp
  note q = json_ws_at [OF at] json_peek_at [OF at] json_at_Cons(3) [OF at]
  obtain f' where "f = Suc f'" using Nil.prems by (cases f) auto
  then show ?case using q Nil.prems by (simp add: json_object_step_def)
next
  case (Cons x xs x' xs')
  obtain n n' d d' where d: "x = JItem (Some n) d" "x' = JItem (Some n') d'" "json_body_reads ops dmax d d'"
    "json_decode n = Some n'"
    using Cons.hyps(1) by (cases x; cases x') (auto simp: json_child_reads_def)
  define s where "s = (if xs = [] then CHR ''}'' else CHR '','')"
  define r' where "r' = (if xs = [] then r else json_items_text ops xs @ CHR ''}'' # r)"
  have at: "json_at st (CHR 0x22 # n @ CHR 0x22 # CHR '':'' # json_body ops d @ s # r')"
    using Cons.prems(1) d by (auto simp: s_def r'_def)
  have t: "json_tree (dmax - js_depth st) d'" "json_children True (dmax - js_depth st) xs'"
    using Cons.prems(2) d by auto
  have s: "s = CHR '','' \<or> s = CHR ''}''" "s = CHR '','' \<longleftrightarrow> xs \<noteq> []" by (auto simp: s_def)
  obtain st1 where st1: "json_object_step (json_parse ops dmax f0) hasnext acc st =
      Some (Some (acc @ [JItem (Some n') d'], xs \<noteq> []), st1)" "json_at st1 r'" "js_depth st1 = js_depth st"
    using json_object_step_at [OF d(3,4) at s(1) t(1) Cons.prems(4)] s(2) by auto
  obtain f' where f: "f = Suc f'" using Cons.prems(3) by (cases f) auto
  show ?case
  proof (cases "xs = []")
    case True
    then have "xs' = []" using Cons.hyps(2) by simp
    then show ?thesis using True st1 f d by (simp add: r'_def)
  next
    case False
    have "json_left st1 < json_left st"
      using json_at_left [OF at] json_at_left [OF st1(2)] by simp
    moreover have "json_at st1 (json_items_text ops xs @ CHR ''}'' # r)"
      using st1(2) False by (simp add: r'_def)
    ultimately have "\<exists>st'. json_object_loop (json_parse ops dmax f0) f' True (acc @ [JItem (Some n') d']) st1 =
        Some (Some ((acc @ [JItem (Some n') d']) @ xs'), st') \<and> json_at st' r \<and> js_depth st' = js_depth st1"
      using Cons.prems(3,4) f t(2) st1(3) False by (intro Cons.IH) auto
    then show ?thesis using False st1 f d by auto
  qed
qed

lemma json_body_reads_array:
  assumes "list_all2 (json_child_reads ops dmax False) xs xs'"
  shows "json_body_reads ops dmax (JArray xs) (JArray xs')"
proof (rule json_body_readsI)
  fix f st r
  assume at0: "json_at st (CHR ''['' # (json_items_text ops xs @ '']'') @ r)"
    and t: "json_tree (dmax - js_depth st) (JArray xs')" and f: "json_left st \<le> f"
  let ?st = "st\<lparr>js_depth := Suc (js_depth st)\<rparr>"
  have at: "json_at ?st (CHR ''['' # json_items_text ops xs @ CHR '']'' # r)" using at0 by simp
  have "json_left (json_skip ?st) < f"
    using f json_at_left [OF at0] json_at_left [OF json_at_Cons(3) [OF at]] by simp
  moreover have "json_children False (dmax - js_depth (json_skip ?st)) xs'" "js_depth st < dmax"
    using t by auto
  ultimately obtain st' where
    "json_array_loop (json_parse ops dmax f) f False [] (json_skip ?st) = Some (Some ([] @ xs'), st')"
    "json_at st' r" "js_depth st' = js_depth (json_skip ?st)"
    using json_array_loop_at [OF assms json_at_Cons(3) [OF at], of f f False "[]"] by auto
  then show "\<exists>st'. json_parse ops dmax (Suc f) TYPE_ARRAY st = Some (Some (JArray xs'), st') \<and>
      json_at st' r \<and> js_depth st' = js_depth st"
    using \<open>js_depth st < dmax\<close> json_next_at [OF at]
    by (simp add: json_parse_array_def json_cleanup_def)
qed (auto simp: json_guess_type_def)

lemma json_body_reads_object:
  assumes "list_all2 (json_child_reads ops dmax True) xs xs'"
  shows "json_body_reads ops dmax (JObject xs) (JObject xs')"
proof (rule json_body_readsI)
  fix f st r
  assume at0: "json_at st (CHR ''{'' # (json_items_text ops xs @ ''}'') @ r)"
    and t: "json_tree (dmax - js_depth st) (JObject xs')" and f: "json_left st \<le> f"
  let ?st = "st\<lparr>js_depth := Suc (js_depth st)\<rparr>"
  have at: "json_at ?st (CHR ''{'' # json_items_text ops xs @ CHR ''}'' # r)" using at0 by simp
  have "json_left (json_skip ?st) < f"
    using f json_at_left [OF at0] json_at_left [OF json_at_Cons(3) [OF at]] by simp
  moreover have "json_children True (dmax - js_depth (json_skip ?st)) xs'" "js_depth st < dmax"
    using t by auto
  ultimately obtain st' where
    "json_object_loop (json_parse ops dmax f) f False [] (json_skip ?st) = Some (Some ([] @ xs'), st')"
    "json_at st' r" "js_depth st' = js_depth (json_skip ?st)"
    using json_object_loop_at [OF assms json_at_Cons(3) [OF at], of f f False "[]"] by auto
  then show "\<exists>st'. json_parse ops dmax (Suc f) TYPE_OBJECT st = Some (Some (JObject xs'), st') \<and>
      json_at st' r \<and> js_depth st' = js_depth st"
    using \<open>js_depth st < dmax\<close> json_next_at [OF at]
    by (simp add: json_parse_object_def json_cleanup_def)
qed (auto simp: json_guess_type_def)

lemma sint_range64: "LLONG_MIN \<le> sint (w :: 64 word)" "sint (w :: 64 word) \<le> LLONG_MAX"
  using sint_greater_eq [of w] sint_lt [of w] by simp_all

lemma json_reads_body:
  "json_reads d = Some d' \<Longrightarrow> json_body_reads ops dmax d d'"
  "json_reads_items named xs = Some xs' \<Longrightarrow> list_all2 (json_child_reads ops dmax named) xs xs'"
proof (induction d and named xs arbitrary: d' and xs' rule: json_reads_json_reads_items.induct)
  case (1 xs)
  then show ?case using json_body_reads_object by auto
next
  case (2 xs)
  then show ?case using json_body_reads_array by auto
next
  case (3 s)
  then obtain s' where s: "json_decode s = Some s'" "d' = JString s'" by auto
  show ?case
  proof (rule json_body_readsI [where c = "CHR 0x22" and cs = "s @ [CHR 0x22]" and ty = TYPE_STRING])
    fix f st r
    assume "json_at st (CHR 0x22 # (s @ [CHR 0x22]) @ r)"
    then have "json_at st (CHR 0x22 # s @ CHR 0x22 # r)" by simp
    from json_get_string_at [OF s(1) this]
    show "\<exists>st'. json_parse ops dmax (Suc f) TYPE_STRING st = Some (Some d', st') \<and> json_at st' r \<and>
        js_depth st' = js_depth st"
      using s(2) by (auto simp: json_parse_string_def)
  qed (auto simp: json_guess_type_def)
next
  case (5 w)
  then have "sint w \<noteq> LLONG_MIN" "d' = JInteger w" by (auto split: if_splits)
  moreover have "LLONG_MIN < sint w" using calculation sint_range64 [of w] by linarith
  ultimately show ?case
    using sint_range64 [of w] by (intro json_body_reads_int [where i = "sint w"]) auto
next
  case (6 w)
  define n where "n = unat w"
  have w: "of_nat n = w" by (simp add: n_def)
  show ?case
    using 6 by (intro json_body_reads_int [where i = "int n"])
      (auto simp: w int_str_def simp flip: n_def split: if_splits)
next
  case (7 l)
  obtain c cs where c: "json_lit_text l = c # cs" "\<not> json_ws c" "c \<noteq> CHR '']''" "json_guess_type c = Some TYPE_LITERAL"
    by (cases l) (simp_all add: json_ws_def json_guess_type_def)
  show ?case
  proof (rule json_body_readsI)
    show "json_body ops (JLiteral l) = c # cs" using c by simp
    fix f st r
    assume "json_at st (c # cs @ r)"
    then show "\<exists>st'. json_parse ops dmax (Suc f) TYPE_LITERAL st = Some (Some d', st') \<and> json_at st' r \<and>
        js_depth st' = js_depth st"
      using 7 c(1) json_parse_literal_at [of st l r] by auto
  qed (use c in auto)
next
  case (9 named nm d xs)
  then show ?case
    by (auto simp: json_child_reads_def split: option.splits if_splits)
qed auto

text \<open>The escaping done when a string item is created is undone by the reader.\<close>

definition json_keeps :: "char \<Rightarrow> bool" where
  "json_keeps c \<longleftrightarrow> isprint c \<or> c = CHR 0x08 \<or> c = CHR 0x0C \<or> c = CHR 0x0A \<or> c = CHR 0x0D \<or> c = CHR 0x09"

lemma json_decode_escape:
  "json_decode (json_escape c @ t) =
     map_option ((#) (if json_keeps c then c else CHR ''?'')) (json_decode t)"
proof (cases "isprint c \<and> c \<noteq> CHR 0x22 \<and> c \<noteq> CHR 0x5C")
  case True
  then have "\<not> (of_char c :: nat) \<le> 0x1f" by (simp add: isprint_def)
  moreover have "c \<noteq> CHR 0x08 \<and> c \<noteq> CHR 0x0C \<and> c \<noteq> CHR 0x0A \<and> c \<noteq> CHR 0x0D \<and> c \<noteq> CHR 0x09"
    using True by (auto simp: isprint_def)
  ultimately show ?thesis
    using True by (cases "c = CHR ''/''") (auto simp: json_escape_def json_keeps_def json_unescape_def)
next
  case False
  then show ?thesis
    by (auto simp: json_escape_def json_keeps_def json_unescape_def isprint_def)
qed

lemma json_decode_build_string:
  "json_decode (json_build_string s) = Some (map (\<lambda>c. if json_keeps c then c else CHR ''?'') s)"
  by (induction s) (simp_all add: json_build_string_def json_decode_escape)

text \<open>Reading a whole document that is the text of a tree.\<close>

lemma kore_json_parse_text:
  fixes ops :: "'d double_ops"
  assumes "json_reads d = Some d'" "json_tree dmax d'"
  shows "\<exists>json'. kore_json_parse ops dmax (kore_json_init jerr cerr (json_body ops d)) = Some (True, json') \<and>
     kj_root json' = Root (JItem None d')"
proof -
  let ?j = "kore_json_init jerr cerr (json_body ops d) :: 'd kore_json"
  let ?st = "(kj_state ?j)\<lparr>js_errno := JSON_ERR_NONE\<rparr>"
  obtain c cs ty where c: "json_body ops d = c # cs" "\<not> json_ws c" "json_guess_type c = Some ty"
    and p: "\<And>f st r. json_at st (json_body ops d @ r) \<Longrightarrow> json_end r \<Longrightarrow>
           json_tree (dmax - js_depth st) d' \<Longrightarrow> json_left st < f \<Longrightarrow>
           \<exists>st'. json_parse ops dmax f ty st = Some (Some d', st') \<and> json_at st' r \<and> js_depth st' = js_depth st"
    using json_reads_body(1) [OF assms(1)] unfolding json_body_reads_def by blast
  have at: "json_at ?st (json_body ops d @ [])"
    by (simp add: json_at_def json_rest_def kore_json_init_def)
  have "json_end []" "json_tree (dmax - js_depth ?st) d'" "json_left ?st < json_fuel ?st"
    using assms(2) by (simp_all add: json_end_def json_left_def json_fuel_def kore_json_init_def)
  from p [OF at this] obtain st' where
    st': "json_parse ops dmax (json_fuel ?st) ty ?st = Some (Some d', st')" "json_at st' []" by blast
  have at': "json_at ?st (c # cs)" using at c(1) by simp
  have ws: "json_consume_whitespace st' = (None, st'\<lparr>js_errno := JSON_ERR_EOF\<rparr>)"
    using st'(2) by (subst json_consume_whitespace_eq) (auto simp: json_at_def json_rest_def)
  moreover have "js_offset st' = length (js_data st')"
    using st'(2) by (simp add: json_at_def json_rest_def)
  moreover have "kj_root ?j = NoRoot" by (simp add: kore_json_init_def)
  ultimately show ?thesis
    using json_ws_at [OF at' c(2)] json_peek_at [OF at'] c(3) st'(1)
    by (simp add: kore_json_parse_def)
qed

section \<open>Searching\<close>

text \<open>Descendants: children of objects and arrays, at any depth.\<close>

inductive json_below :: "'d json_data \<Rightarrow> 'd json_item \<Rightarrow> bool" where
  child: "json_items_of d = Some xs \<Longrightarrow> it \<in> set xs \<Longrightarrow> json_below d it"
| deeper: "json_below d it \<Longrightarrow> json_below (item_data it) it' \<Longrightarrow> json_below d it'"

lemma json_pick_below:
  assumes "json_items_of d = Some xs" "it0 \<in> set xs"
    and "json_pick it0 spot = Some it"
  shows "json_below d it"
proof -
  have b: "json_below d it0" using assms(1,2) by (rule child)
  consider "it = it0" | ys k where "item_data it0 = JArray ys" "k < length ys" "it = ys ! k"
    using assms(3) by (auto simp: json_pick_def split: json_data.splits option.splits if_splits)
  then show ?thesis
  proof cases
    case 1
    then show ?thesis using b by simp
  next
    case 2
    then show ?thesis using b by (auto intro!: deeper [OF b] child)
  qed
qed

lemma find_set: "find P xs = Some x \<Longrightarrow> x \<in> set xs"
  by (auto simp: find_Some_iff)

lemma json_find_item_sound:
  "json_find_item d toks ty err = (r, e) \<Longrightarrow>
     (case r of
        Some it \<Rightarrow> e = err \<and> json_below d it \<and> json_type_fits ty (item_data it)
      | None \<Rightarrow> e = err \<or> e = JSON_ERR_NOT_FOUND \<or> e = JSON_ERR_TYPE_MISMATCH)"
proof (induction d toks ty err arbitrary: r e rule: json_find_item.induct)
  case (1 obj ty err)
  then show ?case by auto
next
  case (2 obj tok toks ty err)
  consider (fail) "r = None" "e = err \<or> e = JSON_ERR_NOT_FOUND \<or> e = JSON_ERR_TYPE_MISMATCH"
    | (go) xs name spot it0 it where
        "json_items_of obj = Some xs" "json_token tok = Some (name, spot)"
        "find (json_name_matches name) xs = Some it0"
        "json_pick it0 spot = Some it"
    using "2.prems" by (auto split: option.splits if_splits)
  then show ?case
  proof cases
    case fail
    then show ?thesis by simp
  next
    case go
    have below: "json_below obj it" using json_pick_below [OF go(1) find_set [OF go(3)] go(4)] .
    show ?thesis
    proof (cases "toks = []")
      case True
      then show ?thesis
        using "2.prems" go below by (auto split: if_splits option.splits)
    next
      case False
      define q where "q = (if json_items_of (item_data it) \<noteq> None
                           then json_find_item (item_data it) toks ty err else (None, err))"
      obtain r' e' where q': "q = (r', e')" by fastforce
      have re: "r = r'" "e = (if r' = None \<and> e' = JSON_ERR_NONE then JSON_ERR_NOT_FOUND else e')"
        using "2.prems" go False q' unfolding q_def by (auto split: if_splits)
      have IH: "case r' of
           Some it' \<Rightarrow> e' = err \<and> json_below (item_data it) it' \<and> json_type_fits ty (item_data it')
         | None \<Rightarrow> e' = err \<or> e' = JSON_ERR_NOT_FOUND \<or> e' = JSON_ERR_TYPE_MISMATCH"
      proof (cases "json_items_of (item_data it) \<noteq> None")
        case True
        then show ?thesis
          using "2.IH" [OF go(1,2) refl go(3,4) False True, of r' e'] q' by (simp add: q_def)
      next
        case no: False
        then show ?thesis using q' by (auto simp: q_def)
      qed
      then show ?thesis
        using re below by (auto split: option.splits if_splits intro: deeper)
    qed
  qed
qed

section \<open>Properties\<close>

text \<open>
  C30. Reading any byte string ends, never goes past its end, and either succeeds with the whole text
  consumed and a tree nested at most \<open>KORE_JSON_DEPTH_MAX\<close> deep, with names exactly below objects
  and no NUL inside names and strings, or fails with an error code set.
\<close>

theorem kore_json_parse_total:
  fixes ops :: "'d double_ops"
  shows "\<exists>ok json'. kore_json_parse ops dmax (kore_json_init jerr cerr data) = Some (ok, json') \<and>
     json_parsed dmax data ok json'"
proof -
  let ?j = "kore_json_init jerr cerr data :: 'd kore_json"
  let ?st0 = "(kj_state ?j)\<lparr>js_errno := JSON_ERR_NONE\<rparr>"
  obtain r1 st1 where ws: "json_consume_whitespace ?st0 = (r1, st1)" by fastforce
  then have st1: "js_data st1 = data" "js_depth st1 = 0" "js_offset st1 \<le> length data"
    using json_consume_whitespace_keeps [OF ws] by (simp_all add: kore_json_init_def)
  have root: "kj_root ?j = NoRoot" by (simp add: kore_json_init_def)
  show ?thesis
  proof (cases "js_offset st1 < length data")
    case False
    then have "json_peek st1 = (None, st1\<lparr>js_errno := JSON_ERR_EOF\<rparr>)"
      using st1 by (simp add: json_peek_def json_next_byte_def)
    then show ?thesis
      using ws st1 by (intro exI [of _ False]) (simp add: kore_json_parse_def root json_parsed_def)
  next
    case True
    then obtain c where peek: "json_peek st1 = (Some c, st1)"
      using st1 by (simp add: json_peek_def json_next_byte_def)
    show ?thesis
    proof (cases "json_guess_type c")
      case None
      then show ?thesis
        using ws peek st1
        by (intro exI [of _ False]) (simp add: kore_json_parse_def root json_parsed_def)
    next
      case (Some ty)
      have "json_left st1 < json_fuel st1" by (simp add: json_left_def json_fuel_def)
      from json_parse_ok [OF this, of dmax ops ty] obtain r st3 where
        r: "json_parse ops dmax (json_fuel st1) ty st1 = Some (r, st3)"
           "json_moves (\<lambda>d _. json_tree dmax d) st1 (r, st3)"
        using st1 by (auto simp: pmoves_def)
      then have st3: "js_data st3 = data" "js_offset st3 \<le> length data"
        using st1 by (auto simp: json_moves_def)
      show ?thesis
      proof (cases r)
        case None
        then show ?thesis
          using ws peek Some r st3
          by (intro exI [of _ False])
            (simp add: kore_json_parse_def root json_parsed_def json_err_default_def)
      next
        case (Some d)
        obtain r4 st4 where ws4: "json_consume_whitespace st3 = (r4, st4)" by fastforce
        have "js_data st4 = data" "js_offset st4 \<le> length data"
          using json_consume_whitespace_keeps [OF ws4] st3 by simp_all
        moreover have "json_tree dmax d" using r Some by (simp add: json_moves_def)
        ultimately show ?thesis
          using ws peek \<open>json_guess_type c = Some ty\<close> r Some ws4
          by (intro exI [of _ "js_offset st4 = length data"])
            (simp add: kore_json_parse_def root json_parsed_def)
      qed
    qed
  qed
qed










definition no_doubles :: "unit double_ops" where
  "no_doubles = \<lparr>dbl_strtod = \<lambda>_. ((), 0, False), dbl_less = \<lambda>_ _. False, dbl_min = (), dbl_max = (),
                 dbl_str = \<lambda>_. []\<rparr>"



text \<open>
  A string item made by \<open>kore_json_create_item\<close> can always be written and read back: the value
  read is the string given, with every byte that is neither printable nor one of the escapable
  control characters replaced by a question mark.
\<close>

theorem json_create_string_roundtrip:
  assumes "n + 2 * length s + 2 < 2 ^ 64"
  shows "\<exists>it b json'. kore_json_create_item None None (JString s) = Inr (it, None) \<and>
     kore_json_item_tobuf ops it (kore_buf_init n) = Inr b \<and>
     kore_json_parse ops dmax (kore_json_init jerr cerr (buf_bytes b)) = Some (True, json') \<and>
     kj_root json' = Root (JItem None (JString (map (\<lambda>c. if json_keeps c then c else CHR ''?'') s)))"
proof -
  let ?s' = "map (\<lambda>c. if json_keeps c then c else CHR ''?'') s"
  let ?d = "JString (json_build_string s)"
  have "length (json_build_string s) \<le> 2 * length s"
    by (induction s) (auto simp: json_build_string_def json_escape_def)
  then have "buf_room (kore_buf_init n) (length (json_text ops (JItem None ?d)) + 0)"
    using assms by (simp add: buf_room_def)
  with tobuf_writes(1) [of ops "JItem None ?d"] obtain b where
    "kore_json_item_tobuf ops (JItem None ?d) (kore_buf_init n) = Inr b"
    "buf_bytes b = json_body ops ?d"
    unfolding kb.writes_def by fastforce
  moreover have "json_reads ?d = Some (JString ?s')"
    by (simp add: json_decode_build_string)
  moreover have "json_tree dmax (JString ?s')"
    by (auto simp: json_keeps_def isprint_def)
  ultimately show ?thesis
    using kore_json_parse_text [of ?d _ dmax ops jerr cerr]
    by (auto simp: kore_json_create_item_def)
qed

theorem json_create_string_roundtrip_witness:
  "\<exists>it b json'. kore_json_create_item None None (JString [CHR 0x22, CHR 0x01, CHR ''x'']) = Inr (it, None) \<and>
     kore_json_item_tobuf no_doubles it (kore_buf_init 8) = Inr b \<and>
     kore_json_parse no_doubles 10 (kore_json_init JSON_ERR_NONE ENONE (buf_bytes b)) = Some (True, json') \<and>
     kj_root json' = Root (JItem None (JString (map (\<lambda>c. if json_keeps c then c else CHR ''?'')
       [CHR 0x22, CHR 0x01, CHR ''x''])))"
  by (rule json_create_string_roundtrip) simp

text \<open>
  \<open>kore_json_find\<close> returns an item only if it is a descendant of the root and has the requested
  type (or is a non-negative integer when an unsigned one is asked for), with no error code;
  otherwise the error code says that the search was invalid, nothing was found or the type differs.
\<close>

theorem kore_json_find_sound:
  "case kore_json_find dmax root path ty of
     (Some it, e) \<Rightarrow> e = JSON_ERR_NONE \<and> json_below (item_data root) it \<and> json_type_fits ty (item_data it)
   | (None, e) \<Rightarrow> e = JSON_ERR_INVALID_SEARCH \<or> e = JSON_ERR_NOT_FOUND \<or> e = JSON_ERR_TYPE_MISMATCH"
proof -
  let ?toks = "kore_split_string path ''/'' dmax"
  obtain r e where re: "json_find_item (item_data root) ?toks ty JSON_ERR_NONE = (r, e)" by fastforce
  from json_find_item_sound [OF re] show ?thesis
    by (auto simp: kore_json_find_def Let_def re split: option.splits)
qed

end
