(* ===== verification/Timer.thy ===== *)
theory Timer
  imports Prelude "HOL-Library.Multiset"
begin

text \<open>
  The timers of \<open>src/src/timer.c\<close>: one list in order of the next run.  A pointer to a timer is the
  timer's number.  What the callback of a timer does to the timer itself, which is not in the list
  while it runs, to the other timers and to the rest of the program is the parameter \<open>call\<close>.  The loop of \<open>kore_timer_run\<close> need not end, so it is a partial function.
\<close>

type_synonym u64 = "64 word"

record timer =
  tm_ptr :: nat
  tm_cb :: nat
  tm_oneshot :: bool
  tm_interval :: u64
  tm_nextrun :: u64

definition kore_timer_init :: "timer list" where
  "kore_timer_init = []"

text \<open>The scan for the first timer that runs later, shared by \<open>kore_timer_add\<close> and \<open>kore_timer_run\<close>.\<close>

fun timer_insert :: "timer \<Rightarrow> timer list \<Rightarrow> timer list" where
  "timer_insert timer [] = [timer]"
| "timer_insert timer (t # ts) =
     (if tm_nextrun t > tm_nextrun timer then timer # t # ts else t # timer_insert timer ts)"

definition kore_timer_add ::
  "u64 \<Rightarrow> nat \<Rightarrow> nat \<Rightarrow> u64 \<Rightarrow> bool \<Rightarrow> timer list \<Rightarrow> timer \<times> timer list" where
  "kore_timer_add time_ms ptr cb interval oneshot ts =
     (let timer = \<lparr>tm_ptr = ptr, tm_cb = cb, tm_oneshot = oneshot, tm_interval = interval,
                   tm_nextrun = time_ms + interval\<rparr>
      in (timer, timer_insert timer ts))"

definition kore_timer_remove :: "nat \<Rightarrow> timer list \<Rightarrow> timer list" where
  "kore_timer_remove ptr ts = filter (\<lambda>t. tm_ptr t \<noteq> ptr) ts"

text \<open>\<open>None\<close> is \<open>KORE_WAIT_INFINITE\<close>.\<close>

definition kore_timer_next_run :: "u64 \<Rightarrow> timer list \<Rightarrow> u64 option" where
  "kore_timer_next_run now ts =
     (case ts of
        [] \<Rightarrow> None
      | timer # _ \<Rightarrow> Some (if tm_nextrun timer > now then tm_nextrun timer - now else 0))"

text \<open>
  The part of the loop body after the callback: the timer is freed or inserted again, according to the flags
  and the interval it has then.
\<close>

definition timer_again :: "u64 \<Rightarrow> timer \<Rightarrow> timer" where
  "timer_again now t = t\<lparr>tm_nextrun := now + tm_interval t\<rparr>"

definition timer_requeue :: "u64 \<Rightarrow> timer \<Rightarrow> timer list \<Rightarrow> timer list" where
  "timer_requeue now t ts = (if tm_oneshot t then ts else timer_insert (timer_again now t) ts)"

type_synonym 'w timer_call = "timer \<Rightarrow> u64 \<Rightarrow> timer list \<times> 'w \<Rightarrow> timer \<times> timer list \<times> 'w"

text \<open>The timer as the callback leaves it; its address stays.\<close>

definition timer_after :: "'w timer_call \<Rightarrow> u64 \<Rightarrow> timer \<Rightarrow> timer list \<Rightarrow> 'w \<Rightarrow> timer" where
  "timer_after call now t rest w = (fst (call t now (rest, w)))\<lparr>tm_ptr := tm_ptr t\<rparr>"

partial_function (option) timer_run_loop ::
  "'w timer_call \<Rightarrow> u64 \<Rightarrow> nat option \<Rightarrow> timer list \<Rightarrow> 'w \<Rightarrow> (timer list \<times> 'w) option" where
  "timer_run_loop call now prev ts w =
     (case ts of
        [] \<Rightarrow> Some (ts, w)
      | t # rest \<Rightarrow>
          if prev = Some (tm_ptr t) then Some (ts, w)
          else if tm_nextrun t > now then Some (ts, w)
          else timer_run_loop call now (if tm_oneshot (timer_after call now t rest w) then prev else Some (tm_ptr t))
                 (timer_requeue now (timer_after call now t rest w) (fst (snd (call t now (rest, w)))))
                 (snd (snd (call t now (rest, w)))))"

definition kore_timer_run :: "'w timer_call \<Rightarrow> u64 \<Rightarrow> timer list \<times> 'w \<Rightarrow> (timer list \<times> 'w) option" where
  "kore_timer_run call now s = timer_run_loop call now None (fst s) (snd s)"

section \<open>Order\<close>

abbreviation in_order :: "timer list \<Rightarrow> bool" where
  "in_order ts \<equiv> sorted (map tm_nextrun ts)"

lemma set_timer_insert [simp]: "set (timer_insert t ts) = insert t (set ts)"
  by (induction ts) auto

lemma mset_timer_insert [simp]: "mset (timer_insert t ts) = add_mset t (mset ts)"
  by (induction ts) auto

lemma timer_insert_in_order [simp]: "in_order (timer_insert t ts) \<longleftrightarrow> in_order ts"
  by (induction ts) (auto simp: less_imp_le)

lemma timer_insert_not_Nil [simp]: "timer_insert t ts \<noteq> []"
  by (cases ts) auto

text \<open>Timers with the same next run keep the order in which they were inserted.\<close>

lemma timer_insert_stable:
  "in_order ts \<Longrightarrow>
   timer_insert t ts =
     filter (\<lambda>u. tm_nextrun u \<le> tm_nextrun t) ts @ t # filter (\<lambda>u. tm_nextrun t < tm_nextrun u) ts"
proof (induction ts)
  case (Cons u ts)
  show ?case
  proof (cases "tm_nextrun u > tm_nextrun t")
    case True
    then have "\<forall>v \<in> set ts. tm_nextrun t < tm_nextrun v"
      using Cons.prems by (auto intro: less_le_trans)
    then have "filter (\<lambda>u. tm_nextrun u \<le> tm_nextrun t) ts = []"
      and "filter (\<lambda>u. tm_nextrun t < tm_nextrun u) ts = ts"
      by (auto simp: filter_empty_conv not_le)
    with True show ?thesis by simp
  qed (use Cons in auto)
qed simp

lemma timer_insert_append:
  "\<forall>u \<in> set ds. tm_nextrun u \<le> tm_nextrun t \<Longrightarrow> timer_insert t (ds @ ts) = ds @ timer_insert t ts"
  by (induction ds) (auto simp: not_less)

section \<open>Running the timers that are due\<close>

definition timer_due :: "u64 \<Rightarrow> timer \<Rightarrow> bool" where
  "timer_due now t \<longleftrightarrow> tm_nextrun t \<le> now"

text \<open>A timer that, once inserted again, is later than \<open>now\<close>.\<close>

definition timer_advances :: "u64 \<Rightarrow> timer \<Rightarrow> bool" where
  "timer_advances now t \<longleftrightarrow> tm_oneshot t \<or> now < now + tm_interval t"

lemma timer_requeue_append:
  assumes "timer_advances now t" "\<forall>u \<in> set ds. timer_due now u"
  shows "timer_requeue now t (ds @ ts) = ds @ timer_requeue now t ts"
proof (cases "tm_oneshot t")
  case False
  have "\<forall>u \<in> set ds. tm_nextrun u \<le> tm_nextrun (timer_again now t)"
    using assms False by (force simp: timer_advances_def timer_due_def timer_again_def)
  with False show ?thesis
    by (simp add: timer_requeue_def timer_insert_append)
qed (simp add: timer_requeue_def)

lemma timer_requeue_later:
  assumes "timer_advances now t" "\<forall>u \<in> set ts. \<not> timer_due now u"
  shows "\<forall>u \<in> set (timer_requeue now t ts). \<not> timer_due now u"
  using assms by (auto simp: timer_requeue_def timer_again_def timer_advances_def timer_due_def)

lemma timer_requeue_in_order: "in_order ts \<Longrightarrow> in_order (timer_requeue now t ts)"
  by (simp add: timer_requeue_def)

lemma timer_run_loop_stop:
  assumes "\<forall>u \<in> set ts. \<not> timer_due now u"
  shows "timer_run_loop call now prev ts w = Some (ts, w)"
  using assms by (subst timer_run_loop.simps) (auto simp: timer_due_def split: list.splits)

text \<open>
  Callbacks that may change their own timer, add timers, and change the rest of the program: \<open>upd\<close> is the
  timer afterwards, \<open>new\<close> are the timers it adds, in this order.  What the callbacks of a list of timers
  leave behind, when they run one after the other.
\<close>

fun timer_effects ::
  "(timer \<Rightarrow> 'w \<Rightarrow> timer) \<Rightarrow> (timer \<Rightarrow> 'w \<Rightarrow> timer list) \<Rightarrow> (timer \<Rightarrow> 'w \<Rightarrow> 'w) \<Rightarrow> u64 \<Rightarrow> timer list \<Rightarrow> 'w \<Rightarrow> timer list" where
  "timer_effects upd new act now [] w = []"
| "timer_effects upd new act now (d # ds) w =
     new d w @ (if tm_oneshot (upd d w) then [] else [timer_again now (upd d w)]) @ timer_effects upd new act now ds (act d w)"

lemma mset_timer_inserts: "mset (fold timer_insert ns ts) = mset ns + mset ts"
  by (induction ns arbitrary: ts) simp_all

lemma timer_inserts_in_order: "in_order (fold timer_insert ns ts) \<longleftrightarrow> in_order ts"
  by (induction ns arbitrary: ts) simp_all

lemma timer_inserts_append:
  "\<forall>n \<in> set ns. \<not> timer_due now n \<Longrightarrow> \<forall>u \<in> set ds. timer_due now u \<Longrightarrow> fold timer_insert ns (ds @ ts) = ds @ fold timer_insert ns ts"
proof (induction ns arbitrary: ts)
  case (Cons n ns)
  then have "\<forall>u \<in> set ds. tm_nextrun u \<le> tm_nextrun n" by (force simp: timer_due_def)
  then show ?case using Cons by (simp add: timer_insert_append)
qed simp

lemma timer_run_loop_due:
  assumes call: "\<And>t ts w. call t now (ts, w) = (upd t w, fold timer_insert (new t w) ts, act t w)" "\<And>t w. tm_ptr (upd t w) = tm_ptr t"
    and "\<forall>t \<in> set ds. timer_due now t \<and> (\<forall>w. timer_advances now (upd t w) \<and> (\<forall>n \<in> set (new t w). \<not> timer_due now n))"
    and "\<forall>t \<in> set ts. \<not> timer_due now t" "in_order ts"
    and "distinct (map tm_ptr ds)" "prev \<notin> Some ` tm_ptr ` set ds"
  shows "\<exists>ts'. timer_run_loop call now prev (ds @ ts) w = Some (ts', fold act ds w) \<and> in_order ts' \<and>
    (\<forall>t \<in> set ts'. \<not> timer_due now t) \<and> mset ts' = mset ts + mset (timer_effects upd new act now ds w)"
  using assms(3-)
proof (induction ds arbitrary: ts w prev)
  case Nil
  then show ?case by (simp add: timer_run_loop_stop)
next
  case (Cons d ds)
  let ?ts = "timer_requeue now (upd d w) (fold timer_insert (new d w) ts)"
  let ?prev = "if tm_oneshot (upd d w) then prev else Some (tm_ptr d)"
  have due: "\<forall>u \<in> set ds. timer_due now u" "timer_advances now (upd d w)" "timer_due now d" "\<forall>n \<in> set (new d w). \<not> timer_due now n"
    using Cons.prems(1) by auto
  then have not_due: "\<not> now < tm_nextrun d" by (simp add: timer_due_def not_less)
  have after: "timer_after call now d rest w = upd d w" for rest by (simp add: timer_after_def call(1) call(2) [symmetric])
  have "timer_run_loop call now prev (d # (ds @ ts)) w =
    timer_run_loop call now ?prev (timer_requeue now (upd d w) (fold timer_insert (new d w) (ds @ ts))) (act d w)"
    using not_due Cons.prems(5)
    by (simp add: timer_run_loop.simps [of call now prev "d # (ds @ ts)" w] image_iff after call(1))
  also have "timer_requeue now (upd d w) (fold timer_insert (new d w) (ds @ ts)) = ds @ ?ts"
    unfolding timer_inserts_append [OF due(4,1)] by (rule timer_requeue_append [OF due(2,1)])
  finally have step: "timer_run_loop call now prev ((d # ds) @ ts) w = timer_run_loop call now ?prev (ds @ ?ts) (act d w)" by simp
  have later: "\<forall>t \<in> set (fold timer_insert (new d w) ts). \<not> timer_due now t"
    using due(4) Cons.prems(2) set_mset_mset [of "fold timer_insert (new d w) ts"] by (simp add: mset_timer_inserts) blast
  have "\<exists>ts'. timer_run_loop call now ?prev (ds @ ?ts) (act d w) = Some (ts', fold act ds (act d w)) \<and> in_order ts' \<and>
    (\<forall>t \<in> set ts'. \<not> timer_due now t) \<and> mset ts' = mset ?ts + mset (timer_effects upd new act now ds (act d w))"
  proof (rule Cons.IH)
    show "\<forall>t \<in> set ?ts. \<not> timer_due now t" by (rule timer_requeue_later [OF due(2) later])
    show "in_order ?ts" using Cons.prems(3) by (simp add: timer_requeue_in_order timer_inserts_in_order)
    show "?prev \<notin> Some ` tm_ptr ` set ds" using Cons.prems by (simp add: image_iff)
  qed (use Cons.prems in simp_all)
  moreover have "mset ?ts = mset ts + mset (new d w) + mset (if tm_oneshot (upd d w) then [] else [timer_again now (upd d w)])"
    by (simp add: timer_requeue_def mset_timer_inserts)
  ultimately show ?case unfolding step by (auto simp: ac_simps)
qed

lemma in_order_split:
  "in_order ts \<Longrightarrow> ts = filter (timer_due now) ts @ filter (\<lambda>t. \<not> timer_due now t) ts"
proof (induction ts)
  case (Cons t ts)
  show ?case
  proof (cases "timer_due now t")
    case False
    then have "\<forall>u \<in> set ts. \<not> timer_due now u"
      using Cons.prems by (auto simp: timer_due_def)
    then have "filter (timer_due now) ts = []" "filter (\<lambda>t. \<not> timer_due now t) ts = ts"
      by (simp_all add: filter_empty_conv)
    with False show ?thesis by simp
  qed (use Cons in simp)
qed simp

lemma next_run_later:
  assumes "in_order ts" "t \<in> set ts" "now < tm_nextrun t" "kore_timer_next_run now ts = Some d"
  shows "now + d \<le> tm_nextrun t \<or> d = 0"
  using assms by (cases ts) (auto simp: kore_timer_next_run_def split: if_splits)

section \<open>Two timers without an interval\<close>

definition spinning :: "u64 \<Rightarrow> nat option \<Rightarrow> timer list \<Rightarrow> bool" where
  "spinning now prev ts \<longleftrightarrow>
     (\<exists>a b. ts = [a, b] \<and> tm_ptr a \<noteq> tm_ptr b \<and> prev \<noteq> Some (tm_ptr a) \<and>
        (\<forall>t \<in> {a, b}. \<not> tm_oneshot t \<and> tm_interval t = 0 \<and> timer_due now t))"

lemma timer_run_loop_spins:
  assumes quiet: "\<forall>t ts w. call t now (ts, w) = (t, ts, act t w)"
    and "timer_run_loop call now prev ts w = Some r"
  shows "\<not> spinning now prev ts"
proof -
  have "call = call \<and> now = now \<longrightarrow> \<not> spinning now prev ts"
  proof (rule timer_run_loop.raw_induct
      [where P = "\<lambda>c n prev ts w r. c = call \<and> n = now \<longrightarrow> \<not> spinning now prev ts", OF _ assms(2)], intro impI notI)
    fix f c n prev ts w r
    assume IH: "\<And>c n prev ts w r. f c n prev ts w = Some r \<Longrightarrow> c = call \<and> n = now \<longrightarrow> \<not> spinning now prev ts"
      and eq: "(case ts of [] \<Rightarrow> Some (ts, w)
        | t # rest \<Rightarrow> if prev = Some (tm_ptr t) then Some (ts, w)
            else if n < tm_nextrun t then Some (ts, w)
            else f c n (if tm_oneshot (timer_after c n t rest w) then prev else Some (tm_ptr t))
                   (timer_requeue n (timer_after c n t rest w) (fst (snd (c t n (rest, w)))))
                   (snd (snd (c t n (rest, w))))) = Some r"
      and c: "c = call \<and> n = now" and "spinning now prev ts"
    then obtain a b where ab: "ts = [a, b]" "tm_ptr a \<noteq> tm_ptr b" "prev \<noteq> Some (tm_ptr a)"
      "\<forall>t \<in> {a, b}. \<not> tm_oneshot t \<and> tm_interval t = 0 \<and> timer_due now t"
      by (auto simp: spinning_def)
    then have "f call now (Some (tm_ptr a)) [b, timer_again now a] (act a w) = Some r"
      using eq c quiet leD [of "tm_nextrun a" now] leD [of "tm_nextrun b" now]
      by (simp add: timer_due_def timer_requeue_def timer_again_def timer_after_def)
    from IH [OF this] have "\<not> spinning now (Some (tm_ptr a)) [b, timer_again now a]" by simp
    with ab show False by (auto simp: spinning_def timer_again_def timer_due_def)
  qed
  then show ?thesis by simp
qed

section \<open>Properties\<close>

text \<open>
  C38. Let the callbacks change the flags and the interval of their own timer, add timers that are not due yet,
  and do anything to the rest of the program, but leave the other timers alone; and let every due timer that is
  not one-shot after its callback have an interval that takes it past the present (positive and
  without wrap-around).  Then \<open>kore_timer_run\<close> ends.  It calls the callbacks of exactly the timers that are
  due, each once, in order of their next run; afterwards the timers that are one-shot after their callback
  are gone, the others are scheduled one interval from now, the added ones are there, the list is again in order
  and nothing in it is due.
\<close>

theorem kore_timer_run_correct:
  assumes "\<forall>t ts w. call t now (ts, w) = (upd t w, fold timer_insert (new t w) ts, act t w)" "\<forall>t w. tm_ptr (upd t w) = tm_ptr t"
    and "in_order ts" "distinct (map tm_ptr ts)"
    and "\<forall>t \<in> set ts. timer_due now t \<longrightarrow> (\<forall>w. timer_advances now (upd t w) \<and> (\<forall>n \<in> set (new t w). \<not> timer_due now n))"
  shows "\<exists>ts'. kore_timer_run call now (ts, w) = Some (ts', fold act (filter (timer_due now) ts) w)
    \<and> in_order ts' \<and> (\<forall>t \<in> set ts'. \<not> timer_due now t)
    \<and> mset ts' = mset (filter (\<lambda>t. \<not> timer_due now t) ts) +
        mset (timer_effects upd new act now (filter (timer_due now) ts) w)"
proof -
  let ?ds = "filter (timer_due now) ts" and ?rs = "filter (\<lambda>t. \<not> timer_due now t) ts"
  have "\<exists>ts'. timer_run_loop call now None (?ds @ ?rs) w = Some (ts', fold act ?ds w) \<and> in_order ts' \<and>
    (\<forall>t \<in> set ts'. \<not> timer_due now t) \<and> mset ts' = mset ?rs + mset (timer_effects upd new act now ?ds w)"
    using assms by (intro timer_run_loop_due) (auto simp: distinct_map_filter intro: sorted_filter)
  then show ?thesis using in_order_split [OF assms(3), of now] by (simp add: kore_timer_run_def)
qed

text \<open>
  Two due timers that are not one-shot and have the interval 0 keep \<open>kore_timer_run\<close> from ever
  returning: each is put behind the other with a next run that is due again, so that neither the check
  of the previous timer nor the check of the time ends the loop.
\<close>

theorem kore_timer_run_spins:
  assumes "\<forall>t ts w. call t now (ts, w) = (t, ts, act t w)"
    and "tm_ptr a \<noteq> tm_ptr b"
    and "\<forall>t \<in> {a, b}. \<not> tm_oneshot t \<and> tm_interval t = 0 \<and> timer_due now t"
  shows "kore_timer_run call now ([a, b], w) = None"
proof (cases "kore_timer_run call now ([a, b], w)")
  case (Some r)
  then have "\<not> spinning now None [a, b]"
    using timer_run_loop_spins [of call now act, OF assms(1)] by (simp add: kore_timer_run_def)
  with assms show ?thesis by (auto simp: spinning_def)
qed

section \<open>Witnesses\<close>

definition demo_timer :: "nat \<Rightarrow> bool \<Rightarrow> u64 \<Rightarrow> u64 \<Rightarrow> timer" where
  "demo_timer ptr oneshot interval nextrun =
     \<lparr>tm_ptr = ptr, tm_cb = 0, tm_oneshot = oneshot, tm_interval = interval, tm_nextrun = nextrun\<rparr>"

text \<open>
  A callback that notes its timer.  The first timer adds another one; the third one makes itself one-shot, as the
  timer of \<open>fileref.c\<close> does when it drops the last file.
\<close>

definition demo_upd :: "timer \<Rightarrow> nat list \<Rightarrow> timer" where
  "demo_upd t w = (if tm_ptr t = 3 then t\<lparr>tm_oneshot := True\<rparr> else t)"

definition demo_new :: "timer \<Rightarrow> nat list \<Rightarrow> timer list" where
  "demo_new t w = (if tm_ptr t = 1 then [demo_timer 5 True 10 20] else [])"

definition demo_call :: "nat list timer_call" where
  "demo_call t now s = (demo_upd t (snd s), fold timer_insert (demo_new t (snd s)) (fst s), snd s @ [tm_ptr t])"

theorem kore_timer_run_correct_witness:
  "\<exists>ts'. kore_timer_run demo_call 10
      ([demo_timer 1 True 5 3, demo_timer 2 False 7 9, demo_timer 3 False 7 10, demo_timer 4 True 1 12], []) = Some (ts', [1, 2, 3])
    \<and> in_order ts' \<and> (\<forall>t \<in> set ts'. \<not> timer_due 10 t)
    \<and> mset ts' = {#demo_timer 5 True 10 20, demo_timer 2 False 7 17, demo_timer 4 True 1 12#}"
  using kore_timer_run_correct [of demo_call 10 demo_upd demo_new "\<lambda>t w. w @ [tm_ptr t]"
      "[demo_timer 1 True 5 3, demo_timer 2 False 7 9, demo_timer 3 False 7 10, demo_timer 4 True 1 12]" "[]"]
  by (simp add: demo_call_def demo_upd_def demo_new_def demo_timer_def timer_due_def timer_advances_def timer_again_def)

theorem kore_timer_run_spins_witness:
  "kore_timer_run (\<lambda>t now s. (t, fst s, snd s @ [tm_ptr t])) 10 ([demo_timer 1 False 0 3, demo_timer 2 False 0 10], []) = None"
  using kore_timer_run_spins [of "\<lambda>t now s. (t, fst s, snd s @ [tm_ptr t])" 10 "\<lambda>t w. w @ [tm_ptr t]"
      "demo_timer 1 False 0 3" "demo_timer 2 False 0 10"]
  by (simp add: demo_timer_def timer_due_def)

end
