(* ===== verification/Pool.thy ===== *)
theory Pool
  imports Prelude
begin

text \<open>
  The memory pools of \<open>src/src/pool.c\<close>.  An address is a natural number; the entry headers a pool has
  placed are a map from addresses, and the eight bytes of a canary are one cell.  The address of the
  \<open>i\<close>-th region mapped for the pool is \<open>mmap i\<close>, the size of an entry header \<open>hdr\<close>, and \<open>mp\<close> says
  whether the calls that change the protection of pages succeed.  Reading a header at an address
  where the pool has none, or one whose page is not accessible, is a fault.  The lock around the
  functions is the calling discipline of tasks: every call here is one that holds it.
\<close>

unbundle bit_operations_syntax

type_synonym addr = nat

abbreviation POOL_MIN_ELEMENTS :: nat where "POOL_MIN_ELEMENTS \<equiv> 16"

record pool_entry =
  en_nextfree :: "addr option"
  en_uptr :: addr
  en_busy :: bool
  en_canary :: addr
  en_rw :: bool

record kpool =
  pl_uselen :: nat
  pl_elmlen :: nat
  pl_memsz :: nat
  pl_pagesz :: nat
  pl_growth :: nat
  pl_canary :: "64 word"
  pl_guard :: bool
  pl_freelist :: "addr option"
  pl_entries :: "addr \<Rightarrow> pool_entry option"
  pl_cells :: "addr \<Rightarrow> 64 word"
  pl_maps :: nat

definition entry_at :: "kpool \<Rightarrow> addr \<Rightarrow> pool_entry result" where
  "entry_at p e =
     (case pl_entries p e of
        None \<Rightarrow> Inl OutOfBounds
      | Some en \<Rightarrow> if en_rw en then Inr en else Inl OutOfBounds)"

definition set_entry :: "addr \<Rightarrow> pool_entry \<Rightarrow> kpool \<Rightarrow> kpool" where
  "set_entry e en p = p\<lparr>pl_entries := (pl_entries p)(e \<mapsto> en)\<rparr>"

definition mark_entry :: "bool \<Rightarrow> bool \<Rightarrow> addr \<Rightarrow> kpool \<Rightarrow> kpool result" where
  "mark_entry mp rw e p =
     (if \<not> mp then Inl (Fatal ''mprotect'')
      else case pl_entries p e of
             None \<Rightarrow> Inl OutOfBounds
           | Some en \<Rightarrow> Inr (set_entry e (en\<lparr>en_rw := rw\<rparr>) p))"

definition pool_mark_entry_none :: "bool \<Rightarrow> addr \<Rightarrow> kpool \<Rightarrow> kpool result" where
  "pool_mark_entry_none mp e p = mark_entry mp False e p"

definition pool_mark_entry_rw :: "bool \<Rightarrow> addr \<Rightarrow> kpool \<Rightarrow> kpool result" where
  "pool_mark_entry_rw mp e p = mark_entry mp True e p"

definition guard_none :: "bool \<Rightarrow> addr option \<Rightarrow> kpool \<Rightarrow> kpool result" where
  "guard_none mp e p =
     (case e of Some e' \<Rightarrow> if pl_guard p then pool_mark_entry_none mp e' p else Inr p | None \<Rightarrow> Inr p)"

definition link_entry :: "bool \<Rightarrow> addr option \<Rightarrow> addr \<Rightarrow> kpool \<Rightarrow> kpool result" where
  "link_entry mp prev entry p =
     (case prev of
        None \<Rightarrow> Inr p
      | Some q \<Rightarrow>
          bindR (entry_at p q) (\<lambda>en. guard_none mp prev (set_entry q (en\<lparr>en_nextfree := Some entry\<rparr>) p)))"

text \<open>One round of the loop of \<open>pool_grow\<close>: the new entry, and the pool with it at the end of the list.\<close>

definition grow_addr :: "nat \<Rightarrow> (nat \<Rightarrow> addr) \<Rightarrow> kpool \<Rightarrow> nat \<Rightarrow> addr" where
  "grow_addr hdr mmap p i =
     (if pl_guard p then mmap (pl_maps p + i) else mmap (pl_maps p) + (hdr + pl_elmlen p) * i)"

definition uptr_of :: "nat \<Rightarrow> kpool \<Rightarrow> addr \<Rightarrow> addr" where
  "uptr_of hdr p e =
     (if pl_guard p then e + (pl_memsz p - pl_pagesz p - pl_elmlen p) else e + hdr)"

definition pool_grow_step :: "nat \<Rightarrow> bool \<Rightarrow> kpool \<times> addr option \<Rightarrow> addr \<Rightarrow> (kpool \<times> addr option) result" where
  "pool_grow_step hdr mp s entry =
     (let p = fst s;
          u = uptr_of hdr p entry;
          p1 = set_entry entry
                 \<lparr>en_nextfree = None, en_uptr = u, en_busy = False, en_canary = u + pl_uselen p, en_rw = True\<rparr> p
      in bindR (link_entry mp (snd s) entry p1) (\<lambda>p2.
         let p3 = (if pl_freelist p2 = None then p2\<lparr>pl_freelist := Some entry\<rparr> else p2)
         in if pl_guard p \<and> (u + pl_elmlen p) mod pl_pagesz p \<noteq> 0 then Inl (Fatal ''pool_grow: misaligned page'')
            else if pl_guard p \<and> \<not> mp then Inl (Fatal ''pool_grow: mprotect'')
            else Inr (p3, Some entry)))"

definition pool_grow :: "nat \<Rightarrow> bool \<Rightarrow> (nat \<Rightarrow> addr) \<Rightarrow> nat \<Rightarrow> kpool \<Rightarrow> kpool result" where
  "pool_grow hdr mp mmap elms p =
     bindR (foldR (pool_grow_step hdr mp) (p, pl_freelist p) (map (grow_addr hdr mmap p) [0..<elms])) (\<lambda>(p', prev).
     bindR (guard_none mp prev p') (\<lambda>p''.
     Inr (p''\<lparr>pl_maps := pl_maps p + (if pl_guard p then elms else 1)\<rparr>)))"

text \<open>
  The loop of \<open>kore_pool_init\<close> that counts the pages of a guarded entry.  It is run only with a page
  that has room for a header; for others it has no end, and the function answers with what it has.
\<close>

function guard_memsz :: "nat \<Rightarrow> nat \<Rightarrow> nat \<Rightarrow> nat \<Rightarrow> nat" where
  "guard_memsz hdr pagesz memsz elmlen =
     (if elmlen > pagesz - hdr \<and> hdr < pagesz
      then guard_memsz hdr pagesz (memsz + pagesz) (elmlen - min elmlen pagesz) else memsz)"
  by pat_completeness auto
termination
  by (relation "measure (\<lambda>(hdr, pagesz, memsz, elmlen). elmlen)") auto

declare guard_memsz.simps [simp del]

text \<open>
  \<open>pool->growth\<close> is a quarter of the elements; the product with the float 0.25 is exact below 2 to the
  24.  The sysconf and strdup results are \<open>pagesz\<close> and \<open>dup\<close>.
\<close>

definition pool_start :: "nat \<Rightarrow> bool \<Rightarrow> nat \<Rightarrow> 32 word \<Rightarrow> 32 word \<Rightarrow> nat \<Rightarrow> nat \<Rightarrow> kpool" where
  "pool_start hdr guard pagesz rnd1 rnd2 len elm =
     (let elmlen = (len + 8 + 15) div 16 * 16
      in \<lparr>pl_uselen = len, pl_elmlen = elmlen,
          pl_memsz = (if guard then guard_memsz hdr pagesz (pagesz * 2) elmlen else elmlen),
          pl_pagesz = pagesz, pl_growth = elm div 4,
          pl_canary = push_bit 32 (ucast rnd1) OR ucast rnd2,
          pl_guard = guard, pl_freelist = None, pl_entries = Map.empty, pl_cells = (\<lambda>_. 0),
          pl_maps = 0\<rparr>)"

definition kore_pool_init ::
  "nat \<Rightarrow> bool \<Rightarrow> (nat \<Rightarrow> addr) \<Rightarrow> bool \<Rightarrow> nat option \<Rightarrow> bool \<Rightarrow> 32 word \<Rightarrow> 32 word \<Rightarrow> nat \<Rightarrow> nat \<Rightarrow> kpool result" where
  "kore_pool_init hdr mp mmap guard pagesz dup rnd1 rnd2 len elm =
     (let elm = (if elm < POOL_MIN_ELEMENTS then POOL_MIN_ELEMENTS else elm)
      in case pagesz of
           None \<Rightarrow> Inl (Fatal ''kore_pool_init: sysconf'')
         | Some sz \<Rightarrow>
             if \<not> dup then Inl (Fatal ''kore_pool_init: strdup'')
             else pool_grow hdr mp mmap elm (pool_start hdr guard sz rnd1 rnd2 len elm))"

definition canary_of :: "kpool \<Rightarrow> addr \<Rightarrow> addr \<Rightarrow> 64 word" where
  "canary_of p e u = pl_canary p XOR of_nat e XOR of_nat u"

definition kore_pool_get :: "nat \<Rightarrow> bool \<Rightarrow> (nat \<Rightarrow> addr) \<Rightarrow> kpool \<Rightarrow> (addr \<times> kpool) result" where
  "kore_pool_get hdr mp mmap p0 =
     bindR (if pl_freelist p0 = None then pool_grow hdr mp mmap (pl_growth p0) p0 else Inr p0) (\<lambda>p.
     case pl_freelist p of
       None \<Rightarrow> Inl NullDeref
     | Some e \<Rightarrow>
         bindR (if pl_guard p then pool_mark_entry_rw mp e p else Inr p) (\<lambda>p1.
         bindR (entry_at p1 e) (\<lambda>en.
         if en_busy en then Inl (Fatal ''element was not free'')
         else Inr (en_uptr en,
                   (set_entry e (en\<lparr>en_nextfree := None, en_busy := True\<rparr>) p1)
                     \<lparr>pl_freelist := en_nextfree en,
                      pl_cells := (pl_cells p1)(en_canary en := canary_of p1 e (en_uptr en))\<rparr>))))"

definition put_base :: "nat \<Rightarrow> kpool \<Rightarrow> addr \<Rightarrow> addr" where
  "put_base hdr p u = (if pl_guard p then u - u mod pl_pagesz p else u - hdr)"

definition kore_pool_put :: "nat \<Rightarrow> bool \<Rightarrow> addr \<Rightarrow> kpool \<Rightarrow> kpool result" where
  "kore_pool_put hdr mp u p =
     (let e = put_base hdr p u
      in bindR (entry_at p e) (\<lambda>en.
         if en_uptr en \<noteq> u then Inl (Fatal ''uptr mismatch'')
         else if pl_cells p (en_canary en) XOR of_nat e XOR of_nat u \<noteq> pl_canary p
              then Inl (Fatal ''memory corruption detected'')
         else if \<not> en_busy en then Inl (Fatal ''element was not busy'')
         else bindR (guard_none mp (Some e)
                       (set_entry e (en\<lparr>en_busy := False, en_nextfree := pl_freelist p\<rparr>) p)) (\<lambda>p1.
              Inr (p1\<lparr>pl_freelist := Some e\<rparr>))))"

text \<open>The addresses \<open>kore_pool_cleanup\<close> unmaps, following at most \<open>fuel\<close> links of the free list.\<close>

primrec cleanup_loop :: "nat \<Rightarrow> bool \<Rightarrow> addr option \<Rightarrow> kpool \<Rightarrow> addr list result" where
  "cleanup_loop 0 mp e p = Inr []"
| "cleanup_loop (Suc fuel) mp e p =
     (case e of
        None \<Rightarrow> Inr []
      | Some e' \<Rightarrow>
          bindR (pool_mark_entry_rw mp e' p) (\<lambda>p1.
          bindR (entry_at p1 e') (\<lambda>en.
          bindR (cleanup_loop fuel mp (en_nextfree en) p1) (\<lambda>es. Inr (e' # es)))))"

definition kore_pool_cleanup :: "nat \<Rightarrow> bool \<Rightarrow> kpool \<Rightarrow> addr list result" where
  "kore_pool_cleanup fuel mp p = (if pl_guard p then cleanup_loop fuel mp (pl_freelist p) p else Inr [])"

section \<open>Invariant\<close>

text \<open>The free list from \<open>s\<close> on is exactly the entries \<open>fl\<close>.\<close>

fun free_chain :: "(addr \<Rightarrow> pool_entry option) \<Rightarrow> addr option \<Rightarrow> addr list \<Rightarrow> bool" where
  "free_chain es s [] \<longleftrightarrow> s = None"
| "free_chain es s (e # fl) \<longleftrightarrow>
     s = Some e \<and> (case es e of None \<Rightarrow> False | Some en \<Rightarrow> free_chain es (en_nextfree en) fl)"

definition pool_span :: "nat \<Rightarrow> kpool \<Rightarrow> nat" where
  "pool_span hdr p = (if pl_guard p then pl_memsz p else hdr + pl_elmlen p)"

definition apart :: "nat \<Rightarrow> addr \<Rightarrow> addr \<Rightarrow> bool" where
  "apart n a b \<longleftrightarrow> a + n \<le> b \<or> b + n \<le> a"

text \<open>
  The sizes of a pool: the canary is inside the element, and a guarded entry has its header, its
  element and a whole page behind it inside its region.
\<close>

definition pool_sizes :: "nat \<Rightarrow> kpool \<Rightarrow> bool" where
  "pool_sizes hdr p \<longleftrightarrow>
     pl_uselen p + 8 \<le> pl_elmlen p \<and>
     (pl_guard p \<longrightarrow> 0 < pl_pagesz p \<and> pl_pagesz p dvd pl_memsz p \<and>
        hdr + pl_elmlen p + pl_pagesz p \<le> pl_memsz p)"

text \<open>
  An entry in its place.  The page of a guarded entry is accessible while the entry is in use, and
  also while it is the last one of a list that still grows (\<open>hot\<close>).
\<close>

definition entry_ok :: "nat \<Rightarrow> kpool \<Rightarrow> addr option \<Rightarrow> addr \<Rightarrow> pool_entry \<Rightarrow> bool" where
  "entry_ok hdr p hot e en \<longleftrightarrow>
     en_uptr en = uptr_of hdr p e \<and> en_canary en = en_uptr en + pl_uselen p \<and>
     (en_rw en \<longleftrightarrow> \<not> pl_guard p \<or> en_busy en \<or> hot = Some e) \<and>
     (pl_guard p \<longrightarrow> pl_pagesz p dvd e)"

definition pool_inv :: "nat \<Rightarrow> kpool \<Rightarrow> addr option \<Rightarrow> addr list \<Rightarrow> bool" where
  "pool_inv hdr p hot fl \<longleftrightarrow>
     pool_sizes hdr p \<and> free_chain (pl_entries p) (pl_freelist p) fl \<and> distinct fl \<and>
     (\<forall>e en. pl_entries p e = Some en \<longrightarrow> entry_ok hdr p hot e en \<and> (en_busy en \<longleftrightarrow> e \<notin> set fl)) \<and>
     (\<forall>e \<in> dom (pl_entries p). \<forall>e' \<in> dom (pl_entries p). e \<noteq> e' \<longrightarrow> apart (pool_span hdr p) e e')"

text \<open>The objects that callers hold.\<close>

definition pool_live :: "kpool \<Rightarrow> addr set" where
  "pool_live p = {u. \<exists>e en. pl_entries p e = Some en \<and> en_busy en \<and> en_uptr en = u}"

section \<open>The free list\<close>

lemma free_chain_upd [simp]:
  "e \<notin> set fl \<Longrightarrow> free_chain (es(e \<mapsto> en)) s fl \<longleftrightarrow> free_chain es s fl"
  by (induction fl arbitrary: s) (auto split: option.splits)

lemma free_chain_in: "free_chain es s fl \<Longrightarrow> e \<in> set fl \<Longrightarrow> \<exists>en. es e = Some en"
  by (induction fl arbitrary: s) (auto split: option.splits)

lemma free_chain_head: "free_chain es s fl \<Longrightarrow> s = (case fl of [] \<Rightarrow> None | e # _ \<Rightarrow> Some e)"
  by (cases fl) auto

lemma free_chain_snoc:
  assumes "free_chain es s fl" "distinct (fl @ [e])" "fl \<noteq> []" "es (last fl) = Some en"
    "en_nextfree en' = Some e" "en_nextfree new = None"
  shows "free_chain (es(last fl \<mapsto> en', e \<mapsto> new)) s (fl @ [e])"
  using assms
proof (induction fl arbitrary: s)
  case (Cons f fl)
  show ?case
  proof (cases "fl = []")
    case False
    then have "f \<noteq> last fl" "f \<noteq> e"
      using Cons.prems(2) by auto
    moreover obtain x where x: "es f = Some x" "s = Some f" "free_chain es (en_nextfree x) fl"
      using Cons.prems(1) by (auto split: option.splits)
    moreover have "free_chain (es(last fl \<mapsto> en', e \<mapsto> new)) (en_nextfree x) (fl @ [e])"
      using Cons.prems x False by (intro Cons.IH) auto
    ultimately show ?thesis
      using False by (simp add: fun_upd_def)
  qed (use Cons.prems in auto)
qed simp

section \<open>Growing\<close>

definition new_entry :: "nat \<Rightarrow> kpool \<Rightarrow> addr \<Rightarrow> pool_entry" where
  "new_entry hdr p e =
     \<lparr>en_nextfree = None, en_uptr = uptr_of hdr p e, en_busy = False,
      en_canary = uptr_of hdr p e + pl_uselen p, en_rw = True\<rparr>"

definition tail_of :: "addr list \<Rightarrow> addr option" where
  "tail_of fl = (if fl = [] then None else Some (last fl))"

definition grow_entries :: "nat \<Rightarrow> kpool \<Rightarrow> addr list \<Rightarrow> addr \<Rightarrow> addr \<Rightarrow> pool_entry option" where
  "grow_entries hdr p fl e =
     (if fl = [] then pl_entries p
      else (pl_entries p)(last fl \<mapsto>
        (the (pl_entries p (last fl)))\<lparr>en_nextfree := Some e, en_rw := \<not> pl_guard p\<rparr>))(e \<mapsto> new_entry hdr p e)"

lemma uptr_of_cong:
  "pl_guard p' = pl_guard p \<Longrightarrow> pl_memsz p' = pl_memsz p \<Longrightarrow> pl_pagesz p' = pl_pagesz p \<Longrightarrow>
   pl_elmlen p' = pl_elmlen p \<Longrightarrow> uptr_of hdr p' e = uptr_of hdr p e"
  by (simp add: uptr_of_def)

lemma grow_aligned:
  assumes "pool_sizes hdr p" "pl_guard p" "pl_pagesz p dvd e"
  shows "(uptr_of hdr p e + pl_elmlen p) mod pl_pagesz p = 0"
proof -
  have "uptr_of hdr p e + pl_elmlen p = e + (pl_memsz p - pl_pagesz p)"
    using assms by (auto simp: uptr_of_def pool_sizes_def)
  then show ?thesis
    using assms by (auto simp: pool_sizes_def dvd_diff_nat)
qed

lemma pool_grow_step_ok:
  assumes inv: "pool_inv hdr p (tail_of fl) fl" and fresh: "pl_entries p e = None"
    and mp: "pl_guard p \<longrightarrow> mp \<and> pl_pagesz p dvd e"
  shows "pool_grow_step hdr mp (p, tail_of fl) e =
    Inr (p\<lparr>pl_freelist := Some (hd (fl @ [e])), pl_entries := grow_entries hdr p fl e\<rparr>, Some e)"
proof -
  have al: "pl_guard p \<Longrightarrow> (uptr_of hdr p e + pl_elmlen p) mod pl_pagesz p = 0"
    using inv mp by (intro grow_aligned) (auto simp: pool_inv_def)
  show ?thesis
  proof (cases fl)
    case Nil
    then show ?thesis
      using inv mp al
      by (simp add: pool_grow_step_def link_entry_def tail_of_def pool_inv_def grow_entries_def set_entry_def
          new_entry_def Let_def)
  next
    case (Cons f fl')
    then have "last fl \<in> set fl" by (intro last_in_set) simp
    moreover have "free_chain (pl_entries p) (pl_freelist p) fl" using inv by (simp add: pool_inv_def)
    ultimately obtain en where en: "pl_entries p (last fl) = Some en"
      using free_chain_in [of "pl_entries p" "pl_freelist p" fl "last fl"] by blast
    have "last fl \<noteq> e" using en fresh by auto
    have rw: "en_rw en"
      using en inv Cons by (auto simp: pool_inv_def entry_ok_def tail_of_def)
    have fr: "pl_freelist p = Some f"
      using inv Cons by (auto simp: pool_inv_def)
    have eq1: "p\<lparr>pl_freelist := Some f, pl_entries := es\<rparr> = p\<lparr>pl_entries := es\<rparr>" for es
      using fr by (cases p) simp
    have eq2: "en\<lparr>en_nextfree := Some e, en_rw := True\<rparr> = en\<lparr>en_nextfree := Some e\<rparr>"
      using rw by (cases en) simp
    from \<open>last fl \<noteq> e\<close> show ?thesis
      using mp al Cons en rw fr
      by (simp add: pool_grow_step_def link_entry_def tail_of_def grow_entries_def set_entry_def new_entry_def
          entry_at_def guard_none_def pool_mark_entry_none_def mark_entry_def fun_upd_twist Let_def eq1 eq2)
  qed
qed

lemma entry_ok_upd [simp]:
  "entry_ok hdr (p\<lparr>pl_freelist := fr, pl_entries := es\<rparr>) hot e en \<longleftrightarrow> entry_ok hdr p hot e en"
  by (simp add: entry_ok_def uptr_of_def)

lemma pool_upd [simp]:
  "pool_sizes hdr (p\<lparr>pl_freelist := fr, pl_entries := es\<rparr>) \<longleftrightarrow> pool_sizes hdr p"
  "pool_span hdr (p\<lparr>pl_freelist := fr, pl_entries := es\<rparr>) = pool_span hdr p"
  by (simp_all add: pool_sizes_def pool_span_def)

lemma apart_None:
  assumes "\<forall>e' \<in> dom es. apart span e e'" "0 < span"
  shows "es e = None"
proof (rule ccontr)
  assume "es e \<noteq> None"
  then have "apart span e e" using assms(1) by blast
  with assms(2) show False by (simp add: apart_def)
qed

lemma pool_grow_step_inv:
  assumes inv: "pool_inv hdr p (tail_of fl) fl" and fresh: "\<forall>e' \<in> dom (pl_entries p). apart (pool_span hdr p) e e'"
    and mp: "pl_guard p \<longrightarrow> pl_pagesz p dvd e" and span: "0 < pool_span hdr p"
  shows "pool_inv hdr (p\<lparr>pl_freelist := Some (hd (fl @ [e])), pl_entries := grow_entries hdr p fl e\<rparr>)
    (tail_of (fl @ [e])) (fl @ [e])"
proof -
  let ?p = "p\<lparr>pl_freelist := Some (hd (fl @ [e])), pl_entries := grow_entries hdr p fl e\<rparr>"
  have chain: "free_chain (pl_entries p) (pl_freelist p) fl" and dist: "distinct fl"
    and ok: "\<And>e' en. pl_entries p e' = Some en \<Longrightarrow> entry_ok hdr p (tail_of fl) e' en \<and> (en_busy en \<longleftrightarrow> e' \<notin> set fl)"
    using inv by (auto simp: pool_inv_def)
  have none: "pl_entries p e = None"
    by (rule apart_None [OF fresh span])
  have e: "e \<notin> set fl"
    using free_chain_in [OF chain, of e] none by auto
  have tl: "pl_entries p (last fl) = Some (the (pl_entries p (last fl)))" if "fl \<noteq> []"
    using free_chain_in [OF chain, of "last fl"] that by auto
  have "free_chain (grow_entries hdr p fl e) (Some (hd (fl @ [e]))) (fl @ [e])"
  proof (cases "fl = []")
    case False
    then have "Some (hd (fl @ [e])) = pl_freelist p"
      using chain by (cases fl) auto
    then show ?thesis
      using free_chain_snoc [OF chain _ False tl [OF False], of e _ "new_entry hdr p e"] dist e False
      by (simp add: grow_entries_def new_entry_def)
  qed (simp add: grow_entries_def new_entry_def)
  moreover have "entry_ok hdr p (tail_of (fl @ [e])) e' en \<and> (en_busy en \<longleftrightarrow> e' \<notin> set (fl @ [e]))"
    if "grow_entries hdr p fl e e' = Some en" for e' en
  proof (cases "e' = e")
    case True
    then show ?thesis
      using that mp by (auto simp: grow_entries_def new_entry_def entry_ok_def tail_of_def)
  next
    case False
    show ?thesis
    proof (cases "fl \<noteq> [] \<and> e' = last fl")
      case True
      then show ?thesis
        using that False ok [OF tl] by (auto simp: grow_entries_def entry_ok_def tail_of_def)
    next
      case other: False
      then have "pl_entries p e' = Some en"
        using that False by (auto simp: grow_entries_def split: if_splits)
      then show ?thesis
        using ok [of e' en] other False by (auto simp: entry_ok_def tail_of_def)
    qed
  qed
  moreover have "dom (grow_entries hdr p fl e) = insert e (dom (pl_entries p))"
    using tl by (auto simp: grow_entries_def split: if_splits)
  then have "\<forall>a \<in> dom (grow_entries hdr p fl e). \<forall>b \<in> dom (grow_entries hdr p fl e). a \<noteq> b \<longrightarrow> apart (pool_span hdr p) a b"
    using inv fresh by (auto simp: pool_inv_def apart_def)
  moreover have "pool_sizes hdr p"
    using inv by (simp add: pool_inv_def)
  ultimately show ?thesis
    using e dist unfolding pool_inv_def by simp
qed

text \<open>What a growing list does to the other parts of a pool: nothing.\<close>

definition same_pool :: "kpool \<Rightarrow> kpool \<Rightarrow> bool" where
  "same_pool p p' \<longleftrightarrow>
     (\<exists>fr es n. p' = p\<lparr>pl_freelist := fr, pl_entries := es, pl_maps := n\<rparr>
        \<and> (\<forall>e en. en_busy en \<longrightarrow> (es e = Some en \<longleftrightarrow> pl_entries p e = Some en)))"

lemma same_poolD:
  assumes "same_pool p p'"
  shows "pl_cells p' = pl_cells p" "pl_canary p' = pl_canary p" "pl_guard p' = pl_guard p"
    "pl_elmlen p' = pl_elmlen p" "pl_uselen p' = pl_uselen p" "pl_memsz p' = pl_memsz p"
    "pl_pagesz p' = pl_pagesz p" "pl_growth p' = pl_growth p"
    "pool_span hdr p' = pool_span hdr p" "uptr_of hdr p' e = uptr_of hdr p e"
    "en_busy en \<Longrightarrow> pl_entries p' e = Some en \<longleftrightarrow> pl_entries p e = Some en"
  using assms by (auto simp: same_pool_def pool_span_def uptr_of_def)

lemma same_pool_live: "same_pool p p' \<Longrightarrow> pool_live p' = pool_live p"
  unfolding pool_live_def using same_poolD(11) by blast

lemma same_pool_refl: "same_pool p p"
proof -
  have "p = p\<lparr>pl_freelist := pl_freelist p, pl_entries := pl_entries p, pl_maps := pl_maps p\<rparr>" by simp
  then show ?thesis unfolding same_pool_def by blast
qed

lemma same_pool_trans:
  assumes "same_pool p q" "same_pool q r"
  shows "same_pool p r"
proof -
  obtain f1 e1 n1 f2 e2 n2 where "q = p\<lparr>pl_freelist := f1, pl_entries := e1, pl_maps := n1\<rparr>"
    "r = q\<lparr>pl_freelist := f2, pl_entries := e2, pl_maps := n2\<rparr>"
    "\<forall>e en. en_busy en \<longrightarrow> (e1 e = Some en \<longleftrightarrow> pl_entries p e = Some en)"
    "\<forall>e en. en_busy en \<longrightarrow> (e2 e = Some en \<longleftrightarrow> pl_entries q e = Some en)"
    using assms by (auto simp: same_pool_def)
  then have "r = p\<lparr>pl_freelist := f2, pl_entries := e2, pl_maps := n2\<rparr> \<and>
    (\<forall>e en. en_busy en \<longrightarrow> (e2 e = Some en \<longleftrightarrow> pl_entries p e = Some en))"
    by simp
  then show ?thesis unfolding same_pool_def by blast
qed

lemma grow_entries_same:
  assumes "pool_inv hdr p (tail_of fl) fl" "pl_entries p e = None"
  shows "same_pool p (p\<lparr>pl_freelist := fr, pl_entries := grow_entries hdr p fl e\<rparr>)"
proof -
  have "grow_entries hdr p fl e a = Some en \<longleftrightarrow> pl_entries p a = Some en" if "en_busy en" for a en
  proof (cases "a = e \<or> (fl \<noteq> [] \<and> a = last fl)")
    case True
    moreover have "\<not> en_busy x" if "fl \<noteq> []" "pl_entries p (last fl) = Some x" for x
      using assms(1) that by (auto simp: pool_inv_def)
    moreover have "pl_entries p (last fl) \<noteq> None" if "fl \<noteq> []"
      using assms(1) that free_chain_in [of "pl_entries p" "pl_freelist p" fl "last fl"] by (auto simp: pool_inv_def)
    ultimately show ?thesis
      using assms(2) that by (auto simp: grow_entries_def new_entry_def)
  qed (auto simp: grow_entries_def)
  then show ?thesis
    unfolding same_pool_def by (intro exI [of _ fr] exI [of _ "grow_entries hdr p fl e"] exI [of _ "pl_maps p"]) simp
qed

text \<open>Addresses for new entries: apart from each other and from the entries there are.\<close>

fun fresh_addrs :: "nat \<Rightarrow> (addr \<Rightarrow> pool_entry option) \<Rightarrow> addr list \<Rightarrow> bool" where
  "fresh_addrs span es [] \<longleftrightarrow> True"
| "fresh_addrs span es (a # as) \<longleftrightarrow>
     (\<forall>e \<in> dom es. apart span a e) \<and> (\<forall>b \<in> set as. apart span a b) \<and> fresh_addrs span es as"

lemma fresh_addrs_mono:
  "fresh_addrs span es as \<Longrightarrow> dom es' \<subseteq> insert a (dom es) \<Longrightarrow> \<forall>b \<in> set as. apart span a b \<Longrightarrow>
   fresh_addrs span es' as"
  by (induction as) (auto simp: apart_def)

lemma pool_grow_fold:
  assumes "pool_inv hdr p (tail_of fl) fl" "fresh_addrs (pool_span hdr p) (pl_entries p) as"
    "0 < pool_span hdr p" "pl_guard p \<longrightarrow> mp \<and> (\<forall>a \<in> set as. pl_pagesz p dvd a)"
  shows "\<exists>p'. foldR (pool_grow_step hdr mp) (p, tail_of fl) as = Inr (p', tail_of (fl @ as)) \<and>
    pool_inv hdr p' (tail_of (fl @ as)) (fl @ as) \<and> same_pool p p'"
  using assms
proof (induction as arbitrary: p fl)
  case Nil
  then show ?case by (auto simp: same_pool_refl)
next
  case (Cons a as)
  let ?p = "p\<lparr>pl_freelist := Some (hd (fl @ [a])), pl_entries := grow_entries hdr p fl a\<rparr>"
  have none: "pl_entries p a = None"
    using Cons.prems(2,3) by (intro apart_None) simp_all
  have "pool_inv hdr ?p (tail_of (fl @ [a])) (fl @ [a])"
    using Cons.prems by (intro pool_grow_step_inv) simp_all
  moreover have "dom (pl_entries ?p) \<subseteq> insert a (dom (pl_entries p))"
    using free_chain_in [of "pl_entries p" "pl_freelist p" fl "last fl"] Cons.prems(1)
    by (auto simp: grow_entries_def pool_inv_def split: if_splits)
  then have "fresh_addrs (pool_span hdr ?p) (pl_entries ?p) as"
    using Cons.prems(2) fresh_addrs_mono [of "pool_span hdr p" "pl_entries p" as "pl_entries ?p" a] by simp
  ultimately have "\<exists>p'. foldR (pool_grow_step hdr mp) (?p, tail_of (fl @ [a])) as = Inr (p', tail_of ((fl @ [a]) @ as)) \<and>
    pool_inv hdr p' (tail_of ((fl @ [a]) @ as)) ((fl @ [a]) @ as) \<and> same_pool ?p p'"
    using Cons.prems(3,4) by (intro Cons.IH) simp_all
  moreover have "pool_grow_step hdr mp (p, tail_of fl) a = Inr (?p, tail_of (fl @ [a]))"
    using pool_grow_step_ok [OF Cons.prems(1) none] Cons.prems(4) by (simp add: tail_of_def)
  moreover have "same_pool p ?p"
    by (rule grow_entries_same [OF Cons.prems(1) none])
  ultimately show ?case
    using same_pool_trans [of p ?p] by fastforce
qed

lemma guard_none_ok:
  assumes inv: "pool_inv hdr p (tail_of fl) fl" and "pl_guard p \<longrightarrow> mp"
  shows "\<exists>p'. guard_none mp (tail_of fl) p = Inr p' \<and> pool_inv hdr p' None fl \<and> same_pool p p'"
proof (cases "pl_guard p \<and> fl \<noteq> []")
  case True
  then obtain en where en: "pl_entries p (last fl) = Some en"
    using inv free_chain_in [of "pl_entries p" "pl_freelist p" fl "last fl"] by (auto simp: pool_inv_def)
  let ?es = "(pl_entries p)(last fl \<mapsto> en\<lparr>en_rw := False\<rparr>)"
  let ?p = "p\<lparr>pl_entries := ?es\<rparr>"
  have p: "?p = p\<lparr>pl_freelist := pl_freelist p, pl_entries := ?es, pl_maps := pl_maps p\<rparr>" by simp
  have busy: "\<not> en_busy en"
    using inv en True by (auto simp: pool_inv_def)
  have "free_chain ?es s l" if "free_chain (pl_entries p) s l" for s l
    using that en by (induction l arbitrary: s) (auto split: option.splits)
  moreover have "entry_ok hdr p None e x \<and> (en_busy x \<longleftrightarrow> e \<notin> set fl)" if "?es e = Some x" for e x
    using that inv en True busy
    by (cases "e = last fl") (auto simp: pool_inv_def entry_ok_def tail_of_def split: if_splits)
  moreover have "dom ?es = dom (pl_entries p)" using en by auto
  ultimately have "pool_inv hdr ?p None fl"
    using inv pool_upd [where p = p and fr = "pl_freelist p" and es = ?es]
      entry_ok_upd [where p = p and fr = "pl_freelist p" and es = ?es]
    unfolding pool_inv_def by simp
  moreover have "\<forall>e x. en_busy x \<longrightarrow> (?es e = Some x \<longleftrightarrow> pl_entries p e = Some x)"
    using en busy by auto
  then have "same_pool p ?p"
    unfolding same_pool_def using p by blast
  moreover have "guard_none mp (tail_of fl) p = Inr ?p"
    using True assms(2) en
    by (simp add: guard_none_def tail_of_def pool_mark_entry_none_def mark_entry_def set_entry_def)
  ultimately show ?thesis by blast
next
  case False
  then have "guard_none mp (tail_of fl) p = Inr p"
    by (auto simp: guard_none_def tail_of_def)
  moreover have "entry_ok hdr p (tail_of fl) e en \<longleftrightarrow> entry_ok hdr p None e en" for e en
    using False by (auto simp: entry_ok_def tail_of_def)
  then have "pool_inv hdr p None fl"
    using inv by (simp add: pool_inv_def)
  ultimately show ?thesis
    using same_pool_refl [of p] by blast
qed

lemma pool_inv_maps [simp]: "pool_inv hdr (p\<lparr>pl_maps := n\<rparr>) hot fl \<longleftrightarrow> pool_inv hdr p hot fl"
  by (simp add: pool_inv_def pool_sizes_def pool_span_def entry_ok_def uptr_of_def)

text \<open>
  The regions the kernel hands out for \<open>n\<close> new entries are aligned to pages and overlap neither each
  other nor an entry of the pool.
\<close>

definition mmap_fresh :: "nat \<Rightarrow> (nat \<Rightarrow> addr) \<Rightarrow> nat \<Rightarrow> kpool \<Rightarrow> bool" where
  "mmap_fresh hdr mmap n p \<longleftrightarrow>
     (let span = pool_span hdr p;
          len = (if pl_guard p then span else n * span);
          k = (if pl_guard p then n else 1)
      in \<forall>i < k. pl_pagesz p dvd mmap (pl_maps p + i) \<and>
           (\<forall>e \<in> dom (pl_entries p). mmap (pl_maps p + i) + len \<le> e \<or> e + span \<le> mmap (pl_maps p + i)) \<and>
           (\<forall>j < k. i \<noteq> j \<longrightarrow> apart len (mmap (pl_maps p + i)) (mmap (pl_maps p + j))))"

lemma fresh_addrsI:
  assumes "\<And>i. i < n \<Longrightarrow> \<forall>e \<in> dom es. apart span (f i) e"
    and "\<And>i j. i < j \<Longrightarrow> j < n \<Longrightarrow> apart span (f i) (f j)"
  shows "m \<le> n \<Longrightarrow> fresh_addrs span es (map f [n - m..<n])"
proof (induction m)
  case (Suc m)
  then have "[n - Suc m..<n] = (n - Suc m) # [n - m..<n]"
    by (simp add: Suc_diff_Suc upt_conv_Cons)
  then show ?case
    using Suc assms(1) [of "n - Suc m"] assms(2) [of "n - Suc m"] by auto
qed simp

lemma grow_addrs_fresh:
  assumes "mmap_fresh hdr mmap n p"
  shows "fresh_addrs (pool_span hdr p) (pl_entries p) (map (grow_addr hdr mmap p) [0..<n])"
proof -
  let ?s = "pool_span hdr p"
  have "\<forall>e \<in> dom (pl_entries p). apart ?s (grow_addr hdr mmap p i) e" if "i < n" for i
  proof (cases "pl_guard p")
    case True
    then show ?thesis
      using assms that by (auto simp: mmap_fresh_def Let_def grow_addr_def apart_def)
  next
    case False
    have le: "?s * i + ?s \<le> n * ?s"
      using that by (metis Suc_leI add.commute mult.commute mult_Suc mult_le_mono1)
    have eq: "grow_addr hdr mmap p i = mmap (pl_maps p) + ?s * i"
      using False by (simp add: grow_addr_def pool_span_def)
    show ?thesis
    proof
      fix e
      assume "e \<in> dom (pl_entries p)"
      then have "mmap (pl_maps p) + n * ?s \<le> e \<or> e + ?s \<le> mmap (pl_maps p)"
        using assms False by (auto simp: mmap_fresh_def Let_def)
      then show "apart ?s (grow_addr hdr mmap p i) e"
        using le unfolding apart_def eq by linarith
    qed
  qed
  moreover have "apart ?s (grow_addr hdr mmap p i) (grow_addr hdr mmap p j)" if "i < j" "j < n" for i j
  proof (cases "pl_guard p")
    case True
    then show ?thesis
      using assms that by (auto simp: mmap_fresh_def Let_def grow_addr_def)
  next
    case False
    have "?s * i + ?s \<le> ?s * j"
      using that by (metis Suc_leI add.commute mult_Suc_right mult_le_mono2)
    then show ?thesis
      using False by (simp add: grow_addr_def apart_def pool_span_def)
  qed
  ultimately have "fresh_addrs ?s (pl_entries p) (map (grow_addr hdr mmap p) [n - n..<n])"
    by (intro fresh_addrsI) auto
  then show ?thesis by simp
qed

lemma pool_span_pos: "pool_sizes hdr p \<Longrightarrow> 0 < pool_span hdr p"
  by (auto simp: pool_sizes_def pool_span_def)

lemma pool_grow_ok:
  assumes inv: "pool_inv hdr p None []" and fresh: "mmap_fresh hdr mmap n p" and mp: "pl_guard p \<longrightarrow> mp"
  shows "\<exists>p'. pool_grow hdr mp mmap n p = Inr p' \<and> pool_inv hdr p' None (map (grow_addr hdr mmap p) [0..<n]) \<and> same_pool p p'"
proof -
  let ?as = "map (grow_addr hdr mmap p) [0..<n]"
  have "pl_guard p \<longrightarrow> mp \<and> (\<forall>a \<in> set ?as. pl_pagesz p dvd a)"
    using fresh mp by (auto simp: mmap_fresh_def Let_def grow_addr_def)
  moreover have "pl_freelist p = None" "0 < pool_span hdr p"
    using inv pool_span_pos by (auto simp: pool_inv_def)
  ultimately obtain p1 where p1: "foldR (pool_grow_step hdr mp) (p, None) ?as = Inr (p1, tail_of ?as)"
    "pool_inv hdr p1 (tail_of ?as) ?as" "same_pool p p1"
    using pool_grow_fold [of hdr p "[]" ?as mp] grow_addrs_fresh [OF fresh] inv by (auto simp: tail_of_def)
  moreover have "pl_guard p1 \<longrightarrow> mp" using mp same_poolD(3) [OF p1(3)] by simp
  then obtain p2 where p2: "guard_none mp (tail_of ?as) p1 = Inr p2" "pool_inv hdr p2 None ?as" "same_pool p1 p2"
    using guard_none_ok [OF p1(2)] by blast
  moreover have "same_pool p2 (p2\<lparr>pl_maps := m\<rparr>)" for m
  proof -
    have "p2\<lparr>pl_maps := m\<rparr> = p2\<lparr>pl_freelist := pl_freelist p2, pl_entries := pl_entries p2, pl_maps := m\<rparr>" by simp
    then show ?thesis unfolding same_pool_def by blast
  qed
  ultimately show ?thesis
    using \<open>pl_freelist p = None\<close> same_pool_trans by (fastforce simp: pool_grow_def)
qed

section \<open>Getting and returning objects\<close>

lemma pool_inv_update:
  assumes inv: "pool_inv hdr p hot fl"
    and same: "pl_guard p' = pl_guard p" "pl_elmlen p' = pl_elmlen p" "pl_uselen p' = pl_uselen p"
      "pl_memsz p' = pl_memsz p" "pl_pagesz p' = pl_pagesz p" "dom (pl_entries p') = dom (pl_entries p)"
    and new: "free_chain (pl_entries p') (pl_freelist p') fl'" "distinct fl'"
      "\<And>a x. pl_entries p' a = Some x \<Longrightarrow> entry_ok hdr p hot' a x \<and> (en_busy x \<longleftrightarrow> a \<notin> set fl')"
  shows "pool_inv hdr p' hot' fl'"
proof -
  have "pool_sizes hdr p'" "pool_span hdr p' = pool_span hdr p"
    "\<And>a x. entry_ok hdr p' hot' a x \<longleftrightarrow> entry_ok hdr p hot' a x"
    using inv same by (simp_all add: pool_inv_def pool_sizes_def pool_span_def entry_ok_def uptr_of_def)
  then show ?thesis
    using inv same(6) new unfolding pool_inv_def by simp
qed

text \<open>An object whose canary nobody has overwritten.\<close>

definition canary_intact :: "kpool \<Rightarrow> addr \<Rightarrow> bool" where
  "canary_intact p u \<longleftrightarrow>
     (\<forall>e en. pl_entries p e = Some en \<and> en_busy en \<and> en_uptr en = u \<longrightarrow>
        pl_cells p (en_canary en) = canary_of p e u)"

lemma object_in_span:
  assumes "pool_sizes hdr p"
  shows "e \<le> uptr_of hdr p e" "uptr_of hdr p e + pl_elmlen p \<le> e + pool_span hdr p"
  using assms by (auto simp: uptr_of_def pool_sizes_def pool_span_def)

lemma pool_invD:
  assumes "pool_inv hdr p hot fl"
  shows "pool_sizes hdr p" "free_chain (pl_entries p) (pl_freelist p) fl" "distinct fl"
    "pl_entries p a = Some x \<Longrightarrow> entry_ok hdr p hot a x"
    "pl_entries p a = Some x \<Longrightarrow> en_busy x \<longleftrightarrow> a \<notin> set fl"
    "pl_entries p a = Some x \<Longrightarrow> pl_entries p b = Some y \<Longrightarrow> a \<noteq> b \<Longrightarrow> apart (pool_span hdr p) a b"
  using assms unfolding pool_inv_def by blast+

lemma objects_apart:
  assumes "pool_inv hdr p hot fl" "pl_entries p a = Some x" "pl_entries p b = Some y" "a \<noteq> b"
  shows "apart (pl_elmlen p) (en_uptr x) (en_uptr y)"
proof -
  have sz: "pool_sizes hdr p" and "apart (pool_span hdr p) a b"
    and "en_uptr x = uptr_of hdr p a" "en_uptr y = uptr_of hdr p b"
    using pool_invD [OF assms(1)] assms(2-) unfolding entry_ok_def by blast+
  then show ?thesis
    using object_in_span [OF sz, of a] object_in_span [OF sz, of b] by (auto simp: apart_def)
qed

lemma uptr_inj:
  assumes "pool_inv hdr p hot fl" "pl_entries p a = Some x" "pl_entries p b = Some y" "en_uptr x = en_uptr y"
  shows "a = b"
proof (rule ccontr)
  assume "a \<noteq> b"
  then have "apart (pl_elmlen p) (en_uptr x) (en_uptr y)" by (rule objects_apart [OF assms(1-3)])
  then show False using assms(1,4) by (auto simp: apart_def pool_inv_def pool_sizes_def)
qed

lemma canary_addr_apart:
  assumes "pool_inv hdr p hot fl" "pl_entries p a = Some x" "pl_entries p b = Some y" "a \<noteq> b"
  shows "en_canary x \<noteq> en_canary y"
  using objects_apart [OF assms] assms by (auto simp: apart_def pool_inv_def entry_ok_def pool_sizes_def)

definition taken :: "kpool \<Rightarrow> addr \<Rightarrow> pool_entry \<Rightarrow> kpool" where
  "taken p e en =
     p\<lparr>pl_entries := (pl_entries p)(e \<mapsto> en\<lparr>en_rw := True, en_nextfree := None, en_busy := True\<rparr>),
       pl_freelist := en_nextfree en,
       pl_cells := (pl_cells p)(en_canary en := canary_of p e (en_uptr en))\<rparr>"

lemma kore_pool_get_head:
  assumes inv: "pool_inv hdr p None (e # fl)" and mp: "pl_guard p \<longrightarrow> mp" and en: "pl_entries p e = Some en"
  shows "kore_pool_get hdr mp mmap p = Inr (en_uptr en, taken p e en)"
proof -
  have fr: "pl_freelist p = Some e" and free: "\<not> en_busy en" and rw: "en_rw en \<longleftrightarrow> \<not> pl_guard p"
    using inv en by (auto simp: pool_inv_def entry_ok_def)
  show ?thesis
  proof (cases "pl_guard p")
    case True
    with fr free rw en mp show ?thesis
      by (simp add: kore_pool_get_def taken_def pool_mark_entry_rw_def mark_entry_def set_entry_def entry_at_def canary_of_def)
  next
    case False
    have "en\<lparr>en_rw := True, en_nextfree := None, en_busy := True\<rparr> = en\<lparr>en_nextfree := None, en_busy := True\<rparr>"
      using rw False by (cases en) simp
    then show ?thesis
      using False fr free rw en unfolding taken_def
      by (simp only:) (simp add: kore_pool_get_def set_entry_def entry_at_def canary_of_def)
  qed
qed

lemma taken_inv:
  assumes inv: "pool_inv hdr p None (e # fl)" and en: "pl_entries p e = Some en"
  shows "pool_inv hdr (taken p e en) None fl"
proof -
  let ?en = "en\<lparr>en_rw := True, en_nextfree := None, en_busy := True\<rparr>"
  let ?es = "(pl_entries p)(e \<mapsto> ?en)"
  have ok: "\<And>a x. pl_entries p a = Some x \<Longrightarrow> entry_ok hdr p None a x \<and> (en_busy x \<longleftrightarrow> a \<notin> set (e # fl))"
    and "free_chain (pl_entries p) (en_nextfree en) fl" "e \<notin> set fl"
    using inv en by (auto simp: pool_inv_def)
  then have chain: "free_chain ?es (en_nextfree en) fl" by simp
  have "entry_ok hdr p None a x \<and> (en_busy x \<longleftrightarrow> a \<notin> set fl)" if "?es a = Some x" for a x
    using that ok [OF en] ok [of a x] \<open>e \<notin> set fl\<close>
    by (cases "a = e") (auto simp: entry_ok_def)
  moreover have "dom ?es = dom (pl_entries p)" using en by auto
  ultimately show ?thesis
    using chain inv by (intro pool_inv_update [OF inv]) (simp_all add: taken_def pool_inv_def)
qed

lemma taken_entries:
  "pl_entries (taken p e en) a = Some x \<longleftrightarrow>
     a = e \<and> x = en\<lparr>en_rw := True, en_nextfree := None, en_busy := True\<rparr> \<or> a \<noteq> e \<and> pl_entries p a = Some x"
  by (auto simp: taken_def)

lemma taken_live:
  assumes inv: "pool_inv hdr p None (e # fl)" and en: "pl_entries p e = Some en"
  shows "pool_live (taken p e en) = insert (en_uptr en) (pool_live p)" "en_uptr en \<notin> pool_live p"
    "\<forall>v \<in> pool_live p. apart (pl_elmlen p) (en_uptr en) v"
proof -
  have free: "\<not> en_busy en" using pool_invD(5) [OF inv en] by simp
  then have other: "a \<noteq> e" if "pl_entries p a = Some x" "en_busy x" for a x
    using that en by auto
  show "pool_live (taken p e en) = insert (en_uptr en) (pool_live p)"
  proof (intro set_eqI iffI)
    fix v
    assume "v \<in> pool_live (taken p e en)"
    then show "v \<in> insert (en_uptr en) (pool_live p)"
      by (auto simp: pool_live_def taken_entries)
  next
    fix v
    assume "v \<in> insert (en_uptr en) (pool_live p)"
    then consider "v = en_uptr en" | a x where "pl_entries p a = Some x" "en_busy x" "en_uptr x = v"
      by (auto simp: pool_live_def)
    then show "v \<in> pool_live (taken p e en)"
      unfolding pool_live_def by cases (force simp: taken_entries, use other taken_entries in blast)
  qed
  show "\<forall>v \<in> pool_live p. apart (pl_elmlen p) (en_uptr en) v"
  proof
    fix v
    assume "v \<in> pool_live p"
    then obtain a x where "pl_entries p a = Some x" "en_busy x" "en_uptr x = v"
      by (auto simp: pool_live_def)
    then show "apart (pl_elmlen p) (en_uptr en) v"
      using objects_apart [OF inv en, of a x] other by auto
  qed
  then show "en_uptr en \<notin> pool_live p"
    using pool_invD(1) [OF inv] by (auto simp: apart_def pool_sizes_def)
qed

lemma taken_intact:
  assumes inv: "pool_inv hdr p None (e # fl)" and en: "pl_entries p e = Some en"
  shows "canary_intact (taken p e en) (en_uptr en)"
    "v \<in> pool_live p \<Longrightarrow> canary_intact p v \<Longrightarrow> canary_intact (taken p e en) v"
proof -
  have cells: "pl_cells (taken p e en) = (pl_cells p)(en_canary en := canary_of p e (en_uptr en))"
    "canary_of (taken p e en) a v = canary_of p a v" for a v
    by (simp_all add: taken_def canary_of_def)
  have "a = e" if "pl_entries p a = Some x" "en_uptr x = en_uptr en" for a x
    using uptr_inj [OF inv that(1) en that(2)] .
  then show "canary_intact (taken p e en) (en_uptr en)"
    unfolding canary_intact_def taken_entries cells by fastforce
  assume v: "v \<in> pool_live p" "canary_intact p v"
  have ne: "v \<noteq> en_uptr en" using taken_live(2) [OF inv en] v(1) by auto
  show "canary_intact (taken p e en) v"
    unfolding canary_intact_def
  proof (intro allI impI, elim conjE)
    fix a x
    assume x: "pl_entries (taken p e en) a = Some x" "en_busy x" "en_uptr x = v"
    then have ax: "a \<noteq> e" "pl_entries p a = Some x"
      using ne by (auto simp: taken_entries)
    then have "en_canary x \<noteq> en_canary en"
      by (intro canary_addr_apart [OF inv _ en])
    then show "pl_cells (taken p e en) (en_canary x) = canary_of (taken p e en) a v"
      using v(2) x ax unfolding cells canary_intact_def by simp
  qed
qed

lemma kore_pool_get_grows:
  assumes inv: "pool_inv hdr p None fl" and "pl_freelist p = None" "pool_grow hdr mp mmap (pl_growth p) p = Inr p'"
    "pl_freelist p' \<noteq> None"
  shows "kore_pool_get hdr mp mmap p = kore_pool_get hdr mp mmap p'"
  using assms by (auto simp: kore_pool_get_def)

text \<open>In a guarded entry the header is found again when the object starts in the first page.\<close>

definition first_page :: "kpool \<Rightarrow> bool" where
  "first_page p \<longleftrightarrow> (pl_guard p \<longrightarrow> pl_memsz p - pl_pagesz p - pl_elmlen p < pl_pagesz p)"

lemma put_base_uptr:
  assumes "entry_ok hdr p hot e en" "first_page p"
  shows "put_base hdr p (en_uptr en) = e"
proof (cases "pl_guard p")
  case True
  let ?d = "pl_memsz p - pl_pagesz p - pl_elmlen p"
  have "(e + ?d) mod pl_pagesz p = ?d"
    using assms True by (auto simp: entry_ok_def first_page_def elim!: dvdE)
  then show ?thesis
    using assms True by (simp add: put_base_def entry_ok_def uptr_of_def)
qed (use assms in \<open>simp add: put_base_def entry_ok_def uptr_of_def\<close>)

definition given_back :: "kpool \<Rightarrow> addr \<Rightarrow> pool_entry \<Rightarrow> kpool" where
  "given_back p e en =
     p\<lparr>pl_entries := (pl_entries p)(e \<mapsto> en\<lparr>en_busy := False, en_nextfree := pl_freelist p, en_rw := \<not> pl_guard p\<rparr>),
       pl_freelist := Some e\<rparr>"

lemma xor_canary: "c = canary_of p e u \<longleftrightarrow> c XOR of_nat e XOR of_nat u = pl_canary p"
  unfolding canary_of_def by (metis (no_types) bit.xor_left_self xor.assoc xor.commute)

lemma kore_pool_put_eq:
  assumes inv: "pool_inv hdr p None fl" and en: "pl_entries p e = Some en" "en_busy en"
    and "first_page p" and mp: "pl_guard p \<longrightarrow> mp"
  shows "kore_pool_put hdr mp (en_uptr en) p =
    (if pl_cells p (en_canary en) = canary_of p e (en_uptr en) then Inr (given_back p e en)
     else Inl (Fatal ''memory corruption detected''))"
proof -
  have ok: "entry_ok hdr p None e en" by (rule pool_invD(4) [OF inv en(1)])
  then have base: "put_base hdr p (en_uptr en) = e" using assms(4) by (rule put_base_uptr)
  have rw: "en_rw en" using ok en(2) by (simp add: entry_ok_def)
  show ?thesis
  proof (cases "pl_guard p")
    case True
    then show ?thesis
      using en rw base mp xor_canary [of "pl_cells p (en_canary en)" p e "en_uptr en"]
      by (simp add: kore_pool_put_def entry_at_def guard_none_def pool_mark_entry_none_def mark_entry_def
          set_entry_def given_back_def)
  next
    case False
    have "en\<lparr>en_busy := False, en_nextfree := pl_freelist p, en_rw := True\<rparr> = en\<lparr>en_busy := False, en_nextfree := pl_freelist p\<rparr>"
      using rw by (cases en) simp
    then have "given_back p e en = p\<lparr>pl_entries := (pl_entries p)(e \<mapsto> en\<lparr>en_busy := False, en_nextfree := pl_freelist p\<rparr>), pl_freelist := Some e\<rparr>"
      unfolding given_back_def using False by (simp only: not_False_eq_True)
    then show ?thesis
      using False en rw base xor_canary [of "pl_cells p (en_canary en)" p e "en_uptr en"]
      by (simp add: kore_pool_put_def entry_at_def guard_none_def set_entry_def)
  qed
qed

lemma given_back_entries:
  "pl_entries (given_back p e en) a = Some x \<longleftrightarrow>
     a = e \<and> x = en\<lparr>en_busy := False, en_nextfree := pl_freelist p, en_rw := \<not> pl_guard p\<rparr> \<or>
     a \<noteq> e \<and> pl_entries p a = Some x"
  by (auto simp: given_back_def)

lemma given_back_inv:
  assumes inv: "pool_inv hdr p None fl" and en: "pl_entries p e = Some en" "en_busy en"
  shows "pool_inv hdr (given_back p e en) None (e # fl)"
proof (rule pool_inv_update [OF inv])
  have e: "e \<notin> set fl" using pool_invD(5) [OF inv en(1)] en(2) by simp
  then show "distinct (e # fl)" using pool_invD(3) [OF inv] by simp
  show "free_chain (pl_entries (given_back p e en)) (pl_freelist (given_back p e en)) (e # fl)"
    using e pool_invD(2) [OF inv] by (simp add: given_back_def)
  show "dom (pl_entries (given_back p e en)) = dom (pl_entries p)"
    using en by (auto simp: given_back_def)
  show "entry_ok hdr p None a x \<and> (en_busy x \<longleftrightarrow> a \<notin> set (e # fl))"
    if "pl_entries (given_back p e en) a = Some x" for a x
    using that pool_invD(4,5) [OF inv, of a x] pool_invD(4) [OF inv en(1)]
    by (auto simp: given_back_entries entry_ok_def)
qed (simp_all add: given_back_def)

lemma given_back_live:
  assumes inv: "pool_inv hdr p None fl" and en: "pl_entries p e = Some en" "en_busy en"
  shows "pool_live (given_back p e en) = pool_live p - {en_uptr en}"
proof (intro set_eqI iffI)
  fix v
  assume "v \<in> pool_live (given_back p e en)"
  then obtain a x where "a \<noteq> e" "pl_entries p a = Some x" "en_busy x" "en_uptr x = v"
    by (auto simp: pool_live_def given_back_entries)
  then show "v \<in> pool_live p - {en_uptr en}"
    using uptr_inj [OF inv, of a x e en] en by (auto simp: pool_live_def)
next
  fix v
  assume "v \<in> pool_live p - {en_uptr en}"
  then obtain a x where x: "pl_entries p a = Some x" "en_busy x" "en_uptr x = v" "v \<noteq> en_uptr en"
    by (auto simp: pool_live_def)
  then have "pl_entries (given_back p e en) a = Some x"
    using en by (auto simp: given_back_entries)
  then show "v \<in> pool_live (given_back p e en)"
    using x unfolding pool_live_def by blast
qed

lemma given_back_again:
  assumes inv: "pool_inv hdr p None fl" and en: "pl_entries p e = Some en" "en_busy en" and "first_page p"
  shows "\<exists>f. kore_pool_put hdr mp (en_uptr en) (given_back p e en) = Inl f"
proof -
  have "put_base hdr p (en_uptr en) = e"
    using put_base_uptr [OF pool_invD(4) [OF inv en(1)] assms(4)] .
  moreover have "put_base hdr (given_back p e en) u = put_base hdr p u" for u
    by (simp add: put_base_def given_back_def)
  ultimately have base: "put_base hdr (given_back p e en) (en_uptr en) = e" by simp
  have "pl_entries (given_back p e en) e =
    Some (en\<lparr>en_busy := False, en_nextfree := pl_freelist p, en_rw := \<not> pl_guard p\<rparr>)"
    by (simp add: given_back_def)
  then show ?thesis
    using base by (simp add: kore_pool_put_def entry_at_def Let_def)
qed

section \<open>Fresh pools\<close>

lemma guard_memsz_bounds:
  assumes "hdr < pagesz" "pagesz dvd memsz"
  shows "pagesz dvd guard_memsz hdr pagesz memsz elmlen \<and>
    hdr + elmlen + memsz \<le> guard_memsz hdr pagesz memsz elmlen + pagesz"
  using assms
proof (induction hdr pagesz memsz elmlen rule: guard_memsz.induct)
  case (1 hdr pagesz memsz elmlen)
  show ?case
  proof (cases "elmlen > pagesz - hdr")
    case True
    then have "guard_memsz hdr pagesz memsz elmlen = guard_memsz hdr pagesz (memsz + pagesz) (elmlen - min elmlen pagesz)"
      using 1(2) by (subst guard_memsz.simps) simp
    then show ?thesis
      using 1 True by (cases "elmlen \<le> pagesz") auto
  next
    case False
    then have "guard_memsz hdr pagesz memsz elmlen = memsz"
      by (subst guard_memsz.simps) simp
    then show ?thesis using False 1 by simp
  qed
qed

lemma pool_start_simps [simp]:
  "pl_uselen (pool_start hdr guard pagesz rnd1 rnd2 len elm) = len"
  "pl_elmlen (pool_start hdr guard pagesz rnd1 rnd2 len elm) = (len + 23) div 16 * 16"
  "pl_memsz (pool_start hdr guard pagesz rnd1 rnd2 len elm) =
     (if guard then guard_memsz hdr pagesz (pagesz * 2) ((len + 23) div 16 * 16) else (len + 23) div 16 * 16)"
  "pl_pagesz (pool_start hdr guard pagesz rnd1 rnd2 len elm) = pagesz"
  "pl_growth (pool_start hdr guard pagesz rnd1 rnd2 len elm) = elm div 4"
  "pl_guard (pool_start hdr guard pagesz rnd1 rnd2 len elm) = guard"
  "pl_freelist (pool_start hdr guard pagesz rnd1 rnd2 len elm) = None"
  "pl_entries (pool_start hdr guard pagesz rnd1 rnd2 len elm) = Map.empty"
  "pl_maps (pool_start hdr guard pagesz rnd1 rnd2 len elm) = 0"
  by (simp_all add: pool_start_def Let_def add.commute)

lemma kore_pool_init_ok:
  assumes sz: "hdr < sz" and mp: "guard \<longrightarrow> mp"
    and fresh: "mmap_fresh hdr mmap (max 16 elm) (pool_start hdr guard sz rnd1 rnd2 len (max 16 elm))"
  shows "\<exists>p fl. kore_pool_init hdr mp mmap guard (Some sz) True rnd1 rnd2 len elm = Inr p \<and> pool_inv hdr p None fl
    \<and> pool_live p = {} \<and> pl_freelist p \<noteq> None \<and> same_pool (pool_start hdr guard sz rnd1 rnd2 len (max 16 elm)) p"
proof -
  let ?p = "pool_start hdr guard sz rnd1 rnd2 len (max 16 elm)"
  let ?l = "(len + 23) div 16 * 16"
  have "len + 8 \<le> ?l" by presburger
  moreover have "sz dvd guard_memsz hdr sz (sz * 2) ?l \<and> hdr + ?l + sz * 2 \<le> guard_memsz hdr sz (sz * 2) ?l + sz"
    using sz by (intro guard_memsz_bounds) auto
  ultimately have "pool_sizes hdr ?p"
    using sz by (simp add: pool_sizes_def)
  then have "pool_inv hdr ?p None []"
    by (simp add: pool_inv_def)
  then obtain q where q: "pool_grow hdr mp mmap (max 16 elm) ?p = Inr q"
      "pool_inv hdr q None (map (grow_addr hdr mmap ?p) [0..<max 16 elm])" "same_pool ?p q"
    using pool_grow_ok [of hdr ?p mmap "max 16 elm" mp] fresh mp by auto
  have "max 16 elm = Suc (max 16 elm - 1)" by simp
  then have "[0..<max 16 elm] = 0 # [1..<max 16 elm]" by (simp add: upt_conv_Cons)
  then have "pl_freelist q \<noteq> None" using pool_invD(2) [OF q(2)] by simp
  moreover have "pool_live q = {}"
    using same_pool_live [OF q(3)] by (simp add: pool_live_def)
  moreover have "kore_pool_init hdr mp mmap guard (Some sz) True rnd1 rnd2 len elm = Inr q"
    using q(1) by (simp add: kore_pool_init_def max_def not_less split: if_splits)
  ultimately show ?thesis using q(2,3) by blast
qed

section \<open>Properties\<close>

text \<open>
  Getting an object never fails on a pool in order, whether or not it has to grow, as long as the
  kernel hands out fresh regions: the object is one nobody holds, it overlaps no object that is held,
  its canary is in place and the canaries of the others are untouched, and the pool is in order
  afterwards.
\<close>

theorem kore_pool_get_correct:
  assumes inv: "pool_inv hdr p None fl" and growth: "0 < pl_growth p" and mp: "pl_guard p \<longrightarrow> mp"
    and fresh: "pl_freelist p = None \<longrightarrow> mmap_fresh hdr mmap (pl_growth p) p"
  shows "\<exists>u p' fl'. kore_pool_get hdr mp mmap p = Inr (u, p') \<and> pool_inv hdr p' None fl'
    \<and> u \<notin> pool_live p \<and> pool_live p' = insert u (pool_live p)
    \<and> (\<forall>v \<in> pool_live p. apart (pl_elmlen p) u v)
    \<and> canary_intact p' u \<and> (\<forall>v \<in> pool_live p. canary_intact p v \<longrightarrow> canary_intact p' v)"
proof -
  obtain q e fs en where q: "same_pool p q" "pool_inv hdr q None (e # fs)" "pl_entries q e = Some en"
    and get: "kore_pool_get hdr mp mmap p = kore_pool_get hdr mp mmap q"
  proof (cases fl)
    case (Cons e fs)
    then show ?thesis
      using that [OF same_pool_refl] inv free_chain_in [OF pool_invD(2) [OF inv], of e] by auto
  next
    case Nil
    then have none: "pl_freelist p = None" using pool_invD(2) [OF inv] by simp
    let ?as = "map (grow_addr hdr mmap p) [0..<pl_growth p]"
    obtain q where q: "pool_grow hdr mp mmap (pl_growth p) p = Inr q" "pool_inv hdr q None ?as" "same_pool p q"
      using pool_grow_ok [of hdr p mmap "pl_growth p" mp] inv Nil fresh none mp by blast
    obtain a as where as: "?as = a # as" using growth by (cases ?as) auto
    then obtain en where "pl_entries q a = Some en"
      using free_chain_in [OF pool_invD(2) [OF q(2)], of a] by auto
    moreover have "pl_freelist q \<noteq> None" using pool_invD(2) [OF q(2)] as by simp
    ultimately show ?thesis
      using that [OF q(3)] q(2) as kore_pool_get_grows [OF inv none q(1)] by simp
  qed
  have "pl_guard q \<longrightarrow> mp" using mp same_poolD(3) [OF q(1)] by simp
  then have "kore_pool_get hdr mp mmap p = Inr (en_uptr en, taken q e en)"
    using get kore_pool_get_head [OF q(2) _ q(3)] by simp
  moreover have "canary_intact q v" if "canary_intact p v" for v
    using that same_poolD(1,2,11) [OF q(1)] by (auto simp: canary_intact_def canary_of_def)
  ultimately show ?thesis
    using taken_inv [OF q(2,3)] taken_live [OF q(2,3)] taken_intact [OF q(2,3)]
      same_pool_live [OF q(1)] same_poolD(4) [OF q(1)] by auto
qed

text \<open>
  Returning an object that is held and whose canary is intact makes it, and only it, free again:
  the pool stays in order, the next object handed out is this one, and returning it once more is
  caught.  An object whose canary was overwritten is not taken back: the process stops.  With memory
  guards this holds for objects that start in the first page of their region.
\<close>

theorem kore_pool_put_correct:
  assumes inv: "pool_inv hdr p None fl" and u: "u \<in> pool_live p" and "first_page p" and mp: "pl_guard p \<longrightarrow> mp"
  shows "(canary_intact p u \<longrightarrow> (\<exists>p' fl' p''. kore_pool_put hdr mp u p = Inr p' \<and> pool_inv hdr p' None fl'
      \<and> pool_live p' = pool_live p - {u}
      \<and> (\<exists>f. kore_pool_put hdr mp u p' = Inl f)
      \<and> kore_pool_get hdr mp mmap p' = Inr (u, p'') \<and> pool_live p'' = pool_live p))
    \<and> (\<not> canary_intact p u \<longrightarrow> kore_pool_put hdr mp u p = Inl (Fatal ''memory corruption detected''))"
proof -
  obtain e en where en: "pl_entries p e = Some en" "en_busy en" and eq: "en_uptr en = u"
    using u by (auto simp: pool_live_def)
  have "a = e" if "pl_entries p a = Some x" "en_uptr x = u" for a x
    using uptr_inj [OF inv that(1) en(1)] that(2) eq by simp
  then have intact: "canary_intact p u \<longleftrightarrow> pl_cells p (en_canary en) = canary_of p e u"
    using en eq unfolding canary_intact_def by (metis option.inject)
  let ?p = "given_back p e en" and ?en = "en\<lparr>en_busy := False, en_nextfree := pl_freelist p, en_rw := \<not> pl_guard p\<rparr>"
  have inv': "pool_inv hdr ?p None (e # fl)" by (rule given_back_inv [OF inv en])
  have en': "pl_entries ?p e = Some ?en" "pl_guard ?p \<longrightarrow> mp" using mp by (simp_all add: given_back_def)
  have get: "kore_pool_get hdr mp mmap ?p = Inr (u, taken ?p e ?en)"
    using kore_pool_get_head [OF inv' en'(2,1)] eq by simp
  have live: "pool_live (taken ?p e ?en) = pool_live p" "pool_live ?p = pool_live p - {u}"
    using taken_live(1) [OF inv' en'(1)] given_back_live [OF inv en] eq u by auto
  have again: "\<exists>f. kore_pool_put hdr mp u ?p = Inl f"
    using given_back_again [OF inv en assms(3)] eq by simp
  have put: "kore_pool_put hdr mp u p =
    (if canary_intact p u then Inr ?p else Inl (Fatal ''memory corruption detected''))"
    using kore_pool_put_eq [OF inv en assms(3) mp] intact eq by simp
  show ?thesis
  proof (intro conjI impI)
    assume "canary_intact p u"
    then have "kore_pool_put hdr mp u p = Inr ?p" using put by simp
    then show "\<exists>p' fl' p''. kore_pool_put hdr mp u p = Inr p' \<and> pool_inv hdr p' None fl'
      \<and> pool_live p' = pool_live p - {u} \<and> (\<exists>f. kore_pool_put hdr mp u p' = Inl f)
      \<and> kore_pool_get hdr mp mmap p' = Inr (u, p'') \<and> pool_live p'' = pool_live p"
      by (intro exI [of _ ?p] exI [of _ "e # fl"] exI [of _ "taken ?p e ?en"] conjI get live again inv')
  qed (simp add: put)
qed

text \<open>
  C39. With memory guards, an object that does not start in the first page of its region can never be
  returned: \<open>kore_pool_put\<close> takes the page the object starts in for the one that holds the header,
  and no entry is there.
\<close>

theorem kore_pool_put_misplaced:
  assumes inv: "pool_inv hdr p None fl" and u: "u \<in> pool_live p" and "\<not> first_page p"
  shows "kore_pool_put hdr mp u p = Inl OutOfBounds"
proof -
  obtain e en where en: "pl_entries p e = Some en" and eq: "en_uptr en = u"
    using u by (auto simp: pool_live_def)
  define d where "d = pl_memsz p - pl_pagesz p - pl_elmlen p"
  have g: "pl_guard p" and d: "pl_pagesz p \<le> d" using assms(3) by (auto simp: first_page_def d_def)
  have "pool_sizes hdr p" by (rule pool_invD(1) [OF inv])
  then have sz: "0 < pl_pagesz p" "d < pl_memsz p" using g by (auto simp: pool_sizes_def d_def)
  have "u = e + d" and al: "pl_pagesz p dvd e"
    using pool_invD(4) [OF inv en] g eq by (auto simp: entry_ok_def uptr_of_def d_def)
  then have "u mod pl_pagesz p = d mod pl_pagesz p" by (auto elim!: dvdE)
  then have b: "put_base hdr p u = e + (d - d mod pl_pagesz p)"
    using g \<open>u = e + d\<close> by (simp add: put_base_def add_diff_assoc mod_less_eq_dividend)
  have "pl_pagesz p \<le> d div pl_pagesz p * pl_pagesz p"
    using d sz(1) by (metis Suc_leI div_greater_zero_iff mult_le_mono1 nat_mult_1 One_nat_def)
  then have "pl_pagesz p \<le> d - d mod pl_pagesz p" by (simp add: minus_mod_eq_div_mult)
  then have "e < put_base hdr p u" "put_base hdr p u < e + pl_memsz p"
    using b sz by auto
  then have "\<not> apart (pool_span hdr p) e (put_base hdr p u)" "e \<noteq> put_base hdr p u"
    using g by (auto simp: apart_def pool_span_def)
  then have "pl_entries p (put_base hdr p u) = None"
    using pool_invD(6) [OF inv en] by (metis option.exhaust)
  then show ?thesis by (simp add: kore_pool_put_def entry_at_def)
qed

section \<open>Witnesses\<close>

definition demo_mmap :: "nat \<Rightarrow> addr" where
  "demo_mmap i = 1048576 * (i + 1)"

lemma demo_mmap_fresh:
  assumes "(if guard then pl_memsz q else n * pool_span hdr q) \<le> 1048576" "q = pool_start hdr guard 4096 r1 r2 len n"
  shows "mmap_fresh hdr demo_mmap n q"
proof -
  have "(4096 :: nat) dvd 1048576" by simp
  then have "4096 dvd demo_mmap i" for i by (simp add: demo_mmap_def)
  moreover have "apart l (demo_mmap i) (demo_mmap j)" if "i \<noteq> j" "l \<le> 1048576" for i j l
    using that by (cases i j rule: linorder_cases) (auto simp: apart_def demo_mmap_def)
  ultimately show ?thesis
    using assms unfolding mmap_fresh_def Let_def by (auto simp: pool_span_def)
qed

lemma demo_pool:
  "\<exists>p fl. kore_pool_init 32 True demo_mmap False (Some 4096) True 1 2 100 16 = Inr p \<and> pool_inv 32 p None fl
    \<and> pool_live p = {} \<and> pl_freelist p \<noteq> None \<and> same_pool (pool_start 32 False 4096 1 2 100 16) p"
  using kore_pool_init_ok [of 32 4096 False True demo_mmap 16 1 2 100]
    demo_mmap_fresh [of False "pool_start 32 False 4096 1 2 100 16" 16 32 1 2 100]
  by (simp add: pool_span_def)

theorem kore_pool_get_correct_witness:
  "\<exists>p u p'. kore_pool_init 32 True demo_mmap False (Some 4096) True 1 2 100 16 = Inr p
    \<and> kore_pool_get 32 True demo_mmap p = Inr (u, p') \<and> pool_live p' = {u} \<and> canary_intact p' u"
proof -
  obtain p fl where p: "kore_pool_init 32 True demo_mmap False (Some 4096) True 1 2 100 16 = Inr p"
    "pool_inv 32 p None fl" "pool_live p = {}" "pl_freelist p \<noteq> None" "same_pool (pool_start 32 False 4096 1 2 100 16) p"
    using demo_pool by blast
  have "pl_growth p = 4" using same_poolD(8) [OF p(5)] by simp
  then show ?thesis
    using kore_pool_get_correct [of 32 p fl True demo_mmap] p by auto
qed

theorem kore_pool_put_correct_witness:
  "\<exists>p u p' p''. kore_pool_init 32 True demo_mmap False (Some 4096) True 1 2 100 16 = Inr p
    \<and> kore_pool_get 32 True demo_mmap p = Inr (u, p') \<and> kore_pool_put 32 True u p' = Inr p'' \<and> pool_live p'' = {}"
proof -
  obtain p fl where p: "kore_pool_init 32 True demo_mmap False (Some 4096) True 1 2 100 16 = Inr p"
    "pool_inv 32 p None fl" "pool_live p = {}" "pl_freelist p \<noteq> None" "same_pool (pool_start 32 False 4096 1 2 100 16) p"
    using demo_pool by blast
  obtain e fs en where e: "fl = e # fs" "pl_entries p e = Some en"
    using pool_invD(2) [OF p(2)] p(4) by (cases fl) (auto split: option.splits)
  have g: "\<not> pl_guard p" using same_poolD(3) [OF p(5)] by simp
  have get: "kore_pool_get 32 True demo_mmap p = Inr (en_uptr en, taken p e en)"
    using kore_pool_get_head [of 32 p e fs True en] p(2) e by simp
  have inv: "pool_inv 32 (taken p e en) None fs" and live: "pool_live (taken p e en) = {en_uptr en}"
    and "canary_intact (taken p e en) (en_uptr en)"
    using taken_inv [of 32 p e fs en] taken_live(1) [of 32 p e fs en] taken_intact(1) [of 32 p e fs en] p(2,3) e by auto
  moreover have "first_page (taken p e en)" "\<not> pl_guard (taken p e en)"
    using g by (simp_all add: first_page_def taken_def)
  ultimately show ?thesis
    using kore_pool_put_correct [OF inv, of "en_uptr en" True demo_mmap] live p(1) get by auto
qed

theorem kore_pool_put_misplaced_witness:
  "\<exists>p u p'. kore_pool_init 32 True demo_mmap True (Some 4096) True 1 2 4080 16 = Inr p
    \<and> kore_pool_get 32 True demo_mmap p = Inr (u, p') \<and> kore_pool_put 32 True u p' = Inl OutOfBounds"
proof -
  let ?q = "pool_start 32 True 4096 1 2 4080 16"
  have m: "guard_memsz 32 4096 8192 4096 = 12288" by (simp add: guard_memsz.simps)
  have "mmap_fresh 32 demo_mmap 16 ?q"
    by (intro demo_mmap_fresh [of True]) (simp_all add: m)
  then obtain p fl where p: "kore_pool_init 32 True demo_mmap True (Some 4096) True 1 2 4080 16 = Inr p"
    "pool_inv 32 p None fl" "pool_live p = {}" "pl_freelist p \<noteq> None" "same_pool ?q p"
    using kore_pool_init_ok [of 32 4096 True True demo_mmap 16 1 2 4080] by auto
  obtain e fs en where e: "fl = e # fs" "pl_entries p e = Some en"
    using pool_invD(2) [OF p(2)] p(4) by (cases fl) (auto split: option.splits)
  have get: "kore_pool_get 32 True demo_mmap p = Inr (en_uptr en, taken p e en)"
    using kore_pool_get_head [of 32 p e fs True en] p(2) e by simp
  have inv: "pool_inv 32 (taken p e en) None fs" and live: "pool_live (taken p e en) = {en_uptr en}"
    using taken_inv [of 32 p e fs en] taken_live(1) [of 32 p e fs en] p(2,3) e by auto
  have "\<not> first_page (taken p e en)"
    using same_poolD(3,4,6,7) [OF p(5)] m by (simp add: first_page_def taken_def)
  then show ?thesis
    using kore_pool_put_misplaced [OF inv, of "en_uptr en" True] live p(1) get by auto
qed

end
