(* ===== verification/Net.thy ===== *)
theory Net
  imports Prelude "HOL-Library.Word"
begin

text \<open>
  The buffered socket layer of \<open>src/src/net.c\<close> with \<open>kore_platform_sendfile\<close> of \<open>src/src/linux.c\<close>, for
  connections without TLS (\<open>c->write\<close> is \<open>net_write\<close>, \<open>c->read\<close> is \<open>net_read\<close>).  A connection is a record
  that other components extend.  What the kernel does with the socket is a list of events; the
  bytes that have been handed to it are \<open>so_sent\<close>.  A callback is a value of the type \<open>'cb\<close>.
\<close>

datatype send_event = Sent nat | SendIntr | SendAgain | SendFail

datatype recv_event = Arrive "byte list" | RecvIntr | RecvAgain | RecvClosed | RecvFail

text \<open>What removing a buffer does besides: a block is freed, a callback runs, a file is released.\<close>

datatype 'cb net_effect = FreeBlock | RunCb 'cb | ReleaseFile nat

record 'cb netbuf =
  nb_cb :: "'cb option"
  nb_buf :: "mem_block option"
  nb_file :: "nat option"
  nb_recv :: bool
  nb_s_off :: nat
  nb_b_len :: nat
  nb_m_len :: nat
  nb_must_resend :: bool
  nb_force_remove :: bool
  nb_call_always :: bool
  nb_is_stream :: bool
  nb_is_fileref :: bool
  nb_fd_off :: int
  nb_fd_len :: int

record 'cb conn =
  send_queue :: "'cb netbuf list"
  rnb :: "'cb netbuf option"
  evt_read :: bool
  evt_write :: bool
  close_empty :: bool
  disconnecting :: bool
  so_send :: "send_event list"
  so_sent :: "byte list"
  net_log :: "'cb net_effect list"

text \<open>\<open>kore_connection_disconnect\<close> of \<open>src/src/connection.c\<close>; \<open>hook\<close> is \<open>c->disconnect\<close>.\<close>

definition kore_connection_disconnect ::
  "(('cb, 'x) conn_scheme \<Rightarrow> ('cb, 'x) conn_scheme result option) \<Rightarrow> ('cb, 'x) conn_scheme \<Rightarrow>
   ('cb, 'x) conn_scheme result option" where
  "kore_connection_disconnect hook c = (if disconnecting c then Some (Inr c) else hook (c\<lparr>disconnecting := True\<rparr>))"

section \<open>Queueing\<close>

definition net_netbuf_get :: "'cb netbuf" where
  "net_netbuf_get =
     \<lparr>nb_cb = None, nb_buf = None, nb_file = None, nb_recv = False, nb_s_off = 0, nb_b_len = 0, nb_m_len = 0,
      nb_must_resend = False, nb_force_remove = False, nb_call_always = False, nb_is_stream = False,
      nb_is_fileref = False, nb_fd_off = - 1, nb_fd_len = - 1\<rparr>"

text \<open>\<open>pmax\<close> is \<open>NETBUF_SEND_PAYLOAD_MAX\<close>.\<close>

definition net_queue_new :: "nat \<Rightarrow> byte list \<Rightarrow> ('cb, 'x) conn_scheme \<Rightarrow> ('cb, 'x) conn_scheme result" where
  "net_queue_new pmax d c =
     (let m_len = (if length d < pmax then pmax else length d)
      in bindR (mem_write (replicate m_len None) 0 d) (\<lambda>blk.
           Inr (c\<lparr>send_queue := send_queue c @
             [net_netbuf_get\<lparr>nb_buf := Some blk, nb_b_len := length d, nb_m_len := m_len\<rparr>]\<rparr>)))"

definition net_send_queue :: "nat \<Rightarrow> byte list \<Rightarrow> ('cb, 'x) conn_scheme \<Rightarrow> ('cb, 'x) conn_scheme result" where
  "net_send_queue pmax d c =
     (let q = send_queue c; nb = last q in
      if q \<noteq> [] \<and> \<not> nb_is_stream nb \<and> nb_b_len nb < nb_m_len nb
      then (case nb_buf nb of
              None \<Rightarrow> Inl NullDeref
            | Some blk \<Rightarrow>
                (let avail = nb_m_len nb - nb_b_len nb in
                 if length d < avail
                 then bindR (mem_write blk (nb_b_len nb) d) (\<lambda>blk'.
                        Inr (c\<lparr>send_queue := butlast q @ [nb\<lparr>nb_buf := Some blk', nb_b_len := nb_b_len nb + length d\<rparr>]\<rparr>))
                 else bindR (mem_write blk (nb_b_len nb) (take avail d)) (\<lambda>blk'.
                        let c' = c\<lparr>send_queue := butlast q @ [nb\<lparr>nb_buf := Some blk', nb_b_len := nb_b_len nb + avail\<rparr>]\<rparr>
                        in if length d - avail = 0 then Inr c' else net_queue_new pmax (drop avail d) c')))
      else net_queue_new pmax d c)"

definition net_send_stream ::
  "mem_block option \<Rightarrow> nat \<Rightarrow> 'cb option \<Rightarrow> ('cb, 'x) conn_scheme \<Rightarrow> ('cb, 'x) conn_scheme" where
  "net_send_stream data len cb c =
     c\<lparr>send_queue := send_queue c @
       [net_netbuf_get\<lparr>nb_cb := cb, nb_buf := data, nb_b_len := len, nb_m_len := len, nb_is_stream := True\<rparr>]\<rparr>"

text \<open>\<open>base\<close> is the mapped file, which is used with TLS; without it the kernel sends from the file.\<close>

definition net_send_fileref ::
  "bool \<Rightarrow> nat \<Rightarrow> nat \<Rightarrow> mem_block \<Rightarrow> ('cb, 'x) conn_scheme \<Rightarrow> ('cb, 'x) conn_scheme" where
  "net_send_fileref tls ref fsize base c =
     (let nb = net_netbuf_get\<lparr>nb_file := Some ref, nb_is_fileref := True\<rparr>
      in c\<lparr>send_queue := send_queue c @
           [if \<not> tls then nb\<lparr>nb_fd_off := 0, nb_fd_len := int fsize\<rparr>
            else nb\<lparr>nb_buf := Some base, nb_b_len := fsize, nb_m_len := fsize, nb_is_stream := True\<rparr>]\<rparr>)"

definition net_recv_reset :: "nat \<Rightarrow> nat \<Rightarrow> 'cb \<Rightarrow> ('cb, 'x) conn_scheme \<Rightarrow> ('cb, 'x) conn_scheme result" where
  "net_recv_reset pmax len cb c =
     (case rnb c of
        None \<Rightarrow> Inl NullDeref
      | Some nb \<Rightarrow>
          (let nb1 = nb\<lparr>nb_cb := Some cb, nb_s_off := 0, nb_b_len := len\<rparr>
           in if nb_buf nb \<noteq> None \<and> len \<le> nb_m_len nb \<and> nb_m_len nb < pmax div 2
              then Inr (c\<lparr>rnb := Some nb1\<rparr>)
              else Inr (c\<lparr>rnb := Some (nb1\<lparr>nb_buf := Some (replicate len None), nb_m_len := len\<rparr>)\<rparr>)))"

definition net_recv_queue :: "nat \<Rightarrow> bool \<Rightarrow> 'cb \<Rightarrow> ('cb, 'x) conn_scheme \<Rightarrow> ('cb, 'x) conn_scheme result" where
  "net_recv_queue len call_always cb c =
     (if rnb c \<noteq> None then Inl (Fatal ''net_recv_queue(): called incorrectly'')
      else Inr (c\<lparr>rnb := Some (net_netbuf_get\<lparr>nb_cb := Some cb, nb_buf := Some (replicate len None), nb_recv := True,
             nb_b_len := len, nb_m_len := len, nb_call_always := call_always\<rparr>)\<rparr>))"

definition net_recv_expand :: "nat \<Rightarrow> 'cb \<Rightarrow> ('cb, 'x) conn_scheme \<Rightarrow> ('cb, 'x) conn_scheme result" where
  "net_recv_expand len cb c =
     (case rnb c of
        None \<Rightarrow> Inl NullDeref
      | Some nb \<Rightarrow>
          (let n = size_mod (nb_b_len nb + len); old = (case nb_buf nb of None \<Rightarrow> [] | Some blk \<Rightarrow> blk)
           in Inr (c\<lparr>rnb := Some (nb\<lparr>nb_cb := Some cb, nb_b_len := n, nb_m_len := n,
                nb_buf := Some (take n old @ replicate (n - length old) None)\<rparr>)\<rparr>)))"

section \<open>Sending\<close>

text \<open>Removing the first buffer of the queue, the only one that the sending functions remove.\<close>

definition net_remove_netbuf :: "('cb, 'x) conn_scheme \<Rightarrow> ('cb, 'x) conn_scheme result" where
  "net_remove_netbuf c =
     (case send_queue c of
        [] \<Rightarrow> Inl NullDeref
      | nb # q \<Rightarrow>
          if nb_recv nb then Inl (Fatal ''net_remove_netbuf(): cannot remove recv netbuf'')
          else if nb_must_resend nb then Inr (c\<lparr>send_queue := nb\<lparr>nb_force_remove := True\<rparr> # q\<rparr>)
          else Inr (c\<lparr>send_queue := q,
                 net_log := net_log c @
                   (if \<not> nb_is_stream nb then [FreeBlock] else case nb_cb nb of None \<Rightarrow> [] | Some cb \<Rightarrow> [RunCb cb]) @
                   (if nb_is_fileref nb then [ReleaseFile (the (nb_file nb))] else [])\<rparr>))"

text \<open>
  One call of \<open>send\<close> for \<open>len\<close> bytes of the first buffer: the kernel takes some of them.  \<open>None\<close> is the
  return of an error; the number is \<open>*written\<close>.
\<close>

definition net_write :: "nat \<Rightarrow> ('cb, 'x) conn_scheme \<Rightarrow> (nat option \<times> ('cb, 'x) conn_scheme) result" where
  "net_write len c =
     (case send_queue c of
        [] \<Rightarrow> Inl NullDeref
      | nb # q \<Rightarrow>
          (case nb_buf nb of
             None \<Rightarrow> Inl NullDeref
           | Some blk \<Rightarrow>
               bindR (mem_read blk (nb_s_off nb) len) (\<lambda>bytes.
               case so_send c of
                 [] \<Rightarrow> Inr (Some 0, c\<lparr>evt_write := False\<rparr>)
               | Sent k # es \<Rightarrow>
                   Inr (Some (min k len), c\<lparr>so_send := es, so_sent := so_sent c @ take (min k len) bytes\<rparr>)
               | SendIntr # es \<Rightarrow> Inr (Some 0, c\<lparr>so_send := es\<rparr>)
               | SendAgain # es \<Rightarrow> Inr (Some 0, c\<lparr>so_send := es, evt_write := False\<rparr>)
               | SendFail # es \<Rightarrow> Inr (None, c\<lparr>so_send := es\<rparr>))))"

text \<open>
  \<open>kore_platform_sendfile\<close>: \<open>prevoff\<close> and \<open>len\<close> are fixed before the label \<open>resend\<close>.  \<open>fdata\<close> gives the
  contents of a file; at its end \<open>sendfile\<close> returns 0 at once.
\<close>

partial_function (option) sendfile_loop ::
  "(nat \<Rightarrow> byte list) \<Rightarrow> nat \<Rightarrow> nat \<Rightarrow> ('cb, 'x) conn_scheme \<Rightarrow> (int \<times> ('cb, 'x) conn_scheme) result option" where
  "sendfile_loop fdata prevoff len c =
     (case send_queue c of
        [] \<Rightarrow> Some (Inl NullDeref)
      | nb # q \<Rightarrow>
          (case nb_file nb of
             None \<Rightarrow> Some (Inl NullDeref)
           | Some ref \<Rightarrow>
               (let off = nat (nb_fd_off nb); rest = drop off (fdata ref) in
                if rest \<noteq> [] \<and> so_send c = [] then Some (Inr (1, c\<lparr>evt_write := False\<rparr>))
                else if rest \<noteq> [] \<and> hd (so_send c) = SendAgain
                then Some (Inr (1, c\<lparr>so_send := tl (so_send c), evt_write := False\<rparr>))
                else if rest \<noteq> [] \<and> (hd (so_send c) = SendFail \<or> hd (so_send c) = SendIntr)
                then Some (Inr (0, c\<lparr>so_send := tl (so_send c)\<rparr>))
                else (let sent = (if rest = [] then [] else case hd (so_send c) of Sent k \<Rightarrow> take (min k len) rest | _ \<Rightarrow> []);
                          off' = off + length sent;
                          c' = c\<lparr>so_send := (if rest = [] then so_send c else tl (so_send c)),
                                 so_sent := so_sent c @ sent,
                                 send_queue := nb\<lparr>nb_fd_off := int off'\<rparr> # q\<rparr>
                      in if off' - prevoff \<noteq> len then sendfile_loop fdata prevoff len c'
                         else if sent = [] \<or> int off' = nb_fd_len nb
                         then Some (bindR (net_remove_netbuf c') (\<lambda>c''. Inr (1, c'')))
                         else Some (Inr (1, c'))))))"

text \<open>\<open>smax\<close> is \<open>SENDFILE_PAYLOAD_MAX\<close>.\<close>

definition kore_platform_sendfile ::
  "(nat \<Rightarrow> byte list) \<Rightarrow> nat \<Rightarrow> ('cb, 'x) conn_scheme \<Rightarrow> (int \<times> ('cb, 'x) conn_scheme) result option" where
  "kore_platform_sendfile fdata smax c =
     (case send_queue c of
        [] \<Rightarrow> Some (Inl NullDeref)
      | nb # q \<Rightarrow> sendfile_loop fdata (nat (nb_fd_off nb)) (min smax (nat (nb_fd_len nb - nb_fd_off nb))) c)"

text \<open>The end of \<open>net_send\<close>: a buffer that has been sent is removed.\<close>

definition net_send_done :: "('cb, 'x) conn_scheme \<Rightarrow> (int \<times> ('cb, 'x) conn_scheme) result" where
  "net_send_done c =
     (case send_queue c of
        [] \<Rightarrow> Inl NullDeref
      | nb # q \<Rightarrow>
          if nb_s_off nb = nb_b_len nb \<or> nb_force_remove nb
          then bindR (net_remove_netbuf c) (\<lambda>c'. Inr (1, c')) else Inr (1, c))"

definition net_send ::
  "(nat \<Rightarrow> byte list) \<Rightarrow> nat \<Rightarrow> nat \<Rightarrow> ('cb, 'x) conn_scheme \<Rightarrow> (int \<times> ('cb, 'x) conn_scheme) result option" where
  "net_send fdata smax pmax c =
     (case send_queue c of
        [] \<Rightarrow> Some (Inl NullDeref)
      | nb # q \<Rightarrow>
          if nb_is_fileref nb \<and> \<not> nb_is_stream nb then kore_platform_sendfile fdata smax c
          else if nb_b_len nb \<noteq> 0
          then Some (bindR (net_write (min pmax (nb_b_len nb - nb_s_off nb)) c) (\<lambda>(r, c').
                 case r of
                   None \<Rightarrow> Inr (0, c')
                 | Some n \<Rightarrow>
                     if \<not> evt_write c' then Inr (1, c')
                     else net_send_done (c'\<lparr>send_queue := nb\<lparr>nb_s_off := nb_s_off nb + n, nb_must_resend := False\<rparr> # q\<rparr>)))
          else Some (net_send_done c))"

partial_function (option) net_send_loop ::
  "(nat \<Rightarrow> byte list) \<Rightarrow> nat \<Rightarrow> nat \<Rightarrow> ('cb, 'x) conn_scheme \<Rightarrow> (int \<times> ('cb, 'x) conn_scheme) result option" where
  "net_send_loop fdata smax pmax c =
     (if send_queue c \<noteq> [] \<and> evt_write c
      then (case net_send fdata smax pmax c of
              None \<Rightarrow> None
            | Some (Inl e) \<Rightarrow> Some (Inl e)
            | Some (Inr (rc, c')) \<Rightarrow> if rc = 0 then Some (Inr (0, c')) else net_send_loop fdata smax pmax c')
      else Some (Inr (1, c)))"

definition net_send_flush ::
  "(nat \<Rightarrow> byte list) \<Rightarrow> nat \<Rightarrow> nat \<Rightarrow> (('cb, 'x) conn_scheme \<Rightarrow> ('cb, 'x) conn_scheme result option) \<Rightarrow>
   ('cb, 'x) conn_scheme \<Rightarrow> (int \<times> ('cb, 'x) conn_scheme) result option" where
  "net_send_flush fdata smax pmax hook c =
     (case net_send_loop fdata smax pmax c of
        None \<Rightarrow> None
      | Some (Inl e) \<Rightarrow> Some (Inl e)
      | Some (Inr (rc, c')) \<Rightarrow>
          if rc = 0 then Some (Inr (0, c'))
          else if close_empty c' \<and> send_queue c' = []
          then map_option (\<lambda>r. bindR r (\<lambda>c''. Inr (1, c''))) (kore_connection_disconnect hook c')
          else Some (Inr (1, c')))"

section \<open>Receiving\<close>

text \<open>
  One call of \<open>recv\<close> for at most \<open>n\<close> bytes: what has arrived and is not asked for stays in the socket.
  \<open>Got []\<close> is the return of 0, when the peer has closed the connection.
\<close>

datatype recv_result = Got "byte list" | GotIntr | GotAgain | GotFail

fun sys_recv :: "nat \<Rightarrow> recv_event list \<Rightarrow> recv_result \<times> recv_event list" where
  "sys_recv n [] = (GotAgain, [])"
| "sys_recv n (Arrive xs # es) =
     (if xs = [] then sys_recv n es
      else (Got (take n xs), if length xs \<le> n then es else Arrive (drop n xs) # es))"
| "sys_recv n (RecvIntr # es) = (GotIntr, es)"
| "sys_recv n (RecvAgain # es) = (GotAgain, es)"
| "sys_recv n (RecvClosed # es) = (Got [], es)"
| "sys_recv n (RecvFail # es) = (GotFail, es)"

fun event_size :: "recv_event \<Rightarrow> nat" where
  "event_size (Arrive xs) = Suc (length xs)"
| "event_size _ = 1"

lemma sys_recv_shorter:
  "es \<noteq> [] \<Longrightarrow> 0 < n \<Longrightarrow> sum_list (map event_size (snd (sys_recv n es))) < sum_list (map event_size es)"
  by (induction n es rule: sys_recv.induct) (auto, (case_tac es; fastforce)+)

definition size_sub :: "nat \<Rightarrow> nat \<Rightarrow> nat" where
  "size_sub a b = (if b \<le> a then a - b else 2 ^ 64 - (b - a))"

text \<open>The number is \<open>*bytes\<close>, \<open>None\<close> the return of an error.\<close>

definition net_read ::
  "(('cb, 'x) conn_scheme \<Rightarrow> ('cb, 'x) conn_scheme result option) \<Rightarrow> recv_event list \<Rightarrow> ('cb, 'x) conn_scheme \<Rightarrow>
   (nat option \<times> recv_event list \<times> ('cb, 'x) conn_scheme) result option" where
  "net_read hook es c =
     (case rnb c of
        None \<Rightarrow> Some (Inl NullDeref)
      | Some nb \<Rightarrow>
          (case nb_buf nb of
             None \<Rightarrow> Some (Inl NullDeref)
           | Some blk \<Rightarrow>
               (case sys_recv (size_sub (nb_b_len nb) (nb_s_off nb)) es of
                  (GotFail, es') \<Rightarrow> Some (Inr (None, es', c))
                | (GotIntr, es') \<Rightarrow> Some (Inr (Some 0, es', c))
                | (GotAgain, es') \<Rightarrow> Some (Inr (Some 0, es', c\<lparr>evt_read := False\<rparr>))
                | (Got xs, es') \<Rightarrow>
                    if xs = []
                    then map_option (\<lambda>r. bindR r (\<lambda>c'. Inr (Some 0, es', c'\<lparr>evt_read := False\<rparr>)))
                           (kore_connection_disconnect hook c)
                    else Some (bindR (mem_write blk (nb_s_off nb) xs) (\<lambda>blk'.
                           Inr (Some (length xs), es', c\<lparr>rnb := Some (nb\<lparr>nb_buf := Some blk'\<rparr>)\<rparr>))))))"

text \<open>\<open>call\<close> runs a callback; it returns the value of the callback and the connection afterwards.\<close>

partial_function (option) net_recv_loop ::
  "(('cb, 'x) conn_scheme \<Rightarrow> ('cb, 'x) conn_scheme result option) \<Rightarrow>
   ('cb \<Rightarrow> ('cb, 'x) conn_scheme \<Rightarrow> (int \<times> ('cb, 'x) conn_scheme) result option) \<Rightarrow>
   recv_event list \<Rightarrow> ('cb, 'x) conn_scheme \<Rightarrow> (int \<times> recv_event list \<times> ('cb, 'x) conn_scheme) result option" where
  "net_recv_loop hook call es c =
     (if \<not> evt_read c then Some (Inr (1, es, c))
      else case rnb c of
        None \<Rightarrow> Some (Inl NullDeref)
      | Some nb \<Rightarrow>
          if nb_buf nb = None then Some (Inr (1, es, c))
          else if size_sub (nb_b_len nb) (nb_s_off nb) = 0 then Some (Inr (1, es, c))
          else (case net_read hook es c of
                  None \<Rightarrow> None
                | Some (Inl e) \<Rightarrow> Some (Inl e)
                | Some (Inr (None, es', c')) \<Rightarrow> Some (Inr (0, es', c'))
                | Some (Inr (Some r, es', c')) \<Rightarrow>
                    if \<not> evt_read c' then Some (Inr (1, es', c'))
                    else (case rnb c' of
                            None \<Rightarrow> Some (Inl NullDeref)
                          | Some nb' \<Rightarrow>
                              (let nb1 = nb'\<lparr>nb_s_off := nb_s_off nb' + r\<rparr>; c1 = c'\<lparr>rnb := Some nb1\<rparr> in
                               if nb_s_off nb1 = nb_b_len nb1 \<or> nb_call_always nb1
                               then (case nb_cb nb1 of
                                       None \<Rightarrow> Some (Inl NullDeref)
                                     | Some cb \<Rightarrow>
                                         (case call cb c1 of
                                            None \<Rightarrow> None
                                          | Some (Inl e) \<Rightarrow> Some (Inl e)
                                          | Some (Inr (rc, c2)) \<Rightarrow>
                                              if rc \<noteq> 1 then Some (Inr (rc, es', c2)) else net_recv_loop hook call es' c2))
                               else net_recv_loop hook call es' c1))))"

definition net_recv_flush ::
  "(('cb, 'x) conn_scheme \<Rightarrow> ('cb, 'x) conn_scheme result option) \<Rightarrow>
   ('cb \<Rightarrow> ('cb, 'x) conn_scheme \<Rightarrow> (int \<times> ('cb, 'x) conn_scheme) result option) \<Rightarrow>
   recv_event list \<Rightarrow> ('cb, 'x) conn_scheme \<Rightarrow> (int \<times> recv_event list \<times> ('cb, 'x) conn_scheme) result option" where
  "net_recv_flush hook call es c = (if rnb c = None then Some (Inr (1, es, c)) else net_recv_loop hook call es c)"

section \<open>Numbers in network byte order\<close>

text \<open>The bytes of a number from the most significant one on, and back.\<close>

definition net_bytes :: "nat \<Rightarrow> nat \<Rightarrow> byte list" where
  "net_bytes n v = map (\<lambda>i. char_of (v div 2 ^ (8 * (n - 1 - i)) mod 256)) [0..<n]"

definition net_value :: "byte list \<Rightarrow> nat" where
  "net_value bs = foldl (\<lambda>v b. 256 * v + of_char b) 0 bs"

definition net_read16 :: "byte list \<Rightarrow> nat" where
  "net_read16 b = net_value (take 2 b)"

definition net_read32 :: "byte list \<Rightarrow> nat" where
  "net_read32 b = net_value (take 4 b)"

definition net_read64 :: "byte list \<Rightarrow> nat" where
  "net_read64 b = net_value (take 8 b)"

definition net_write16 :: "nat \<Rightarrow> byte list" where
  "net_write16 n = net_bytes 2 (n mod 2 ^ 16)"

definition net_write32 :: "nat \<Rightarrow> byte list" where
  "net_write32 n = net_bytes 4 (n mod 2 ^ 32)"

definition net_write64 :: "nat \<Rightarrow> byte list" where
  "net_write64 n = net_bytes 8 (n mod 2 ^ 64)"

lemma length_net_bytes [simp]: "length (net_bytes n v) = n"
  by (simp add: net_bytes_def)

lemma net_bytes_Suc: "net_bytes (Suc n) v = net_bytes n (v div 256) @ [char_of (v mod 256)]"
proof -
  have "v div 2 ^ (8 * (n - i)) = v div 256 div 2 ^ (8 * (n - 1 - i))" if "i < n" for i
  proof -
    have "8 * (n - i) = 8 + 8 * (n - 1 - i)" using that by simp
    then have "(2 :: nat) ^ (8 * (n - i)) = 256 * 2 ^ (8 * (n - 1 - i))" by (simp only: power_add) simp
    then show ?thesis by (simp add: div_mult2_eq)
  qed
  then show ?thesis by (simp add: net_bytes_def)
qed

lemma net_value_bytes: "v < 256 ^ n \<Longrightarrow> net_value (net_bytes n v) = v"
proof (induction n arbitrary: v)
  case 0
  then show ?case by (simp add: net_bytes_def net_value_def)
next
  case (Suc n)
  then have "v div 256 < 256 ^ n" by (simp add: less_mult_imp_div_less mult.commute)
  then show ?case using Suc.IH by (simp add: net_bytes_Suc net_value_def)
qed

lemma net_numbers [simp]:
  "n < 2 ^ 16 \<Longrightarrow> net_read16 (net_write16 n @ bs) = n"
  "n < 2 ^ 32 \<Longrightarrow> net_read32 (net_write32 n @ bs) = n"
  "n < 2 ^ 64 \<Longrightarrow> net_read64 (net_write64 n @ bs) = n"
  by (simp_all add: net_read16_def net_read32_def net_read64_def net_write16_def net_write32_def net_write64_def net_value_bytes)

section \<open>The queue is a stream\<close>

text \<open>A buffer of memory that is being sent, and the bytes of it that have not been sent.\<close>

definition send_ok :: "'cb netbuf \<Rightarrow> bool" where
  "send_ok nb \<longleftrightarrow>
     \<not> nb_recv nb \<and> \<not> nb_must_resend nb \<and> \<not> nb_force_remove nb \<and> (nb_is_fileref nb \<longrightarrow> nb_is_stream nb) \<and>
     nb_s_off nb \<le> nb_b_len nb \<and>
     (\<exists>blk xs. nb_buf nb = Some blk \<and> nb_m_len nb \<le> length blk \<and> nb_b_len nb \<le> nb_m_len nb \<and>
       take (nb_b_len nb) blk = block_of xs)"

definition pending :: "'cb netbuf \<Rightarrow> byte list" where
  "pending nb = map the (drop (nb_s_off nb) (take (nb_b_len nb) (the (nb_buf nb))))"

definition queue_ok :: "('cb, 'x) conn_scheme \<Rightarrow> bool" where
  "queue_ok c \<longleftrightarrow> list_all send_ok (send_queue c)"

text \<open>What has been sent and what is waiting, in order.\<close>

definition out_stream :: "('cb, 'x) conn_scheme \<Rightarrow> byte list" where
  "out_stream c = so_sent c @ concat (map pending (send_queue c))"

lemma send_okE:
  assumes "send_ok nb"
  obtains blk xs where "nb_buf nb = Some blk" "nb_m_len nb \<le> length blk" "nb_b_len nb \<le> nb_m_len nb"
    "take (nb_b_len nb) blk = block_of xs" "length xs = nb_b_len nb" "nb_s_off nb \<le> nb_b_len nb"
    "pending nb = drop (nb_s_off nb) xs"
proof -
  from assms obtain blk xs where *: "nb_buf nb = Some blk" "nb_m_len nb \<le> length blk" "nb_b_len nb \<le> nb_m_len nb"
    "take (nb_b_len nb) blk = block_of xs" "nb_s_off nb \<le> nb_b_len nb"
    by (auto simp: send_ok_def)
  then have "length (block_of xs) = nb_b_len nb" unfolding *(4) [symmetric] by simp
  then have "length xs = nb_b_len nb" by simp
  moreover have "pending nb = drop (nb_s_off nb) xs" using * by (simp add: pending_def drop_block_of)
  ultimately show ?thesis using * that by blast
qed

lemma net_queue_new_ok:
  assumes "queue_ok c"
  shows "\<exists>c'. net_queue_new pmax d c = Inr c' \<and> queue_ok c' \<and> out_stream c' = out_stream c @ d \<and>
    so_sent c' = so_sent c \<and> evt_write c' = evt_write c \<and> so_send c' = so_send c"
  using assms
  by (auto simp: net_queue_new_def mem_write_def Let_def queue_ok_def send_ok_def pending_def out_stream_def net_netbuf_get_def)

text \<open>Appending to the last buffer.\<close>

lemma send_ok_append:
  assumes "send_ok nb" "nb_buf nb = Some blk" "nb_b_len nb + length d \<le> nb_m_len nb"
  defines "nb' \<equiv> nb\<lparr>nb_buf := Some (take (nb_b_len nb) blk @ block_of d @ drop (nb_b_len nb + length d) blk),
    nb_b_len := nb_b_len nb + length d\<rparr>"
  shows "send_ok nb'" "pending nb' = pending nb @ d" "mem_write blk (nb_b_len nb) d =
    Inr (take (nb_b_len nb) blk @ block_of d @ drop (nb_b_len nb + length d) blk)"
proof -
  obtain xs where xs: "nb_m_len nb \<le> length blk" "take (nb_b_len nb) blk = block_of xs" "length xs = nb_b_len nb"
      "nb_s_off nb \<le> nb_b_len nb" "pending nb = drop (nb_s_off nb) xs"
    using assms(1,2) by (auto elim!: send_okE)
  have t: "take (nb_b_len nb + length d) (take (nb_b_len nb) blk @ block_of d @ drop (nb_b_len nb + length d) blk) = block_of (xs @ d)"
    unfolding xs(2) block_of_append [symmetric] append.assoc [symmetric] using xs(3) by (simp add: block_of_append)
  show "mem_write blk (nb_b_len nb) d = Inr (take (nb_b_len nb) blk @ block_of d @ drop (nb_b_len nb + length d) blk)"
    using assms(3) xs(1) by (simp add: mem_write_def)
  show "send_ok nb'"
    using assms(1,3) xs t by (auto simp: send_ok_def nb'_def)
  show "pending nb' = pending nb @ d"
    using t xs by (simp add: pending_def nb'_def drop_block_of)
qed

lemma net_send_queue_ok:
  assumes "queue_ok c"
  shows "\<exists>c'. net_send_queue pmax d c = Inr c' \<and> queue_ok c' \<and> out_stream c' = out_stream c @ d \<and>
    so_sent c' = so_sent c \<and> evt_write c' = evt_write c \<and> so_send c' = so_send c"
proof (cases "send_queue c \<noteq> [] \<and> \<not> nb_is_stream (last (send_queue c)) \<and>
    nb_b_len (last (send_queue c)) < nb_m_len (last (send_queue c))")
  case False
  then have "net_send_queue pmax d c = net_queue_new pmax d c"
    unfolding net_send_queue_def Let_def by (simp only: if_False)
  then show ?thesis using net_queue_new_ok [OF assms] by simp
next
  case True
  define nb where "nb = last (send_queue c)"
  define q where "q = butlast (send_queue c)"
  define avail where "avail = nb_m_len nb - nb_b_len nb"
  have sq: "send_queue c = q @ [nb]" using True by (simp add: q_def nb_def)
  have nb: "send_ok nb" and q: "list_all send_ok q" using assms by (simp_all add: queue_ok_def sq)
  obtain blk where blk: "nb_buf nb = Some blk" using nb by (rule send_okE)
  define grown where "grown xs = nb\<lparr>nb_buf := Some (take (nb_b_len nb) blk @ block_of xs @ drop (nb_b_len nb + length xs) blk),
    nb_b_len := nb_b_len nb + length xs\<rparr>" for xs
  define c1 where "c1 xs = c\<lparr>send_queue := q @ [grown xs]\<rparr>" for xs
  have c1: "queue_ok (c1 xs)" "out_stream (c1 xs) = out_stream c @ xs" if "length xs \<le> avail" for xs
  proof -
    have "nb_b_len nb + length xs \<le> nb_m_len nb" using that True unfolding avail_def nb_def by linarith
    note g = send_ok_append [OF nb blk this, folded grown_def]
    show "queue_ok (c1 xs)" using g(1) q by (simp add: queue_ok_def c1_def)
    show "out_stream (c1 xs) = out_stream c @ xs" using g(2) by (simp add: out_stream_def c1_def sq)
  qed
  have w: "mem_write blk (nb_b_len nb) xs = Inr (the (nb_buf (grown xs)))" if "length xs \<le> avail" for xs
  proof -
    have "nb_b_len nb + length xs \<le> nb_m_len nb" using that True unfolding avail_def nb_def by linarith
    then show ?thesis using send_ok_append(3) [OF nb blk, of xs] by (simp add: grown_def)
  qed
  have cond: "(send_queue c \<noteq> [] \<and> \<not> nb_is_stream nb \<and> nb_b_len nb < nb_m_len nb) = True"
    using True unfolding nb_def by blast
  have eq0: "net_send_queue pmax d c =
     (if length d < avail
      then bindR (mem_write blk (nb_b_len nb) d) (\<lambda>blk'.
             Inr (c\<lparr>send_queue := q @ [nb\<lparr>nb_buf := Some blk', nb_b_len := nb_b_len nb + length d\<rparr>]\<rparr>))
      else bindR (mem_write blk (nb_b_len nb) (take avail d)) (\<lambda>blk'.
             if length d - avail = 0
             then Inr (c\<lparr>send_queue := q @ [nb\<lparr>nb_buf := Some blk', nb_b_len := nb_b_len nb + avail\<rparr>]\<rparr>)
             else net_queue_new pmax (drop avail d)
               (c\<lparr>send_queue := q @ [nb\<lparr>nb_buf := Some blk', nb_b_len := nb_b_len nb + avail\<rparr>]\<rparr>)))"
    unfolding net_send_queue_def Let_def nb_def [symmetric] q_def [symmetric] avail_def [symmetric] cond if_True blk option.case ..
  show ?thesis
  proof (cases "length d < avail")
    case less: True
    then have "net_send_queue pmax d c = Inr (c1 d)"
      using w [of d] unfolding eq0 by (simp add: c1_def grown_def)
    then show ?thesis using c1 [of d] less by (simp add: c1_def)
  next
    case False
    define t where "t = take avail d"
    have t: "length t = avail" using False by (simp add: t_def)
    have eq: "net_send_queue pmax d c = (if length d - avail = 0 then Inr (c1 t) else net_queue_new pmax (drop avail d) (c1 t))"
      using False w [of t] t unfolding eq0 t_def [symmetric] by (simp add: c1_def grown_def)
    have d: "d = t @ drop avail d" by (simp add: t_def)
    show ?thesis
    proof (cases "length d - avail = 0")
      case True
      then have "d = t" using d by simp
      then show ?thesis using True eq c1 [of t] t by (simp add: c1_def)
    next
      case False
      then show ?thesis
        using eq net_queue_new_ok [OF c1(1), of t pmax "drop avail d"] c1(2) [of t] t d by (auto simp: c1_def)
    qed
  qed
qed

lemma net_send_stream_ok:
  assumes "queue_ok c" "len \<le> length blk" "take len blk = block_of xs"
  shows "queue_ok (net_send_stream (Some blk) len cb c)"
    "out_stream (net_send_stream (Some blk) len cb c) = out_stream c @ xs"
  using assms by (auto simp: net_send_stream_def queue_ok_def send_ok_def pending_def out_stream_def net_netbuf_get_def)

text \<open>Sending moves bytes from the queue to the socket.\<close>

definition send_measure :: "('cb, 'x) conn_scheme \<Rightarrow> nat" where
  "send_measure c = length (so_send c) + length (send_queue c)"

definition send_step_ok :: "('cb, 'x) conn_scheme \<Rightarrow> ('cb, 'x) conn_scheme \<Rightarrow> bool" where
  "send_step_ok c c' \<longleftrightarrow>
     queue_ok c' \<and> out_stream c' = out_stream c \<and> rnb c' = rnb c \<and> evt_read c' = evt_read c \<and>
     close_empty c' = close_empty c \<and> disconnecting c' = disconnecting c"

lemma send_step_ok_trans: "send_step_ok a b \<Longrightarrow> send_step_ok b c \<Longrightarrow> send_step_ok a c"
  by (simp add: send_step_ok_def)

lemma net_send_done_ok:
  assumes "send_queue c = nb # q" "queue_ok c"
  shows "\<exists>c'. net_send_done c = Inr (1, c') \<and> send_step_ok c c' \<and> so_send c' = so_send c \<and> conn.more c' = conn.more c \<and>
    length (send_queue c') \<le> length (send_queue c) \<and>
    (nb_s_off nb = nb_b_len nb \<longrightarrow> length (send_queue c') < length (send_queue c))"
proof -
  have nb: "send_ok nb" using assms by (simp add: queue_ok_def)
  show ?thesis
  proof (cases "nb_s_off nb = nb_b_len nb")
    case True
    then have "pending nb = []" by (simp add: pending_def)
    then show ?thesis
      using assms nb True
      by (auto simp: net_send_done_def net_remove_netbuf_def send_ok_def queue_ok_def send_step_ok_def out_stream_def)
  next
    case False
    then show ?thesis
      using assms nb by (auto simp: net_send_done_def send_ok_def send_step_ok_def)
  qed
qed

lemma pending_advance:
  assumes "send_ok nb" "n \<le> nb_b_len nb - nb_s_off nb" "nb_buf nb = Some blk"
  shows "send_ok (nb\<lparr>nb_s_off := nb_s_off nb + n, nb_must_resend := False\<rparr>)"
    "mem_read blk (nb_s_off nb) n = Inr (take n (pending nb))"
    "pending nb = take n (pending nb) @ pending (nb\<lparr>nb_s_off := nb_s_off nb + n, nb_must_resend := False\<rparr>)"
proof -
  obtain xs where xs: "nb_m_len nb \<le> length blk" "nb_b_len nb \<le> nb_m_len nb" "take (nb_b_len nb) blk = block_of xs"
      "length xs = nb_b_len nb" "nb_s_off nb \<le> nb_b_len nb" "pending nb = drop (nb_s_off nb) xs"
    using assms(1,3) by (auto elim!: send_okE)
  show "send_ok (nb\<lparr>nb_s_off := nb_s_off nb + n, nb_must_resend := False\<rparr>)"
    using assms xs by (auto simp: send_ok_def)
  show "mem_read blk (nb_s_off nb) n = Inr (take n (pending nb))"
    using mem_read_prefix [OF xs(3), of "nb_s_off nb" n] assms(2) xs by simp
  have "pending (nb\<lparr>nb_s_off := nb_s_off nb + n, nb_must_resend := False\<rparr>) = drop n (pending nb)"
    using xs assms(3) by (simp add: pending_def drop_block_of add.commute)
  then show "pending nb = take n (pending nb) @ pending (nb\<lparr>nb_s_off := nb_s_off nb + n, nb_must_resend := False\<rparr>)"
    by simp
qed

lemma net_send_ok:
  assumes "queue_ok c" "send_queue c = nb # q" "evt_write c"
  shows "\<exists>rc c'. net_send fdata smax pmax c = Some (Inr (rc, c')) \<and> send_step_ok c c' \<and> conn.more c' = conn.more c \<and>
    (rc = 0 \<and> SendFail \<in> set (so_send c) \<or> rc = 1 \<and> (\<not> evt_write c' \<or> send_measure c' < send_measure c)) \<and>
    set (so_send c') \<subseteq> set (so_send c)"
proof -
  have nb: "send_ok nb" using assms by (simp add: queue_ok_def)
  obtain blk where blk: "nb_buf nb = Some blk" using nb by (rule send_okE)
  have plain: "\<not> (nb_is_fileref nb \<and> \<not> nb_is_stream nb)" using nb by (simp add: send_ok_def)
  show ?thesis
  proof (cases "nb_b_len nb = 0")
    case True
    then have "net_send fdata smax pmax c = Some (net_send_done c)" "nb_s_off nb = nb_b_len nb"
      using assms(2) plain nb by (auto simp: net_send_def send_ok_def)
    then show ?thesis
      using net_send_done_ok [OF assms(2,1)] by (auto simp: send_measure_def)
  next
    case False
    define len where "len = min pmax (nb_b_len nb - nb_s_off nb)"
    define adv where "adv n = nb\<lparr>nb_s_off := nb_s_off nb + n, nb_must_resend := False\<rparr>" for n
    have len: "len \<le> nb_b_len nb - nb_s_off nb" by (simp add: len_def)
    have snd: "net_send fdata smax pmax c = Some (bindR (net_write len c) (\<lambda>(r, c').
        case r of None \<Rightarrow> Inr (0, c') | Some n \<Rightarrow>
          if \<not> evt_write c' then Inr (1, c') else net_send_done (c'\<lparr>send_queue := adv n # q\<rparr>)))"
      unfolding net_send_def assms(2) len_def adv_def using False plain
      by (simp only: list.case if_False if_True not_False_eq_True)
    have rd: "mem_read blk (nb_s_off nb) len = Inr (take len (pending nb))"
      using pending_advance(2) [OF nb len blk] .
    have go: "\<exists>c'. net_send_done (c\<lparr>so_send := es, so_sent := so_sent c @ take n (pending nb), send_queue := adv n # q\<rparr>) = Inr (1, c') \<and>
        send_step_ok c c' \<and> conn.more c' = conn.more c \<and> send_measure c' < send_measure c \<and> set (so_send c') \<subseteq> set (so_send c)"
      if "so_send c = e # es" "n \<le> len" for e es n
    proof -
      have n: "n \<le> nb_b_len nb - nb_s_off nb" using that len by simp
      note a = pending_advance [OF nb n blk, folded adv_def]
      define c1 where "c1 = c\<lparr>so_send := es, so_sent := so_sent c @ take n (pending nb), send_queue := adv n # q\<rparr>"
      have "queue_ok c1" using assms(1,2) a(1) by (simp add: queue_ok_def c1_def)
      moreover have "out_stream c1 = out_stream c"
        using assms(2) arg_cong [OF a(3), of "\<lambda>x. so_sent c @ x @ concat (map pending q)"] by (simp add: out_stream_def c1_def)
      moreover have "send_queue c1 = adv n # q" by (simp add: c1_def)
      ultimately show ?thesis
        using net_send_done_ok [of c1 "adv n" q] that assms(2)
        unfolding c1_def [symmetric] by (fastforce simp: send_step_ok_def send_measure_def c1_def)
    qed
    show ?thesis
    proof (cases "so_send c")
      case Nil
      then show ?thesis
        using snd rd assms blk by (auto simp: net_write_def send_step_ok_def queue_ok_def out_stream_def)
    next
      case (Cons e es)
      show ?thesis
      proof (cases e)
        case (Sent k)
        then show ?thesis
          using snd rd assms blk Cons go [OF Cons, of "min k len"] by (auto simp: net_write_def take_take min_def)
      next
        case SendIntr
        then show ?thesis
          using snd rd assms blk Cons go [OF Cons, of 0] by (auto simp: net_write_def)
      next
        case SendAgain
        then show ?thesis
          using snd rd assms blk Cons by (auto simp: net_write_def send_step_ok_def queue_ok_def out_stream_def)
      next
        case SendFail
        then show ?thesis
          using snd rd assms blk Cons by (auto simp: net_write_def send_step_ok_def queue_ok_def out_stream_def)
      qed
    qed
  qed
qed

lemma net_send_loop_ok:
  assumes "queue_ok c"
  shows "\<exists>rc c'. net_send_loop fdata smax pmax c = Some (Inr (rc, c')) \<and> send_step_ok c c' \<and> conn.more c' = conn.more c \<and>
    (rc = 0 \<and> SendFail \<in> set (so_send c) \<or> rc = 1 \<and> (send_queue c' = [] \<or> \<not> evt_write c'))"
  using assms
proof (induction "send_measure c" arbitrary: c rule: less_induct)
  case less
  show ?case
  proof (cases "send_queue c \<noteq> [] \<and> evt_write c")
    case False
    then have "net_send_loop fdata smax pmax c = Some (Inr (1, c))" by (subst net_send_loop.simps) (simp only: if_False)
    then show ?thesis using False less.prems by (auto simp: send_step_ok_def)
  next
    case True
    then obtain nb q where sq: "send_queue c = nb # q" by (cases "send_queue c") auto
    from True net_send_ok [OF less.prems sq, where fdata = fdata and smax = smax and pmax = pmax] obtain rc c' where
      snd: "net_send fdata smax pmax c = Some (Inr (rc, c'))" "send_step_ok c c'" "conn.more c' = conn.more c"
        "rc = 0 \<and> SendFail \<in> set (so_send c) \<or> rc = 1 \<and> (\<not> evt_write c' \<or> send_measure c' < send_measure c)"
        "set (so_send c') \<subseteq> set (so_send c)" by blast
    have loop: "net_send_loop fdata smax pmax c = (if rc = 0 then Some (Inr (0, c')) else net_send_loop fdata smax pmax c')"
      using True snd(1) by (subst net_send_loop.simps) simp
    consider (fail) "rc = 0" "SendFail \<in> set (so_send c)" | (stop) "rc = 1" "\<not> evt_write c'"
      | (more) "rc = 1" "send_measure c' < send_measure c" using snd(4) by blast
    then show ?thesis
    proof cases
      case fail
      then show ?thesis using loop snd by simp
    next
      case stop
      then have "net_send_loop fdata smax pmax c' = Some (Inr (1, c'))" by (subst net_send_loop.simps) simp
      then show ?thesis using loop snd stop by simp
    next
      case more
      have "queue_ok c'" using snd(2) by (simp add: send_step_ok_def)
      from less.hyps [OF more(2) this] obtain rc2 c2 where
        "net_send_loop fdata smax pmax c' = Some (Inr (rc2, c2))" "send_step_ok c' c2" "conn.more c2 = conn.more c'"
        "rc2 = 0 \<and> SendFail \<in> set (so_send c') \<or> rc2 = 1 \<and> (send_queue c2 = [] \<or> \<not> evt_write c2)" by blast
      then show ?thesis
        using loop more(1) snd(2,3,5) send_step_ok_trans [OF snd(2)] by auto
    qed
  qed
qed

text \<open>Without a hook, disconnecting only marks the connection.\<close>

lemma net_send_flush_ok:
  assumes "queue_ok c"
  shows "\<exists>rc c'. net_send_flush fdata smax pmax (\<lambda>c. Some (Inr c)) c = Some (Inr (rc, c')) \<and>
    queue_ok c' \<and> out_stream c' = out_stream c \<and>
    (rc = 0 \<and> SendFail \<in> set (so_send c) \<or> rc = 1 \<and> (send_queue c' = [] \<or> \<not> evt_write c'))"
proof -
  from net_send_loop_ok [OF assms, where fdata = fdata and smax = smax and pmax = pmax] obtain rc c' where
    "net_send_loop fdata smax pmax c = Some (Inr (rc, c'))" "send_step_ok c c'"
    "rc = 0 \<and> SendFail \<in> set (so_send c) \<or> rc = 1 \<and> (send_queue c' = [] \<or> \<not> evt_write c')" by blast
  then show ?thesis
    by (auto simp: net_send_flush_def kore_connection_disconnect_def send_step_ok_def queue_ok_def out_stream_def)
qed

text \<open>
  The operations of an application on the sending side, and the bytes that they add.
\<close>

datatype net_op = OpQueue "byte list" | OpStream "byte list" | OpFlush | OpWritable "send_event list"

fun net_op_bytes :: "net_op \<Rightarrow> byte list" where
  "net_op_bytes (OpQueue d) = d"
| "net_op_bytes (OpStream d) = d"
| "net_op_bytes _ = []"

fun net_op_run :: "nat \<Rightarrow> nat \<Rightarrow> net_op \<Rightarrow> 'cb conn \<Rightarrow> 'cb conn result option" where
  "net_op_run smax pmax (OpQueue d) c = Some (net_send_queue pmax d c)"
| "net_op_run smax pmax (OpStream d) c = Some (Inr (net_send_stream (Some (block_of d)) (length d) None c))"
| "net_op_run smax pmax OpFlush c =
     map_option (\<lambda>r. bindR r (\<lambda>(rc, c'). Inr c')) (net_send_flush (\<lambda>_. []) smax pmax (\<lambda>c. Some (Inr c)) c)"
| "net_op_run smax pmax (OpWritable es) c = Some (Inr (c\<lparr>evt_write := True, so_send := es\<rparr>))"

fun net_ops_run :: "nat \<Rightarrow> nat \<Rightarrow> net_op list \<Rightarrow> 'cb conn \<Rightarrow> 'cb conn result option" where
  "net_ops_run smax pmax [] c = Some (Inr c)"
| "net_ops_run smax pmax (op # ops) c =
     (case net_op_run smax pmax op c of
        None \<Rightarrow> None
      | Some (Inl e) \<Rightarrow> Some (Inl e)
      | Some (Inr c') \<Rightarrow> net_ops_run smax pmax ops c')"

lemma net_op_run_ok:
  assumes "queue_ok c"
  shows "\<exists>c'. net_op_run smax pmax op c = Some (Inr c') \<and> queue_ok c' \<and> out_stream c' = out_stream c @ net_op_bytes op"
proof (cases op)
  case (OpQueue d)
  then show ?thesis using net_send_queue_ok [OF assms, of pmax d] by auto
next
  case (OpStream d)
  then show ?thesis using net_send_stream_ok [OF assms, of "length d" "block_of d" d] by (simp add: take_block_of)
next
  case OpFlush
  then show ?thesis using net_send_flush_ok [OF assms, where fdata = "\<lambda>_. []" and smax = smax and pmax = pmax] by auto
next
  case (OpWritable es)
  then show ?thesis using assms by (simp add: queue_ok_def out_stream_def)
qed

text \<open>
  C6. The sending side is a faithful byte stream: in every sequence of queueing, streaming and flushing,
  with every behaviour of the kernel (short writes, interruptions, a full socket, failures), each
  operation returns, no access leaves a buffer or reads uninitialised memory, and the bytes that were
  sent followed by those that wait are exactly the bytes handed over, in order: nothing is lost,
  repeated or reordered, whether data were appended to the last buffer or put into a new one.
\<close>

theorem net_send_fifo:
  assumes "queue_ok c"
  shows "\<exists>c'. net_ops_run smax pmax ops c = Some (Inr c') \<and> queue_ok c' \<and>
    so_sent c' @ concat (map pending (send_queue c')) =
      so_sent c @ concat (map pending (send_queue c)) @ concat (map net_op_bytes ops)"
  using assms
proof (induction ops arbitrary: c)
  case Nil
  then show ?case by simp
next
  case (Cons op ops)
  from net_op_run_ok [OF Cons.prems, of smax pmax op] obtain c' where
    "net_op_run smax pmax op c = Some (Inr c')" "queue_ok c'" "out_stream c' = out_stream c @ net_op_bytes op" by blast
  moreover from this(3) have "so_sent c' @ concat (map pending (send_queue c')) @ xs =
      so_sent c @ concat (map pending (send_queue c)) @ net_op_bytes op @ xs" for xs
    by (metis append.assoc out_stream_def)
  ultimately show ?case using Cons.IH [of c'] by (simp del: append_assoc add: append_assoc [symmetric])
qed

definition idle_conn :: "'cb conn" where
  "idle_conn = \<lparr>send_queue = [], rnb = None, evt_read = True, evt_write = True, close_empty = False, disconnecting = False,
     so_send = [Sent 2, SendIntr, Sent 1, SendAgain], so_sent = [], net_log = []\<rparr>"

theorem net_send_fifo_witness:
  "queue_ok (idle_conn :: unit conn) \<and>
   (\<exists>c'. net_ops_run 8 4 [OpQueue ''abc'', OpFlush, OpQueue ''defg'', OpStream ''hi'', OpFlush] (idle_conn :: unit conn) = Some (Inr c') \<and>
     so_sent c' @ concat (map pending (send_queue c')) = ''abcdefghi'')"
  using net_send_fifo [of "idle_conn :: unit conn" 8 4 "[OpQueue ''abc'', OpFlush, OpQueue ''defg'', OpStream ''hi'', OpFlush]"]
  by (auto simp: queue_ok_def idle_conn_def)

section \<open>A short write of a file\<close>

definition at_eof :: "(nat \<Rightarrow> byte list) \<Rightarrow> nat \<Rightarrow> nat \<Rightarrow> ('cb, 'x) conn_scheme \<Rightarrow> bool" where
  "at_eof fdata prevoff len c \<longleftrightarrow>
     (\<exists>nb q ref. send_queue c = nb # q \<and> nb_file nb = Some ref \<and> length (fdata ref) \<le> nat (nb_fd_off nb) \<and>
        nat (nb_fd_off nb) - prevoff \<noteq> len)"

lemma sendfile_loop_spins:
  assumes "at_eof fdata prevoff len c"
  shows "sendfile_loop fdata prevoff len c = None"
proof (rule ccontr)
  assume "sendfile_loop fdata prevoff len c \<noteq> None"
  then obtain r where ret: "sendfile_loop fdata prevoff len c = Some r" by blast
  have "at_eof fdata prevoff len c \<longrightarrow> False"
  proof (rule sendfile_loop.raw_induct [where P = "\<lambda>fdata prevoff len c r. at_eof fdata prevoff len c \<longrightarrow> False", OF _ ret], intro impI notI)
    fix loop :: "(nat \<Rightarrow> byte list) \<Rightarrow> nat \<Rightarrow> nat \<Rightarrow> ('cb, 'x) conn_scheme \<Rightarrow> (int \<times> ('cb, 'x) conn_scheme) result option"
      and fdata prevoff len and c :: "('cb, 'x) conn_scheme" and y
    assume IH: "\<And>fdata prevoff len c y. loop fdata prevoff len c = Some y \<Longrightarrow> at_eof fdata prevoff len c \<longrightarrow> False"
      and step: "(case send_queue c of
        [] \<Rightarrow> Some (Inl NullDeref)
      | nb # q \<Rightarrow>
          (case nb_file nb of
             None \<Rightarrow> Some (Inl NullDeref)
           | Some ref \<Rightarrow>
               (let off = nat (nb_fd_off nb); rest = drop off (fdata ref) in
                if rest \<noteq> [] \<and> so_send c = [] then Some (Inr (1, c\<lparr>evt_write := False\<rparr>))
                else if rest \<noteq> [] \<and> hd (so_send c) = SendAgain
                then Some (Inr (1, c\<lparr>so_send := tl (so_send c), evt_write := False\<rparr>))
                else if rest \<noteq> [] \<and> (hd (so_send c) = SendFail \<or> hd (so_send c) = SendIntr)
                then Some (Inr (0, c\<lparr>so_send := tl (so_send c)\<rparr>))
                else (let sent = (if rest = [] then [] else case hd (so_send c) of Sent k \<Rightarrow> take (min k len) rest | _ \<Rightarrow> []);
                          off' = off + length sent;
                          c' = c\<lparr>so_send := (if rest = [] then so_send c else tl (so_send c)),
                                 so_sent := so_sent c @ sent,
                                 send_queue := nb\<lparr>nb_fd_off := int off'\<rparr> # q\<rparr>
                      in if off' - prevoff \<noteq> len then loop fdata prevoff len c'
                         else if sent = [] \<or> int off' = nb_fd_len nb
                         then Some (bindR (net_remove_netbuf c') (\<lambda>c''. Inr (1, c'')))
                         else Some (Inr (1, c')))))) = Some y"
      and eof: "at_eof fdata prevoff len c"
    from eof obtain nb q ref where c: "send_queue c = nb # q" "nb_file nb = Some ref"
      "length (fdata ref) \<le> nat (nb_fd_off nb)" "nat (nb_fd_off nb) - prevoff \<noteq> len" unfolding at_eof_def by blast
    then have "loop fdata prevoff len (c\<lparr>so_send := so_send c, so_sent := so_sent c @ [],
        send_queue := nb\<lparr>nb_fd_off := int (nat (nb_fd_off nb))\<rparr> # q\<rparr>) = Some y"
      using step by (simp add: Let_def)
    moreover have "at_eof fdata prevoff len (c\<lparr>so_send := so_send c, so_sent := so_sent c @ [],
        send_queue := nb\<lparr>nb_fd_off := int (nat (nb_fd_off nb))\<rparr> # q\<rparr>)"
      using c by (auto simp: at_eof_def)
    ultimately show False using IH by blast
  qed
  then show False using assms by blast
qed

lemma sendfile_loop_sent:
  assumes "send_queue c = nb # q" "nb_file nb = Some ref" "so_send c = Sent k # es"
    "n = min (min k len) (length (fdata ref) - nat (nb_fd_off nb))" "0 < n" "nat (nb_fd_off nb) + n - prevoff \<noteq> len"
  shows "sendfile_loop fdata prevoff len c =
    sendfile_loop fdata prevoff len (c\<lparr>so_send := es, so_sent := so_sent c @ take (min k len) (drop (nat (nb_fd_off nb)) (fdata ref)),
      send_queue := nb\<lparr>nb_fd_off := int (nat (nb_fd_off nb) + n)\<rparr> # q\<rparr>)"
proof -
  have rest: "drop (nat (nb_fd_off nb)) (fdata ref) \<noteq> []" using assms(4,5) by simp
  have len: "length (take (min k len) (drop (nat (nb_fd_off nb)) (fdata ref))) = n" using assms(4) by (simp add: min.commute)
  show ?thesis
    using assms(1-3,6) rest len
    by (subst sendfile_loop.simps) (simp only: Let_def list.case option.case list.sel send_event.case send_event.distinct if_True if_False simp_thms not_False_eq_True list.distinct)
qed

text \<open>
  A file larger than one call of \<open>sendfile\<close> may transfer, of which the kernel first takes a part of the
  requested bytes and then the rest of the file, makes \<open>kore_platform_sendfile\<close> loop for ever: the
  retry asks for the full length again, the offset passes the value that ends the loop, and at the
  end of the file nothing is transferred any more.
\<close>

theorem kore_platform_sendfile_spins:
  assumes "send_queue c = nb # q" "nb_file nb = Some ref" "nb_fd_off nb = 0" "nb_fd_len nb = int (length (fdata ref))"
    "0 < k" "k < smax" "smax < length (fdata ref)" "length (fdata ref) \<le> k + smax"
    "so_send c = Sent k # Sent smax # es"
  shows "kore_platform_sendfile fdata smax c = None"
proof -
  define F where "F = length (fdata ref)"
  define c1 where "c1 = c\<lparr>so_send := Sent smax # es, so_sent := so_sent c @ take (min k smax) (fdata ref),
      send_queue := nb\<lparr>nb_fd_off := int k\<rparr> # q\<rparr>"
  define c2 where "c2 = c1\<lparr>so_send := es, so_sent := so_sent c1 @ take (min smax smax) (drop k (fdata ref)),
      send_queue := nb\<lparr>nb_fd_off := int F\<rparr> # q\<rparr>"
  have "kore_platform_sendfile fdata smax c = sendfile_loop fdata 0 smax c"
    using assms by (simp add: kore_platform_sendfile_def)
  also have "\<dots> = sendfile_loop fdata 0 smax c1"
    using sendfile_loop_sent [OF assms(1,2,9), of k smax fdata 0] assms by (simp add: c1_def min_def)
  also have "\<dots> = sendfile_loop fdata 0 smax c2"
    using sendfile_loop_sent [of c1 "nb\<lparr>nb_fd_off := int k\<rparr>" q ref smax es "F - k" smax fdata 0] assms
    by (simp add: c1_def c2_def F_def min_absorb1 min_absorb2)
  also have "\<dots> = None"
    using assms by (intro sendfile_loop_spins) (simp add: at_eof_def c2_def F_def)
  finally show ?thesis .
qed

theorem kore_platform_sendfile_spins_witness:
  "kore_platform_sendfile (\<lambda>_. ''abcde'') 4
     ((idle_conn :: unit conn)\<lparr>so_send := [Sent 2, Sent 4], send_queue := [net_netbuf_get\<lparr>nb_file := Some 7, nb_is_fileref := True,
        nb_fd_off := 0, nb_fd_len := 5\<rparr>]\<rparr>) = None"
  by (rule kore_platform_sendfile_spins [where k = 2 and ref = 7], simp, simp_all)

section \<open>Receiving does not depend on how bytes arrive\<close>

text \<open>A receiving buffer that calls its callback only when it is full.\<close>

definition recv_ok :: "('cb, 'x) conn_scheme \<Rightarrow> bool" where
  "recv_ok c \<longleftrightarrow>
     (\<exists>nb blk. rnb c = Some nb \<and> nb_buf nb = Some blk \<and> length blk = nb_m_len nb \<and> nb_b_len nb \<le> nb_m_len nb \<and>
        nb_s_off nb \<le> nb_b_len nb \<and> \<not> nb_call_always nb)"

definition recv_need :: "('cb, 'x) conn_scheme \<Rightarrow> nat" where
  "recv_need c = nb_b_len (the (rnb c)) - nb_s_off (the (rnb c))"

definition recv_put :: "byte list \<Rightarrow> ('cb, 'x) conn_scheme \<Rightarrow> ('cb, 'x) conn_scheme" where
  "recv_put xs c =
     (let nb = the (rnb c); blk = the (nb_buf nb); s = nb_s_off nb
      in c\<lparr>rnb := Some (nb\<lparr>nb_buf := Some (take s blk @ block_of xs @ drop (s + length xs) blk), nb_s_off := s + length xs\<rparr>)\<rparr>)"

text \<open>
  The reference: the connection is fed a list of bytes, and its callback is called each time the buffer
  is full.  The second result is what has not been read.
\<close>

function recv_feed ::
  "('cb \<Rightarrow> ('cb, 'x) conn_scheme \<Rightarrow> (int \<times> ('cb, 'x) conn_scheme) result option) \<Rightarrow> byte list \<Rightarrow> ('cb, 'x) conn_scheme \<Rightarrow>
   (int \<times> byte list \<times> ('cb, 'x) conn_scheme) result option" where
  "recv_feed call xs c =
     (if \<not> evt_read c \<or> recv_need c = 0 then Some (Inr (1, xs, c))
      else if length xs < recv_need c then Some (Inr (1, [], recv_put xs c))
      else (case nb_cb (the (rnb c)) of
              None \<Rightarrow> Some (Inl NullDeref)
            | Some cb \<Rightarrow>
                (case call cb (recv_put (take (recv_need c) xs) c) of
                   None \<Rightarrow> None
                 | Some (Inl e) \<Rightarrow> Some (Inl e)
                 | Some (Inr (rc, c')) \<Rightarrow>
                     if rc \<noteq> 1 then Some (Inr (rc, drop (recv_need c) xs, c'))
                     else recv_feed call (drop (recv_need c) xs) c')))"
  by pat_completeness auto
termination
  by (relation "measure (\<lambda>(call, xs, c). length xs)") auto

declare recv_feed.simps [simp del]

fun arrived :: "recv_event list \<Rightarrow> byte list" where
  "arrived [] = []"
| "arrived (Arrive xs # es) = xs @ arrived es"
| "arrived (_ # es) = arrived es"

lemma recv_okE:
  assumes "recv_ok c"
  obtains nb blk where "rnb c = Some nb" "nb_buf nb = Some blk" "length blk = nb_m_len nb" "nb_b_len nb \<le> nb_m_len nb"
    "nb_s_off nb \<le> nb_b_len nb" "\<not> nb_call_always nb" "recv_need c = nb_b_len nb - nb_s_off nb"
    "size_sub (nb_b_len nb) (nb_s_off nb) = recv_need c"
  using assms by (auto simp: recv_ok_def recv_need_def size_sub_def)

lemma recv_put_ok:
  assumes "recv_ok c" "length xs \<le> recv_need c"
  shows "recv_ok (recv_put xs c)" "recv_need (recv_put xs c) = recv_need c - length xs"
    "evt_read (recv_put xs c) = evt_read c" "nb_cb (the (rnb (recv_put xs c))) = nb_cb (the (rnb c))"
  using assms by (auto elim!: recv_okE simp: recv_put_def recv_ok_def recv_need_def Let_def)

lemma rnb_same: "rnb c = Some nb \<Longrightarrow> c\<lparr>rnb := Some nb\<rparr> = c"
  by (cases c) simp

lemma nb_buf_same: "nb_buf nb = Some b \<Longrightarrow> nb\<lparr>nb_buf := Some b\<rparr> = nb"
  by (cases nb) simp

lemma recv_put_Nil: "recv_ok c \<Longrightarrow> recv_put [] c = c"
  by (elim recv_okE) (simp add: recv_put_def Let_def block_of_def nb_buf_same rnb_same)

lemma overwrite_twice:
  assumes "s + length xs + length ys \<le> length blk" "b = take s blk @ block_of xs @ drop (s + length xs) blk"
  shows "take (s + length xs) b @ block_of ys @ drop (s + length xs + length ys) b =
    take s blk @ block_of (xs @ ys) @ drop (s + length (xs @ ys)) blk"
  using assms by (simp add: block_of_append ac_simps)

lemma recv_put_put:
  assumes "recv_ok c" "length (xs @ ys) \<le> recv_need c"
  shows "recv_put ys (recv_put xs c) = recv_put (xs @ ys) c"
proof -
  from assms(1) obtain nb blk where c: "rnb c = Some nb" "nb_buf nb = Some blk" "length blk = nb_m_len nb"
    "nb_b_len nb \<le> nb_m_len nb" "nb_s_off nb \<le> nb_b_len nb" "recv_need c = nb_b_len nb - nb_s_off nb" by (rule recv_okE)
  then have "nb_s_off nb + length xs + length ys \<le> length blk" using assms(2) by simp
  note o = overwrite_twice [OF this refl]
  show ?thesis
    unfolding recv_put_def Let_def using c o by (simp only: conn.simps conn.update_convs option.sel netbuf.simps) (simp add: add.assoc)
qed

lemma recv_feed_full:
  assumes "evt_read c" "0 < recv_need c" "recv_need c \<le> length xs"
  shows "recv_feed call xs c =
    (case nb_cb (the (rnb c)) of
       None \<Rightarrow> Some (Inl NullDeref)
     | Some cb \<Rightarrow>
         (case call cb (recv_put (take (recv_need c) xs) c) of
            None \<Rightarrow> None
          | Some (Inl e) \<Rightarrow> Some (Inl e)
          | Some (Inr (rc, c')) \<Rightarrow>
              if rc \<noteq> 1 then Some (Inr (rc, drop (recv_need c) xs, c'))
              else recv_feed call (drop (recv_need c) xs) c'))"
proof -
  have "(\<not> evt_read c \<or> recv_need c = 0) = False" "(length xs < recv_need c) = False" using assms by simp_all
  then show ?thesis by (subst recv_feed.simps) (simp only: if_False)
qed

lemma recv_feed_split:
  assumes "recv_ok c" "evt_read c" "length xs < recv_need c"
  shows "recv_feed call (xs @ ys) c = recv_feed call ys (recv_put xs c)"
proof -
  note p = recv_put_ok [OF assms(1), of xs]
  have need: "recv_need (recv_put xs c) = recv_need c - length xs" "evt_read (recv_put xs c)"
    "nb_cb (the (rnb (recv_put xs c))) = nb_cb (the (rnb c))" using p assms by simp_all
  show ?thesis
  proof (cases "length (xs @ ys) < recv_need c")
    case True
    then have "length ys < recv_need c - length xs" by simp
    then show ?thesis
      using True assms need recv_put_put [OF assms(1), of xs ys]
      by (simp add: recv_feed.simps [of call "xs @ ys"] recv_feed.simps [of call ys])
  next
    case False
    define t where "t = take (recv_need c - length xs) ys"
    have t: "take (recv_need c) (xs @ ys) = xs @ t" "drop (recv_need c) (xs @ ys) = drop (recv_need c - length xs) ys"
      using assms(3) by (simp_all add: t_def)
    have pp: "recv_put t (recv_put xs c) = recv_put (xs @ t) c"
      using assms False by (intro recv_put_put) (simp_all add: t_def)
    have "0 < recv_need c" "recv_need c \<le> length (xs @ ys)" "0 < recv_need (recv_put xs c)" "recv_need (recv_put xs c) \<le> length ys"
      using assms(3) False need(1) by simp_all
    note f = recv_feed_full [OF assms(2) this(1,2), of call] recv_feed_full [OF need(2) this(3,4), of call]
    show ?thesis
      unfolding f need(1,3) t t_def [symmetric] pp ..
  qed
qed

text \<open>
  The callbacks of a protocol keep an invariant under which the buffer has room for what is asked for.
\<close>

locale recv_callbacks =
  fixes call :: "'cb \<Rightarrow> ('cb, 'x) conn_scheme \<Rightarrow> (int \<times> ('cb, 'x) conn_scheme) result option"
    and inv :: "('cb, 'x) conn_scheme \<Rightarrow> bool"
  assumes inv_ok: "inv c \<Longrightarrow> recv_ok c"
    and inv_put: "inv c \<Longrightarrow> length xs \<le> recv_need c \<Longrightarrow> inv (recv_put xs c)"
    and inv_call: "inv c \<Longrightarrow> recv_need c = 0 \<Longrightarrow> nb_cb (the (rnb c)) = Some cb \<Longrightarrow>
      call cb c = Some (Inr (1, c')) \<Longrightarrow> inv c'"
begin

lemma loop_stop:
  assumes "inv c" "\<not> evt_read c \<or> recv_need c = 0"
  shows "net_recv_loop hook call es c = Some (Inr (1, es, c))"
proof -
  from inv_ok [OF assms(1)] obtain nb blk where "rnb c = Some nb" "nb_buf nb = Some blk"
    "size_sub (nb_b_len nb) (nb_s_off nb) = recv_need c" by (rule recv_okE)
  then show ?thesis using assms(2) by (subst net_recv_loop.simps) auto
qed

lemma loop_read:
  assumes "inv c" "evt_read c" "0 < recv_need c"
  shows "net_recv_loop hook call es c =
    (case sys_recv (recv_need c) es of
       (GotFail, es') \<Rightarrow> Some (Inr (0, es', c))
     | (GotIntr, es') \<Rightarrow> net_recv_loop hook call es' c
     | (GotAgain, es') \<Rightarrow> Some (Inr (1, es', c\<lparr>evt_read := False\<rparr>))
     | (Got xs, es') \<Rightarrow>
         if xs = [] then map_option (\<lambda>r. bindR r (\<lambda>c'. Inr (1, es', c'\<lparr>evt_read := False\<rparr>))) (kore_connection_disconnect hook c)
         else if length xs < recv_need c then net_recv_loop hook call es' (recv_put xs c)
         else (case nb_cb (the (rnb c)) of
                 None \<Rightarrow> Some (Inl NullDeref)
               | Some cb \<Rightarrow>
                   (case call cb (recv_put xs c) of
                      None \<Rightarrow> None
                    | Some (Inl e) \<Rightarrow> Some (Inl e)
                    | Some (Inr (rc, c')) \<Rightarrow> if rc \<noteq> 1 then Some (Inr (rc, es', c')) else net_recv_loop hook call es' c')))"
proof -
  from inv_ok [OF assms(1)] obtain nb blk where nb: "rnb c = Some nb" "nb_buf nb = Some blk" "length blk = nb_m_len nb"
    "nb_b_len nb \<le> nb_m_len nb" "nb_s_off nb \<le> nb_b_len nb" "\<not> nb_call_always nb"
    "recv_need c = nb_b_len nb - nb_s_off nb" "size_sub (nb_b_len nb) (nb_s_off nb) = recv_need c" by (rule recv_okE)
  have short: "length xs \<le> recv_need c" if "sys_recv (recv_need c) es = (Got xs, es')" for xs es'
    using that by (induction "recv_need c" es rule: sys_recv.induct) (auto split: if_splits)
  have s0: "nb\<lparr>nb_s_off := nb_s_off nb\<rparr> = nb" by (cases nb) simp
  obtain r es' where sr: "sys_recv (recv_need c) es = (r, es')" by fastforce
  show ?thesis
  proof (cases r)
    case (Got xs)
    have bound: "nb_s_off nb + length xs \<le> length blk" using short sr Got nb by fastforce
    show ?thesis
    proof (cases "xs = []")
      case True
      obtain d where d: "kore_connection_disconnect hook c = d" by simp
      show ?thesis
      proof (cases d)
        case None
        then show ?thesis using True assms nb sr Got d by (subst net_recv_loop.simps) (simp add: net_read_def)
      next
        case (Some x)
        then show ?thesis
          using True assms nb sr Got d by (subst net_recv_loop.simps) (cases x; simp add: net_read_def)
      qed
    next
      case False
      then show ?thesis
        using assms nb sr Got bound short [OF sr [unfolded Got]]
        by (subst net_recv_loop.simps) (auto simp: net_read_def mem_write_def recv_put_def Let_def split: option.splits)
    qed
  next
    case GotIntr
    then show ?thesis
      using assms nb sr by (subst net_recv_loop.simps) (simp add: net_read_def Let_def s0 rnb_same)
  next
    case GotAgain
    then show ?thesis
      using assms nb sr by (subst net_recv_loop.simps) (simp add: net_read_def Let_def)
  next
    case GotFail
    then show ?thesis
      using assms nb sr by (subst net_recv_loop.simps) (simp add: net_read_def Let_def)
  qed
qed

lemma loop_feed:
  assumes "inv c" "\<forall>e \<in> set es. e = RecvIntr \<or> (\<exists>xs. e = Arrive xs)"
    "recv_feed call (arrived es) c = Some (Inr (rc, rest, c'))"
  shows "\<exists>es' c2. net_recv_loop hook call es c = Some (Inr (rc, es', c2)) \<and> arrived es' = rest \<and>
    (c2 = c' \<or> c2 = c'\<lparr>evt_read := False\<rparr>)"
  using assms
proof (induction "sum_list (map event_size es)" arbitrary: es c rule: less_induct)
  case less
  note inv = less.prems(1) and ev = less.prems(2) and feed = less.prems(3)
  show ?case
  proof (cases "\<not> evt_read c \<or> recv_need c = 0")
    case True
    then have "recv_feed call (arrived es) c = Some (Inr (1, arrived es, c))" by (subst recv_feed.simps) (simp only: if_True)
    then show ?thesis using feed loop_stop [OF inv True] by simp
  next
    case False
    then have rd: "evt_read c" "0 < recv_need c" by simp_all
    note step = loop_read [OF inv rd]
    show ?thesis
    proof (cases es)
      case Nil
      have "recv_feed call (arrived es) c = Some (Inr (1, [], c))"
        using rd Nil recv_put_Nil [OF inv_ok [OF inv]] by (subst recv_feed.simps) simp
      then show ?thesis using feed step Nil by simp
    next
      case (Cons e es1)
      have smaller: "sum_list (map event_size es1) < sum_list (map event_size es)" using Cons by (cases e) simp_all
      have ev1: "\<forall>e \<in> set es1. e = RecvIntr \<or> (\<exists>xs. e = Arrive xs)" using ev Cons by simp
      from ev Cons consider (intr) "e = RecvIntr" | (none) "e = Arrive []" | (some) xs where "e = Arrive xs" "xs \<noteq> []" by auto
      then show ?thesis
      proof cases
        case intr
        then show ?thesis using step [of hook es] Cons less.hyps [OF smaller inv ev1] feed by simp
      next
        case none
        then have "net_recv_loop hook call es c = net_recv_loop hook call es1 c" using step [of hook es] step [of hook es1] Cons by simp
        then show ?thesis using less.hyps [OF smaller inv ev1] feed Cons none by simp
      next
        case some
        show ?thesis
        proof (cases "length xs < recv_need c")
          case True
          then have "net_recv_loop hook call es c = net_recv_loop hook call es1 (recv_put xs c)"
            using step [of hook es] some Cons by simp
          moreover have "recv_feed call (arrived es1) (recv_put xs c) = Some (Inr (rc, rest, c'))"
            using feed recv_feed_split [OF inv_ok [OF inv] rd(1) True] some Cons by simp
          ultimately show ?thesis using less.hyps [OF smaller inv_put [OF inv] ev1] True by simp
        next
          case False
          define es2 where "es2 = (if length xs \<le> recv_need c then es1 else Arrive (drop (recv_need c) xs) # es1)"
          define p where "p = recv_put (take (recv_need c) xs) c"
          have sys: "sys_recv (recv_need c) es = (Got (take (recv_need c) xs), es2)"
            using some Cons by (simp add: es2_def)
          have es2: "arrived es2 = drop (recv_need c) (arrived es)" "take (recv_need c) (arrived es) = take (recv_need c) xs"
            "sum_list (map event_size es2) < sum_list (map event_size es)" "\<forall>e \<in> set es2. e = RecvIntr \<or> (\<exists>xs. e = Arrive xs)"
            using some Cons False rd(2) ev1 by (auto simp: es2_def)
          have ge: "recv_need c \<le> length (arrived es)" using some Cons False by simp
          have f: "recv_feed call (arrived es) c =
              (case nb_cb (the (rnb c)) of None \<Rightarrow> Some (Inl NullDeref) | Some cb \<Rightarrow>
                (case call cb p of None \<Rightarrow> None | Some (Inl e) \<Rightarrow> Some (Inl e)
                 | Some (Inr (rc, c')) \<Rightarrow> if rc \<noteq> 1 then Some (Inr (rc, arrived es2, c')) else recv_feed call (arrived es2) c'))"
            using recv_feed_full [OF rd ge, of call] unfolding es2(1,2) p_def .
          have l: "net_recv_loop hook call es c =
              (case nb_cb (the (rnb c)) of None \<Rightarrow> Some (Inl NullDeref) | Some cb \<Rightarrow>
                (case call cb p of None \<Rightarrow> None | Some (Inl e) \<Rightarrow> Some (Inl e)
                 | Some (Inr (rc, c')) \<Rightarrow> if rc \<noteq> 1 then Some (Inr (rc, es2, c')) else net_recv_loop hook call es2 c'))"
            using step [of hook es] sys some(2) False rd(2) unfolding p_def by simp
          have pi: "inv p" "recv_need p = 0" "nb_cb (the (rnb p)) = nb_cb (the (rnb c))"
            using inv_put [OF inv, of "take (recv_need c) xs"] recv_put_ok [OF inv_ok [OF inv], of "take (recv_need c) xs"] False
            unfolding p_def by simp_all
          obtain cb rc1 c1 where cb: "nb_cb (the (rnb c)) = Some cb" "call cb p = Some (Inr (rc1, c1))"
            using feed unfolding f by (auto split: option.splits sum.splits)
          show ?thesis
          proof (cases "rc1 = 1")
            case True
            then have "inv c1" using inv_call [OF pi(1,2)] pi(3) cb by simp
            from less.hyps [OF es2(3) this es2(4)] show ?thesis using feed f l cb True by simp
          next
            case False
            then show ?thesis using feed f l cb by simp
          qed
        qed
      qed
    qed
  qed
qed

end

end
