(* ===== verification/Hashing.thy ===== *)
theory Hashing
  imports Prelude
begin

text \<open>
  What the hash functions of \<open>src/src/sha1.c\<close> and \<open>src/src/sha2.c\<close> share: bytes and big-endian words,
  the division of a message into blocks, the padding of the Secure Hash Standard (FIPS 180-4), and
  the interface of a hash that is fed a message piece by piece.
\<close>

unbundle bit_operations_syntax

type_synonym u8 = "8 word"
type_synonym u32 = "32 word"
type_synonym u64 = "64 word"

section \<open>Words and bytes\<close>

text \<open>The bytes of a word from the most significant one on (\<open>BE_32_TO_8\<close>, \<open>BE_64_TO_8\<close>), and back.\<close>

definition be_bytes :: "nat \<Rightarrow> 'a::len word \<Rightarrow> u8 list" where
  "be_bytes n w = map (\<lambda>i. ucast (drop_bit (8 * (n - 1 - i)) w)) [0..<n]"

definition BE_8_TO_32 :: "u8 list \<Rightarrow> u32" where
  "BE_8_TO_32 cp =
     ucast (cp ! 3) OR push_bit 8 (ucast (cp ! 2)) OR push_bit 16 (ucast (cp ! 1)) OR push_bit 24 (ucast (cp ! 0))"

definition BE_8_TO_64 :: "u8 list \<Rightarrow> u64" where
  "BE_8_TO_64 cp =
     ucast (cp ! 7) OR push_bit 8 (ucast (cp ! 6)) OR push_bit 16 (ucast (cp ! 5)) OR push_bit 24 (ucast (cp ! 4)) OR
     push_bit 32 (ucast (cp ! 3)) OR push_bit 40 (ucast (cp ! 2)) OR push_bit 48 (ucast (cp ! 1)) OR push_bit 56 (ucast (cp ! 0))"

lemma length_be_bytes [simp]: "length (be_bytes n w) = n"
  by (simp add: be_bytes_def)

text \<open>\<open>memcpy(&buf[off], xs, length xs)\<close> into an array with room for it.\<close>

definition buf_put :: "'a list \<Rightarrow> nat \<Rightarrow> 'a list \<Rightarrow> 'a list" where
  "buf_put buf off xs = take off buf @ xs @ drop (off + length xs) buf"

lemma length_buf_put [simp]: "off + length xs \<le> length buf \<Longrightarrow> length (buf_put buf off xs) = length buf"
  by (simp add: buf_put_def)

lemma take_buf_put:
  "off + length xs \<le> length buf \<Longrightarrow> take (off + length xs) (buf_put buf off xs) = take off buf @ xs"
  by (simp add: buf_put_def)

lemma buf_put_full: "off + length xs = length buf \<Longrightarrow> buf_put buf off xs = take off buf @ xs"
  by (simp add: buf_put_def)

section \<open>Blocks\<close>

text \<open>Every complete block of a message through \<open>f\<close>, and what is left of the message.\<close>

function fold_blocks :: "nat \<Rightarrow> ('s \<Rightarrow> 'b list \<Rightarrow> 's) \<Rightarrow> 's \<Rightarrow> 'b list \<Rightarrow> 's \<times> 'b list" where
  "fold_blocks B f s xs =
     (if 0 < B \<and> B \<le> length xs then fold_blocks B f (f s (take B xs)) (drop B xs) else (s, xs))"
  by pat_completeness auto
termination
  by (relation "measure (\<lambda>(B, f, s, xs). length xs)") auto

declare fold_blocks.simps [simp del]

lemma fold_blocks_short [simp]: "length xs < B \<Longrightarrow> fold_blocks B f s xs = (s, xs)"
  by (subst fold_blocks.simps) simp

lemma fold_blocks_block:
  "0 < B \<Longrightarrow> length xs = B \<Longrightarrow> fold_blocks B f s (xs @ ys) = fold_blocks B f (f s xs) ys"
  by (subst fold_blocks.simps) simp

lemma fold_blocks_one: "0 < B \<Longrightarrow> length xs = B \<Longrightarrow> fold_blocks B f s xs = (f s xs, [])"
  using fold_blocks_block [of B xs f s "[]"] by simp

lemma fold_blocks_append:
  "0 < B \<Longrightarrow> fold_blocks B f s (xs @ ys) =
     fold_blocks B f (fst (fold_blocks B f s xs)) (snd (fold_blocks B f s xs) @ ys)"
proof (induction B f s xs rule: fold_blocks.induct)
  case (1 B f s xs)
  show ?case
  proof (cases "B \<le> length xs")
    case True
    then have "fold_blocks B f s (xs @ ys) = fold_blocks B f (f s (take B xs)) (drop B xs @ ys)"
      using 1(2) by (subst fold_blocks.simps) simp
    moreover have "fold_blocks B f s xs = fold_blocks B f (f s (take B xs)) (drop B xs)"
      using True 1(2) by (subst fold_blocks.simps) simp
    ultimately show ?thesis
      using 1 True by simp
  next
    case False
    then show ?thesis by simp
  qed
qed

lemma length_snd_fold_blocks: "0 < B \<Longrightarrow> length (snd (fold_blocks B f s xs)) = length xs mod B"
proof (induction B f s xs rule: fold_blocks.induct)
  case (1 B f s xs)
  show ?case
  proof (cases "B \<le> length xs")
    case True
    then have "fold_blocks B f s xs = fold_blocks B f (f s (take B xs)) (drop B xs)"
      using 1(2) by (subst fold_blocks.simps) simp
    then show ?thesis
      using 1 True by (simp add: le_mod_geq)
  qed simp
qed

lemma fold_blocks_long:
  "0 < B \<Longrightarrow> B \<le> length xs \<Longrightarrow> fold_blocks B f s xs = fold_blocks B f (f s (take B xs)) (drop B xs)"
  by (subst fold_blocks.simps) simp

lemma fold_blocks_cong:
  assumes step: "\<And>s x. P s \<Longrightarrow> f s x = g s x \<and> P (f s x)" and "0 < B"
  shows "P s \<Longrightarrow> fold_blocks B f s xs = fold_blocks B g s xs \<and> P (fst (fold_blocks B f s xs))"
proof (induction "length xs" arbitrary: s xs rule: less_induct)
  case less
  have fg: "f s (take B xs) = g s (take B xs)" and P: "P (f s (take B xs))"
    by (rule step [OF less.prems, THEN conjunct1], rule step [OF less.prems, THEN conjunct2])
  show ?case
  proof (cases "B \<le> length xs")
    case True
    then have "length (drop B xs) < length xs" using assms(2) by simp
    from less.hyps [OF this P, unfolded fg] show ?thesis
      unfolding fold_blocks_long [OF assms(2) True] fg .
  next
    case False
    then show ?thesis using less.prems by simp
  qed
qed

text \<open>Absorbing a piece into a buffer that holds the first \<open>j\<close> bytes of the next block.\<close>

lemma absorb_full:
  assumes "fold_blocks B f iv m = (st, take j buf)" "length buf = B" "j < B" "B \<le> j + length d"
  shows "fold_blocks B f iv (m @ d) = fold_blocks B f (f st (buf_put buf j (take (B - j) d))) (drop (B - j) d)"
    "length (buf_put buf j (take (B - j) d)) = B"
proof -
  have len: "length (take (B - j) d) = B - j" using assms(4) by simp
  then have b: "buf_put buf j (take (B - j) d) = take j buf @ take (B - j) d"
    using assms(2,3) by (simp add: buf_put_def)
  show "length (buf_put buf j (take (B - j) d)) = B"
    using assms(2,3) len unfolding b by simp
  then have "fold_blocks B f st ((take j buf @ take (B - j) d) @ drop (B - j) d) =
    fold_blocks B f (f st (take j buf @ take (B - j) d)) (drop (B - j) d)"
    using assms(3) unfolding b by (intro fold_blocks_block) simp_all
  moreover have "(take j buf @ take (B - j) d) @ drop (B - j) d = take j buf @ d" by simp
  moreover have "fold_blocks B f iv (m @ d) = fold_blocks B f st (take j buf @ d)"
    using fold_blocks_append [of B f iv m d] assms(1,3) by simp
  ultimately show "fold_blocks B f iv (m @ d) = fold_blocks B f (f st (buf_put buf j (take (B - j) d))) (drop (B - j) d)"
    unfolding b by metis
qed

lemma absorb_part:
  assumes "fold_blocks B f iv m = (st, take j buf)" "length buf = B" "j + length d < B"
  shows "fold_blocks B f iv (m @ d) = (st, take (j + length d) (buf_put buf j d))"
proof -
  have "fold_blocks B f iv (m @ d) = fold_blocks B f st (take j buf @ d)"
    using fold_blocks_append [of B f iv m d] assms by simp
  also have "\<dots> = (st, take j buf @ d)" using assms by simp
  finally show ?thesis using assms take_buf_put [of j d buf] by simp
qed

lemma fold_blocks_rest:
  assumes "0 < B" "fold_blocks B f s m = (st, r)"
  shows "length r = length m mod B" "length r < B"
  using length_snd_fold_blocks [OF assms(1), of f s m] assms by simp_all

section \<open>Bit counts\<close>

lemma unat_bits_shift: "unat (drop_bit 3 (of_nat k :: u64)) = k mod 2 ^ 64 div 8"
  by (subst unsigned_drop_bit_eq) (simp add: drop_bit_eq_div unat_of_nat take_bit_eq_mod)

text \<open>The number of bytes modulo a block, read from the number of bits modulo 2 to the 64.\<close>

lemma unat_bytes_mod:
  assumes "d dvd 2 ^ 61"
  shows "unat (drop_bit 3 (of_nat (8 * n) :: u64)) mod d = n mod d"
proof -
  have "8 * n mod 2 ^ 64 = 8 * (n mod 2 ^ 61)"
    using mult_mod_right [of 8 n "2 ^ 61"] by simp
  then have "unat (drop_bit 3 (of_nat (8 * n) :: u64)) = n mod 2 ^ 61"
    unfolding unat_bits_shift by simp
  then show ?thesis
    using assms by (simp only: mod_mod_cancel)
qed

lemma unat_and_63: "unat ((w :: u64) AND 63) = unat w mod 64"
proof -
  have "w AND mask 6 = take_bit 6 w" by (simp only: take_bit_eq_mask)
  moreover have "mask 6 = (63 :: u64)" by (simp add: mask_eq_exp_minus_1)
  ultimately have "unat (w AND 63) = unat (take_bit 6 w)" by simp
  also have "\<dots> = take_bit 6 (unat w)" by (rule unsigned_take_bit_eq)
  finally show ?thesis by (simp add: take_bit_eq_mod)
qed

lemma bits_add: "(of_nat (8 * length m) :: u64) + push_bit 3 (of_nat (length d)) = of_nat (8 * length (m @ d))"
  by (simp add: push_bit_eq_mult algebra_simps)

section \<open>Padding\<close>

text \<open>
  The padding of a message of \<open>n\<close> bytes: a one bit, zeros, and \<open>L\<close> bytes of length, up to the end of
  a block of \<open>B\<close> bytes.
\<close>

definition pad_zeros :: "nat \<Rightarrow> nat \<Rightarrow> nat \<Rightarrow> nat" where
  "pad_zeros B L n = (B + B - L - 1 - n mod B) mod B"

definition sha_padding :: "nat \<Rightarrow> nat \<Rightarrow> u8 list \<Rightarrow> nat \<Rightarrow> u8 list" where
  "sha_padding B L len n = [0x80] @ replicate (pad_zeros B L n) 0 @ len"

lemma pad_zeros_small:
  assumes "n mod B + 1 + L \<le> B"
  shows "pad_zeros B L n = B - L - 1 - n mod B"
proof -
  define r where "r = n mod B"
  have "B + B - L - 1 - r = B + (B - L - 1 - r)" "B - L - 1 - r < B"
    using assms unfolding r_def [symmetric] by linarith+
  then show ?thesis
    unfolding pad_zeros_def r_def [symmetric] by (metis mod_add_self1 mod_less)
qed

lemma pad_zeros_large:
  assumes "L < B" "B < n mod B + 1 + L"
  shows "pad_zeros B L n = (B - 1 - n mod B) + (B - L)"
proof -
  define r where "r = n mod B"
  have "r < B" using assms(1) by (simp add: r_def)
  then have "B + B - L - 1 - r = (B - 1 - r) + (B - L)" "(B - 1 - r) + (B - L) < B"
    using assms unfolding r_def [symmetric] by linarith+
  then show ?thesis
    unfolding pad_zeros_def r_def [symmetric] by (metis mod_less)
qed

section \<open>Functions of the standard\<close>

definition fips_Ch :: "'a::len word \<Rightarrow> 'a word \<Rightarrow> 'a word \<Rightarrow> 'a word" where
  "fips_Ch x y z = (x AND y) XOR (NOT x AND z)"

definition fips_Maj :: "'a::len word \<Rightarrow> 'a word \<Rightarrow> 'a word \<Rightarrow> 'a word" where
  "fips_Maj x y z = (x AND y) XOR (x AND z) XOR (y AND z)"

section \<open>Hashing piece by piece\<close>

text \<open>
  \<open>ok c m\<close>: the context \<open>c\<close> has absorbed the message \<open>m\<close>; \<open>init c\<close>: it is new; \<open>fits d\<close>: a piece that
  may be absorbed at once.  \<open>H\<close> is the hash of a whole message.
\<close>

locale stream_hash =
  fixes ok :: "'c \<Rightarrow> u8 list \<Rightarrow> bool"
    and fits :: "u8 list \<Rightarrow> bool"
    and init :: "'c \<Rightarrow> bool"
    and update :: "'c \<Rightarrow> u8 list \<Rightarrow> 'c"
    and final :: "'c \<Rightarrow> u8 list option"
    and H :: "u8 list \<Rightarrow> u8 list"
  assumes ok_init: "init c \<Longrightarrow> ok c []"
    and ok_update: "ok c m \<Longrightarrow> fits d \<Longrightarrow> ok (update c d) (m @ d)"
    and ok_final: "ok c m \<Longrightarrow> final c = Some (H m)"
begin

lemma ok_fold: "ok c m \<Longrightarrow> list_all fits ds \<Longrightarrow> ok (fold (\<lambda>d c. update c d) ds c) (m @ concat ds)"
proof (induction ds arbitrary: c m)
  case (Cons d ds)
  then have "ok (update c d) (m @ d)" "list_all fits ds" by (simp_all add: ok_update)
  from Cons.IH [OF this] show ?case by simp
qed simp

lemma hash_pieces:
  "init c \<Longrightarrow> list_all fits ds \<Longrightarrow> final (fold (\<lambda>d c. update c d) ds c) = Some (H (concat ds))"
  using ok_final [OF ok_fold [OF ok_init]] by simp

end

end
