(* ===== verification/Sha1.thy ===== *)
theory Sha1
  imports Hashing "HOL-Library.While_Combinator"
begin

text \<open>
  SHA-1 as in \<open>src/src/sha1.c\<close>, on a little-endian machine: \<open>SHA1Transform\<close> works in place on sixteen
  words and renames its five registers from one unrolled round to the next.  The lemmas compare it
  with the definition of FIPS 180-4 (\<open>fips_sha1\<close>).  A piece of a message is shorter than the address
  space, so that \<open>j + len\<close> does not wrap.
\<close>

unbundle bit_operations_syntax

record sha1_ctx =
  sc_count :: u64
  sc_state :: "u32 list"
  sc_buffer :: "u8 list"

definition rol :: "u32 \<Rightarrow> nat \<Rightarrow> u32" where
  "rol v n = push_bit n v OR drop_bit (32 - n) v"

text \<open>The word \<open>block->l[i]\<close> of the bytes copied into the workspace.\<close>

definition le32 :: "u8 list \<Rightarrow> u32" where
  "le32 c = ucast (c ! 0) OR push_bit 8 (ucast (c ! 1)) OR push_bit 16 (ucast (c ! 2)) OR push_bit 24 (ucast (c ! 3))"

definition block_words :: "u8 list \<Rightarrow> u32 list" where
  "block_words buffer = map (\<lambda>i. le32 (take 4 (drop (4 * i) buffer))) [0..<16]"

definition blk0 :: "nat \<Rightarrow> u32 list \<Rightarrow> u32 list" where
  "blk0 i l = l[i := (rol (l ! i) 24 AND 0xFF00FF00) OR (rol (l ! i) 8 AND 0x00FF00FF)]"

definition blk :: "nat \<Rightarrow> u32 list \<Rightarrow> u32 list" where
  "blk i l = l[i mod 16 := rol (l ! ((i + 13) mod 16) XOR l ! ((i + 8) mod 16) XOR l ! ((i + 2) mod 16) XOR l ! (i mod 16)) 1]"

text \<open>The registers \<open>v\<close>, \<open>w\<close>, \<open>x\<close>, \<open>y\<close>, \<open>z\<close> of the \<open>i\<close>-th round; \<open>a\<close> to \<open>e\<close> are 0 to 4.\<close>

definition sha1_args :: "nat \<Rightarrow> nat \<times> nat \<times> nat \<times> nat \<times> nat" where
  "sha1_args i =
     [(0, 1, 2, 3, 4), (4, 0, 1, 2, 3), (3, 4, 0, 1, 2), (2, 3, 4, 0, 1), (1, 2, 3, 4, 0)] ! (i mod 5)"

definition sha1_mix :: "nat \<Rightarrow> u32 \<Rightarrow> u32 \<Rightarrow> u32 \<Rightarrow> u32" where
  "sha1_mix i w x y =
     (if i < 20 then (w AND (x XOR y)) XOR y
      else if i < 40 then w XOR x XOR y
      else if i < 60 then ((w OR x) AND y) OR (w AND x)
      else w XOR x XOR y)"

definition sha1_const :: "nat \<Rightarrow> u32" where
  "sha1_const i =
     (if i < 20 then 0x5A827999 else if i < 40 then 0x6ED9EBA1 else if i < 60 then 0x8F1BBCDC else 0xCA62C1D6)"

text \<open>The macros \<open>R0\<close> to \<open>R4\<close>.\<close>

definition sha1_round :: "nat \<Rightarrow> u32 list \<times> u32 list \<Rightarrow> u32 list \<times> u32 list" where
  "sha1_round i s =
     (let (r, l) = s;
          (v, w, x, y, z) = sha1_args i;
          l' = (if i < 16 then blk0 i l else blk i l);
          r1 = r[z := r ! z + (sha1_mix i (r ! w) (r ! x) (r ! y) + l' ! (i mod 16) + sha1_const i + rol (r ! v) 5)]
      in (r1[w := rol (r1 ! w) 30], l'))"

definition SHA1Transform :: "u32 list \<Rightarrow> u8 list \<Rightarrow> u32 list" where
  "SHA1Transform state buffer =
     map2 (+) state (fst (fold sha1_round [0..<80] (state, block_words buffer)))"

definition sha1_iv :: "u32 list" where
  "sha1_iv = [0x67452301, 0xEFCDAB89, 0x98BADCFE, 0x10325476, 0xC3D2E1F0]"

text \<open>The buffer of a new context holds whatever was there before.\<close>

definition SHA1Init :: "u8 list \<Rightarrow> sha1_ctx" where
  "SHA1Init buf = \<lparr>sc_count = 0, sc_state = sha1_iv, sc_buffer = buf\<rparr>"

function sha1_blocks :: "u32 list \<Rightarrow> u8 list \<Rightarrow> nat \<Rightarrow> u32 list \<times> nat" where
  "sha1_blocks state data i =
     (if i + 63 < length data
      then sha1_blocks (SHA1Transform state (take 64 (drop i data))) data (i + 64) else (state, i))"
  by pat_completeness auto
termination
  by (relation "measure (\<lambda>(state, data, i). length data - i)") auto

declare sha1_blocks.simps [simp del]

definition sha1_used :: "sha1_ctx \<Rightarrow> nat" where
  "sha1_used c = unat (drop_bit 3 (sc_count c) AND 63)"

definition SHA1Update :: "sha1_ctx \<Rightarrow> u8 list \<Rightarrow> sha1_ctx" where
  "SHA1Update c data =
     (let len = length data;
          j = sha1_used c;
          c1 = c\<lparr>sc_count := sc_count c + push_bit 3 (of_nat len)\<rparr>
      in if j + len > 63
         then (let i = 64 - j;
                   buf = buf_put (sc_buffer c) j (take i data);
                   (state, i') = sha1_blocks (SHA1Transform (sc_state c) buf) data i
               in c1\<lparr>sc_state := state, sc_buffer := buf_put buf 0 (drop i' data)\<rparr>)
         else c1\<lparr>sc_buffer := buf_put (sc_buffer c) j data\<rparr>)"

definition SHA1Pad :: "sha1_ctx \<Rightarrow> sha1_ctx option" where
  "SHA1Pad c =
     (let finalcount = be_bytes 8 (sc_count c)
      in map_option (\<lambda>c'. SHA1Update c' finalcount)
           (while_option (\<lambda>c. sc_count c AND 504 \<noteq> 448) (\<lambda>c. SHA1Update c [0]) (SHA1Update c [0x80])))"

text \<open>\<open>kore_mem_zero\<close> clears the context behind the digest.\<close>

definition SHA1Final :: "sha1_ctx \<Rightarrow> (u8 list \<times> sha1_ctx) option" where
  "SHA1Final c =
     map_option (\<lambda>c'.
       (map (\<lambda>i. ucast (drop_bit ((3 - i mod 4) * 8) (sc_state c' ! (i div 4)) AND 255)) [0..<20],
        \<lparr>sc_count = 0, sc_state = replicate 5 0, sc_buffer = replicate 64 0\<rparr>)) (SHA1Pad c)"

section \<open>The standard\<close>

fun fips_sha1_W :: "u8 list \<Rightarrow> nat \<Rightarrow> u32" where
  "fips_sha1_W m t =
     (if t < 16 then BE_8_TO_32 (take 4 (drop (4 * t) m))
      else rol (fips_sha1_W m (t - 3) XOR fips_sha1_W m (t - 8) XOR fips_sha1_W m (t - 14) XOR fips_sha1_W m (t - 16)) 1)"

declare fips_sha1_W.simps [simp del]

definition fips_sha1_f :: "nat \<Rightarrow> u32 \<Rightarrow> u32 \<Rightarrow> u32 \<Rightarrow> u32" where
  "fips_sha1_f t x y z =
     (if t < 20 then fips_Ch x y z else if 40 \<le> t \<and> t < 60 then fips_Maj x y z else x XOR y XOR z)"

definition fips_sha1_step :: "u8 list \<Rightarrow> nat \<Rightarrow> u32 \<times> u32 \<times> u32 \<times> u32 \<times> u32 \<Rightarrow> u32 \<times> u32 \<times> u32 \<times> u32 \<times> u32" where
  "fips_sha1_step m t = (\<lambda>(a, b, c, d, e).
     (rol a 5 + fips_sha1_f t b c d + e + sha1_const t + fips_sha1_W m t, a, rol b 30, c, d))"

definition fips_sha1_block :: "u32 list \<Rightarrow> u8 list \<Rightarrow> u32 list" where
  "fips_sha1_block H m =
     (let (a, b, c, d, e) = fold (fips_sha1_step m) [0..<80] (H ! 0, H ! 1, H ! 2, H ! 3, H ! 4)
      in [H ! 0 + a, H ! 1 + b, H ! 2 + c, H ! 3 + d, H ! 4 + e])"

definition fips_sha1 :: "u8 list \<Rightarrow> u8 list" where
  "fips_sha1 m =
     concat (map (be_bytes 4)
       (fst (fold_blocks 64 fips_sha1_block sha1_iv
          (m @ sha_padding 64 8 (be_bytes 8 (of_nat (8 * length m) :: u64)) (length m)))))"

section \<open>One block\<close>

lemma sha1_mix_fips: "sha1_mix t x y z = fips_sha1_f t x y z"
  by (rule bit_word_eqI) (auto simp: sha1_mix_def fips_sha1_f_def fips_Ch_def fips_Maj_def bit_simps)

lemma less_32_cases:
  "(n :: nat) < 32 \<Longrightarrow> n \<in> {0,1,2,3,4,5,6,7,8,9,10,11,12,13,14,15,16,17,18,19,20,21,22,23,24,25,26,27,28,29,30,31}"
  by (simp, presburger)

lemma bit_u8_high [simp]: "8 \<le> n \<Longrightarrow> \<not> bit (x :: u8) n"
  using bit_imp_le_length [of x n] by auto

lemma swap_le32:
  "(rol (le32 c) 24 AND 0xFF00FF00) OR (rol (le32 c) 8 AND 0x00FF00FF) = BE_8_TO_32 c"
proof (rule bit_word_eqI)
  fix n
  assume "n < LENGTH(32)"
  then have "n < 32" by simp
  from less_32_cases [OF this]
  show "bit ((rol (le32 c) 24 AND 0xFF00FF00) OR (rol (le32 c) 8 AND 0x00FF00FF)) n = bit (BE_8_TO_32 c) n"
    by (elim insertE emptyE; simp add: rol_def le32_def BE_8_TO_32_def bit_simps)
qed

lemma sha1_W_early: "t < 16 \<Longrightarrow> fips_sha1_W m t = BE_8_TO_32 (take 4 (drop (4 * t) m))"
  by (simp add: fips_sha1_W.simps)

lemma sha1_W_late:
  "16 \<le> t \<Longrightarrow> fips_sha1_W m t =
     rol (fips_sha1_W m (t - 3) XOR fips_sha1_W m (t - 8) XOR fips_sha1_W m (t - 14) XOR fips_sha1_W m (t - 16)) 1"
  by (simp add: fips_sha1_W.simps [of m t])

text \<open>
  Before round \<open>i\<close> the workspace holds the last sixteen words of the message schedule, and the words
  of the block in memory order where the schedule has not come yet.
\<close>

definition blk_inv :: "u8 list \<Rightarrow> nat \<Rightarrow> u32 list \<Rightarrow> bool" where
  "blk_inv m i l \<longleftrightarrow>
     length l = 16 \<and> (\<forall>t < i. i \<le> t + 16 \<longrightarrow> l ! (t mod 16) = fips_sha1_W m t) \<and>
     (\<forall>k < 16. i \<le> k \<longrightarrow> l ! k = le32 (take 4 (drop (4 * k) m)))"

definition sha1_expand :: "nat \<Rightarrow> u32 list \<Rightarrow> u32 list" where
  "sha1_expand i l = (if i < 16 then blk0 i l else blk i l)"

lemma blk_inv_start: "blk_inv m 0 (block_words m)"
  by (simp add: blk_inv_def block_words_def)

lemma blk_inv_nth:
  assumes "blk_inv m (j + 16) l" "k < 16"
  shows "l ! ((j + k) mod 16) = fips_sha1_W m (j + k)"
  using assms by (simp add: blk_inv_def)

lemma blk_late:
  assumes "blk_inv m (j + 16) l"
  shows "blk (j + 16) l ! (j mod 16) = fips_sha1_W m (j + 16)"
proof -
  have m: "(j + 16 + k) mod 16 = (j + k) mod 16" for k :: nat
  proof -
    have "j + 16 + k = (j + k) + 16" by simp
    then show ?thesis by (simp only: mod_add_self2)
  qed
  have len: "j mod 16 < length l" using assms by (simp add: blk_inv_def)
  have W: "l ! ((j + 13) mod 16) = fips_sha1_W m (j + 13)" "l ! ((j + 8) mod 16) = fips_sha1_W m (j + 8)"
    "l ! ((j + 2) mod 16) = fips_sha1_W m (j + 2)" "l ! (j mod 16) = fips_sha1_W m j"
    using blk_inv_nth [OF assms, of 13] blk_inv_nth [OF assms, of 8] blk_inv_nth [OF assms, of 2]
      blk_inv_nth [OF assms, of 0] by simp_all
  have d: "j + 16 - 3 = j + 13" "j + 16 - 8 = j + 8" "j + 16 - 14 = j + 2" "j + 16 - 16 = j" "16 \<le> j + 16"
    by simp_all
  show ?thesis
    unfolding blk_def m mod_add_self2 nth_list_update_eq [OF len] W sha1_W_late [OF d(5)] d ..
qed

lemma sha1_expand_word:
  assumes "blk_inv m i l"
  shows "sha1_expand i l ! (i mod 16) = fips_sha1_W m i"
proof (cases "i < 16")
  case True
  then show ?thesis
    using assms by (simp add: blk_inv_def sha1_expand_def blk0_def swap_le32 sha1_W_early)
next
  case False
  then obtain j where j: "i = j + 16" by (metis add.commute le_Suc_ex not_less)
  then show ?thesis
    using blk_late [of m j l] assms by (simp add: sha1_expand_def)
qed

lemma blk_inv_step:
  assumes "blk_inv m i l"
  shows "blk_inv m (Suc i) (sha1_expand i l)"
proof -
  have len: "length (sha1_expand i l) = 16"
    using assms by (simp add: blk_inv_def sha1_expand_def blk0_def blk_def)
  have other: "sha1_expand i l ! k = l ! k" if "k \<noteq> i mod 16" for k
    using that by (cases "i < 16") (auto simp: sha1_expand_def blk0_def blk_def)
  have "sha1_expand i l ! (t mod 16) = fips_sha1_W m t" if "t < Suc i" "Suc i \<le> t + 16" for t
  proof (cases "t = i")
    case False
    have "t mod 16 \<noteq> i mod 16"
    proof
      assume "t mod 16 = i mod 16"
      then have "16 dvd i - t" using that by (metis less_Suc_eq_le mod_eq_dvd_iff_nat)
      then show False using that False nat_dvd_not_less [of "i - t" 16] by simp
    qed
    then have "sha1_expand i l ! (t mod 16) = l ! (t mod 16)" by (rule other)
    then show ?thesis using that False assms by (simp add: blk_inv_def)
  qed (use sha1_expand_word [OF assms] in simp)
  moreover have "sha1_expand i l ! k = le32 (take 4 (drop (4 * k) m))" if "k < 16" "Suc i \<le> k" for k
    using that other [of k] assms by (auto simp: blk_inv_def)
  ultimately show ?thesis
    using len by (simp add: blk_inv_def)
qed

text \<open>The registers in the order in which round \<open>i\<close> names them.\<close>

definition sha1_regs :: "nat \<Rightarrow> u32 list \<Rightarrow> u32 \<times> u32 \<times> u32 \<times> u32 \<times> u32" where
  "sha1_regs i r = (let (v, w, x, y, z) = sha1_args i in (r ! v, r ! w, r ! x, r ! y, r ! z))"

lemma mod_5_cases:
  "i mod 5 = 0 \<and> Suc i mod 5 = 1 \<or> i mod 5 = 1 \<and> Suc i mod 5 = 2 \<or> i mod 5 = 2 \<and> Suc i mod 5 = 3 \<or>
   i mod 5 = 3 \<and> Suc i mod 5 = 4 \<or> i mod 5 = 4 \<and> Suc i mod 5 = 0"
proof -
  have "i mod 5 < 5" by simp
  then have "i mod 5 = 0 \<or> i mod 5 = 1 \<or> i mod 5 = 2 \<or> i mod 5 = 3 \<or> i mod 5 = 4" by linarith
  then show ?thesis by (elim disjE) (simp_all add: mod_Suc)
qed

lemma length_5:
  assumes "length r = 5"
  obtains a b c d e where "r = [a, b, c, d, e]"
  using assms by (auto simp: numeral_eq_Suc length_Suc_conv)

lemma sha1_round_step:
  assumes "length r = 5" "blk_inv m i l"
  shows "length (fst (sha1_round i (r, l))) = 5"
    "sha1_regs (Suc i) (fst (sha1_round i (r, l))) = fips_sha1_step m i (sha1_regs i r)"
    "blk_inv m (Suc i) (snd (sha1_round i (r, l)))"
proof -
  have W: "sha1_expand i l ! (i mod 16) = fips_sha1_W m i" by (rule sha1_expand_word [OF assms(2)])
  obtain a b c d e where r: "r = [a, b, c, d, e]" using assms(1) by (rule length_5)
  have rnd: "sha1_round i (r, l) =
    (let (v, w, x, y, z) = sha1_args i;
         r1 = r[z := r ! z + (fips_sha1_f i (r ! w) (r ! x) (r ! y) + fips_sha1_W m i + sha1_const i + rol (r ! v) 5)]
     in (r1[w := rol (r1 ! w) 30], sha1_expand i l))"
    by (simp add: sha1_round_def sha1_expand_def [symmetric] W sha1_mix_fips Let_def split: prod.splits)
  show "length (fst (sha1_round i (r, l))) = 5"
    using assms(1) unfolding rnd by (simp add: Let_def split: prod.splits)
  show "blk_inv m (Suc i) (snd (sha1_round i (r, l)))"
    using blk_inv_step [OF assms(2)] unfolding rnd by (simp add: Let_def split: prod.splits)
  show "sha1_regs (Suc i) (fst (sha1_round i (r, l))) = fips_sha1_step m i (sha1_regs i r)"
    unfolding rnd using mod_5_cases [of i]
    by (elim disjE conjE) (simp_all add: r sha1_args_def sha1_regs_def fips_sha1_step_def ac_simps Let_def)
qed

lemma sha1_rounds:
  assumes "length r = 5"
  shows "length (fst (fold sha1_round [0..<n] (r, block_words m))) = 5 \<and>
    sha1_regs n (fst (fold sha1_round [0..<n] (r, block_words m))) = fold (fips_sha1_step m) [0..<n] (sha1_regs 0 r) \<and>
    blk_inv m n (snd (fold sha1_round [0..<n] (r, block_words m)))"
proof (induction n)
  case (Suc n)
  obtain r' l' where eq: "fold sha1_round [0..<n] (r, block_words m) = (r', l')" by fastforce
  then show ?case
    using Suc sha1_round_step [of r' m n l'] by simp
qed (simp add: assms blk_inv_start)

lemma SHA1Transform_fips:
  assumes "length st = 5"
  shows "SHA1Transform st m = fips_sha1_block st m"
proof -
  let ?r = "fst (fold sha1_round [0..<80] (st, block_words m))"
  have len: "length ?r = 5" and regs: "sha1_regs 80 ?r = fold (fips_sha1_step m) [0..<80] (sha1_regs 0 st)"
    using sha1_rounds [OF assms, of 80 m] by blast+
  obtain a b c d e where r: "?r = [a, b, c, d, e]" using len by (rule length_5)
  obtain h0 h1 h2 h3 h4 where st: "st = [h0, h1, h2, h3, h4]" using assms by (rule length_5)
  have "fold (fips_sha1_step m) [0..<80] (h0, h1, h2, h3, h4) = (a, b, c, d, e)"
    using regs r st by (simp add: sha1_regs_def sha1_args_def)
  then show ?thesis
    unfolding SHA1Transform_def r by (simp add: st fips_sha1_block_def)
qed

section \<open>Contexts\<close>

lemma length_SHA1Transform [simp]: "length st = 5 \<Longrightarrow> length (SHA1Transform st m) = 5"
  by (simp add: SHA1Transform_fips fips_sha1_block_def split: prod.splits)

lemma sha1_fold_fips:
  "fold_blocks 64 SHA1Transform sha1_iv xs = fold_blocks 64 fips_sha1_block sha1_iv xs \<and>
   length (fst (fold_blocks 64 SHA1Transform sha1_iv xs)) = 5"
  by (rule fold_blocks_cong) (simp_all add: SHA1Transform_fips [symmetric] sha1_iv_def)

text \<open>The context has absorbed the message \<open>m\<close>.\<close>

definition sha1_ok :: "sha1_ctx \<Rightarrow> u8 list \<Rightarrow> bool" where
  "sha1_ok c m \<longleftrightarrow>
     sc_count c = of_nat (8 * length m) \<and> length (sc_buffer c) = 64 \<and>
     fold_blocks 64 SHA1Transform sha1_iv m = (sc_state c, take (length m mod 64) (sc_buffer c))"

lemma sha1_used_ok:
  assumes "sha1_ok c m"
  shows "sha1_used c = length m mod 64"
proof -
  have "sc_count c = of_nat (8 * length m)" using assms by (simp only: sha1_ok_def)
  then show ?thesis
    unfolding sha1_used_def unat_and_63 using unat_bytes_mod [of 64 "length m"] by (simp only:) simp
qed

lemma sha1_blocks_fold:
  "i \<le> length data \<Longrightarrow>
   fold_blocks 64 SHA1Transform st (drop i data) =
     (fst (sha1_blocks st data i), drop (snd (sha1_blocks st data i)) data) \<and>
   snd (sha1_blocks st data i) \<le> length data \<and> length data - snd (sha1_blocks st data i) < 64"
proof (induction st data i rule: sha1_blocks.induct)
  case (1 st data i)
  show ?case
  proof (cases "i + 63 < length data")
    case True
    then have "64 \<le> length (drop i data)" by simp
    then have "fold_blocks 64 SHA1Transform st (drop i data) =
      fold_blocks 64 SHA1Transform (SHA1Transform st (take 64 (drop i data))) (drop (i + 64) data)"
      by (simp add: fold_blocks.simps [of 64 _ st "drop i data"] add.commute)
    moreover have "sha1_blocks st data i = sha1_blocks (SHA1Transform st (take 64 (drop i data))) data (i + 64)"
      using True by (subst sha1_blocks.simps) simp
    ultimately show ?thesis
      using 1 True by simp
  next
    case False
    then have "sha1_blocks st data i = (st, i)" by (subst sha1_blocks.simps) simp
    then show ?thesis using False 1(2) by simp
  qed
qed

lemma sha1_count:
  assumes "sc_count c = of_nat (8 * length m)"
  shows "sc_count c + push_bit 3 (of_nat (length d)) = (of_nat (8 * length (m @ d)) :: u64)"
  using assms bits_add by simp

lemma sha1_ok_update:
  assumes ok: "sha1_ok c m"
  shows "sha1_ok (SHA1Update c d) (m @ d)"
proof -
  define j where "j = length m mod 64"
  have j: "j < 64" by (simp add: j_def)
  have used: "sha1_used c = j" unfolding j_def by (rule sha1_used_ok [OF ok])
  have buf: "length (sc_buffer c) = 64" and cnt: "sc_count c = of_nat (8 * length m)"
    and fold: "fold_blocks 64 SHA1Transform sha1_iv m = (sc_state c, take j (sc_buffer c))"
    using ok unfolding sha1_ok_def j_def by blast+
  show ?thesis
  proof (cases "j + length d > 63")
    case True
    define b where "b = buf_put (sc_buffer c) j (take (64 - j) d)"
    obtain s' i' where si: "sha1_blocks (SHA1Transform (sc_state c) b) d (64 - j) = (s', i')" by fastforce
    have b: "length b = 64" and
      f: "fold_blocks 64 SHA1Transform sha1_iv (m @ d) = fold_blocks 64 SHA1Transform (SHA1Transform (sc_state c) b) (drop (64 - j) d)"
      using absorb_full [OF fold buf j, of d] True unfolding b_def by simp_all
    have res: "fold_blocks 64 SHA1Transform sha1_iv (m @ d) = (s', drop i' d)"
      using sha1_blocks_fold [of "64 - j" d "SHA1Transform (sc_state c) b"] si True f by simp
    have rest: "length (drop i' d) = length (m @ d) mod 64" "length (drop i' d) < 64"
      using fold_blocks_rest [of 64, OF _ res] by simp_all
    have upd: "SHA1Update c d = c\<lparr>sc_count := of_nat (8 * length (m @ d)), sc_state := s', sc_buffer := buf_put b 0 (drop i' d)\<rparr>"
      using True used si sha1_count [OF cnt, of d] unfolding b_def by (simp only: SHA1Update_def Let_def if_True prod.case)
    have "length (buf_put b 0 (drop i' d)) = 64" "take (length (drop i' d)) (buf_put b 0 (drop i' d)) = drop i' d"
      using b rest(2) by (simp_all add: buf_put_def)
    then show ?thesis
      using res unfolding sha1_ok_def upd rest(1) [symmetric] by simp
  next
    case False
    then have part: "fold_blocks 64 SHA1Transform sha1_iv (m @ d) = (sc_state c, take (j + length d) (buf_put (sc_buffer c) j d))"
      by (intro absorb_part [OF fold buf]) simp
    have upd: "SHA1Update c d = c\<lparr>sc_count := of_nat (8 * length (m @ d)), sc_buffer := buf_put (sc_buffer c) j d\<rparr>"
      using False used sha1_count [OF cnt, of d] by (simp only: SHA1Update_def Let_def if_False)
    have "length (buf_put (sc_buffer c) j d) = 64" using False buf by simp
    moreover have "j + length d = length (m @ d) mod 64"
      using fold_blocks_rest(1) [of 64, OF _ part] False buf by simp
    ultimately show ?thesis
      using part unfolding sha1_ok_def upd by simp
  qed
qed

section \<open>Padding and the digest\<close>

lemma sha1_pad_test:
  assumes "sha1_ok c m"
  shows "sc_count c AND 504 = 448 \<longleftrightarrow> length m mod 64 = 56"
proof -
  define w where "w = sc_count c"
  have m: "(504 :: u64) = push_bit 3 (mask 6)" by (simp add: mask_eq_exp_minus_1 push_bit_eq_mult)
  have "w AND 504 = push_bit 3 (take_bit 6 (drop_bit 3 w))"
    unfolding m by (rule bit_word_eqI) (auto simp: bit_simps)
  moreover have "unat (take_bit 6 (drop_bit 3 w)) = length m mod 64"
    using sha1_used_ok [OF assms] unat_and_63 [of "drop_bit 3 w"]
    unfolding sha1_used_def w_def by (simp add: unsigned_take_bit_eq take_bit_eq_mod [where 'a = nat])
  then have "take_bit 6 (drop_bit 3 w) = of_nat (length m mod 64)" by (metis of_nat_unat ucast_id)
  ultimately have "w AND 504 = of_nat (8 * (length m mod 64))"
    by (simp add: push_bit_eq_mult)
  moreover have "(of_nat (8 * (length m mod 64)) :: u64) = 448 \<longleftrightarrow> 8 * (length m mod 64) = 448"
  proof
    define a where "a = 8 * (length m mod 64)"
    have "a < 2 ^ 64" using mod_less_divisor [of 64 "length m"] unfolding a_def by simp
    moreover assume "(of_nat (8 * (length m mod 64)) :: u64) = 448"
    then have "unat (of_nat a :: u64) = unat (448 :: u64)" by (simp only: a_def)
    ultimately show "8 * (length m mod 64) = 448" unfolding a_def [symmetric] by (simp add: unat_of_nat)
  qed simp
  ultimately show ?thesis unfolding w_def by auto
qed

lemma sha1_pad_loop:
  assumes "sha1_ok c m" "k < 64" "(length m + k) mod 64 = 56"
  shows "\<exists>c'. while_option (\<lambda>c. sc_count c AND 504 \<noteq> 448) (\<lambda>c. SHA1Update c [0]) c = Some c' \<and>
    sha1_ok c' (m @ replicate k 0)"
  using assms
proof (induction k arbitrary: c m)
  case 0
  then show ?case
    using sha1_pad_test [OF 0(1)] by (subst while_option_unfold) simp
next
  case (Suc k)
  have "length m mod 64 \<noteq> 56"
  proof
    assume "length m mod 64 = 56"
    then have "(56 + Suc k) mod 64 = 56" using Suc.prems(3) mod_add_left_eq [of "length m" 64 "Suc k"] by simp
    then show False using Suc.prems(2) by (cases "Suc k < 8") (simp_all add: mod_if split: if_splits)
  qed
  then have go: "sc_count c AND 504 \<noteq> 448" using sha1_pad_test [OF Suc.prems(1)] by simp
  have "sha1_ok (SHA1Update c [0]) (m @ [0])" by (rule sha1_ok_update [OF Suc.prems(1)])
  moreover have "(length (m @ [0]) + k) mod 64 = 56" "k < 64" using Suc.prems(2,3) by simp_all
  ultimately obtain c' where c': "while_option (\<lambda>c. sc_count c AND 504 \<noteq> 448) (\<lambda>c. SHA1Update c [0]) (SHA1Update c [0]) = Some c'"
      "sha1_ok c' ((m @ [0]) @ replicate k 0)"
    using Suc.IH by blast
  have "while_option (\<lambda>c. sc_count c AND 504 \<noteq> 448) (\<lambda>c. SHA1Update c [0]) c = Some c'"
    using go c'(1) by (subst while_option_unfold) simp
  then show ?case using c'(2) by simp
qed

lemma pad_zeros_sum: "(n + 1 + pad_zeros 64 8 n) mod 64 = 56"
proof -
  define r where "r = n mod 64"
  define q where "q = n div 64"
  have n: "n = 64 * q + r" and r: "r < 64" by (simp_all add: r_def q_def)
  show ?thesis
  proof (cases "r + 1 + 8 \<le> 64")
    case True
    then have "n + 1 + pad_zeros 64 8 n = 56 + 64 * q"
      using pad_zeros_small [of n 64 8] n unfolding r_def [symmetric] by simp
    then show ?thesis by simp
  next
    case False
    then have "n + 1 + pad_zeros 64 8 n = 56 + 64 * (q + 1)"
      using pad_zeros_large [of 8 64 n] n r unfolding r_def [symmetric] by simp
    then show ?thesis by (simp only: mod_mult_self2) simp
  qed
qed

lemma sha1_pad_ok:
  assumes ok: "sha1_ok c m"
  shows "\<exists>c'. SHA1Pad c = Some c' \<and> sha1_ok c' (m @ sha_padding 64 8 (be_bytes 8 (of_nat (8 * length m) :: u64)) (length m))"
proof -
  define k where "k = pad_zeros 64 8 (length m)"
  have k: "k < 64" by (simp add: k_def pad_zeros_def)
  have "(length (m @ [0x80]) + k) mod 64 = 56" using pad_zeros_sum [of "length m"] by (simp add: k_def)
  with sha1_pad_loop [OF sha1_ok_update [OF ok, of "[0x80]"] k] obtain c' where
    loop: "while_option (\<lambda>c. sc_count c AND 504 \<noteq> 448) (\<lambda>c. SHA1Update c [0]) (SHA1Update c [0x80]) = Some c'" and
    ok': "sha1_ok c' ((m @ [0x80]) @ replicate k 0)" by blast
  have cnt: "sc_count c = of_nat (8 * length m)" using ok by (simp only: sha1_ok_def)
  have "SHA1Pad c = Some (SHA1Update c' (be_bytes 8 (of_nat (8 * length m) :: u64)))"
    unfolding SHA1Pad_def Let_def loop cnt by simp
  moreover have "sha1_ok (SHA1Update c' (be_bytes 8 (of_nat (8 * length m) :: u64)))
      (((m @ [0x80]) @ replicate k 0) @ be_bytes 8 (of_nat (8 * length m) :: u64))"
    by (rule sha1_ok_update [OF ok'])
  ultimately show ?thesis unfolding sha_padding_def k_def [symmetric] by simp
qed

lemma sha1_digest_bytes:
  assumes "length st = 5"
  shows "map (\<lambda>i. ucast (drop_bit ((3 - i mod 4) * 8) ((st :: u32 list) ! (i div 4)) AND 255)) [0..<20] =
    concat (map (be_bytes 4) st)"
proof -
  have byte: "(ucast (w AND 255) :: u8) = ucast w" for w :: u32
  proof -
    have "w AND 255 = take_bit 8 w" by (simp add: take_bit_eq_mask mask_eq_exp_minus_1)
    then show ?thesis by (simp only:) (rule bit_word_eqI, auto simp: bit_simps)
  qed
  obtain a b c d e where "st = [a, b, c, d, e]"
    using assms by (auto simp: numeral_eq_Suc length_Suc_conv)
  then show ?thesis by (simp add: byte be_bytes_def upt_rec mult.commute)
qed

lemma sha1_final_ok:
  assumes "sha1_ok c m"
  shows "map_option fst (SHA1Final c) = Some (fips_sha1 m)"
proof -
  define p where "p = m @ sha_padding 64 8 (be_bytes 8 (of_nat (8 * length m) :: u64)) (length m)"
  from sha1_pad_ok [OF assms] obtain c' where c': "SHA1Pad c = Some c'" "sha1_ok c' p"
    unfolding p_def by blast
  then have "sc_state c' = fst (fold_blocks 64 SHA1Transform sha1_iv p)" by (simp add: sha1_ok_def)
  then have st: "sc_state c' = fst (fold_blocks 64 fips_sha1_block sha1_iv p)" "length (sc_state c') = 5"
    using conjunct1 [OF sha1_fold_fips [of p]] conjunct2 [OF sha1_fold_fips [of p]] by metis+
  have "fips_sha1 m = concat (map (be_bytes 4) (sc_state c'))"
    unfolding fips_sha1_def p_def [symmetric] st(1) ..
  then show ?thesis
    using c'(1) sha1_digest_bytes [OF st(2)] by (simp add: SHA1Final_def)
qed

interpretation sha1: stream_hash sha1_ok "\<lambda>d. True" "\<lambda>c. \<exists>buf. length buf = 64 \<and> c = SHA1Init buf" SHA1Update
  "\<lambda>c. map_option fst (SHA1Final c)" fips_sha1
proof unfold_locales
  fix c assume "\<exists>buf. length buf = 64 \<and> c = SHA1Init buf"
  then show "sha1_ok c []" by (auto simp: sha1_ok_def SHA1Init_def)
qed (rule sha1_ok_update sha1_final_ok; assumption)+

text \<open>
  C4. For every division of a message into pieces, a new context that is updated with the pieces in
  order and finished gives the digest that FIPS 180-4 defines for the whole message, whatever the
  buffer of the context held before; in particular the padding loop ends.
\<close>

theorem sha1_correct:
  assumes "length buf = 64"
  shows "map_option fst (SHA1Final (fold (\<lambda>d c. SHA1Update c d) pieces (SHA1Init buf))) =
     Some (fips_sha1 (concat pieces))"
  using assms by (intro sha1.hash_pieces) (blast, simp add: list_all_iff)

theorem sha1_correct_witness:
  "map_option fst (SHA1Final (fold (\<lambda>d c. SHA1Update c d) [[0x61], [0x62, 0x63]] (SHA1Init (replicate 64 7)))) =
     Some (fips_sha1 [0x61, 0x62, 0x63])"
  using sha1_correct [of "replicate 64 7" "[[0x61], [0x62, 0x63]]"] by simp

end
