(* ===== verification/Websocket.thy ===== *)
theory Websocket
  imports Net Base64 Sha1
begin

text \<open>
  The WebSocket protocol of \<open>src/src/websocket.c\<close> on top of \<open>Net\<close>.  The masks, opcodes and lengths that
  the code takes from a header are those of RFC 6455.  The handlers of an application are not part
  of the sources: their calls are logged with their arguments.
\<close>

unbundle bit_operations_syntax

abbreviation (input) WEBSOCKET_OP_CONT :: nat where "WEBSOCKET_OP_CONT \<equiv> 0"
abbreviation (input) WEBSOCKET_OP_TEXT :: nat where "WEBSOCKET_OP_TEXT \<equiv> 1"
abbreviation (input) WEBSOCKET_OP_BINARY :: nat where "WEBSOCKET_OP_BINARY \<equiv> 2"
abbreviation (input) WEBSOCKET_OP_CLOSE :: nat where "WEBSOCKET_OP_CLOSE \<equiv> 8"
abbreviation (input) WEBSOCKET_OP_PING :: nat where "WEBSOCKET_OP_PING \<equiv> 9"
abbreviation (input) WEBSOCKET_OP_PONG :: nat where "WEBSOCKET_OP_PONG \<equiv> 10"

datatype ws_cb = WsOpcode | WsFrame | WsSendClean | WsOtherCb

datatype ws_call = WsConnect string | WsMessage nat "byte list" | WsDisconnect

record ws_conn = "ws_cb conn" +
  ws_proto :: bool
  ws_close_sent :: bool
  ws_connect :: "string option"
  ws_message :: "string option"
  ws_disconnect :: "string option"
  ws_calls :: "ws_call list"
  http_timeout :: nat
  idle_start :: nat
  idle_length :: nat

text \<open>The payload sizes that the network layer takes from a header, and the largest frame.\<close>

record ws_env =
  we_smax :: nat
  we_pmax :: nat
  we_maxframe :: nat

section \<open>Sending\<close>

definition websocket_frame_build :: "kore_buf \<Rightarrow> nat \<Rightarrow> byte list option \<Rightarrow> nat \<Rightarrow> kore_buf result" where
  "websocket_frame_build frame op data len =
     (let len_1 = (if len > 125 then (if len \<le> 65535 then 126 else 127) else len) in
      bindR (kore_buf_append frame [char_of ((op OR 128) mod 256)]) (\<lambda>frame.
      bindR (kore_buf_append frame [char_of (take_bit 7 len_1)]) (\<lambda>frame.
      bindR (if len_1 > 125
             then (if len_1 = 126 then kore_buf_append frame (net_write16 len) else kore_buf_append frame (net_write64 len))
             else Inr frame) (\<lambda>frame.
      case data of
        None \<Rightarrow> Inr frame
      | Some d \<Rightarrow> if len > 0 then kore_buf_append frame d else Inr frame))))"

text \<open>
  \<open>kore_websocket_send\<close>, with the function that runs when the connection is disconnected.  The result
  of the flush is not used.
\<close>

definition websocket_send_with ::
  "ws_env \<Rightarrow> (ws_conn \<Rightarrow> ws_conn result option) \<Rightarrow> nat \<Rightarrow> byte list option \<Rightarrow> nat \<Rightarrow> ws_conn \<Rightarrow> ws_conn result option" where
  "websocket_send_with env hook op data len c =
     (case websocket_frame_build (kore_buf_init len) op data len of
        Inl e \<Rightarrow> Some (Inl e)
      | Inr frame \<Rightarrow>
          map_option (\<lambda>r. bindR r (\<lambda>(rc, c'). Inr c'))
            (net_send_flush (\<lambda>_. []) (we_smax env) (we_pmax env) hook
               (net_send_stream (buf_data frame) (buf_offset frame) (Some WsSendClean) c)))"

text \<open>It runs only after the connection was marked, so that sending does not disconnect it again.\<close>

definition websocket_disconnect :: "ws_env \<Rightarrow> ws_conn \<Rightarrow> ws_conn result option" where
  "websocket_disconnect env c =
     (let c1 = (if ws_disconnect c \<noteq> None then c\<lparr>ws_calls := ws_calls c @ [WsDisconnect]\<rparr> else c) in
      if \<not> ws_close_sent c1
      then websocket_send_with env (\<lambda>c. Some (Inr c)) WEBSOCKET_OP_CLOSE None 0 (c1\<lparr>ws_close_sent := True, evt_read := False\<rparr>)
      else Some (Inr c1))"

definition kore_websocket_send :: "ws_env \<Rightarrow> nat \<Rightarrow> byte list option \<Rightarrow> nat \<Rightarrow> ws_conn \<Rightarrow> ws_conn result option" where
  "kore_websocket_send env = websocket_send_with env (websocket_disconnect env)"

text \<open>
  The frame goes to every other connection that speaks the protocol; the second result is the
  message for the other workers, if it is to be sent.
\<close>

fun broadcast_loop :: "ws_env \<Rightarrow> nat option \<Rightarrow> byte list \<Rightarrow> (nat \<times> ws_conn) list \<Rightarrow> (nat \<times> ws_conn) list result option" where
  "broadcast_loop env src frame [] = Some (Inr [])"
| "broadcast_loop env src frame ((i, c) # cs) =
     (case (if src \<noteq> Some i \<and> ws_proto c
            then (case net_send_queue (we_pmax env) frame c of
                    Inl e \<Rightarrow> Some (Inl e)
                  | Inr c1 \<Rightarrow>
                      map_option (\<lambda>r. bindR r (\<lambda>(rc, c'). Inr c'))
                        (net_send_flush (\<lambda>_. []) (we_smax env) (we_pmax env) (websocket_disconnect env) c1))
            else Some (Inr c)) of
        None \<Rightarrow> None
      | Some (Inl e) \<Rightarrow> Some (Inl e)
      | Some (Inr c') \<Rightarrow>
          map_option (\<lambda>r. bindR r (\<lambda>cs'. Inr ((i, c') # cs'))) (broadcast_loop env src frame cs))"

definition kore_websocket_broadcast ::
  "ws_env \<Rightarrow> nat option \<Rightarrow> nat \<Rightarrow> byte list option \<Rightarrow> nat \<Rightarrow> bool \<Rightarrow> (nat \<times> ws_conn) list \<Rightarrow>
   ((nat \<times> ws_conn) list \<times> byte list option) result option" where
  "kore_websocket_broadcast env src op data len global cs =
     (case websocket_frame_build (kore_buf_alloc len) op data len of
        Inl e \<Rightarrow> Some (Inl e)
      | Inr frame \<Rightarrow>
          map_option (\<lambda>r. bindR r (\<lambda>cs'. Inr (cs', if global then Some (buf_bytes frame) else None)))
            (broadcast_loop env src (buf_bytes frame) cs))"

section \<open>Receiving\<close>

definition recv_bytes :: "ws_conn \<Rightarrow> nat \<Rightarrow> nat \<Rightarrow> byte list result" where
  "recv_bytes c off n =
     (case rnb c of
        None \<Rightarrow> Inl NullDeref
      | Some nb \<Rightarrow> (case nb_buf nb of None \<Rightarrow> Inl NullDeref | Some mem \<Rightarrow> mem_read mem off n))"

definition websocket_recv_opcode :: "ws_conn \<Rightarrow> (int \<times> ws_conn) result" where
  "websocket_recv_opcode c =
     bindR (recv_bytes c 0 2) (\<lambda>h.
       let b0 = of_char (h ! 0) :: nat; b1 = of_char (h ! 1) :: nat;
           len = take_bit 7 b1; op = take_bit 4 b0
       in if \<not> bit b1 7 then Inr (0, c)
          else if bit b0 6 \<or> bit b0 5 \<or> bit b0 4 then Inr (0, c)
          else if op \<in> {WEBSOCKET_OP_CONT, WEBSOCKET_OP_TEXT, WEBSOCKET_OP_BINARY} \<or>
                  op \<in> {WEBSOCKET_OP_CLOSE, WEBSOCKET_OP_PING, WEBSOCKET_OP_PONG} \<and> \<not> (len > 125 \<or> \<not> bit b0 7)
          then (let len' = (if len = 126 then len + 2 else if len = 127 then len + 8 else len) + 4
                in bindR (net_recv_expand len' WsFrame c) (\<lambda>c'. Inr (1, c')))
          else Inr (0, c))"

definition ws_xor :: "byte \<Rightarrow> byte \<Rightarrow> byte" where
  "ws_xor a b = char_of ((of_char a :: nat) XOR of_char b)"

definition ws_unmask :: "byte list \<Rightarrow> byte list \<Rightarrow> byte list" where
  "ws_unmask key d = map (\<lambda>i. ws_xor (d ! i) (key ! (i mod 4))) [0..<length d]"

text \<open>
  The loop that removes the mask works in place; the key lies in front of the data, so that it does
  not change meanwhile.
\<close>

definition recv_unmask :: "ws_conn \<Rightarrow> nat \<Rightarrow> nat \<Rightarrow> (byte list \<times> ws_conn) result" where
  "recv_unmask c moff len =
     bindR (recv_bytes c moff 4) (\<lambda>key.
     bindR (recv_bytes c (moff + 4) len) (\<lambda>d.
       case rnb c of
         None \<Rightarrow> Inl NullDeref
       | Some nb \<Rightarrow>
           (case nb_buf nb of
              None \<Rightarrow> Inl NullDeref
            | Some mem \<Rightarrow>
                bindR (mem_write mem (moff + 4) (ws_unmask key d)) (\<lambda>mem'.
                  Inr (ws_unmask key d, c\<lparr>rnb := Some (nb\<lparr>nb_buf := Some mem'\<rparr>)\<rparr>)))))"

text \<open>What is done with a complete frame; \<open>Some None\<close> is the return of an error without a new header.\<close>

definition websocket_dispatch ::
  "ws_env \<Rightarrow> nat \<Rightarrow> byte list \<Rightarrow> ws_conn \<Rightarrow> (int option \<times> ws_conn) result option" where
  "websocket_dispatch env op d c =
     (if op = WEBSOCKET_OP_PONG then Some (Inr (Some 1, c))
      else if op = WEBSOCKET_OP_CONT then Some (Inr (Some 0, c))
      else if op = WEBSOCKET_OP_TEXT \<or> op = WEBSOCKET_OP_BINARY
      then Some (Inr (Some 1, if ws_message c \<noteq> None then c\<lparr>ws_calls := ws_calls c @ [WsMessage op d]\<rparr> else c))
      else if op = WEBSOCKET_OP_CLOSE
      then (let c1 = c\<lparr>evt_read := False\<rparr> in
            case (if \<not> ws_close_sent c1
                  then kore_websocket_send env WEBSOCKET_OP_CLOSE None 0 (c1\<lparr>ws_close_sent := True\<rparr>)
                  else Some (Inr c1)) of
              None \<Rightarrow> None
            | Some (Inl e) \<Rightarrow> Some (Inl e)
            | Some (Inr c2) \<Rightarrow>
                map_option (\<lambda>r. bindR r (\<lambda>c3. Inr (Some 1, c3))) (kore_connection_disconnect (websocket_disconnect env) c2))
      else if op = WEBSOCKET_OP_PING
      then map_option (\<lambda>r. bindR r (\<lambda>c'. Inr (Some 1, c'))) (kore_websocket_send env WEBSOCKET_OP_PONG (Some d) (length d) c)
      else Some (Inr (None, c)))"

definition websocket_recv_frame :: "ws_env \<Rightarrow> ws_conn \<Rightarrow> (int \<times> ws_conn) result option" where
  "websocket_recv_frame env c =
     (case bindR (recv_bytes c 0 2) (\<lambda>h.
             let op = take_bit 4 (of_char (h ! 0)) :: nat; len7 = take_bit 7 (of_char (h ! 1)) :: nat
             in if len7 = 126 then bindR (recv_bytes c 2 2) (\<lambda>b. Inr (op, 4, 2, net_read16 b))
                else if len7 = 127 then bindR (recv_bytes c 2 8) (\<lambda>b. Inr (op, 10, 8, net_read64 b))
                else Inr (op, 2, 0, len7)) of
        Inl e \<Rightarrow> Some (Inl e)
      | Inr (op, moff, extra, len) \<Rightarrow>
          if len > we_maxframe env then Some (Inr (0, c))
          else (let total = size_mod (len + (extra + 2) + 4); b_len = nb_b_len (the (rnb c)) in
                if total > b_len then Some (bindR (net_recv_expand (total - b_len) WsFrame c) (\<lambda>c'. Inr (1, c')))
                else if total \<noteq> b_len then Some (Inr (0, c))
                else (case recv_unmask c moff len of
                        Inl e \<Rightarrow> Some (Inl e)
                      | Inr (d, c1) \<Rightarrow>
                          (case websocket_dispatch env op d c1 of
                             None \<Rightarrow> None
                           | Some (Inl e) \<Rightarrow> Some (Inl e)
                           | Some (Inr (None, c2)) \<Rightarrow> Some (Inr (0, c2))
                           | Some (Inr (Some ret, c2)) \<Rightarrow>
                               Some (bindR (net_recv_reset (we_pmax env) 2 WsOpcode c2) (\<lambda>c3. Inr (ret, c3)))))))"

fun ws_run :: "ws_env \<Rightarrow> ws_cb \<Rightarrow> ws_conn \<Rightarrow> (int \<times> ws_conn) result option" where
  "ws_run env WsOpcode c = Some (websocket_recv_opcode c)"
| "ws_run env WsFrame c = websocket_recv_frame env c"
| "ws_run env _ c = Some (Inr (0, c))"

section \<open>The handshake\<close>

text \<open>
  \<open>key\<close> and \<open>version\<close> are the headers of the request, \<open>getcall\<close> tells which handlers exist, \<open>stack\<close> is
  what the memory of the hash context held before.  The result is the status and the headers of the
  response, and the connection.
\<close>

definition WEBSOCKET_SERVER_RESPONSE :: string where
  "WEBSOCKET_SERVER_RESPONSE = ''258EAFA5-E914-47DA-95CA-C5AB0DC85B11''"

definition websocket_accept :: "u8 list \<Rightarrow> string \<Rightarrow> string option result" where
  "websocket_accept stack key =
     bindR (kore_buf_append (kore_buf_alloc 128) (key @ WEBSOCKET_SERVER_RESPONSE)) (\<lambda>buf.
       case SHA1Final (SHA1Update (SHA1Init stack) (map of_char (buf_bytes buf))) of
         None \<Rightarrow> Inl Indeterminate
       | Some (digest, _) \<Rightarrow> kore_base64_encode (map (\<lambda>w. char_of (unat w)) digest))"

definition ws_handler :: "(string \<Rightarrow> bool) \<Rightarrow> string \<Rightarrow> string option \<Rightarrow> string option result" where
  "ws_handler getcall what name =
     (case name of
        None \<Rightarrow> Inr None
      | Some n \<Rightarrow> if getcall n then Inr (Some n) else Inl (Fatal what))"

definition kore_websocket_handshake ::
  "ws_env \<Rightarrow> (string \<Rightarrow> bool) \<Rightarrow> u8 list \<Rightarrow> nat \<Rightarrow> nat \<Rightarrow> string option \<Rightarrow> string option \<Rightarrow>
   string option \<Rightarrow> string option \<Rightarrow> string option \<Rightarrow> ws_conn \<Rightarrow> (nat \<times> (string \<times> string) list \<times> ws_conn) result" where
  "kore_websocket_handshake env getcall stack now timeout key version onconnect onmessage ondisconnect c =
     (case (key, version) of
        (None, _) \<Rightarrow> Inr (400, [], c)
      | (Some k, None) \<Rightarrow> Inr (400, [(''sec-websocket-version'', ''13'')], c)
      | (Some k, Some v) \<Rightarrow>
          if v \<noteq> ''13'' then Inr (400, [(''sec-websocket-version'', ''13'')], c)
          else bindR (websocket_accept stack k) (\<lambda>b64.
            case b64 of
              None \<Rightarrow> Inr (500, [], c)
            | Some accept \<Rightarrow>
                bindR (net_recv_reset (we_pmax env) 2 WsOpcode (c\<lparr>ws_proto := True\<rparr>)) (\<lambda>c1.
                bindR (ws_handler getcall ''no symbol for ws_connect'' onconnect) (\<lambda>fc.
                bindR (ws_handler getcall ''no symbol for ws_message'' onmessage) (\<lambda>fm.
                bindR (ws_handler getcall ''no symbol for ws_disconnect'' ondisconnect) (\<lambda>fd.
                  Inr (101, [(''upgrade'', ''websocket''), (''connection'', ''upgrade''), (''sec-websocket-accept'', accept)],
                    c1\<lparr>rnb := map_option (\<lambda>nb. nb\<lparr>nb_call_always := False\<rparr>) (rnb c1), http_timeout := 0, idle_start := now,
                       idle_length := timeout, ws_connect := fc, ws_message := fm, ws_disconnect := fd,
                       ws_calls := ws_calls c1 @ (case fc of None \<Rightarrow> [] | Some f \<Rightarrow> [WsConnect f])\<rparr>)))))))"

section \<open>Frames of the server\<close>

definition ws_len_bytes :: "nat \<Rightarrow> byte list" where
  "ws_len_bytes n =
     (if n \<le> 125 then [char_of n] else if n \<le> 65535 then char_of (126 :: nat) # net_write16 n
      else char_of (127 :: nat) # net_write64 n)"

definition ws_frame :: "nat \<Rightarrow> byte list \<Rightarrow> byte list" where
  "ws_frame op d = char_of ((op OR 128) mod 256) # ws_len_bytes (length d) @ d"

lemma length_ws_frame: "length (ws_frame op d) \<le> length d + 10" "ws_frame op d \<noteq> []"
  by (auto simp: ws_frame_def ws_len_bytes_def net_write16_def net_write64_def)

lemma frame_build_writes:
  assumes "len = length d" "data = Some d \<or> data = None \<and> d = []"
  shows "kb.writes (\<lambda>frame. websocket_frame_build frame op data len) (ws_frame op d)"
proof -
  define n where "n = length d"
  define len_1 where "len_1 = (if n > 125 then (if n \<le> 65535 then 126 else 127) else n)"
  define ext where "ext = (if len_1 > 125 then (if len_1 = 126 then net_write16 n else net_write64 n) else [])"
  have w1: "kb.writes (\<lambda>f. if len_1 > 125 then (if len_1 = 126 then kore_buf_append f (net_write16 n) else kore_buf_append f (net_write64 n))
      else Inr f) ext"
    unfolding ext_def by (auto intro: kb.writes_append kb.writes_nothing)
  have w2: "kb.writes (\<lambda>f. case data of None \<Rightarrow> Inr f | Some d \<Rightarrow> if n > 0 then kore_buf_append f d else Inr f) d"
    using assms(2) by (cases "d = []") (auto simp: n_def intro: kb.writes_append kb.writes_nothing)
  have t: "take_bit 7 len_1 = len_1" by (auto simp: len_1_def take_bit_eq_mod)
  have eq: "ws_frame op d = [char_of ((op OR 128) mod 256)] @ [char_of (take_bit 7 len_1)] @ ext @ d"
    unfolding t by (auto simp: ws_frame_def ws_len_bytes_def ext_def len_1_def n_def)
  show ?thesis
    unfolding eq websocket_frame_build_def assms(1) n_def [symmetric] Let_def len_1_def [symmetric]
    by (intro kb.writes_bind kb.writes_append w1 w2)
qed

text \<open>What sending leaves unchanged.\<close>

definition ws_kept :: "ws_conn \<Rightarrow> ws_conn \<Rightarrow> bool" where
  "ws_kept c c' \<longleftrightarrow> rnb c' = rnb c \<and> evt_read c' = evt_read c \<and> close_empty c' = close_empty c \<and>
     disconnecting c' = disconnecting c \<and> conn.more c' = conn.more c"

lemma websocket_send_with_ok:
  assumes "queue_ok c" "\<not> close_empty c" "length d < 2 ^ 62" "data = Some d \<or> data = None \<and> d = []"
  shows "\<exists>c'. websocket_send_with env hook op data (length d) c = Some (Inr c') \<and>
    queue_ok c' \<and> out_stream c' = out_stream c @ ws_frame op d \<and> ws_kept c c'"
proof -
  have "buf_room (kore_buf_init (length d)) (length (ws_frame op d) + 0)"
    using assms(3) length_ws_frame(1) [of op d] by (simp add: buf_room_def)
  with frame_build_writes [OF refl assms(4), of op] obtain frame where
    f: "websocket_frame_build (kore_buf_init (length d)) op data (length d) = Inr frame"
      "buf_bytes frame = ws_frame op d" "buf_wf frame"
    unfolding kb.writes_def by (fastforce simp: buf_room_def)
  from f(2) length_ws_frame(2) [of op d] obtain m where m: "buf_data frame = Some m"
    by (cases "buf_data frame") (auto simp: buf_bytes_def)
  have blk: "take (buf_offset frame) m = block_of (ws_frame op d)" "buf_offset frame \<le> length m"
    using buf_block [OF f(3)] f(2,3) m by (auto simp: buf_wf_def)
  define c1 where "c1 = net_send_stream (Some m) (buf_offset frame) (Some WsSendClean) c"
  have c1: "queue_ok c1" "out_stream c1 = out_stream c @ ws_frame op d"
    using net_send_stream_ok [OF assms(1) blk(2,1)] unfolding c1_def by blast+
  have k: "rnb c1 = rnb c" "evt_read c1 = evt_read c" "close_empty c1 = close_empty c" "disconnecting c1 = disconnecting c"
      "conn.more c1 = conn.more c"
    by (simp_all add: c1_def net_send_stream_def)
  from net_send_loop_ok [OF c1(1), where fdata = "\<lambda>_. []" and smax = "we_smax env" and pmax = "we_pmax env"] obtain rc c2 where
    loop: "net_send_loop (\<lambda>_. []) (we_smax env) (we_pmax env) c1 = Some (Inr (rc, c2))" "send_step_ok c1 c2" "conn.more c2 = conn.more c1"
    by blast
  have "\<not> close_empty c2" using loop(2) k(3) assms(2) by (simp add: send_step_ok_def)
  then have "websocket_send_with env hook op data (length d) c = Some (Inr c2)"
    using f(1) m loop(1) unfolding websocket_send_with_def net_send_flush_def by (simp add: c1_def)
  then show ?thesis
    using loop(2,3) c1 k by (auto simp: send_step_ok_def ws_kept_def)
qed

section \<open>The buffer while a frame arrives\<close>

text \<open>The bytes \<open>bs\<close> of a frame have arrived, \<open>n\<close> are asked for, then \<open>cb\<close> is called.\<close>

definition ws_mid :: "ws_cb \<Rightarrow> byte list \<Rightarrow> nat \<Rightarrow> ws_conn \<Rightarrow> bool" where
  "ws_mid cb bs n c \<longleftrightarrow>
     (\<exists>nb mem. rnb c = Some nb \<and> nb_buf nb = Some mem \<and> length mem = nb_m_len nb \<and> n \<le> nb_m_len nb \<and>
        nb_b_len nb = n \<and> nb_s_off nb = length bs \<and> length bs \<le> n \<and> \<not> nb_call_always nb \<and> nb_cb nb = Some cb \<and>
        take (length bs) mem = block_of bs)"

text \<open>Two connections that differ only in the receiving buffer.\<close>

definition ws_same :: "ws_conn \<Rightarrow> ws_conn \<Rightarrow> bool" where
  "ws_same c c' \<longleftrightarrow> c'\<lparr>rnb := rnb c\<rparr> = c"

lemma ws_same_upd [simp]: "ws_same c (c\<lparr>rnb := x\<rparr>)" "ws_same c c"
  by (simp_all add: ws_same_def)

lemma ws_same_trans:
  assumes "ws_same a b" "ws_same b c"
  shows "ws_same a c"
proof -
  have "c\<lparr>rnb := rnb a\<rparr> = (c\<lparr>rnb := rnb b\<rparr>)\<lparr>rnb := rnb a\<rparr>" by simp
  also have "\<dots> = b\<lparr>rnb := rnb a\<rparr>" by (simp only: assms(2) [unfolded ws_same_def])
  also have "\<dots> = a" using assms(1) by (simp only: ws_same_def)
  finally show ?thesis by (simp only: ws_same_def)
qed

lemma ws_sameD:
  assumes "ws_same c c'"
  shows "evt_read c' = evt_read c" "queue_ok c' = queue_ok c" "close_empty c' = close_empty c" "out_stream c' = out_stream c"
    "ws_calls c' = ws_calls c" "ws_message c' = ws_message c" "disconnecting c' = disconnecting c" "ws_close_sent c' = ws_close_sent c"
proof -
  have c: "c = c'\<lparr>rnb := rnb c\<rparr>" using assms by (simp add: ws_same_def)
  show "evt_read c' = evt_read c" "queue_ok c' = queue_ok c" "close_empty c' = close_empty c" "out_stream c' = out_stream c"
    "ws_calls c' = ws_calls c" "ws_message c' = ws_message c" "disconnecting c' = disconnecting c" "ws_close_sent c' = ws_close_sent c"
    by (subst c, simp add: queue_ok_def out_stream_def)+
qed

lemma ws_mid_ok: "ws_mid cb bs n c \<Longrightarrow> recv_ok c \<and> recv_need c = n - length bs \<and> nb_cb (the (rnb c)) = Some cb \<and> nb_b_len (the (rnb c)) = n"
  by (auto simp: ws_mid_def recv_ok_def recv_need_def)

lemma ws_mid_put:
  assumes "ws_mid cb bs n c" "length bs + length xs \<le> n"
  shows "ws_mid cb (bs @ xs) n (recv_put xs c)" "ws_same c (recv_put xs c)"
proof -
  from assms(1) obtain nb mem where c: "rnb c = Some nb" "nb_buf nb = Some mem" "length mem = nb_m_len nb" "n \<le> nb_m_len nb"
    "nb_b_len nb = n" "nb_s_off nb = length bs" "\<not> nb_call_always nb" "nb_cb nb = Some cb" "take (length bs) mem = block_of bs"
    unfolding ws_mid_def by blast
  show "ws_mid cb (bs @ xs) n (recv_put xs c)"
    using c assms(2) by (simp add: ws_mid_def recv_put_def Let_def block_of_append)
  show "ws_same c (recv_put xs c)" by (simp add: recv_put_def Let_def)
qed

lemma ws_mid_bytes:
  assumes "ws_mid cb bs n c" "off + k \<le> length bs"
  shows "recv_bytes c off k = Inr (take k (drop off bs))"
proof -
  from assms(1) obtain nb mem where c: "rnb c = Some nb" "nb_buf nb = Some mem" "length bs \<le> length mem" "take (length bs) mem = block_of bs"
    unfolding ws_mid_def by fastforce
  then show ?thesis using mem_read_prefix [OF c(4,3) assms(2)] by (simp add: recv_bytes_def)
qed

lemma ws_mid_expand:
  assumes "ws_mid cb bs n c" "length bs = n" "n + k < 2 ^ 64"
  obtains c' where "net_recv_expand k cb' c = Inr c'" "ws_mid cb' bs (n + k) c'" "ws_same c c'"
proof -
  from assms(1) obtain nb mem where c: "rnb c = Some nb" "nb_buf nb = Some mem" "length mem = nb_m_len nb" "n \<le> nb_m_len nb"
    "nb_b_len nb = n" "nb_s_off nb = length bs" "\<not> nb_call_always nb" "nb_cb nb = Some cb" "take (length bs) mem = block_of bs"
    unfolding ws_mid_def by blast
  define nb' where "nb' = nb\<lparr>nb_cb := Some cb', nb_b_len := n + k, nb_m_len := n + k,
    nb_buf := Some (take (n + k) mem @ replicate (n + k - length mem) None)\<rparr>"
  have "net_recv_expand k cb' c = Inr (c\<lparr>rnb := Some nb'\<rparr>)"
    using c assms(3) by (simp add: net_recv_expand_def nb'_def Let_def)
  moreover have "take n (take (n + k) mem @ replicate (n + k - length mem) None) = block_of bs"
    using c(3,4,9) assms(2) by simp
  then have "ws_mid cb' bs (n + k) (c\<lparr>rnb := Some nb'\<rparr>)"
    using c assms(2) by (simp add: ws_mid_def nb'_def)
  ultimately show ?thesis using that by simp
qed

lemma ws_mid_reset:
  assumes "recv_ok c"
  obtains c' where "net_recv_reset pmax 2 WsOpcode c = Inr c'" "ws_mid WsOpcode [] 2 c'" "ws_same c c'"
proof -
  from assms obtain nb mem where c: "rnb c = Some nb" "nb_buf nb = Some mem" "length mem = nb_m_len nb" "\<not> nb_call_always nb"
    by (rule recv_okE)
  show ?thesis
    by (rule that [of "case net_recv_reset pmax 2 WsOpcode c of Inr c' \<Rightarrow> c' | _ \<Rightarrow> c"])
      (use c in \<open>auto simp: net_recv_reset_def ws_mid_def Let_def block_of_def\<close>)
qed

section \<open>Frames of a client\<close>

text \<open>A masked frame as RFC 6455 defines it, with the shortest encoding of the length.\<close>

record ws_client =
  wc_fin :: bool
  wc_op :: nat
  wc_key :: "byte list"
  wc_data :: "byte list"

definition ws_ext :: "nat \<Rightarrow> byte list" where
  "ws_ext n = (if n \<le> 125 then [] else if n \<le> 65535 then net_write16 n else net_write64 n)"

definition ws_len7 :: "nat \<Rightarrow> nat" where
  "ws_len7 n = (if n \<le> 125 then n else if n \<le> 65535 then 126 else 127)"

text \<open>The octets of the key are used in turn.\<close>

fun rfc_mask :: "byte list \<Rightarrow> byte list \<Rightarrow> byte list" where
  "rfc_mask key [] = []"
| "rfc_mask key (x # xs) = char_of ((of_char x :: nat) XOR of_char (hd key)) # rfc_mask (rotate1 key) xs"

definition ws_client_bytes :: "ws_client \<Rightarrow> byte list" where
  "ws_client_bytes f =
     char_of (wc_op f + (if wc_fin f then 128 else 0)) # char_of (128 + ws_len7 (length (wc_data f))) #
     ws_ext (length (wc_data f)) @ wc_key f @ rfc_mask (wc_key f) (wc_data f)"

text \<open>Frames that the server answers without closing the connection.\<close>

definition ws_client_ok :: "nat \<Rightarrow> ws_client \<Rightarrow> bool" where
  "ws_client_ok maxframe f \<longleftrightarrow>
     length (wc_key f) = 4 \<and> length (wc_data f) \<le> maxframe \<and>
     (wc_op f \<in> {WEBSOCKET_OP_TEXT, WEBSOCKET_OP_BINARY} \<or>
      wc_op f \<in> {WEBSOCKET_OP_PING, WEBSOCKET_OP_PONG} \<and> wc_fin f \<and> length (wc_data f) \<le> 125)"

lemma ws_xor_twice [simp]: "ws_xor (ws_xor a b) b = a"
proof -
  have "(of_char a :: nat) XOR of_char b < 256"
  proof -
    have "(of_char a :: nat) XOR of_char b = take_bit 8 ((of_char a :: nat) XOR of_char b)"
      by (simp add: take_bit_xor take_bit_nat_eq_self)
    also have "\<dots> < 2 ^ 8" by (rule take_bit_nat_less_exp)
    finally show ?thesis by simp
  qed
  then have "of_char (ws_xor a b) = (of_char a :: nat) XOR of_char b" by (simp add: ws_xor_def)
  then show ?thesis by (simp add: ws_xor_def xor.assoc)
qed

lemma length_ws_unmask [simp]: "length (ws_unmask key d) = length d"
  by (simp add: ws_unmask_def)

lemma length_rfc_mask [simp]: "length (rfc_mask key d) = length d"
  by (induction key d rule: rfc_mask.induct) simp_all

lemma rfc_mask_nth:
  "length key = 4 \<Longrightarrow> i < length d \<Longrightarrow> rfc_mask key d ! i = ws_xor (d ! i) (key ! (i mod 4))"
proof (induction key d arbitrary: i rule: rfc_mask.induct)
  case (2 key x xs)
  then have key: "key \<noteq> []" by auto
  show ?case
  proof (cases i)
    case 0
    then show ?thesis using key by (simp add: ws_xor_def hd_conv_nth)
  next
    case (Suc j)
    then have "rfc_mask (rotate1 key) xs ! j = ws_xor (xs ! j) (rotate1 key ! (j mod 4))" using 2 by simp
    also have "rotate1 key ! (j mod 4) = key ! (Suc j mod 4)" using 2 key by (simp add: nth_rotate1 mod_Suc_eq)
    finally show ?thesis using Suc by simp
  qed
qed simp

lemma rfc_mask_unmask: "length key = 4 \<Longrightarrow> rfc_mask key d = ws_unmask key d"
  by (rule nth_equalityI) (simp_all add: rfc_mask_nth ws_unmask_def)

lemma ws_unmask_twice [simp]: "ws_unmask key (ws_unmask key d) = d"
  by (rule nth_equalityI) (simp_all add: ws_unmask_def)

lemma length_ws_ext: "length (ws_ext n) = (if n \<le> 125 then 0 else if n \<le> 65535 then 2 else 8)"
  by (simp add: ws_ext_def net_write16_def net_write64_def)

lemma of_char_small: "k < 256 \<Longrightarrow> of_char (char_of (k :: nat)) = k"
  by simp

lemma ws_len7_bits:
  "take_bit 7 (of_char (char_of (128 + ws_len7 n)) :: nat) = ws_len7 n" "bit (of_char (char_of (128 + ws_len7 n)) :: nat) 7"
proof -
  have "ws_len7 n < 128" by (simp add: ws_len7_def)
  then have a: "of_char (char_of (128 + ws_len7 n)) = 128 + ws_len7 n" and b: "ws_len7 n mod 128 = ws_len7 n" by simp_all
  show "take_bit 7 (of_char (char_of (128 + ws_len7 n)) :: nat) = ws_len7 n"
    unfolding a using b by (simp add: take_bit_eq_mod)
  show "bit (of_char (char_of (128 + ws_len7 n)) :: nat) 7"
    unfolding a using \<open>ws_len7 n < 128\<close> by (simp add: bit_iff_odd div_add_self1)
qed

lemma ws_op_bits:
  assumes "op \<in> {1, 2, 9, 10}" "b = (of_char (char_of (op + (if fin then 128 else 0))) :: nat)"
  shows "take_bit 4 b = op" "\<not> bit b 6" "\<not> bit b 5" "\<not> bit b 4" "bit b 7 = fin"
  using assms by (auto simp: take_bit_eq_mod bit_iff_odd)

text \<open>The header of a frame, read from a prefix of it.\<close>

definition ws_header :: "ws_conn \<Rightarrow> (nat \<times> nat \<times> nat \<times> nat) result" where
  "ws_header c =
     bindR (recv_bytes c 0 2) (\<lambda>h.
       let op = take_bit 4 (of_char (h ! 0)) :: nat; len7 = take_bit 7 (of_char (h ! 1)) :: nat
       in if len7 = 126 then bindR (recv_bytes c 2 2) (\<lambda>b. Inr (op, 4, 2, net_read16 b))
          else if len7 = 127 then bindR (recv_bytes c 2 8) (\<lambda>b. Inr (op, 10, 8, net_read64 b))
          else Inr (op, 2, 0, len7))"

lemma ws_header_ok:
  assumes f: "ws_client_ok maxframe f" and small: "length (wc_data f) < 2 ^ 62"
    and mid: "ws_mid cb bs n c" "bs = take k (ws_client_bytes f)" "2 + length (ws_ext (length (wc_data f))) \<le> length bs"
  shows "ws_header c = Inr (wc_op f, 2 + length (ws_ext (length (wc_data f))), length (ws_ext (length (wc_data f))), length (wc_data f))"
proof -
  define e where "e = ws_ext (length (wc_data f))"
  define r where "r = wc_key f @ rfc_mask (wc_key f) (wc_data f)"
  define b0 where "b0 = char_of (wc_op f + (if wc_fin f then 128 else 0))"
  define b1 where "b1 = char_of (128 + ws_len7 (length (wc_data f)))"
  have F: "ws_client_bytes f = b0 # b1 # e @ r" by (simp add: ws_client_bytes_def b0_def b1_def e_def r_def)
  have k: "2 + length e \<le> k" using mid(2,3) by (simp add: e_def)
  have h: "recv_bytes c 0 2 = Inr [b0, b1]"
    using ws_mid_bytes [OF mid(1), of 0 2] mid(3) k unfolding mid(2) F by (simp add: numeral_2_eq_2 e_def)
  have x: "recv_bytes c 2 (length e) = Inr e"
    using ws_mid_bytes [OF mid(1), of 2 "length e"] mid(3) k unfolding mid(2) F by (simp add: e_def [symmetric] drop_take take_drop min_def numeral_2_eq_2)
  have op: "take_bit 4 (of_char b0) = wc_op f" using f ws_op_bits(1) [of "wc_op f" "of_char b0" "wc_fin f"] by (auto simp: ws_client_ok_def b0_def)
  have l7: "take_bit 7 (of_char b1) = ws_len7 (length (wc_data f))" unfolding b1_def by (rule ws_len7_bits)
  consider (a) "length (wc_data f) \<le> 125" | (b) "125 < length (wc_data f)" "length (wc_data f) \<le> 65535" | (d) "65535 < length (wc_data f)"
    by linarith
  then show ?thesis
  proof cases
    case a
    then show ?thesis using h op l7 by (simp add: ws_header_def ws_len7_def ws_ext_def)
  next
    case b
    then have "e = net_write16 (length (wc_data f))" "length e = 2" by (simp_all add: e_def ws_ext_def net_write16_def)
    then show ?thesis
      using b h op l7 x net_numbers(1) [of "length (wc_data f)" "[]"] by (simp add: ws_header_def ws_len7_def e_def [symmetric])
  next
    case d
    then have "e = net_write64 (length (wc_data f))" "length e = 8" by (simp_all add: e_def ws_ext_def net_write64_def)
    then show ?thesis
      using d h op l7 x net_numbers(3) [of "length (wc_data f)" "[]"] small by (simp add: ws_header_def ws_len7_def e_def [symmetric])
  qed
qed

lemma websocket_recv_frame_header:
  "websocket_recv_frame env c =
     (case ws_header c of
        Inl e \<Rightarrow> Some (Inl e)
      | Inr (op, moff, extra, len) \<Rightarrow>
          if len > we_maxframe env then Some (Inr (0, c))
          else (let total = size_mod (len + (extra + 2) + 4); b_len = nb_b_len (the (rnb c)) in
                if total > b_len then Some (bindR (net_recv_expand (total - b_len) WsFrame c) (\<lambda>c'. Inr (1, c')))
                else if total \<noteq> b_len then Some (Inr (0, c))
                else (case recv_unmask c moff len of
                        Inl e \<Rightarrow> Some (Inl e)
                      | Inr (d, c1) \<Rightarrow>
                          (case websocket_dispatch env op d c1 of
                             None \<Rightarrow> None
                           | Some (Inl e) \<Rightarrow> Some (Inl e)
                           | Some (Inr (None, c2)) \<Rightarrow> Some (Inr (0, c2))
                           | Some (Inr (Some ret, c2)) \<Rightarrow>
                               Some (bindR (net_recv_reset (we_pmax env) 2 WsOpcode c2) (\<lambda>c3. Inr (ret, c3)))))))"
  unfolding websocket_recv_frame_def ws_header_def ..

definition ws_first_need :: "nat \<Rightarrow> nat" where
  "ws_first_need n = (if n \<le> 125 then n else if n \<le> 65535 then 126 + 2 else 127 + 8) + 4"

lemma websocket_recv_opcode_ok:
  assumes f: "ws_client_ok maxframe f" and mid: "ws_mid WsOpcode (take 2 (ws_client_bytes f)) 2 c"
  obtains c' where "websocket_recv_opcode c = Inr (1, c')"
    "ws_mid WsFrame (take 2 (ws_client_bytes f)) (2 + ws_first_need (length (wc_data f))) c'" "ws_same c c'"
proof -
  define b0 where "b0 = char_of (wc_op f + (if wc_fin f then 128 else 0))"
  define b1 where "b1 = char_of (128 + ws_len7 (length (wc_data f)))"
  define k where "k = ws_first_need (length (wc_data f))"
  have bs: "take 2 (ws_client_bytes f) = [b0, b1]" by (simp add: ws_client_bytes_def b0_def b1_def numeral_2_eq_2)
  have h: "recv_bytes c 0 2 = Inr [b0, b1]" using ws_mid_bytes [OF mid, of 0 2] unfolding bs by simp
  have k: "(if ws_len7 (length (wc_data f)) = 126 then ws_len7 (length (wc_data f)) + 2
      else if ws_len7 (length (wc_data f)) = 127 then ws_len7 (length (wc_data f)) + 8 else ws_len7 (length (wc_data f))) + 4 = k"
    by (simp add: k_def ws_first_need_def ws_len7_def)
  have op: "wc_op f \<in> {1, 2, 9, 10}" using f by (auto simp: ws_client_ok_def)
  note bits = ws_op_bits [OF op, of "of_char b0" "wc_fin f", unfolded b0_def, OF refl, folded b0_def]
  have fine: "wc_op f \<in> {0, 1, 2} \<or> wc_op f \<in> {8, 9, 10} \<and> \<not> (ws_len7 (length (wc_data f)) > 125 \<or> \<not> wc_fin f)"
    using f by (auto simp: ws_client_ok_def ws_len7_def)
  obtain c' where c': "net_recv_expand k WsFrame c = Inr c'" "ws_mid WsFrame [b0, b1] (2 + k) c'" "ws_same c c'"
    by (rule ws_mid_expand [OF mid [unfolded bs], of k]) (auto simp: k_def ws_first_need_def)
  have "websocket_recv_opcode c = Inr (1, c')"
    using h bits fine c'(1) ws_len7_bits [of "length (wc_data f)", folded b1_def] k
    unfolding websocket_recv_opcode_def Let_def by (auto simp: Let_def split: if_splits)
  then show ?thesis using c' that bs by (simp add: k_def)
qed

lemma length_client_bytes:
  "length (wc_key f) = 4 \<Longrightarrow> length (ws_client_bytes f) = 2 + length (ws_ext (length (wc_data f))) + 4 + length (wc_data f)"
  by (simp add: ws_client_bytes_def)

lemma websocket_recv_frame_more:
  assumes f: "ws_client_ok (we_maxframe env) f" and small: "we_maxframe env < 2 ^ 62"
    and mid: "ws_mid WsFrame (take n (ws_client_bytes f)) n c" "2 + length (ws_ext (length (wc_data f))) \<le> n" "n < length (ws_client_bytes f)"
  obtains c' where "websocket_recv_frame env c = Some (Inr (1, c'))"
    "ws_mid WsFrame (take n (ws_client_bytes f)) (length (ws_client_bytes f)) c'" "ws_same c c'"
proof -
  define F where "F = ws_client_bytes f"
  have d: "length (wc_data f) \<le> we_maxframe env" "length (wc_key f) = 4" using f by (simp_all add: ws_client_ok_def)
  have h: "ws_header c = Inr (wc_op f, 2 + length (ws_ext (length (wc_data f))), length (ws_ext (length (wc_data f))), length (wc_data f))"
    using mid d small by (intro ws_header_ok [OF f _ mid(1) refl]) simp_all
  have total: "size_mod (length (wc_data f) + (length (ws_ext (length (wc_data f))) + 2) + 4) = length F"
    using d small length_client_bytes [OF d(2)] by (simp add: F_def length_ws_ext)
  have len: "length (take n F) = n" "n + (length F - n) < 2 ^ 64" "n + (length F - n) = length F"
    using mid(3) d small length_client_bytes [OF d(2)] by (simp_all add: F_def length_ws_ext)
  obtain c' where c': "net_recv_expand (length F - n) WsFrame c = Inr c'" "ws_mid WsFrame (take n F) (n + (length F - n)) c'" "ws_same c c'"
    using ws_mid_expand [OF mid(1) [folded F_def] len(1,2)] by blast
  have bl: "nb_b_len (the (rnb c)) = n" using ws_mid_ok [OF mid(1)] by simp
  have "\<not> we_maxframe env < length (wc_data f)" "n < length F" using d(1) mid(3) by (simp_all add: F_def)
  then have "websocket_recv_frame env c = Some (Inr (1, c'))"
    unfolding websocket_recv_frame_header h sum.case prod.case Let_def total bl using c'(1) by simp
  then show ?thesis using c' that len(3) by (simp add: F_def)
qed

lemma recv_unmask_ok:
  assumes mid: "ws_mid cb F (length F) c" and F: "F = p @ key @ ws_unmask key d" and key: "length key = 4"
  obtains c' where "recv_unmask c (length p) (length d) = Inr (d, c')" "recv_ok c'" "ws_same c c'"
proof -
  from mid obtain nb mem where c: "rnb c = Some nb" "nb_buf nb = Some mem" "length mem = nb_m_len nb" "length F \<le> nb_m_len nb"
    "nb_b_len nb = length F" "nb_s_off nb = length F" "\<not> nb_call_always nb" unfolding ws_mid_def by blast
  have k: "recv_bytes c (length p) 4 = Inr key" using ws_mid_bytes [OF mid, of "length p" 4] key by (simp add: F)
  have m: "recv_bytes c (length p + 4) (length d) = Inr (ws_unmask key d)"
    using ws_mid_bytes [OF mid, of "length p + 4" "length d"] key by (simp add: F)
  define mem' where "mem' = take (length p + 4) mem @ block_of d @ drop (length p + 4 + length d) mem"
  have w: "mem_write mem (length p + 4) d = Inr mem'" and len: "length mem' = nb_m_len nb"
    using c(3,4) key by (simp_all add: mem_write_def mem'_def F)
  show ?thesis
  proof (rule that)
    show "recv_unmask c (length p) (length d) = Inr (d, c\<lparr>rnb := Some (nb\<lparr>nb_buf := Some mem'\<rparr>)\<rparr>)"
      unfolding recv_unmask_def k m using c(1,2) w by simp
    show "recv_ok (c\<lparr>rnb := Some (nb\<lparr>nb_buf := Some mem'\<rparr>)\<rparr>)"
      using c len by (simp add: recv_ok_def)
  qed simp
qed

text \<open>What the server does for a frame: the handler is called, or an answer is sent.\<close>

definition ws_frame_calls :: "ws_client \<Rightarrow> ws_call list" where
  "ws_frame_calls f = (if wc_op f \<in> {WEBSOCKET_OP_TEXT, WEBSOCKET_OP_BINARY} then [WsMessage (wc_op f) (wc_data f)] else [])"

definition ws_frame_reply :: "ws_client \<Rightarrow> byte list" where
  "ws_frame_reply f = (if wc_op f = WEBSOCKET_OP_PING then ws_frame WEBSOCKET_OP_PONG (wc_data f) else [])"

definition ws_ready :: "ws_conn \<Rightarrow> bool" where
  "ws_ready c \<longleftrightarrow> ws_mid WsOpcode [] 2 c \<and> evt_read c \<and> queue_ok c \<and> \<not> close_empty c \<and> ws_message c \<noteq> None"

definition ws_served :: "ws_client list \<Rightarrow> ws_conn \<Rightarrow> ws_conn \<Rightarrow> bool" where
  "ws_served fs c c' \<longleftrightarrow>
     ws_ready c' \<and> ws_calls c' = ws_calls c @ concat (map ws_frame_calls fs) \<and>
     out_stream c' = out_stream c @ concat (map ws_frame_reply fs)"

lemma ws_kept_more:
  assumes "ws_kept c c'"
  shows "ws_calls c' = ws_calls c" "ws_message c' = ws_message c"
  using assms by (cases c, cases c', simp add: ws_kept_def)+

lemma websocket_dispatch_ok:
  assumes f: "ws_client_ok maxframe f" and c: "recv_ok c" "evt_read c" "queue_ok c" "\<not> close_empty c" "ws_message c \<noteq> None"
  obtains c' where "websocket_dispatch env (wc_op f) (wc_data f) c = Some (Inr (Some 1, c'))" "recv_ok c'" "evt_read c'" "queue_ok c'"
    "\<not> close_empty c'" "ws_message c' \<noteq> None" "ws_calls c' = ws_calls c @ ws_frame_calls f" "out_stream c' = out_stream c @ ws_frame_reply f"
proof -
  consider (data) "wc_op f = 1 \<or> wc_op f = 2" | (ping) "wc_op f = 9" "length (wc_data f) \<le> 125" | (pong) "wc_op f = 10"
    using f by (auto simp: ws_client_ok_def)
  then show ?thesis
  proof cases
    case data
    define c1 where "c1 = c\<lparr>ws_calls := ws_calls c @ [WsMessage (wc_op f) (wc_data f)]\<rparr>"
    have c1: "recv_ok c1 = recv_ok c" "queue_ok c1 = queue_ok c" "out_stream c1 = out_stream c" "evt_read c1 = evt_read c"
      "close_empty c1 = close_empty c" "ws_message c1 = ws_message c" "ws_calls c1 = ws_calls c @ [WsMessage (wc_op f) (wc_data f)]"
      unfolding c1_def recv_ok_def queue_ok_def out_stream_def by simp_all
    have "websocket_dispatch env (wc_op f) (wc_data f) c = Some (Inr (Some 1, c1))"
      using data c(5) by (elim disjE) (simp_all add: websocket_dispatch_def c1_def)
    moreover have "ws_frame_calls f = [WsMessage (wc_op f) (wc_data f)]" "ws_frame_reply f = []"
      using data by (auto simp: ws_frame_calls_def ws_frame_reply_def)
    ultimately show ?thesis using that [of c1] c c1 by simp
  next
    case ping
    then obtain c' where c': "websocket_send_with env (websocket_disconnect env) 10 (Some (wc_data f)) (length (wc_data f)) c = Some (Inr c')"
      "queue_ok c'" "out_stream c' = out_stream c @ ws_frame 10 (wc_data f)" "ws_kept c c'"
      using websocket_send_with_ok [OF c(3,4), of "wc_data f" "Some (wc_data f)" env "websocket_disconnect env" 10] by auto
    show ?thesis
      by (rule that [of c'])
        (use c c' ping ws_kept_more [OF c'(4)] in \<open>auto simp: websocket_dispatch_def kore_websocket_send_def ws_kept_def recv_ok_def
          ws_frame_calls_def ws_frame_reply_def\<close>)
  next
    case pong
    show ?thesis
      by (rule that [of c]) (use c pong in \<open>auto simp: websocket_dispatch_def ws_frame_calls_def ws_frame_reply_def\<close>)
  qed
qed

lemma websocket_recv_frame_done:
  assumes f: "ws_client_ok (we_maxframe env) f" and small: "we_maxframe env < 2 ^ 62"
    and mid: "ws_mid WsFrame (ws_client_bytes f) (length (ws_client_bytes f)) c"
    and c: "evt_read c" "queue_ok c" "\<not> close_empty c" "ws_message c \<noteq> None"
  obtains c' where "websocket_recv_frame env c = Some (Inr (1, c'))" "ws_served [f] c c'"
proof -
  define F where "F = ws_client_bytes f"
  define e where "e = ws_ext (length (wc_data f))"
  have d: "length (wc_data f) \<le> we_maxframe env" "length (wc_key f) = 4" using f by (simp_all add: ws_client_ok_def)
  have h: "ws_header c = Inr (wc_op f, 2 + length e, length e, length (wc_data f))"
    unfolding e_def using d small length_client_bytes [OF d(2)]
    by (intro ws_header_ok [OF f _ mid, of "length (ws_client_bytes f)"]) simp_all
  have total: "size_mod (length (wc_data f) + (length e + 2) + 4) = length F"
    using d small length_client_bytes [OF d(2)] by (simp add: F_def e_def length_ws_ext)
  have bl: "nb_b_len (the (rnb c)) = length F" using ws_mid_ok [OF mid] by (simp add: F_def)
  define p where "p = [char_of (wc_op f + (if wc_fin f then 128 else 0)), char_of (128 + ws_len7 (length (wc_data f)))] @ e"
  have F: "F = p @ wc_key f @ ws_unmask (wc_key f) (wc_data f)" by (simp add: F_def ws_client_bytes_def p_def e_def rfc_mask_unmask [OF d(2)])
  obtain c1 where c1: "recv_unmask c (length p) (length (wc_data f)) = Inr (wc_data f, c1)" "recv_ok c1" "ws_same c c1"
    by (rule recv_unmask_ok [OF mid [folded F_def] F d(2)])
  note s1 = ws_sameD [OF c1(3)]
  obtain c2 where c2: "websocket_dispatch env (wc_op f) (wc_data f) c1 = Some (Inr (Some 1, c2))" "recv_ok c2" "evt_read c2" "queue_ok c2"
    "\<not> close_empty c2" "ws_message c2 \<noteq> None" "ws_calls c2 = ws_calls c1 @ ws_frame_calls f" "out_stream c2 = out_stream c1 @ ws_frame_reply f"
    by (rule websocket_dispatch_ok [OF f c1(2), of env]) (use c s1 in simp_all)
  obtain c3 where c3: "net_recv_reset (we_pmax env) 2 WsOpcode c2 = Inr c3" "ws_mid WsOpcode [] 2 c3" "ws_same c2 c3"
    by (rule ws_mid_reset [OF c2(2)])
  have lp: "length p = 2 + length e" by (simp add: p_def)
  have "websocket_recv_frame env c = Some (Inr (1, c3))"
    unfolding websocket_recv_frame_header h sum.case prod.case Let_def total bl
    using d(1) c1(1) c2(1) c3(1) unfolding lp by simp
  moreover have "ws_served [f] c c3"
    using ws_sameD [OF c3(3)] s1 c2 c3(2) by (simp add: ws_served_def ws_ready_def)
  ultimately show ?thesis using that by blast
qed

section \<open>A stream of frames\<close>

lemma ws_served_same: "ws_same a b \<Longrightarrow> ws_served fs b c \<Longrightarrow> ws_served fs a c"
  using ws_sameD [of a b] by (simp add: ws_served_def)

lemma ws_feed_step:
  assumes mid: "ws_mid cb bs n c" "evt_read c" "length bs < n" and xs: "length xs = n - length bs"
    and run: "ws_run env cb (recv_put xs c) = Some (Inr (1, c'))"
  shows "recv_feed (ws_run env) (xs @ ys) c = recv_feed (ws_run env) ys c'"
proof -
  have need: "recv_need c = length xs" "nb_cb (the (rnb c)) = Some cb" using ws_mid_ok [OF mid(1)] xs by simp_all
  have "0 < recv_need c" "recv_need c \<le> length (xs @ ys)" using mid(3) need(1) xs by simp_all
  from recv_feed_full [OF mid(2) this, of "ws_run env"] show ?thesis using need run by simp
qed

lemma ws_frame_assembled:
  assumes f: "ws_client_ok (we_maxframe env) f" and small: "we_maxframe env < 2 ^ 62"
    and mid: "ws_mid WsFrame bs (length (ws_client_bytes f)) c" and F: "ws_client_bytes f = bs @ xs" "xs \<noteq> []"
    and c: "evt_read c" "queue_ok c" "\<not> close_empty c" "ws_message c \<noteq> None"
  obtains c' where "recv_feed (ws_run env) (xs @ rest) c = recv_feed (ws_run env) rest c'" "ws_served [f] c c'"
proof -
  have p: "ws_mid WsFrame (bs @ xs) (length (ws_client_bytes f)) (recv_put xs c)" "ws_same c (recv_put xs c)"
    using ws_mid_put [OF mid, of xs] F(1) by simp_all
  note s = ws_sameD [OF p(2)]
  obtain c' where c': "websocket_recv_frame env (recv_put xs c) = Some (Inr (1, c'))" "ws_served [f] (recv_put xs c) c'"
    by (rule websocket_recv_frame_done [OF f small, of "recv_put xs c"]) (use p(1) c s F(1) in simp_all)
  have "recv_feed (ws_run env) (xs @ rest) c = recv_feed (ws_run env) rest c'"
    by (rule ws_feed_step [OF mid c(1)]) (use F c'(1) in simp_all)
  then show ?thesis using that ws_served_same [OF p(2) c'(2)] by blast
qed

lemma ws_first_need_le:
  assumes "length (wc_key f) = 4"
  shows "2 + ws_first_need (length (wc_data f)) \<le> length (ws_client_bytes f)"
    "2 + length (ws_ext (length (wc_data f))) \<le> 2 + ws_first_need (length (wc_data f))" "0 < ws_first_need (length (wc_data f))"
  using length_client_bytes [OF assms] by (simp_all add: ws_first_need_def length_ws_ext)

lemma ws_feed_frame:
  assumes f: "ws_client_ok (we_maxframe env) f" and small: "we_maxframe env < 2 ^ 62" and ready: "ws_ready c"
  obtains c' where "recv_feed (ws_run env) (ws_client_bytes f @ rest) c = recv_feed (ws_run env) rest c'" "ws_served [f] c c'"
proof -
  define F where "F = ws_client_bytes f"
  define k where "k = ws_first_need (length (wc_data f))"
  have c: "ws_mid WsOpcode [] 2 c" "evt_read c" "queue_ok c" "\<not> close_empty c" "ws_message c \<noteq> None" using ready by (simp_all add: ws_ready_def)
  have key: "length (wc_key f) = 4" using f by (simp add: ws_client_ok_def)
  have le: "2 + k \<le> length F" "2 + length (ws_ext (length (wc_data f))) \<le> 2 + k" "0 < k"
    using ws_first_need_le [OF key] by (simp_all only: k_def F_def)
  define c0 where "c0 = recv_put (take 2 F) c"
  have c0: "ws_mid WsOpcode (take 2 F) 2 c0" "ws_same c c0" using ws_mid_put [OF c(1), of "take 2 F"] unfolding c0_def by simp_all
  obtain c1 where c1: "websocket_recv_opcode c0 = Inr (1, c1)" "ws_mid WsFrame (take 2 F) (2 + k) c1" "ws_same c0 c1"
    by (rule websocket_recv_opcode_ok [OF f c0(1) [unfolded F_def]]) (simp add: k_def F_def)
  have s1: "ws_same c c1" by (rule ws_same_trans [OF c0(2) c1(3)])
  have "recv_feed (ws_run env) (take 2 F @ drop 2 F @ rest) c = recv_feed (ws_run env) (drop 2 F @ rest) c1"
    by (rule ws_feed_step [OF c(1,2)]) (use le(1) c1(1) in \<open>simp_all add: c0_def\<close>)
  then have feed1: "recv_feed (ws_run env) (F @ rest) c = recv_feed (ws_run env) (drop 2 F @ rest) c1"
    by (metis append_assoc append_take_drop_id)
  have d1: "evt_read c1" "queue_ok c1" "\<not> close_empty c1" "ws_message c1 \<noteq> None" using c ws_sameD [OF s1] by simp_all
  show ?thesis
  proof (cases "2 + k = length F")
    case True
    then have "drop 2 F \<noteq> []" "ws_client_bytes f = take 2 F @ drop 2 F" using le(3) by (auto simp: F_def)
    moreover have "ws_mid WsFrame (take 2 F) (length (ws_client_bytes f)) c1"
      using c1(2) True by (simp only: F_def [symmetric])
    ultimately obtain c' where
      "recv_feed (ws_run env) (drop 2 F @ rest) c1 = recv_feed (ws_run env) rest c'" "ws_served [f] c1 c'"
      using ws_frame_assembled [OF f small _ _ _ d1, of "take 2 F" "drop 2 F"] by blast
    then show ?thesis using that feed1 ws_served_same [OF s1] by (simp add: F_def)
  next
    case False
    define x where "x = take k (drop 2 F)"
    have x: "take 2 F @ x = take (2 + k) F" "length x = k"
      unfolding x_def take_add using le(1) by simp_all
    have x3: "drop 2 F = x @ drop (2 + k) F"
      using append_take_drop_id [of k "drop 2 F", symmetric] unfolding drop_drop x_def by (simp only: add.commute)
    have c2: "ws_mid WsFrame (take (2 + k) F) (2 + k) (recv_put x c1)" "ws_same c1 (recv_put x c1)"
      using ws_mid_put [OF c1(2), of x] x le(1) by simp_all
    obtain c3 where c3: "websocket_recv_frame env (recv_put x c1) = Some (Inr (1, c3))"
      "ws_mid WsFrame (take (2 + k) F) (length F) c3" "ws_same (recv_put x c1) c3"
      by (rule websocket_recv_frame_more [OF f small c2(1) [unfolded F_def]]) (use False le in \<open>simp_all add: F_def\<close>)
    have "recv_feed (ws_run env) (x @ drop (2 + k) F @ rest) c1 = recv_feed (ws_run env) (drop (2 + k) F @ rest) c3"
      by (rule ws_feed_step [OF c1(2) d1(1)]) (use x(2) le c3(1) in simp_all)
    then have feed2: "recv_feed (ws_run env) (drop 2 F @ rest) c1 = recv_feed (ws_run env) (drop (2 + k) F @ rest) c3"
      unfolding x3 by simp
    have s3: "ws_same c1 c3" by (rule ws_same_trans [OF c2(2) c3(3)])
    have d3: "evt_read c3" "queue_ok c3" "\<not> close_empty c3" "ws_message c3 \<noteq> None" using d1 ws_sameD [OF s3] by simp_all
    have F3: "ws_client_bytes f = take (2 + k) F @ drop (2 + k) F" "drop (2 + k) F \<noteq> []" using False le(1) by (simp_all add: F_def)
    obtain c' where "recv_feed (ws_run env) (drop (2 + k) F @ rest) c3 = recv_feed (ws_run env) rest c'" "ws_served [f] c3 c'"
      using ws_frame_assembled [OF f small _ F3 d3] c3(2) unfolding F_def [symmetric] by blast
    then show ?thesis
      using that feed1 feed2 ws_served_same [OF ws_same_trans [OF s1 s3]] by (simp add: F_def)
  qed
qed

lemma ws_served_Cons: "ws_served [f] a b \<Longrightarrow> ws_served fs b c \<Longrightarrow> ws_served (f # fs) a c"
  by (simp add: ws_served_def)

lemma ws_feed_frames:
  assumes "list_all (ws_client_ok (we_maxframe env)) fs" "we_maxframe env < 2 ^ 62" "ws_ready c"
  shows "\<exists>c'. recv_feed (ws_run env) (concat (map ws_client_bytes fs)) c = Some (Inr (1, [], c')) \<and> ws_served fs c c'"
  using assms
proof (induction fs arbitrary: c)
  case Nil
  then have mid: "ws_mid WsOpcode [] 2 c" "evt_read c" by (simp_all add: ws_ready_def)
  have "recv_feed (ws_run env) [] c = Some (Inr (1, [], c))"
    using ws_mid_ok [OF mid(1)] mid(2) recv_put_Nil [of c] by (subst recv_feed.simps) simp
  then show ?case using Nil by (simp add: ws_served_def)
next
  case (Cons f fs)
  then have f: "ws_client_ok (we_maxframe env) f" "list_all (ws_client_ok (we_maxframe env)) fs" by simp_all
  obtain c1 where c1: "recv_feed (ws_run env) (ws_client_bytes f @ concat (map ws_client_bytes fs)) c =
      recv_feed (ws_run env) (concat (map ws_client_bytes fs)) c1" "ws_served [f] c c1"
    by (rule ws_feed_frame [OF f(1) Cons.prems(2,3)])
  have "ws_ready c1" using c1(2) by (simp add: ws_served_def)
  from Cons.IH [OF f(2) Cons.prems(2) this] c1 show ?case using ws_served_Cons by fastforce
qed

section \<open>The callbacks keep the buffer in order\<close>

definition ws_inv :: "ws_env \<Rightarrow> ws_conn \<Rightarrow> bool" where
  "ws_inv env c \<longleftrightarrow>
     we_maxframe env < 2 ^ 62 \<and> recv_ok c \<and> queue_ok c \<and> \<not> close_empty c \<and> nb_b_len (the (rnb c)) < 2 ^ 63 \<and>
     (nb_cb (the (rnb c)) = Some WsOpcode \<longrightarrow> nb_b_len (the (rnb c)) = 2)"

lemma expand_inv:
  assumes "recv_ok c" "nb_b_len (the (rnb c)) + k < 2 ^ 63" "net_recv_expand k WsFrame c = Inr c'"
  shows "recv_ok c'" "ws_same c c'" "nb_b_len (the (rnb c')) < 2 ^ 63" "nb_cb (the (rnb c')) = Some WsFrame"
proof -
  from assms(1) obtain nb mem where c: "rnb c = Some nb" "nb_buf nb = Some mem" "length mem = nb_m_len nb" "nb_b_len nb \<le> nb_m_len nb"
    "nb_s_off nb \<le> nb_b_len nb" "\<not> nb_call_always nb" by (rule recv_okE)
  have n: "size_mod (nb_b_len nb + k) = nb_b_len nb + k" using assms(2) c(1) by simp
  have c': "c' = c\<lparr>rnb := Some (nb\<lparr>nb_cb := Some WsFrame, nb_b_len := nb_b_len nb + k, nb_m_len := nb_b_len nb + k,
      nb_buf := Some (take (nb_b_len nb + k) mem @ replicate (nb_b_len nb + k - length mem) None)\<rparr>)\<rparr>"
    using assms(3) c(1,2) unfolding net_recv_expand_def Let_def by (simp add: n)
  show "recv_ok c'" using c by (simp add: c' recv_ok_def)
  show "ws_same c c'" "nb_b_len (the (rnb c')) < 2 ^ 63" "nb_cb (the (rnb c')) = Some WsFrame"
    using assms(2) c(1) by (simp_all add: c')
qed

lemma websocket_disconnect_logs:
  assumes "ws_close_sent c"
  shows "websocket_disconnect env c =
    Some (Inr (if ws_disconnect c \<noteq> None then c\<lparr>ws_calls := ws_calls c @ [WsDisconnect]\<rparr> else c))"
  using assms by (simp add: websocket_disconnect_def Let_def)

lemma ws_upd_ok [simp]:
  "recv_ok (c\<lparr>ws_calls := x\<rparr>) = recv_ok c" "queue_ok (c\<lparr>ws_calls := x\<rparr>) = queue_ok c"
  "recv_ok (c\<lparr>evt_read := r\<rparr>) = recv_ok c" "queue_ok (c\<lparr>evt_read := r\<rparr>) = queue_ok c"
  "recv_ok (c\<lparr>ws_close_sent := y\<rparr>) = recv_ok c" "queue_ok (c\<lparr>ws_close_sent := y\<rparr>) = queue_ok c"
  "recv_ok (c\<lparr>disconnecting := r\<rparr>) = recv_ok c" "queue_ok (c\<lparr>disconnecting := r\<rparr>) = queue_ok c"
  unfolding recv_ok_def queue_ok_def by simp_all

lemma ws_kept_ok:
  assumes "ws_kept c c'"
  shows "recv_ok c' = recv_ok c" "close_empty c' = close_empty c" "ws_close_sent c' = ws_close_sent c"
  using assms by (simp_all add: ws_kept_def recv_ok_def) (cases c, cases c', simp)

lemma close_inv:
  assumes c: "recv_ok c" "queue_ok c" "\<not> close_empty c"
  obtains c' where "websocket_dispatch env WEBSOCKET_OP_CLOSE d c = Some (Inr (Some 1, c'))" "recv_ok c'" "queue_ok c'" "\<not> close_empty c'"
proof -
  define c1 where "c1 = c\<lparr>evt_read := False, ws_close_sent := True\<rparr>"
  have c1: "recv_ok c1" "queue_ok c1" "\<not> close_empty c1" using c by (simp_all add: c1_def)
  have "\<exists>c2. (if \<not> ws_close_sent (c\<lparr>evt_read := False\<rparr>)
      then kore_websocket_send env WEBSOCKET_OP_CLOSE None 0 (c\<lparr>evt_read := False, ws_close_sent := True\<rparr>)
      else Some (Inr (c\<lparr>evt_read := False\<rparr>))) = Some (Inr c2) \<and> recv_ok c2 \<and> queue_ok c2 \<and> \<not> close_empty c2 \<and> ws_close_sent c2"
  proof (cases "ws_close_sent c")
    case True
    then show ?thesis using c by simp
  next
    case False
    from websocket_send_with_ok [OF c1(2,3), of "[]" None env "websocket_disconnect env" WEBSOCKET_OP_CLOSE] obtain c2 where
      "websocket_send_with env (websocket_disconnect env) WEBSOCKET_OP_CLOSE None 0 c1 = Some (Inr c2)" "queue_ok c2" "ws_kept c1 c2" by auto
    moreover have "ws_close_sent c1" by (simp add: c1_def)
    ultimately show ?thesis
      using False ws_kept_ok [of c1 c2] c1 by (simp add: kore_websocket_send_def c1_def)
  qed
  then obtain c2 where c2: "(if \<not> ws_close_sent (c\<lparr>evt_read := False\<rparr>)
      then kore_websocket_send env WEBSOCKET_OP_CLOSE None 0 (c\<lparr>evt_read := False, ws_close_sent := True\<rparr>)
      else Some (Inr (c\<lparr>evt_read := False\<rparr>))) = Some (Inr c2)" "recv_ok c2" "queue_ok c2" "\<not> close_empty c2" "ws_close_sent c2" by blast
  have "\<exists>c3. kore_connection_disconnect (websocket_disconnect env) c2 = Some (Inr c3) \<and> recv_ok c3 \<and> queue_ok c3 \<and> \<not> close_empty c3"
    using c2(2-5) websocket_disconnect_logs [of "c2\<lparr>disconnecting := True\<rparr>" env] by (auto simp: kore_connection_disconnect_def)
  then obtain c3 where c3: "kore_connection_disconnect (websocket_disconnect env) c2 = Some (Inr c3)" "recv_ok c3" "queue_ok c3" "\<not> close_empty c3" by blast
  have "websocket_dispatch env WEBSOCKET_OP_CLOSE d c = Some (Inr (Some 1, c3))"
    unfolding websocket_dispatch_def Let_def c2(1) using c3(1) by simp
  then show ?thesis using that c3(2-4) by blast
qed

lemma dispatch_inv:
  assumes c: "recv_ok c" "queue_ok c" "\<not> close_empty c" and d: "length d < 2 ^ 62"
    and run: "websocket_dispatch env op d c = Some (Inr (r, c'))"
  shows "recv_ok c' \<and> queue_ok c' \<and> \<not> close_empty c'"
proof -
  consider (close) "op = 8" | (ping) "op = 9" | (data) "op = 1 \<or> op = 2" | (other) "op \<notin> {1, 2, 8, 9}" by blast
  then show ?thesis
  proof cases
    case close
    then show ?thesis using close_inv [OF c, of env d] run by fastforce
  next
    case ping
    from websocket_send_with_ok [OF c(2,3) d, of "Some d" env "websocket_disconnect env" WEBSOCKET_OP_PONG] obtain c2 where
      c2: "websocket_send_with env (websocket_disconnect env) WEBSOCKET_OP_PONG (Some d) (length d) c = Some (Inr c2)" "queue_ok c2" "ws_kept c c2" by blast
    then have "c' = c2" using run ping by (simp add: websocket_dispatch_def kore_websocket_send_def)
    then show ?thesis using c2 ws_kept_ok [OF c2(3)] c by simp
  next
    case data
    then have "c' = c \<or> c' = c\<lparr>ws_calls := ws_calls c @ [WsMessage op d]\<rparr>"
      using run by (elim disjE) (simp_all add: websocket_dispatch_def split: if_splits)
    then show ?thesis using c by auto
  next
    case other
    then have "c' = c" using run by (simp add: websocket_dispatch_def split: if_splits)
    then show ?thesis using c by simp
  qed
qed

lemma opcode_inv:
  assumes "ws_inv env c" "nb_cb (the (rnb c)) = Some WsOpcode" "websocket_recv_opcode c = Inr (1, c')"
  shows "ws_inv env c'"
proof -
  have c: "recv_ok c" "nb_b_len (the (rnb c)) = 2" "we_maxframe env < 2 ^ 62" "queue_ok c" "\<not> close_empty c"
    using assms(1,2) by (simp_all add: ws_inv_def)
  obtain h where h: "recv_bytes c 0 2 = Inr h"
    using assms(3) unfolding websocket_recv_opcode_def by (cases "recv_bytes c 0 2") simp_all
  define l where "l = (take_bit 7 (of_char (h ! 1)) :: nat)"
  define k where "k = (if l = 126 then l + 2 else if l = 127 then l + 8 else l) + (4 :: nat)"
  have "l < 2 ^ 7" unfolding l_def by (rule take_bit_nat_less_exp)
  then have k: "k < 256" by (simp add: k_def)
  have "net_recv_expand k WsFrame c = Inr c'"
    using assms(3) unfolding websocket_recv_opcode_def h bindR.simps Let_def l_def [symmetric] k_def [symmetric]
    by (cases "net_recv_expand k WsFrame c") (simp_all split: if_splits)
  then show ?thesis
    using expand_inv [OF c(1), of k c'] c k ws_sameD [of c c'] by (simp add: ws_inv_def)
qed

lemma ws_header_bound:
  assumes "ws_header c = Inr (op, moff, extra, len)"
  shows "extra \<le> 8"
  using assms unfolding ws_header_def Let_def by (auto simp: bindR_Inr_iff split: if_splits)

lemma length_recv_bytes: "recv_bytes c off n = Inr bs \<Longrightarrow> length bs = n"
  by (auto simp: recv_bytes_def mem_read_def Let_def split: option.splits if_splits)

lemma unmask_inv:
  assumes "recv_ok c" "recv_unmask c moff len = Inr (d, c')"
  shows "recv_ok c'" "ws_same c c'" "length d = len"
proof -
  from assms(1) obtain nb mem where c: "rnb c = Some nb" "nb_buf nb = Some mem" "length mem = nb_m_len nb" "nb_b_len nb \<le> nb_m_len nb"
    "nb_s_off nb \<le> nb_b_len nb" "\<not> nb_call_always nb" by (rule recv_okE)
  from assms(2) obtain key m mem' where x: "recv_bytes c (moff + 4) len = Inr m" "d = ws_unmask key m"
      "mem_write mem (moff + 4) d = Inr mem'" "c' = c\<lparr>rnb := Some (nb\<lparr>nb_buf := Some mem'\<rparr>)\<rparr>"
    unfolding recv_unmask_def using c(1,2) by (auto simp: bindR_Inr_iff)
  show "length d = len" using x(2) length_recv_bytes [OF x(1)] by simp
  have "length mem' = length mem" using x(3) by (auto simp: mem_write_def split: if_splits)
  then show "recv_ok c'" using c by (simp add: x(4) recv_ok_def)
  show "ws_same c c'" by (simp add: x(4))
qed

lemma frame_inv:
  assumes inv: "ws_inv env c" and run: "websocket_recv_frame env c = Some (Inr (1, c'))"
  shows "ws_inv env c'"
proof -
  have c: "recv_ok c" "we_maxframe env < 2 ^ 62" "queue_ok c" "\<not> close_empty c" using inv by (simp_all add: ws_inv_def)
  obtain op moff extra len where h: "ws_header c = Inr (op, moff, extra, len)"
    using run unfolding websocket_recv_frame_header by (cases "ws_header c") auto
  define total where "total = size_mod (len + (extra + 2) + 4)"
  define b where "b = nb_b_len (the (rnb c))"
  have len: "len \<le> we_maxframe env"
    using run unfolding websocket_recv_frame_header h by (auto split: if_splits)
  have total: "total < 2 ^ 63" using len c(2) ws_header_bound [OF h] by (simp add: total_def)
  have eq: "websocket_recv_frame env c =
     (if total > b then Some (bindR (net_recv_expand (total - b) WsFrame c) (\<lambda>c'. Inr (1, c')))
      else if total \<noteq> b then Some (Inr (0, c))
      else (case recv_unmask c moff len of
              Inl e \<Rightarrow> Some (Inl e)
            | Inr (d, c1) \<Rightarrow>
                (case websocket_dispatch env op d c1 of
                   None \<Rightarrow> None
                 | Some (Inl e) \<Rightarrow> Some (Inl e)
                 | Some (Inr (None, c2)) \<Rightarrow> Some (Inr (0, c2))
                 | Some (Inr (Some ret, c2)) \<Rightarrow>
                     Some (bindR (net_recv_reset (we_pmax env) 2 WsOpcode c2) (\<lambda>c3. Inr (ret, c3))))))"
    unfolding websocket_recv_frame_header h sum.case prod.case Let_def total_def [symmetric] b_def [symmetric] using len by simp
  show ?thesis
  proof (cases "total > b")
    case True
    then have e: "net_recv_expand (total - b) WsFrame c = Inr c'" using run unfolding eq by (auto simp: bindR_Inr_iff)
    have "nb_b_len (the (rnb c)) + (total - b) < 2 ^ 63" using True total by (simp add: b_def [symmetric])
    note x = expand_inv [OF c(1) this e]
    then show ?thesis using c ws_sameD [OF x(2)] by (simp add: ws_inv_def)
  next
    case False
    then obtain d c1 c2 where x: "recv_unmask c moff len = Inr (d, c1)" "websocket_dispatch env op d c1 = Some (Inr (Some 1, c2))"
        "net_recv_reset (we_pmax env) 2 WsOpcode c2 = Inr c'"
      using run unfolding eq by (auto simp: bindR_Inr_iff split: if_splits sum.splits option.splits)
    note u = unmask_inv [OF c(1) x(1)]
    have "length d < 2 ^ 62" using u(3) len c(2) by simp
    then have c2: "recv_ok c2 \<and> queue_ok c2 \<and> \<not> close_empty c2"
      using dispatch_inv [OF u(1) _ _ _ x(2)] c ws_sameD [OF u(2)] by simp
    then obtain c3 where c3: "net_recv_reset (we_pmax env) 2 WsOpcode c2 = Inr c3" "ws_mid WsOpcode [] 2 c3" "ws_same c2 c3"
      by (auto elim: ws_mid_reset)
    then have "c3 = c'" using x(3) by simp
    then show ?thesis using c2 c(2) c3(2) ws_sameD [OF c3(3)] ws_mid_ok [OF c3(2)] by (simp add: ws_inv_def)
  qed
qed

interpretation ws: recv_callbacks "ws_run env" "ws_inv env" for env
proof unfold_locales
  show "recv_ok c" if "ws_inv env c" for c using that by (simp add: ws_inv_def)
  show "ws_inv env (recv_put xs c)" if "ws_inv env c" "length xs \<le> recv_need c" for c :: ws_conn and xs
  proof -
    have "recv_ok c" using that(1) by (simp add: ws_inv_def)
    note p = recv_put_ok [OF this that(2)]
    have "ws_same c (recv_put xs c)" "nb_b_len (the (rnb (recv_put xs c))) = nb_b_len (the (rnb c))"
      by (simp_all add: recv_put_def Let_def)
    then show ?thesis using that(1) p ws_sameD [of c "recv_put xs c"] by (simp add: ws_inv_def)
  qed
  show "ws_inv env c'" if "ws_inv env c" "recv_need c = 0" "nb_cb (the (rnb c)) = Some cb" "ws_run env cb c = Some (Inr (1, c'))" for c cb c'
  proof (cases cb)
    case WsOpcode
    then show ?thesis using opcode_inv [OF that(1)] that(3,4) by simp
  next
    case WsFrame
    then show ?thesis using frame_inv [OF that(1)] that(4) by simp
  next
    case WsSendClean
    then show ?thesis using that(4) by simp
  next
    case WsOtherCb
    then show ?thesis using that(4) by simp
  qed
qed

text \<open>
  C7. Whatever the pieces in which a client's bytes arrive, and with interrupted system calls in
  between, a connection that waits for a frame delivers exactly the messages of the client: for each
  masked text or binary frame (any length up to the configured limit, in its shortest encoding) the
  handler of the application is called once with the unmasked payload, in order; each ping is
  answered by a pong with the same payload behind whatever was queued; pongs are ignored.  All bytes
  are consumed and the connection waits for the next frame.
\<close>

theorem websocket_delivers:
  assumes "ws_ready c" "we_maxframe env < 2 ^ 62" "list_all (ws_client_ok (we_maxframe env)) fs"
    and "\<forall>e \<in> set es. e = RecvIntr \<or> (\<exists>xs. e = Arrive xs)" "arrived es = concat (map ws_client_bytes fs)"
  shows "\<exists>es' c'. net_recv_flush (websocket_disconnect env) (ws_run env) es c = Some (Inr (1, es', c')) \<and> arrived es' = [] \<and>
    ws_calls c' = ws_calls c @ concat (map ws_frame_calls fs) \<and>
    out_stream c' = out_stream c @ concat (map ws_frame_reply fs) \<and> ws_mid WsOpcode [] 2 c'"
proof -
  from ws_feed_frames [OF assms(3,2,1)] obtain c1 where
    feed: "recv_feed (ws_run env) (arrived es) c = Some (Inr (1, [], c1))" and s: "ws_served fs c c1"
    unfolding assms(5) by blast
  have r: "ws_mid WsOpcode [] 2 c" "queue_ok c" "\<not> close_empty c" using assms(1) by (simp_all add: ws_ready_def)
  then have inv: "ws_inv env c" using assms(2) ws_mid_ok [OF r(1)] by (simp add: ws_inv_def)
  from ws.loop_feed [OF inv assms(4) feed, of "websocket_disconnect env"] obtain es' c2 where
    l: "net_recv_loop (websocket_disconnect env) (ws_run env) es c = Some (Inr (1, es', c2))" "arrived es' = []"
      "c2 = c1 \<or> c2 = c1\<lparr>evt_read := False\<rparr>" by blast
  obtain nb where "rnb c = Some nb" using r(1) unfolding ws_mid_def by blast
  then have "net_recv_flush (websocket_disconnect env) (ws_run env) es c = Some (Inr (1, es', c2))"
    using l(1) by (simp add: net_recv_flush_def)
  moreover have "ws_calls c2 = ws_calls c1 \<and> out_stream c2 = out_stream c1 \<and> ws_mid WsOpcode [] 2 c2 = ws_mid WsOpcode [] 2 c1"
    using l(3) by (elim disjE) (simp_all only: ws_mid_def out_stream_def, simp)
  ultimately show ?thesis using l(2) s by (auto simp: ws_served_def ws_ready_def)
qed

definition ws_demo_env :: ws_env where
  "ws_demo_env = \<lparr>we_smax = 64, we_pmax = 64, we_maxframe = 16384\<rparr>"

definition ws_demo_conn :: ws_conn where
  "ws_demo_conn =
     \<lparr>send_queue = [], rnb = Some (net_netbuf_get\<lparr>nb_cb := Some WsOpcode, nb_buf := Some [None, None], nb_recv := True, nb_b_len := 2, nb_m_len := 2\<rparr>),
      evt_read = True, evt_write = True, close_empty = False, disconnecting = False, so_send = [Sent 3], so_sent = [], net_log = [],
      ws_proto = True, ws_close_sent = False, ws_connect = None, ws_message = Some ''onmessage'', ws_disconnect = None, ws_calls = [],
      http_timeout = 0, idle_start = 0, idle_length = 0\<rparr>"

definition ws_demo_frames :: "ws_client list" where
  "ws_demo_frames =
     [\<lparr>wc_fin = True, wc_op = 1, wc_key = ''abcd'', wc_data = ''hello''\<rparr>, \<lparr>wc_fin = True, wc_op = 9, wc_key = ''wxyz'', wc_data = ''hi''\<rparr>]"

lemma ws_demo_ready: "ws_ready ws_demo_conn" "list_all (ws_client_ok (we_maxframe ws_demo_env)) ws_demo_frames"
  by (simp_all add: ws_ready_def ws_demo_conn_def ws_mid_def net_netbuf_get_def block_of_def queue_ok_def ws_demo_frames_def
    ws_client_ok_def ws_demo_env_def)

lemma ws_demo_facts:
  "ws_calls ws_demo_conn = []" "out_stream ws_demo_conn = []" "we_maxframe ws_demo_env < 2 ^ 62"
  "concat (map ws_frame_calls ws_demo_frames) = [WsMessage 1 ''hello'']"
  "concat (map ws_frame_reply ws_demo_frames) = ws_frame 10 ''hi''"
  by (simp_all add: ws_demo_env_def ws_demo_conn_def out_stream_def ws_demo_frames_def ws_frame_calls_def ws_frame_reply_def)

theorem websocket_delivers_witness:
  "\<exists>es' c'. net_recv_flush (websocket_disconnect ws_demo_env) (ws_run ws_demo_env)
     [Arrive (take 5 (concat (map ws_client_bytes ws_demo_frames))), RecvIntr, Arrive (drop 5 (concat (map ws_client_bytes ws_demo_frames)))]
     ws_demo_conn = Some (Inr (1, es', c')) \<and>
     ws_calls c' = [WsMessage 1 ''hello''] \<and> out_stream c' = ws_frame 10 ''hi''"
  using websocket_delivers [OF ws_demo_ready(1) ws_demo_facts(3) ws_demo_ready(2), of
    "[Arrive (take 5 (concat (map ws_client_bytes ws_demo_frames))), RecvIntr, Arrive (drop 5 (concat (map ws_client_bytes ws_demo_frames)))]"]
  unfolding ws_demo_facts by (fastforce simp del: concat.simps)

lemma length_fips_sha1 [simp]: "length (fips_sha1 m) = 20"
proof -
  have "length (fst (fold_blocks 64 fips_sha1_block sha1_iv xs)) = 5" for xs
    using sha1_fold_fips [of xs] by metis
  then show ?thesis by (simp add: fips_sha1_def length_concat sum_list_triv comp_def)
qed

lemma websocket_accept_ok:
  assumes "length key < 2 ^ 32" "length stack = 64"
  obtains accept where "websocket_accept stack key = Inr (Some accept)"
    "kore_base64_encode (map (\<lambda>w. char_of (unat w)) (fips_sha1 (map of_char (key @ WEBSOCKET_SERVER_RESPONSE)))) = Inr (Some accept)"
proof -
  define t where "t = key @ WEBSOCKET_SERVER_RESPONSE"
  define digest where "digest = map (\<lambda>w. char_of (unat w)) (fips_sha1 (map of_char t))"
  have "buf_room (kore_buf_alloc 128) (length t)"
    using assms(1) by (simp add: buf_room_def t_def WEBSOCKET_SERVER_RESPONSE_def)
  then obtain buf where buf: "kore_buf_append (kore_buf_alloc 128) t = Inr buf" "buf_bytes buf = t"
    by (rule kb.append_bytes) simp
  have "map_option fst (SHA1Final (SHA1Update (SHA1Init stack) (map of_char t))) = Some (fips_sha1 (map of_char t))"
    using sha1.hash_pieces [of "SHA1Init stack" "[map of_char t]"] assms(2) by auto
  then obtain c where fin: "SHA1Final (SHA1Update (SHA1Init stack) (map of_char t)) = Some (fips_sha1 (map of_char t), c)" by auto
  have "digest \<noteq> []" "4 * length digest + 8 < 2 ^ 32" by (simp_all add: digest_def flip: length_0_conv)
  then obtain accept where a: "kore_base64_encode digest = Inr (Some accept)"
    by (simp add: kore_base64_encode_def b64.encode_spec)
  show ?thesis
  proof (rule that)
    show "websocket_accept stack key = Inr (Some accept)"
      unfolding websocket_accept_def t_def [symmetric] buf(1) bindR.simps buf(2) fin by (simp add: digest_def [symmetric] a)
    show "kore_base64_encode (map (\<lambda>w. char_of (unat w)) (fips_sha1 (map of_char (key @ WEBSOCKET_SERVER_RESPONSE)))) = Inr (Some accept)"
      using a by (simp only: digest_def t_def)
  qed
qed

text \<open>
  C40. The handshake of a request with key and version 13 answers with status 101 and the accept value
  that RFC 6455 prescribes: the base64 encoding of the SHA-1 digest (FIPS 180-4) of the key followed by
  the fixed identifier.  The connection then waits for the header of a frame.  Any other version, or a
  missing header, is answered with status 400 and the connection is left alone.
\<close>

theorem kore_websocket_handshake_correct:
  assumes "rnb c = Some nb" "nb_buf nb = Some mem" "length mem = nb_m_len nb" "length key < 2 ^ 32" "length stack = 64"
    and "\<forall>name \<in> set_option onconnect \<union> set_option onmessage \<union> set_option ondisconnect. getcall name"
  shows "(\<exists>accept c'. kore_websocket_handshake env getcall stack now timeout (Some key) (Some ''13'') onconnect onmessage ondisconnect c =
      Inr (101, [(''upgrade'', ''websocket''), (''connection'', ''upgrade''), (''sec-websocket-accept'', accept)], c') \<and>
    kore_base64_encode (map (\<lambda>w. char_of (unat w)) (fips_sha1 (map of_char (key @ WEBSOCKET_SERVER_RESPONSE)))) = Inr (Some accept) \<and>
    ws_mid WsOpcode [] 2 c' \<and> ws_proto c' \<and> ws_message c' = onmessage) \<and>
    (v \<noteq> Some ''13'' \<longrightarrow> (\<exists>hs. kore_websocket_handshake env getcall stack now timeout k v onconnect onmessage ondisconnect c = Inr (400, hs, c)))"
proof
  obtain accept where a: "websocket_accept stack key = Inr (Some accept)"
    "kore_base64_encode (map (\<lambda>w. char_of (unat w)) (fips_sha1 (map of_char (key @ WEBSOCKET_SERVER_RESPONSE)))) = Inr (Some accept)"
    by (rule websocket_accept_ok [OF assms(4,5)])
  have h: "ws_handler getcall w onconnect = Inr onconnect" "ws_handler getcall w onmessage = Inr onmessage"
    "ws_handler getcall w ondisconnect = Inr ondisconnect" for w
    using assms(6) by (auto simp: ws_handler_def split: option.splits)
  define keep where "keep \<longleftrightarrow> 2 \<le> nb_m_len nb \<and> nb_m_len nb < we_pmax env div 2"
  define nb1 where "nb1 = (if keep then nb\<lparr>nb_cb := Some WsOpcode, nb_s_off := 0, nb_b_len := 2\<rparr>
    else nb\<lparr>nb_cb := Some WsOpcode, nb_s_off := 0, nb_b_len := 2, nb_buf := Some (replicate 2 None), nb_m_len := 2\<rparr>)"
  define m1 where "m1 = (if keep then mem else replicate 2 None)"
  have r: "net_recv_reset (we_pmax env) 2 WsOpcode (c\<lparr>ws_proto := True\<rparr>) = Inr (c\<lparr>ws_proto := True, rnb := Some nb1\<rparr>)"
    "nb_buf nb1 = Some m1" "length m1 = nb_m_len nb1" "2 \<le> nb_m_len nb1" "nb_b_len nb1 = 2" "nb_s_off nb1 = 0" "nb_cb nb1 = Some WsOpcode"
    using assms(1-3) by (simp_all add: net_recv_reset_def Let_def nb1_def m1_def keep_def)
  show "\<exists>accept c'. kore_websocket_handshake env getcall stack now timeout (Some key) (Some ''13'') onconnect onmessage ondisconnect c =
      Inr (101, [(''upgrade'', ''websocket''), (''connection'', ''upgrade''), (''sec-websocket-accept'', accept)], c') \<and>
    kore_base64_encode (map (\<lambda>w. char_of (unat w)) (fips_sha1 (map of_char (key @ WEBSOCKET_SERVER_RESPONSE)))) = Inr (Some accept) \<and>
    ws_mid WsOpcode [] 2 c' \<and> ws_proto c' \<and> ws_message c' = onmessage"
    unfolding kore_websocket_handshake_def prod.case option.case a(1) bindR.simps r(1) h
    using a(2) r(2-7) by (simp add: ws_mid_def block_of_def)
  show "v \<noteq> Some ''13'' \<longrightarrow> (\<exists>hs. kore_websocket_handshake env getcall stack now timeout k v onconnect onmessage ondisconnect c = Inr (400, hs, c))"
    by (cases k; cases v) (simp_all add: kore_websocket_handshake_def)
qed

theorem kore_websocket_handshake_correct_witness:
  "\<exists>accept c'. kore_websocket_handshake ws_demo_env (\<lambda>_. True) (replicate 64 9) 0 5 (Some ''x'') (Some ''13'') None (Some ''onmessage'') None ws_demo_conn =
      Inr (101, [(''upgrade'', ''websocket''), (''connection'', ''upgrade''), (''sec-websocket-accept'', accept)], c') \<and> ws_mid WsOpcode [] 2 c'"
  using kore_websocket_handshake_correct [of ws_demo_conn _ "[None, None]" "''x''" "replicate 64 9" None "Some ''onmessage''" None "\<lambda>_. True" ws_demo_env 0 5]
  by (fastforce simp: ws_demo_conn_def)

end
