(* ===== verification/Sha2.thy ===== *)
theory Sha2
  imports Hashing
begin

text \<open>
  SHA-256, SHA-384 and SHA-512 as in \<open>src/src/sha2.c\<close>, on a little-endian machine.  The 32-bit and the
  64-bit code differ only in word size, constants and counter, so what they share is written once for
  every word size.  The lengths of blocks and digests, which the code takes from \<open>sha2.h\<close>, are those
  of FIPS 180-4; the lemmas compare the code with the definitions of that standard.
\<close>

unbundle bit_operations_syntax

section \<open>Functions and constants\<close>

definition S32 :: "nat \<Rightarrow> u32 \<Rightarrow> u32" where
  "S32 b x = drop_bit b x OR push_bit (32 - b) x"

definition S64 :: "nat \<Rightarrow> u64 \<Rightarrow> u64" where
  "S64 b x = drop_bit b x OR push_bit (64 - b) x"

definition Ch :: "'a::len word \<Rightarrow> 'a word \<Rightarrow> 'a word \<Rightarrow> 'a word" where
  "Ch x y z = (x AND y) XOR ((NOT x) AND z)"

definition Maj :: "'a::len word \<Rightarrow> 'a word \<Rightarrow> 'a word \<Rightarrow> 'a word" where
  "Maj x y z = (x AND y) XOR (x AND z) XOR (y AND z)"

definition Sigma0_256 :: "u32 \<Rightarrow> u32" where
  "Sigma0_256 x = S32 2 x XOR S32 13 x XOR S32 22 x"

definition Sigma1_256 :: "u32 \<Rightarrow> u32" where
  "Sigma1_256 x = S32 6 x XOR S32 11 x XOR S32 25 x"

definition sigma0_256 :: "u32 \<Rightarrow> u32" where
  "sigma0_256 x = S32 7 x XOR S32 18 x XOR drop_bit 3 x"

definition sigma1_256 :: "u32 \<Rightarrow> u32" where
  "sigma1_256 x = S32 17 x XOR S32 19 x XOR drop_bit 10 x"

definition Sigma0_512 :: "u64 \<Rightarrow> u64" where
  "Sigma0_512 x = S64 28 x XOR S64 34 x XOR S64 39 x"

definition Sigma1_512 :: "u64 \<Rightarrow> u64" where
  "Sigma1_512 x = S64 14 x XOR S64 18 x XOR S64 41 x"

definition sigma0_512 :: "u64 \<Rightarrow> u64" where
  "sigma0_512 x = S64 1 x XOR S64 8 x XOR drop_bit 7 x"

definition sigma1_512 :: "u64 \<Rightarrow> u64" where
  "sigma1_512 x = S64 19 x XOR S64 61 x XOR drop_bit 6 x"

text \<open>The tables, one list for each line of the source.\<close>

definition K256 :: "u32 list" where
  "K256 = concat
     [[0x428a2f98, 0x71374491, 0xb5c0fbcf, 0xe9b5dba5],
      [0x3956c25b, 0x59f111f1, 0x923f82a4, 0xab1c5ed5],
      [0xd807aa98, 0x12835b01, 0x243185be, 0x550c7dc3],
      [0x72be5d74, 0x80deb1fe, 0x9bdc06a7, 0xc19bf174],
      [0xe49b69c1, 0xefbe4786, 0x0fc19dc6, 0x240ca1cc],
      [0x2de92c6f, 0x4a7484aa, 0x5cb0a9dc, 0x76f988da],
      [0x983e5152, 0xa831c66d, 0xb00327c8, 0xbf597fc7],
      [0xc6e00bf3, 0xd5a79147, 0x06ca6351, 0x14292967],
      [0x27b70a85, 0x2e1b2138, 0x4d2c6dfc, 0x53380d13],
      [0x650a7354, 0x766a0abb, 0x81c2c92e, 0x92722c85],
      [0xa2bfe8a1, 0xa81a664b, 0xc24b8b70, 0xc76c51a3],
      [0xd192e819, 0xd6990624, 0xf40e3585, 0x106aa070],
      [0x19a4c116, 0x1e376c08, 0x2748774c, 0x34b0bcb5],
      [0x391c0cb3, 0x4ed8aa4a, 0x5b9cca4f, 0x682e6ff3],
      [0x748f82ee, 0x78a5636f, 0x84c87814, 0x8cc70208],
      [0x90befffa, 0xa4506ceb, 0xbef9a3f7, 0xc67178f2]]"

definition sha256_initial_hash_value :: "u32 list" where
  "sha256_initial_hash_value =
     [0x6a09e667, 0xbb67ae85, 0x3c6ef372, 0xa54ff53a,
      0x510e527f, 0x9b05688c, 0x1f83d9ab, 0x5be0cd19]"

definition K512 :: "u64 list" where
  "K512 = concat
     [[0x428a2f98d728ae22, 0x7137449123ef65cd],
      [0xb5c0fbcfec4d3b2f, 0xe9b5dba58189dbbc],
      [0x3956c25bf348b538, 0x59f111f1b605d019],
      [0x923f82a4af194f9b, 0xab1c5ed5da6d8118],
      [0xd807aa98a3030242, 0x12835b0145706fbe],
      [0x243185be4ee4b28c, 0x550c7dc3d5ffb4e2],
      [0x72be5d74f27b896f, 0x80deb1fe3b1696b1],
      [0x9bdc06a725c71235, 0xc19bf174cf692694],
      [0xe49b69c19ef14ad2, 0xefbe4786384f25e3],
      [0x0fc19dc68b8cd5b5, 0x240ca1cc77ac9c65],
      [0x2de92c6f592b0275, 0x4a7484aa6ea6e483],
      [0x5cb0a9dcbd41fbd4, 0x76f988da831153b5],
      [0x983e5152ee66dfab, 0xa831c66d2db43210],
      [0xb00327c898fb213f, 0xbf597fc7beef0ee4],
      [0xc6e00bf33da88fc2, 0xd5a79147930aa725],
      [0x06ca6351e003826f, 0x142929670a0e6e70],
      [0x27b70a8546d22ffc, 0x2e1b21385c26c926],
      [0x4d2c6dfc5ac42aed, 0x53380d139d95b3df],
      [0x650a73548baf63de, 0x766a0abb3c77b2a8],
      [0x81c2c92e47edaee6, 0x92722c851482353b],
      [0xa2bfe8a14cf10364, 0xa81a664bbc423001],
      [0xc24b8b70d0f89791, 0xc76c51a30654be30],
      [0xd192e819d6ef5218, 0xd69906245565a910],
      [0xf40e35855771202a, 0x106aa07032bbd1b8],
      [0x19a4c116b8d2d0c8, 0x1e376c085141ab53],
      [0x2748774cdf8eeb99, 0x34b0bcb5e19b48a8],
      [0x391c0cb3c5c95a63, 0x4ed8aa4ae3418acb],
      [0x5b9cca4f7763e373, 0x682e6ff3d6b2b8a3],
      [0x748f82ee5defb2fc, 0x78a5636f43172f60],
      [0x84c87814a1f0ab72, 0x8cc702081a6439ec],
      [0x90befffa23631e28, 0xa4506cebde82bde9],
      [0xbef9a3f7b2c67915, 0xc67178f2e372532b],
      [0xca273eceea26619c, 0xd186b8c721c0c207],
      [0xeada7dd6cde0eb1e, 0xf57d4f7fee6ed178],
      [0x06f067aa72176fba, 0x0a637dc5a2c898a6],
      [0x113f9804bef90dae, 0x1b710b35131c471b],
      [0x28db77f523047d84, 0x32caab7b40c72493],
      [0x3c9ebe0a15c9bebc, 0x431d67c49c100d4c],
      [0x4cc5d4becb3e42b6, 0x597f299cfc657e2a],
      [0x5fcb6fab3ad6faec, 0x6c44198c4a475817]]"

definition sha512_initial_hash_value :: "u64 list" where
  "sha512_initial_hash_value =
     [0x6a09e667f3bcc908, 0xbb67ae8584caa73b, 0x3c6ef372fe94f82b, 0xa54ff53a5f1d36f1,
      0x510e527fade682d1, 0x9b05688c2b3e6c1f, 0x1f83d9abfb41bd6b, 0x5be0cd19137e2179]"

definition sha384_initial_hash_value :: "u64 list" where
  "sha384_initial_hash_value =
     [0xcbbb9d5dc1059ed8, 0x629a292a367cd507, 0x9159015a3070dd17, 0x152fecd8f70e5939,
      0x67332667ffc00b31, 0x8eb44a8768581511, 0xdb0c2e0d64f98fa7, 0x47b5481dbefa4fa4]"

section \<open>One block\<close>

text \<open>
  The word of round \<open>j\<close>: loaded from the data in the first sixteen rounds, computed in place in the
  later ones.
\<close>

definition sha2_expand ::
  "('a word \<Rightarrow> 'a word) \<Rightarrow> ('a word \<Rightarrow> 'a word) \<Rightarrow> (nat \<Rightarrow> 'a word) \<Rightarrow> nat \<Rightarrow> 'a::len word list \<Rightarrow> 'a word list" where
  "sha2_expand s0 s1 load j W =
     (if j < 16 then W[j := load j]
      else W[j mod 16 := W ! (j mod 16) +
               (s1 (W ! ((j + 14) mod 16)) + W ! ((j + 9) mod 16) + s0 (W ! ((j + 1) mod 16)))])"

text \<open>The registers that the unrolled code names in round \<open>j\<close>; \<open>a\<close> to \<open>h\<close> are 0 to 7.\<close>

definition sha2_args :: "nat \<Rightarrow> nat \<times> nat \<times> nat \<times> nat \<times> nat \<times> nat \<times> nat \<times> nat" where
  "sha2_args j =
     [(0, 1, 2, 3, 4, 5, 6, 7), (7, 0, 1, 2, 3, 4, 5, 6), (6, 7, 0, 1, 2, 3, 4, 5), (5, 6, 7, 0, 1, 2, 3, 4),
      (4, 5, 6, 7, 0, 1, 2, 3), (3, 4, 5, 6, 7, 0, 1, 2), (2, 3, 4, 5, 6, 7, 0, 1), (1, 2, 3, 4, 5, 6, 7, 0)] ! (j mod 8)"

text \<open>The part of the macros that works on the registers, for one word \<open>w\<close> and one constant \<open>k\<close>.\<close>

definition sha2_mix ::
  "('a word \<Rightarrow> 'a word) \<Rightarrow> ('a word \<Rightarrow> 'a word) \<Rightarrow> nat \<Rightarrow> 'a word \<Rightarrow> 'a word \<Rightarrow> 'a::len word list \<Rightarrow> 'a word list" where
  "sha2_mix S0 S1 j k w r =
     (let (a, b, c, d, e, f, g, h) = sha2_args j;
          T1 = r ! h + S1 (r ! e) + Ch (r ! e) (r ! f) (r ! g) + k + w;
          r1 = r[d := r ! d + T1]
      in r1[h := T1 + S0 (r1 ! a) + Maj (r1 ! a) (r1 ! b) (r1 ! c)])"

definition ROUND256 :: "u8 list \<Rightarrow> nat \<Rightarrow> u32 list \<times> u32 list \<Rightarrow> u32 list \<times> u32 list" where
  "ROUND256 data j s =
     (let (r, W256) = s;
          W = sha2_expand sigma0_256 sigma1_256 (\<lambda>j. BE_8_TO_32 (take 4 (drop (4 * j) data))) j W256
      in (sha2_mix Sigma0_256 Sigma1_256 j (K256 ! j) (W ! (j mod 16)) r, W))"

definition ROUND512 :: "u8 list \<Rightarrow> nat \<Rightarrow> u64 list \<times> u64 list \<Rightarrow> u64 list \<times> u64 list" where
  "ROUND512 data j s =
     (let (r, W512) = s;
          W = sha2_expand sigma0_512 sigma1_512 (\<lambda>j. BE_8_TO_64 (take 8 (drop (8 * j) data))) j W512
      in (sha2_mix Sigma0_512 Sigma1_512 j (K512 ! j) (W ! (j mod 16)) r, W))"

text \<open>The words \<open>W256\<close> and \<open>W512\<close> are written before they are read.\<close>

definition SHA256Transform :: "u32 list \<Rightarrow> u8 list \<Rightarrow> u32 list" where
  "SHA256Transform st data = map2 (+) st (fst (fold (ROUND256 data) [0..<64] (st, replicate 16 0)))"

definition SHA512Transform :: "u64 list \<Rightarrow> u8 list \<Rightarrow> u64 list" where
  "SHA512Transform st data = map2 (+) st (fst (fold (ROUND512 data) [0..<80] (st, replicate 16 0)))"

definition SHA384Transform :: "u64 list \<Rightarrow> u8 list \<Rightarrow> u64 list" where
  "SHA384Transform st data = SHA512Transform st data"

text \<open>The code for machines without \<open>SHA2_UNROLL_TRANSFORM\<close> shifts the registers instead.\<close>

type_synonym 'a regs = "'a word \<times> 'a word \<times> 'a word \<times> 'a word \<times> 'a word \<times> 'a word \<times> 'a word \<times> 'a word"

definition sha2_shift ::
  "('a word \<Rightarrow> 'a word) \<Rightarrow> ('a word \<Rightarrow> 'a word) \<Rightarrow> 'a word \<Rightarrow> 'a word \<Rightarrow> 'a::len regs \<Rightarrow> 'a regs" where
  "sha2_shift S0 S1 k w = (\<lambda>(a, b, c, d, e, f, g, h).
     (let T1 = h + S1 e + Ch e f g + k + w; T2 = S0 a + Maj a b c
      in (T1 + T2, a, b, c, d + T1, e, f, g)))"

definition sha2_load :: "'a::len word list \<Rightarrow> 'a regs" where
  "sha2_load st = (st ! 0, st ! 1, st ! 2, st ! 3, st ! 4, st ! 5, st ! 6, st ! 7)"

definition sha2_add :: "'a::len word list \<Rightarrow> 'a regs \<Rightarrow> 'a word list" where
  "sha2_add st = (\<lambda>(a, b, c, d, e, f, g, h).
     [st ! 0 + a, st ! 1 + b, st ! 2 + c, st ! 3 + d, st ! 4 + e, st ! 5 + f, st ! 6 + g, st ! 7 + h])"

definition SHA256Transform_loop :: "u32 list \<Rightarrow> u8 list \<Rightarrow> u32 list" where
  "SHA256Transform_loop st data =
     sha2_add st (fst (fold (\<lambda>j (r, W256).
       let W = sha2_expand sigma0_256 sigma1_256 (\<lambda>j. BE_8_TO_32 (take 4 (drop (4 * j) data))) j W256
       in (sha2_shift Sigma0_256 Sigma1_256 (K256 ! j) (W ! (j mod 16)) r, W)) [0..<64] (sha2_load st, replicate 16 0)))"

definition SHA512Transform_loop :: "u64 list \<Rightarrow> u8 list \<Rightarrow> u64 list" where
  "SHA512Transform_loop st data =
     sha2_add st (fst (fold (\<lambda>j (r, W512).
       let W = sha2_expand sigma0_512 sigma1_512 (\<lambda>j. BE_8_TO_64 (take 8 (drop (8 * j) data))) j W512
       in (sha2_shift Sigma0_512 Sigma1_512 (K512 ! j) (W ! (j mod 16)) r, W)) [0..<80] (sha2_load st, replicate 16 0)))"

section \<open>Contexts\<close>

text \<open>The union \<open>state\<close> holds words of one size at a time; the buffer has room for the larger block.\<close>

record 'w sha2_ctx =
  c_state :: "'w list"
  bitcount0 :: u64
  bitcount1 :: u64
  c_buffer :: "u8 list"

definition SHA256Init :: "u64 \<Rightarrow> u32 sha2_ctx" where
  "SHA256Init garbage =
     \<lparr>c_state = sha256_initial_hash_value, bitcount0 = 0, bitcount1 = garbage, c_buffer = replicate 128 0\<rparr>"

definition SHA512Init :: "u64 sha2_ctx" where
  "SHA512Init = \<lparr>c_state = sha512_initial_hash_value, bitcount0 = 0, bitcount1 = 0, c_buffer = replicate 128 0\<rparr>"

definition SHA384Init :: "u64 sha2_ctx" where
  "SHA384Init = \<lparr>c_state = sha384_initial_hash_value, bitcount0 = 0, bitcount1 = 0, c_buffer = replicate 128 0\<rparr>"

text \<open>Counting \<open>n\<close> bytes.\<close>

definition count256 :: "nat \<Rightarrow> 'a sha2_ctx \<Rightarrow> 'a sha2_ctx" where
  "count256 n c = c\<lparr>bitcount0 := bitcount0 c + push_bit 3 (of_nat n)\<rparr>"

definition ADDINC128 :: "u64 \<Rightarrow> 'a sha2_ctx \<Rightarrow> 'a sha2_ctx" where
  "ADDINC128 n c =
     (let w0 = bitcount0 c + n
      in if w0 < n then c\<lparr>bitcount0 := w0, bitcount1 := bitcount1 c + 1\<rparr> else c\<lparr>bitcount0 := w0\<rparr>)"

definition count512 :: "nat \<Rightarrow> 'a sha2_ctx \<Rightarrow> 'a sha2_ctx" where
  "count512 n c = ADDINC128 (push_bit 3 (of_nat n)) c"

text \<open>
  The loop over complete blocks and what follows it, and the whole function, for blocks of \<open>B\<close> bytes,
  a way to count and a compression function.
\<close>

function sha2_blocks ::
  "nat \<Rightarrow> (nat \<Rightarrow> 'a::len word sha2_ctx \<Rightarrow> 'a word sha2_ctx) \<Rightarrow> ('a word list \<Rightarrow> u8 list \<Rightarrow> 'a word list) \<Rightarrow>
   'a word sha2_ctx \<Rightarrow> u8 list \<Rightarrow> 'a word sha2_ctx" where
  "sha2_blocks B cnt tr c data =
     (if 0 < B \<and> B \<le> length data
      then sha2_blocks B cnt tr (cnt B (c\<lparr>c_state := tr (c_state c) (take B data)\<rparr>)) (drop B data)
      else if 0 < length data
      then cnt (length data) (c\<lparr>c_buffer := buf_put (c_buffer c) 0 data\<rparr>)
      else c)"
  by pat_completeness auto
termination
  by (relation "measure (\<lambda>(B, cnt, tr, c, data). length data)") auto

declare sha2_blocks.simps [simp del]

definition usedspace :: "nat \<Rightarrow> 'a word sha2_ctx \<Rightarrow> nat" where
  "usedspace B c = unat (drop_bit 3 (bitcount0 c)) mod B"

definition sha2_update ::
  "nat \<Rightarrow> (nat \<Rightarrow> 'a::len word sha2_ctx \<Rightarrow> 'a word sha2_ctx) \<Rightarrow> ('a word list \<Rightarrow> u8 list \<Rightarrow> 'a word list) \<Rightarrow>
   'a word sha2_ctx \<Rightarrow> u8 list \<Rightarrow> 'a word sha2_ctx" where
  "sha2_update B cnt tr c data =
     (let len = length data; used = usedspace B c in
      if len = 0 then c
      else if used > 0
      then (let free = B - used in
            if len \<ge> free
            then (let buf = buf_put (c_buffer c) used (take free data)
                  in sha2_blocks B cnt tr ((cnt free (c\<lparr>c_buffer := buf\<rparr>))\<lparr>c_state := tr (c_state c) buf\<rparr>) (drop free data))
            else cnt len (c\<lparr>c_buffer := buf_put (c_buffer c) used data\<rparr>))
      else sha2_blocks B cnt tr c data)"

definition SHA256Update :: "u32 sha2_ctx \<Rightarrow> u8 list \<Rightarrow> u32 sha2_ctx" where
  "SHA256Update = sha2_update 64 count256 SHA256Transform"

definition SHA512Update :: "u64 sha2_ctx \<Rightarrow> u8 list \<Rightarrow> u64 sha2_ctx" where
  "SHA512Update = sha2_update 128 count512 SHA512Transform"

definition SHA384Update :: "u64 sha2_ctx \<Rightarrow> u8 list \<Rightarrow> u64 sha2_ctx" where
  "SHA384Update c data = SHA512Update c data"

text \<open>\<open>zeros\<close> is the number of bytes that the second \<open>memset\<close> clears.\<close>

definition sha2_pad ::
  "nat \<Rightarrow> nat \<Rightarrow> nat \<Rightarrow> ('a::len word list \<Rightarrow> u8 list \<Rightarrow> 'a word list) \<Rightarrow> u8 list \<Rightarrow> 'a word sha2_ctx \<Rightarrow> 'a word sha2_ctx" where
  "sha2_pad B short zeros tr len c =
     (let used = usedspace B c;
          c1 = (if used > 0
                then (let buf = buf_put (c_buffer c) used [0x80]; used' = used + 1 in
                      if used' \<le> short
                      then c\<lparr>c_buffer := buf_put buf used' (replicate (short - used') 0)\<rparr>
                      else (let buf' = (if used' < B then buf_put buf used' (replicate (B - used') 0) else buf)
                            in c\<lparr>c_state := tr (c_state c) buf', c_buffer := buf_put buf' 0 (replicate zeros 0)\<rparr>))
                else c\<lparr>c_buffer := buf_put (buf_put (c_buffer c) 0 (replicate short 0)) 0 [0x80]\<rparr>);
          buf = buf_put (c_buffer c1) short len
      in c1\<lparr>c_state := tr (c_state c1) buf, c_buffer := buf\<rparr>)"

definition SHA256Pad :: "u32 sha2_ctx \<Rightarrow> u32 sha2_ctx" where
  "SHA256Pad c = sha2_pad 64 (64 - 8) (64 - 8) SHA256Transform (be_bytes 8 (bitcount0 c)) c"

definition SHA512Pad :: "u64 sha2_ctx \<Rightarrow> u64 sha2_ctx" where
  "SHA512Pad c =
     sha2_pad 128 (128 - 16) (128 - 2) SHA512Transform (be_bytes 8 (bitcount1 c) @ be_bytes 8 (bitcount0 c)) c"

definition SHA384Pad :: "u64 sha2_ctx \<Rightarrow> u64 sha2_ctx" where
  "SHA384Pad c = SHA512Pad c"

text \<open>The digest and the context that \<open>kore_mem_zero\<close> leaves.\<close>

definition sha2_zero :: "'a::len word sha2_ctx" where
  "sha2_zero = \<lparr>c_state = replicate 8 0, bitcount0 = 0, bitcount1 = 0, c_buffer = replicate 128 0\<rparr>"

definition SHA256Final :: "u32 sha2_ctx \<Rightarrow> u8 list \<times> u32 sha2_ctx" where
  "SHA256Final c = (concat (map (\<lambda>i. be_bytes 4 (c_state (SHA256Pad c) ! i)) [0..<8]), sha2_zero)"

definition SHA512Final :: "u64 sha2_ctx \<Rightarrow> u8 list \<times> u64 sha2_ctx" where
  "SHA512Final c = (concat (map (\<lambda>i. be_bytes 8 (c_state (SHA512Pad c) ! i)) [0..<8]), sha2_zero)"

definition SHA384Final :: "u64 sha2_ctx \<Rightarrow> u8 list \<times> u64 sha2_ctx" where
  "SHA384Final c = (concat (map (\<lambda>i. be_bytes 8 (c_state (SHA384Pad c) ! i)) [0..<6]), sha2_zero)"

section \<open>The standard\<close>

definition fips_Sigma :: "nat \<Rightarrow> nat \<Rightarrow> nat \<Rightarrow> 'a::len word \<Rightarrow> 'a word" where
  "fips_Sigma i j k x = word_rotr i x XOR word_rotr j x XOR word_rotr k x"

definition fips_sigma :: "nat \<Rightarrow> nat \<Rightarrow> nat \<Rightarrow> 'a::len word \<Rightarrow> 'a word" where
  "fips_sigma i j k x = word_rotr i x XOR word_rotr j x XOR drop_bit k x"

fun fips_sha2_W :: "('a word \<Rightarrow> 'a word) \<Rightarrow> ('a word \<Rightarrow> 'a word) \<Rightarrow> (nat \<Rightarrow> 'a word) \<Rightarrow> nat \<Rightarrow> 'a::len word" where
  "fips_sha2_W s0 s1 M t =
     (if t < 16 then M t
      else s1 (fips_sha2_W s0 s1 M (t - 2)) + fips_sha2_W s0 s1 M (t - 7) +
           s0 (fips_sha2_W s0 s1 M (t - 15)) + fips_sha2_W s0 s1 M (t - 16))"

declare fips_sha2_W.simps [simp del]

definition fips_sha2_step ::
  "('a word \<Rightarrow> 'a word) \<Rightarrow> ('a word \<Rightarrow> 'a word) \<Rightarrow> 'a word \<Rightarrow> 'a word \<Rightarrow> 'a::len regs \<Rightarrow> 'a regs" where
  "fips_sha2_step S0 S1 K W = (\<lambda>(a, b, c, d, e, f, g, h).
     (let T1 = h + S1 e + fips_Ch e f g + K + W; T2 = S0 a + fips_Maj a b c
      in (T1 + T2, a, b, c, d + T1, e, f, g)))"

definition fips_sha256_block :: "u32 list \<Rightarrow> u8 list \<Rightarrow> u32 list" where
  "fips_sha256_block H m =
     sha2_add H (fold (\<lambda>t. fips_sha2_step (fips_Sigma 2 13 22) (fips_Sigma 6 11 25) (K256 ! t)
       (fips_sha2_W (fips_sigma 7 18 3) (fips_sigma 17 19 10) (\<lambda>t. BE_8_TO_32 (take 4 (drop (4 * t) m))) t)) [0..<64] (sha2_load H))"

definition fips_sha512_block :: "u64 list \<Rightarrow> u8 list \<Rightarrow> u64 list" where
  "fips_sha512_block H m =
     sha2_add H (fold (\<lambda>t. fips_sha2_step (fips_Sigma 28 34 39) (fips_Sigma 14 18 41) (K512 ! t)
       (fips_sha2_W (fips_sigma 1 8 7) (fips_sigma 19 61 6) (\<lambda>t. BE_8_TO_64 (take 8 (drop (8 * t) m))) t)) [0..<80] (sha2_load H))"

definition fips_sha256 :: "u8 list \<Rightarrow> u8 list" where
  "fips_sha256 m =
     concat (map (be_bytes 4) (fst (fold_blocks 64 fips_sha256_block sha256_initial_hash_value
       (m @ sha_padding 64 8 (be_bytes 8 (of_nat (8 * length m) :: u64)) (length m)))))"

definition fips_sha512_from :: "u64 list \<Rightarrow> u8 list \<Rightarrow> u8 list" where
  "fips_sha512_from iv m =
     concat (map (be_bytes 8) (fst (fold_blocks 128 fips_sha512_block iv
       (m @ sha_padding 128 16 (be_bytes 16 (of_nat (8 * length m) :: 128 word)) (length m)))))"

definition fips_sha512 :: "u8 list \<Rightarrow> u8 list" where
  "fips_sha512 = fips_sha512_from sha512_initial_hash_value"

definition fips_sha384 :: "u8 list \<Rightarrow> u8 list" where
  "fips_sha384 m = take 48 (fips_sha512_from sha384_initial_hash_value m)"

section \<open>One block is compressed as in the standard\<close>

lemma shifts_rotr:
  fixes x :: "'a::len word"
  assumes "0 < b" "b < LENGTH('a)"
  shows "drop_bit b x OR push_bit (LENGTH('a) - b) x = word_rotr b x"
proof (rule bit_word_eqI)
  fix n
  assume n: "n < LENGTH('a)"
  define L where "L = LENGTH('a)"
  have rot: "bit (word_rotr b x) n = bit x ((n + b) mod L)"
    using n by (simp add: bit_word_rotr_iff L_def)
  have sh: "bit (drop_bit b x OR push_bit (LENGTH('a) - b) x) n \<longleftrightarrow> bit x (b + n) \<or> L - b \<le> n \<and> bit x (n - (L - b))"
    using n by (auto simp: bit_simps L_def)
  show "bit (drop_bit b x OR push_bit (LENGTH('a) - b) x) n = bit (word_rotr b x) n"
  proof (cases "b + n < L")
    case True
    then have "\<not> L - b \<le> n" by linarith
    then show ?thesis using True unfolding rot sh by (simp add: add.commute)
  next
    case False
    have "\<not> bit x (b + n)" using False bit_imp_le_length [of x "b + n"] by (auto simp: L_def)
    moreover have "n - (L - b) = b + n - L" "L - b \<le> n" using False assms(2) unfolding L_def by linarith+
    moreover have "(n + b) mod L = b + n - L"
      using False n assms(2) unfolding L_def by (simp add: mod_if add.commute)
    ultimately show ?thesis unfolding rot sh by simp
  qed
qed

lemma S32_rotr: "b < 32 \<Longrightarrow> 0 < b \<Longrightarrow> S32 b x = word_rotr b x"
  using shifts_rotr [of b x] by (simp add: S32_def)

lemma S64_rotr: "b < 64 \<Longrightarrow> 0 < b \<Longrightarrow> S64 b x = word_rotr b x"
  using shifts_rotr [of b x] by (simp add: S64_def)

lemma Ch_fips: "Ch = fips_Ch"
  by (simp add: Ch_def fips_Ch_def fun_eq_iff)

lemma Maj_fips: "Maj = fips_Maj"
  by (simp add: Maj_def fips_Maj_def fun_eq_iff)

lemma Sigma_fips:
  "Sigma0_256 = fips_Sigma 2 13 22" "Sigma1_256 = fips_Sigma 6 11 25"
  "sigma0_256 = fips_sigma 7 18 3" "sigma1_256 = fips_sigma 17 19 10"
  "Sigma0_512 = fips_Sigma 28 34 39" "Sigma1_512 = fips_Sigma 14 18 41"
  "sigma0_512 = fips_sigma 1 8 7" "sigma1_512 = fips_sigma 19 61 6"
  by (simp_all add: fun_eq_iff fips_Sigma_def fips_sigma_def S32_rotr S64_rotr
    Sigma0_256_def Sigma1_256_def sigma0_256_def sigma1_256_def Sigma0_512_def Sigma1_512_def sigma0_512_def sigma1_512_def)

lemma sha2_shift_fips: "sha2_shift = fips_sha2_step"
  by (simp add: fun_eq_iff sha2_shift_def fips_sha2_step_def Ch_fips Maj_fips)

text \<open>Before round \<open>j\<close> the window holds the last sixteen words of the message schedule.\<close>

definition window :: "(nat \<Rightarrow> 'w) \<Rightarrow> nat \<Rightarrow> 'w list \<Rightarrow> bool" where
  "window V j W \<longleftrightarrow> length W = 16 \<and> (\<forall>t < j. j \<le> t + 16 \<longrightarrow> W ! (t mod 16) = V t)"

lemma window_start: "length W = 16 \<Longrightarrow> window V 0 W"
  by (simp add: window_def)

lemma mod_16_inj:
  fixes t i :: nat
  assumes "t < i" "i < t + 16"
  shows "t mod 16 \<noteq> i mod 16"
proof
  assume "t mod 16 = i mod 16"
  then have "16 dvd i - t" using assms by (metis less_or_eq_imp_le mod_eq_dvd_iff_nat)
  then show False using assms nat_dvd_not_less [of "i - t" 16] by simp
qed

lemma window_step:
  assumes "window V j W" "x = V j"
  shows "window V (Suc j) (W[j mod 16 := x])"
proof -
  have "W[j mod 16 := x] ! (t mod 16) = V t" if "t < Suc j" "Suc j \<le> t + 16" for t
  proof (cases "t = j")
    case False
    then have "t mod 16 \<noteq> j mod 16" using that by (intro mod_16_inj) auto
    then show ?thesis using that False assms by (simp add: window_def)
  qed (use assms in \<open>simp add: window_def\<close>)
  then show ?thesis using assms by (simp add: window_def)
qed

lemma window_nth:
  assumes "window V (j + 16) W" "k < 16"
  shows "W ! ((j + 16 + k) mod 16) = V (j + k)"
proof -
  have "j + 16 + k = (j + k) + 16" by simp
  then have "(j + 16 + k) mod 16 = (j + k) mod 16" by (simp only: mod_add_self2)
  then show ?thesis using assms by (simp add: window_def)
qed

lemma sha2_W_late:
  "fips_sha2_W s0 s1 M (j + 16) =
     s1 (fips_sha2_W s0 s1 M (j + 14)) + fips_sha2_W s0 s1 M (j + 9) + s0 (fips_sha2_W s0 s1 M (j + 1)) + fips_sha2_W s0 s1 M j"
  by (subst fips_sha2_W.simps) (simp add: numeral_eq_Suc)

lemma sha2_expand_late:
  assumes "window (fips_sha2_W s0 s1 M) (j + 16) W"
  shows "sha2_expand s0 s1 M (j + 16) W = W[(j + 16) mod 16 := fips_sha2_W s0 s1 M (j + 16)]"
proof -
  have W0: "W ! ((j + 16) mod 16) = fips_sha2_W s0 s1 M j" using window_nth [OF assms, of 0] by simp
  note W = window_nth [OF assms, of 1] window_nth [OF assms, of 9] window_nth [OF assms, of 14]
  have "\<not> j + 16 < 16" by simp
  then show ?thesis
    unfolding sha2_expand_def W0 sha2_W_late using W by (simp only: if_False) (simp add: ac_simps)
qed

lemma sha2_expand_window:
  assumes "window (fips_sha2_W s0 s1 M) j W"
  shows "sha2_expand s0 s1 M j W ! (j mod 16) = fips_sha2_W s0 s1 M j"
    "window (fips_sha2_W s0 s1 M) (Suc j) (sha2_expand s0 s1 M j W)"
proof -
  have eq: "sha2_expand s0 s1 M j W = W[j mod 16 := fips_sha2_W s0 s1 M j]"
  proof (cases "j < 16")
    case True
    then show ?thesis by (simp add: sha2_expand_def fips_sha2_W.simps)
  next
    case False
    then obtain i where "j = i + 16" by (metis add.commute le_Suc_ex not_less)
    then show ?thesis using sha2_expand_late assms by blast
  qed
  show "sha2_expand s0 s1 M j W ! (j mod 16) = fips_sha2_W s0 s1 M j"
    using assms by (simp add: eq window_def)
  show "window (fips_sha2_W s0 s1 M) (Suc j) (sha2_expand s0 s1 M j W)"
    unfolding eq by (rule window_step [OF assms refl])
qed

text \<open>The registers in the order in which round \<open>j\<close> names them.\<close>

definition sha2_regs :: "nat \<Rightarrow> 'a::len word list \<Rightarrow> 'a regs" where
  "sha2_regs j r =
     (let (a, b, c, d, e, f, g, h) = sha2_args j in (r ! a, r ! b, r ! c, r ! d, r ! e, r ! f, r ! g, r ! h))"

lemma mod_8_cases:
  "j mod 8 = 0 \<and> Suc j mod 8 = 1 \<or> j mod 8 = 1 \<and> Suc j mod 8 = 2 \<or> j mod 8 = 2 \<and> Suc j mod 8 = 3 \<or>
   j mod 8 = 3 \<and> Suc j mod 8 = 4 \<or> j mod 8 = 4 \<and> Suc j mod 8 = 5 \<or> j mod 8 = 5 \<and> Suc j mod 8 = 6 \<or>
   j mod 8 = 6 \<and> Suc j mod 8 = 7 \<or> j mod 8 = 7 \<and> Suc j mod 8 = 0"
proof -
  have "j mod 8 < 8" by simp
  then have "j mod 8 = 0 \<or> j mod 8 = 1 \<or> j mod 8 = 2 \<or> j mod 8 = 3 \<or> j mod 8 = 4 \<or> j mod 8 = 5 \<or> j mod 8 = 6 \<or> j mod 8 = 7"
    by linarith
  then show ?thesis by (elim disjE) (simp_all add: mod_Suc)
qed

lemma length_8:
  assumes "length r = 8"
  obtains a b c d e f g h where "r = [a, b, c, d, e, f, g, h]"
  using assms by (auto simp: numeral_eq_Suc length_Suc_conv)

lemma sha2_mix_shift:
  assumes "length r = 8"
  shows "sha2_regs (Suc j) (sha2_mix S0 S1 j k w r) = sha2_shift S0 S1 k w (sha2_regs j r)"
    "length (sha2_mix S0 S1 j k w r) = 8"
proof -
  obtain a b c d e f g h where r: "r = [a, b, c, d, e, f, g, h]" using assms by (rule length_8)
  show "sha2_regs (Suc j) (sha2_mix S0 S1 j k w r) = sha2_shift S0 S1 k w (sha2_regs j r)"
    using mod_8_cases [of j]
    by (elim disjE conjE) (simp_all add: r sha2_args_def sha2_regs_def sha2_mix_def sha2_shift_def Let_def ac_simps)
  show "length (sha2_mix S0 S1 j k w r) = 8"
    using assms by (simp add: sha2_mix_def Let_def split: prod.splits)
qed

text \<open>All rounds, for the unrolled code and for the loop.\<close>

lemma sha2_rounds:
  assumes "length r = 8" "length W = 16"
  shows "length (fst (fold (\<lambda>j (r, W). let W' = sha2_expand s0 s1 M j W
             in (sha2_mix S0 S1 j (K ! j) (W' ! (j mod 16)) r, W')) [0..<n] (r, W))) = 8 \<and>
    sha2_regs n (fst (fold (\<lambda>j (r, W). let W' = sha2_expand s0 s1 M j W
             in (sha2_mix S0 S1 j (K ! j) (W' ! (j mod 16)) r, W')) [0..<n] (r, W))) =
      fold (\<lambda>t. fips_sha2_step S0 S1 (K ! t) (fips_sha2_W s0 s1 M t)) [0..<n] (sha2_regs 0 r) \<and>
    window (fips_sha2_W s0 s1 M) n (snd (fold (\<lambda>j (r, W). let W' = sha2_expand s0 s1 M j W
             in (sha2_mix S0 S1 j (K ! j) (W' ! (j mod 16)) r, W')) [0..<n] (r, W)))"
    (is "length (fst (?u n)) = 8 \<and> _")
proof (induction n)
  case (Suc n)
  obtain r' W' where u: "?u n = (r', W')" by fastforce
  note IH = Suc [unfolded u fst_conv snd_conv]
  then have "sha2_expand s0 s1 M n W' ! (n mod 16) = fips_sha2_W s0 s1 M n"
    "window (fips_sha2_W s0 s1 M) (Suc n) (sha2_expand s0 s1 M n W')"
    by (simp_all add: sha2_expand_window)
  then show ?case
    using IH u by (simp add: Let_def sha2_mix_shift sha2_shift_fips)
qed (simp add: assms window_start)

lemma sha2_loop_rounds:
  assumes "length W = 16"
  shows "fst (fold (\<lambda>j (r, W). let W' = sha2_expand s0 s1 M j W
             in (sha2_shift S0 S1 (K ! j) (W' ! (j mod 16)) r, W')) [0..<n] (r, W)) =
      fold (\<lambda>t. fips_sha2_step S0 S1 (K ! t) (fips_sha2_W s0 s1 M t)) [0..<n] r \<and>
    window (fips_sha2_W s0 s1 M) n (snd (fold (\<lambda>j (r, W). let W' = sha2_expand s0 s1 M j W
             in (sha2_shift S0 S1 (K ! j) (W' ! (j mod 16)) r, W')) [0..<n] (r, W)))"
    (is "fst (?u n) = _ \<and> _")
proof (induction n)
  case (Suc n)
  obtain r' W' where u: "?u n = (r', W')" by fastforce
  note IH = Suc [unfolded u fst_conv snd_conv]
  then have "sha2_expand s0 s1 M n W' ! (n mod 16) = fips_sha2_W s0 s1 M n"
    "window (fips_sha2_W s0 s1 M) (Suc n) (sha2_expand s0 s1 M n W')"
    by (simp_all add: sha2_expand_window)
  then show ?case
    using IH u by (simp add: Let_def sha2_shift_fips)
qed (simp add: assms window_start)

lemma sha2_regs_back:
  assumes "length r = 8" "length st = 8" "n mod 8 = 0"
  shows "map2 (+) st r = sha2_add st (sha2_regs n r)" "sha2_regs 0 st = sha2_load st"
  using assms by (auto elim!: length_8 simp: sha2_regs_def sha2_args_def sha2_add_def sha2_load_def)

lemma length_sha2_add [simp]: "length (sha2_add st r) = 8"
  by (simp add: sha2_add_def split: prod.splits)

lemma SHA256Transform_fips:
  assumes "length st = 8"
  shows "SHA256Transform st m = fips_sha256_block st m"
proof -
  define M where "M = (\<lambda>j. BE_8_TO_32 (take 4 (drop (4 * j) m)))"
  have R: "ROUND256 m = (\<lambda>j (r, W). let W' = sha2_expand sigma0_256 sigma1_256 M j W
      in (sha2_mix Sigma0_256 Sigma1_256 j (K256 ! j) (W' ! (j mod 16)) r, W'))"
    by (simp add: fun_eq_iff ROUND256_def M_def split: prod.splits)
  note rounds = sha2_rounds [OF assms, of "replicate 16 0" sigma0_256 sigma1_256 M Sigma0_256 Sigma1_256 K256 64, folded R]
  show ?thesis
    using rounds sha2_regs_back [of _ st 64] assms
    by (simp add: SHA256Transform_def fips_sha256_block_def M_def Sigma_fips)
qed

lemma SHA512Transform_fips:
  assumes "length st = 8"
  shows "SHA512Transform st m = fips_sha512_block st m"
proof -
  define M where "M = (\<lambda>j. BE_8_TO_64 (take 8 (drop (8 * j) m)))"
  have R: "ROUND512 m = (\<lambda>j (r, W). let W' = sha2_expand sigma0_512 sigma1_512 M j W
      in (sha2_mix Sigma0_512 Sigma1_512 j (K512 ! j) (W' ! (j mod 16)) r, W'))"
    by (simp add: fun_eq_iff ROUND512_def M_def split: prod.splits)
  note rounds = sha2_rounds [OF assms, of "replicate 16 0" sigma0_512 sigma1_512 M Sigma0_512 Sigma1_512 K512 80, folded R]
  show ?thesis
    using rounds sha2_regs_back [of _ st 80] assms
    by (simp add: SHA512Transform_def fips_sha512_block_def M_def Sigma_fips)
qed

lemma SHA256Transform_loop_fips: "SHA256Transform_loop st m = fips_sha256_block st m"
  using sha2_loop_rounds [of "replicate 16 0" sigma0_256 sigma1_256 "\<lambda>j. BE_8_TO_32 (take 4 (drop (4 * j) m))" Sigma0_256 Sigma1_256 K256 64 "sha2_load st"]
  by (simp add: SHA256Transform_loop_def fips_sha256_block_def Sigma_fips)

lemma SHA512Transform_loop_fips: "SHA512Transform_loop st m = fips_sha512_block st m"
  using sha2_loop_rounds [of "replicate 16 0" sigma0_512 sigma1_512 "\<lambda>j. BE_8_TO_64 (take 8 (drop (8 * j) m))" Sigma0_512 Sigma1_512 K512 80 "sha2_load st"]
  by (simp add: SHA512Transform_loop_def fips_sha512_block_def Sigma_fips)

text \<open>
  On machines with and without unrolled code the compression functions for 32-bit and 64-bit words
  agree: both give the compression function of FIPS 180-4.
\<close>

theorem sha2_transforms_agree:
  assumes "length st32 = 8" "length st64 = 8"
  shows "SHA256Transform st32 data = fips_sha256_block st32 data \<and>
    SHA256Transform_loop st32 data = fips_sha256_block st32 data \<and>
    SHA512Transform st64 data = fips_sha512_block st64 data \<and>
    SHA512Transform_loop st64 data = fips_sha512_block st64 data"
  using assms by (simp_all add: SHA256Transform_fips SHA256Transform_loop_fips SHA512Transform_fips SHA512Transform_loop_fips)

theorem sha2_transforms_agree_witness:
  "SHA256Transform_loop sha256_initial_hash_value [1] = SHA256Transform sha256_initial_hash_value [1] \<and>
   SHA512Transform_loop sha384_initial_hash_value [1] = SHA512Transform sha384_initial_hash_value [1]"
  using sha2_transforms_agree [of sha256_initial_hash_value sha384_initial_hash_value "[1]"]
  by (simp add: sha256_initial_hash_value_def sha384_initial_hash_value_def)

section \<open>Absorbing and padding\<close>

text \<open>
  \<open>counted c n\<close>: the counter of \<open>c\<close> tells that \<open>n\<close> bytes have been absorbed.  Pieces are shorter than
  2 to the 61 bytes, so that their number of bits fits a machine word.
\<close>

locale sha2_counter =
  fixes B :: nat
    and cnt :: "nat \<Rightarrow> 'a::len word sha2_ctx \<Rightarrow> 'a word sha2_ctx"
    and counted :: "'a word sha2_ctx \<Rightarrow> nat \<Rightarrow> bool"
    and tr :: "'a word list \<Rightarrow> u8 list \<Rightarrow> 'a word list"
  assumes B: "0 < B" "B \<le> 128"
    and cnt_state [simp]: "c_state (cnt k c) = c_state c"
    and cnt_buffer [simp]: "c_buffer (cnt k c) = c_buffer c"
    and counted_cnt: "counted c n \<Longrightarrow> k < 2 ^ 61 \<Longrightarrow> counted (cnt k c) (n + k)"
    and counted_state [simp]: "counted (c\<lparr>c_state := s\<rparr>) n = counted c n"
    and counted_buffer [simp]: "counted (c\<lparr>c_buffer := b\<rparr>) n = counted c n"
    and counted_used: "counted c n \<Longrightarrow> usedspace B c = n mod B"
    and tr_take: "tr s (take B b) = tr s b"
begin

definition absorbed :: "'a word list \<Rightarrow> 'a word sha2_ctx \<Rightarrow> u8 list \<Rightarrow> bool" where
  "absorbed iv c m \<longleftrightarrow>
     counted c (length m) \<and> length (c_buffer c) = 128 \<and>
     fold_blocks B tr iv m = (c_state c, take (length m mod B) (c_buffer c))"

lemma blocks_absorbed:
  assumes "counted c (length m)" "length (c_buffer c) = 128" "fold_blocks B tr iv m = (c_state c, [])"
    "length data < 2 ^ 61"
  shows "absorbed iv (sha2_blocks B cnt tr c data) (m @ data)"
  using assms
proof (induction "length data" arbitrary: c m data rule: less_induct)
  case less
  show ?case
  proof (cases "B \<le> length data")
    case True
    define c' where "c' = cnt B (c\<lparr>c_state := tr (c_state c) (take B data)\<rparr>)"
    have "fold_blocks B tr iv (m @ take B data) = (tr (c_state c) (take B data), [])"
      using fold_blocks_append [OF B(1), of tr iv m "take B data"] less.prems(3) True B(1)
      by (simp add: fold_blocks_one)
    moreover have "counted c' (length (m @ take B data))"
      using counted_cnt [of "c\<lparr>c_state := tr (c_state c) (take B data)\<rparr>" "length m" B] less.prems(1) B(2) True
      by (simp add: c'_def)
    moreover have "length (drop B data) < length data" "length (drop B data) < 2 ^ 61"
      using True B(1) less.prems(4) by simp_all
    ultimately have "absorbed iv (sha2_blocks B cnt tr c' (drop B data)) ((m @ take B data) @ drop B data)"
      using less.hyps [of "drop B data" c' "m @ take B data"] less.prems(2) by (simp add: c'_def)
    then show ?thesis
      using True B(1) by (subst sha2_blocks.simps) (simp add: c'_def)
  next
    case False
    have "length m mod B = 0"
      using fold_blocks_rest(1) [OF B(1) less.prems(3)] by simp
    then have len: "length (m @ data) mod B = length data" using False by (simp add: mod_add_eq [symmetric])
    have fold: "fold_blocks B tr iv (m @ data) = (c_state c, data)"
      using fold_blocks_append [OF B(1), of tr iv m data] less.prems(3) False by simp
    show ?thesis
    proof (cases "data = []")
      case True
      then show ?thesis
        using less.prems False fold len B(1) by (subst sha2_blocks.simps) (simp add: absorbed_def)
    next
      case False
      have "sha2_blocks B cnt tr c data = cnt (length data) (c\<lparr>c_buffer := buf_put (c_buffer c) 0 data\<rparr>)"
        using \<open>\<not> B \<le> length data\<close> False by (subst sha2_blocks.simps) simp
      moreover have "counted (cnt (length data) (c\<lparr>c_buffer := buf_put (c_buffer c) 0 data\<rparr>)) (length (m @ data))"
        using counted_cnt [of "c\<lparr>c_buffer := buf_put (c_buffer c) 0 data\<rparr>" "length m" "length data"] less.prems by simp
      moreover have "length (buf_put (c_buffer c) 0 data) = 128" "take (length data) (buf_put (c_buffer c) 0 data) = data"
        using \<open>\<not> B \<le> length data\<close> B(2) less.prems(2) by (simp_all add: buf_put_def)
      ultimately show ?thesis
        unfolding absorbed_def fold len by simp
    qed
  qed
qed

lemma update_part:
  assumes "absorbed iv c m" "length m mod B + length d < B" "length d < 2 ^ 61"
  shows "absorbed iv (cnt (length d) (c\<lparr>c_buffer := buf_put (c_buffer c) (length m mod B) d\<rparr>)) (m @ d)"
proof -
  define j where "j = length m mod B"
  have c: "counted c (length m)" "length (c_buffer c) = 128" "fold_blocks B tr iv m = (c_state c, take j (c_buffer c))"
    using assms(1) by (simp_all add: absorbed_def j_def)
  have jd: "j + length d < B" using assms(2) by (simp add: j_def)
  have len: "length (m @ d) mod B = j + length d"
    using jd by (metis j_def length_append mod_add_left_eq mod_less)
  have "fold_blocks B tr iv (m @ d) = (c_state c, take j (c_buffer c) @ d)"
    using fold_blocks_append [OF B(1), of tr iv m d] c jd by simp
  moreover have "take (j + length d) (buf_put (c_buffer c) j d) = take j (c_buffer c) @ d"
    using jd B(2) c(2) by (intro take_buf_put) simp
  moreover have "counted (cnt (length d) (c\<lparr>c_buffer := buf_put (c_buffer c) j d\<rparr>)) (length (m @ d))"
    using counted_cnt [of "c\<lparr>c_buffer := buf_put (c_buffer c) j d\<rparr>" "length m" "length d"] c(1) assms(3) by simp
  ultimately show ?thesis
    unfolding absorbed_def len j_def [symmetric] using jd B(2) c(2) by simp
qed

lemma update_full:
  assumes "absorbed iv c m" "B \<le> length m mod B + length d" "length d < 2 ^ 61"
  defines "j \<equiv> length m mod B"
  defines "buf \<equiv> buf_put (c_buffer c) j (take (B - j) d)"
  shows "absorbed iv (sha2_blocks B cnt tr ((cnt (B - j) (c\<lparr>c_buffer := buf\<rparr>))\<lparr>c_state := tr (c_state c) buf\<rparr>) (drop (B - j) d)) (m @ d)"
proof -
  define c' where "c' = (cnt (B - j) (c\<lparr>c_buffer := buf\<rparr>))\<lparr>c_state := tr (c_state c) buf\<rparr>"
  have c: "counted c (length m)" "length (c_buffer c) = 128" "fold_blocks B tr iv m = (c_state c, take j (c_buffer c))"
    using assms(1) by (simp_all add: absorbed_def j_def)
  have j: "j < B" using B(1) by (simp add: j_def)
  have t: "length (take (B - j) d) = B - j" using assms(2) by (simp add: j_def)
  have buf: "take B buf = take j (c_buffer c) @ take (B - j) d" "length buf = 128"
    using take_buf_put [of j "take (B - j) d" "c_buffer c"] t j B(2) c(2) by (simp_all add: buf_def)
  have "length (take j (c_buffer c) @ take (B - j) d) = B" using t j B(2) c(2) by simp
  then have "fold_blocks B tr iv (m @ take (B - j) d) = (tr (c_state c) buf, [])"
    using fold_blocks_append [OF B(1), of tr iv m "take (B - j) d"] c(3) tr_take [of "c_state c" buf]
    by (simp add: fold_blocks_one B(1) buf(1))
  moreover have "counted c' (length (m @ take (B - j) d))"
    using counted_cnt [of "c\<lparr>c_buffer := buf\<rparr>" "length m" "B - j"] c(1) t B(2) by (simp add: c'_def)
  ultimately have "absorbed iv (sha2_blocks B cnt tr c' (drop (B - j) d)) ((m @ take (B - j) d) @ drop (B - j) d)"
    using assms(3) buf(2) by (intro blocks_absorbed) (simp_all add: c'_def)
  then show ?thesis by (simp add: c'_def)
qed

lemma update_absorbed:
  assumes "absorbed iv c m" "length d < 2 ^ 61"
  shows "absorbed iv (sha2_update B cnt tr c d) (m @ d)"
proof -
  have used: "usedspace B c = length m mod B" and B': "length m mod B < B"
    using assms(1) counted_used B(1) by (simp_all add: absorbed_def)
  consider (empty) "d = []" | (block) "d \<noteq> []" "length m mod B = 0"
    | (full) "d \<noteq> []" "0 < length m mod B" "B \<le> length m mod B + length d"
    | (part) "d \<noteq> []" "0 < length m mod B" "length m mod B + length d < B"
    by linarith
  then show ?thesis
  proof cases
    case empty
    then show ?thesis using assms by (simp add: sha2_update_def)
  next
    case block
    then have "sha2_update B cnt tr c d = sha2_blocks B cnt tr c d" by (simp add: sha2_update_def used)
    moreover have "absorbed iv (sha2_blocks B cnt tr c d) (m @ d)"
      using assms block(2) by (intro blocks_absorbed) (simp_all add: absorbed_def)
    ultimately show ?thesis by simp
  next
    case full
    then have "sha2_update B cnt tr c d =
      sha2_blocks B cnt tr ((cnt (B - length m mod B) (c\<lparr>c_buffer := buf_put (c_buffer c) (length m mod B) (take (B - length m mod B) d)\<rparr>))
        \<lparr>c_state := tr (c_state c) (buf_put (c_buffer c) (length m mod B) (take (B - length m mod B) d))\<rparr>) (drop (B - length m mod B) d)"
      by (simp add: sha2_update_def used Let_def)
    then show ?thesis using update_full [OF assms(1) full(3) assms(2)] by simp
  next
    case part
    then have "sha2_update B cnt tr c d = cnt (length d) (c\<lparr>c_buffer := buf_put (c_buffer c) (length m mod B) d\<rparr>)"
      by (simp add: sha2_update_def used Let_def)
    then show ?thesis using update_part [OF assms(1) part(3) assms(2)] by simp
  qed
qed

end

text \<open>The padding fits into the block that is being filled, or needs one more block.\<close>

lemma buf_put_seq:
  assumes "off' = off + length xs" "off' + length ys \<le> length buf"
  shows "buf_put (buf_put buf off xs) off' ys = buf_put buf off (xs @ ys)"
  using assms by (simp add: buf_put_def ac_simps)

context sha2_counter
begin

lemma pad_one_block:
  assumes used: "usedspace B c = j" "j + 1 \<le> B - L" and buf: "length (c_buffer c) = 128" and L: "length len = L" "L < B"
  shows "c_state (sha2_pad B (B - L) zeros tr len c) =
    tr (c_state c) (take j (c_buffer c) @ [0x80] @ replicate (B - L - 1 - j) 0 @ len)"
proof -
  define b where "b = buf_put (c_buffer c) j ([0x80] @ replicate (B - L - 1 - j) 0 @ len)"
  have "c_state (sha2_pad B (B - L) zeros tr len c) = tr (c_state c) b"
  proof (cases "j = 0")
    case False
    have "buf_put (buf_put (c_buffer c) j [0x80]) (j + 1) (replicate (B - L - (j + 1)) 0) =
        buf_put (c_buffer c) j ([0x80] @ replicate (B - L - 1 - j) 0)"
      using buf_put_seq [of "j + 1" j "[0x80]" "replicate (B - L - (j + 1)) 0" "c_buffer c"] used(2) buf B(2) by simp
    moreover have "buf_put (buf_put (c_buffer c) j ([0x80] @ replicate (B - L - 1 - j) 0)) (B - L) len = b"
    proof -
      have "B - L = j + length ([0x80] @ replicate (B - L - 1 - j) 0)" "B - L + length len \<le> length (c_buffer c)"
        using used(2) buf B(2) L by simp_all
      from buf_put_seq [OF this] show ?thesis by (simp add: b_def)
    qed
    ultimately show ?thesis using False used by (simp add: sha2_pad_def Let_def)
  next
    case True
    have "buf_put (buf_put (c_buffer c) 0 (replicate (B - L) 0)) 0 [0x80] = buf_put (c_buffer c) 0 ([0x80] @ replicate (B - L - 1) 0)"
      using L buf B(2) by (simp add: buf_put_def Suc_diff_Suc)
    moreover have "buf_put (buf_put (c_buffer c) 0 ([0x80] @ replicate (B - L - 1) 0)) (B - L) len = b"
    proof -
      have "B - L = 0 + length ([0x80] @ replicate (B - L - 1) 0)" "B - L + length len \<le> length (c_buffer c)"
        using L buf B(2) by simp_all
      from buf_put_seq [OF this] show ?thesis using True by (simp add: b_def)
    qed
    ultimately show ?thesis using True used by (simp add: sha2_pad_def Let_def)
  qed
  moreover have "take B b = take j (c_buffer c) @ [0x80] @ replicate (B - L - 1 - j) 0 @ len"
    using take_buf_put [of j "[0x80] @ replicate (B - L - 1 - j) 0 @ len" "c_buffer c"] used(2) buf B(2) L
    by (simp add: b_def)
  ultimately show ?thesis using tr_take [of "c_state c" b] by simp
qed

lemma pad_two_blocks:
  assumes used: "usedspace B c = j" "j < B" "B - L < j + 1" and buf: "length (c_buffer c) = 128"
    and L: "length len = L" "L < B" and zeros: "B - L \<le> zeros" "zeros \<le> B"
  shows "c_state (sha2_pad B (B - L) zeros tr len c) =
    tr (tr (c_state c) (take j (c_buffer c) @ [0x80] @ replicate (B - 1 - j) 0)) (replicate (B - L) 0 @ len)"
proof -
  define b1 where "b1 = buf_put (c_buffer c) j ([0x80] @ replicate (B - 1 - j) 0)"
  define b2 where "b2 = buf_put (buf_put b1 0 (replicate zeros 0)) (B - L) len"
  have "(if j + 1 < B then buf_put (buf_put (c_buffer c) j [0x80]) (j + 1) (replicate (B - (j + 1)) 0)
      else buf_put (c_buffer c) j [0x80]) = b1"
    using buf_put_seq [of "j + 1" j "[0x80]" "replicate (B - 1 - j) 0" "c_buffer c"] used(2) buf B(2) by (simp add: b1_def)
  moreover have "0 < j" using used(3) L by simp
  ultimately have "c_state (sha2_pad B (B - L) zeros tr len c) = tr (tr (c_state c) b1) b2"
    using used by (cases "Suc j < B") (simp_all add: sha2_pad_def Let_def b2_def)
  moreover have "take B b1 = take j (c_buffer c) @ [0x80] @ replicate (B - 1 - j) 0" "length b1 = 128"
    using take_buf_put [of j "[0x80] @ replicate (B - 1 - j) 0" "c_buffer c"] used(2) buf B(2) by (simp_all add: b1_def)
  moreover from this(2) have "take B b2 = replicate (B - L) 0 @ len"
    using take_buf_put [of "B - L" len "buf_put b1 0 (replicate zeros 0)"] zeros L B(2)
    by (simp add: b2_def) (simp add: buf_put_def min_def)
  ultimately show ?thesis using tr_take [of "c_state c" b1] tr_take [of _ b2] by metis
qed

lemma pad_absorbed:
  assumes abs: "absorbed iv c m" and L: "length len = L" "L < B" and zeros: "B - L \<le> zeros" "zeros \<le> B"
  shows "c_state (sha2_pad B (B - L) zeros tr len c) =
    fst (fold_blocks B tr iv (m @ sha_padding B L len (length m)))"
proof -
  define j where "j = length m mod B"
  define p where "p = take j (c_buffer c)"
  have used: "usedspace B c = j" and buf: "length (c_buffer c) = 128" and j: "j < B"
    and fold: "fold_blocks B tr iv m = (c_state c, p)"
    using abs counted_used B(1) by (simp_all add: absorbed_def j_def p_def)
  have p: "length p = j" using j buf B(2) by (simp add: p_def)
  have spec: "fold_blocks B tr iv (m @ sha_padding B L len (length m)) =
      fold_blocks B tr (c_state c) (p @ [0x80] @ replicate (pad_zeros B L (length m)) 0 @ len)"
    using fold_blocks_append [OF B(1), of tr iv m] fold by (simp add: sha_padding_def)
  show ?thesis
  proof (cases "j + 1 \<le> B - L")
    case True
    then have k: "pad_zeros B L (length m) = B - L - 1 - j"
      using L pad_zeros_small [of "length m" B L] by (simp add: j_def)
    have "length (p @ [0x80] @ replicate (B - L - 1 - j) 0 @ len) = B" using True L p by simp
    then show ?thesis
      unfolding spec k pad_one_block [OF used True buf L] p_def [symmetric] by (simp only: fold_blocks_one [OF B(1)] fst_conv)
  next
    case False
    then have gt: "B - L < j + 1" by simp
    then have k: "pad_zeros B L (length m) = (B - 1 - j) + (B - L)"
      using L pad_zeros_large [of L B "length m"] by (simp add: j_def)
    have b1: "length (p @ [0x80] @ replicate (B - 1 - j) 0) = B" and b2: "length (replicate (B - L) 0 @ len) = B"
      using j L p by simp_all
    have split: "p @ [0x80] @ replicate ((B - 1 - j) + (B - L)) 0 @ len =
        (p @ [0x80] @ replicate (B - 1 - j) 0) @ replicate (B - L) 0 @ len"
      by (simp add: replicate_add)
    show ?thesis
      unfolding spec k split fold_blocks_block [OF B(1) b1] fold_blocks_one [OF B(1) b2]
        pad_two_blocks [OF used j gt buf L zeros] p_def [symmetric] by simp
  qed
qed

end

section \<open>The two counters\<close>

definition counted256 :: "'w sha2_ctx \<Rightarrow> nat \<Rightarrow> bool" where
  "counted256 c n \<longleftrightarrow> bitcount0 c = of_nat (8 * n)"

definition counted512 :: "'w sha2_ctx \<Rightarrow> nat \<Rightarrow> bool" where
  "counted512 c n \<longleftrightarrow> bitcount0 c = of_nat (8 * n) \<and> bitcount1 c = of_nat (8 * n div 2 ^ 64)"

lemma bits_of_bytes: "push_bit 3 (of_nat k) = (of_nat (8 * k) :: u64)"
  by (simp add: push_bit_eq_mult)

lemma counted_usedspace:
  assumes "bitcount0 c = of_nat (8 * n)" "B dvd 2 ^ 61"
  shows "usedspace B c = n mod B"
  unfolding usedspace_def assms(1) by (rule unat_bytes_mod [OF assms(2)])

lemma counted256_count: "counted256 c n \<Longrightarrow> counted256 (count256 k c) (n + k)"
  unfolding counted256_def count256_def bits_of_bytes by (simp add: distrib_left)

text \<open>The carry of \<open>ADDINC128\<close>.\<close>

lemma carry_less:
  assumes "y < 2 ^ 64"
  shows "(of_nat (x + y) :: u64) < of_nat y \<longleftrightarrow> (x + y) div 2 ^ 64 = x div 2 ^ 64 + 1"
    "\<not> (of_nat (x + y) :: u64) < of_nat y \<longleftrightarrow> (x + y) div 2 ^ 64 = x div 2 ^ 64"
proof -
  define q r where "q = x div 2 ^ 64" and "r = x mod (2 ^ 64 :: nat)"
  have x: "x = q * 2 ^ 64 + r" and r: "r < 2 ^ 64" by (simp_all add: q_def r_def)
  have less: "(of_nat (x + y) :: u64) < of_nat y \<longleftrightarrow> (x + y) mod 2 ^ 64 < y"
    unfolding word_less_nat_alt unat_of_nat using assms by simp
  have cases: "(x + y) div 2 ^ 64 = q \<and> (x + y) mod 2 ^ 64 = r + y \<or>
    2 ^ 64 \<le> r + y \<and> (x + y) div 2 ^ 64 = q + 1 \<and> (x + y) mod 2 ^ 64 = r + y - 2 ^ 64"
  proof (cases "r + y < 2 ^ 64")
    case True
    have "x + y = (r + y) + q * 2 ^ 64" using x by simp
    then show ?thesis using True by (simp only: div_mult_self3 mod_mult_self3) simp
  next
    case False
    have "x + y = (r + y - 2 ^ 64) + (q + 1) * 2 ^ 64" "r + y - 2 ^ 64 < 2 ^ 64" using x False r assms by simp_all
    then have "(x + y) div 2 ^ 64 = q + 1 \<and> (x + y) mod 2 ^ 64 = r + y - 2 ^ 64"
      by (metis div_less div_mult_self3 mod_less mod_mult_self3 add.right_neutral add.commute power_not_zero zero_neq_numeral)
    then show ?thesis using False by simp
  qed
  show "(of_nat (x + y) :: u64) < of_nat y \<longleftrightarrow> (x + y) div 2 ^ 64 = x div 2 ^ 64 + 1"
    "\<not> (of_nat (x + y) :: u64) < of_nat y \<longleftrightarrow> (x + y) div 2 ^ 64 = x div 2 ^ 64"
    using cases r assms unfolding less q_def [symmetric] by auto
qed

lemma counted512_count:
  assumes "counted512 c n" "k < 2 ^ 61"
  shows "counted512 (count512 k c) (n + k)"
proof -
  have "8 * k < 2 ^ 64" using assms(2) by simp
  note carry = carry_less [OF this, of "8 * n"]
  have sum: "(of_nat (8 * n) :: u64) + of_nat (8 * k) = of_nat (8 * n + 8 * k)" by simp
  have dist: "8 * (n + k) = 8 * n + 8 * k" by simp
  have c: "bitcount0 c = of_nat (8 * n)" "bitcount1 c = of_nat (8 * n div 2 ^ 64)"
    using assms(1) by (simp_all only: counted512_def)
  show ?thesis
  proof (cases "(of_nat (8 * n + 8 * k) :: u64) < of_nat (8 * k)")
    case True
    then have "count512 k c = c\<lparr>bitcount0 := of_nat (8 * n + 8 * k), bitcount1 := of_nat (8 * n div 2 ^ 64) + 1\<rparr>"
      unfolding count512_def ADDINC128_def bits_of_bytes c Let_def sum by (simp only: if_True)
    moreover have "(8 * n + 8 * k) div 2 ^ 64 = 8 * n div 2 ^ 64 + 1" using True carry(1) by blast
    ultimately show ?thesis
      unfolding counted512_def dist by (simp only:) simp
  next
    case False
    then have "count512 k c = c\<lparr>bitcount0 := of_nat (8 * n + 8 * k)\<rparr>"
      unfolding count512_def ADDINC128_def bits_of_bytes c Let_def sum by (simp only: if_False)
    moreover have "(8 * n + 8 * k) div 2 ^ 64 = 8 * n div 2 ^ 64" using False carry(2) by blast
    ultimately show ?thesis
      unfolding counted512_def dist using c(2) by (simp only:) simp
  qed
qed

lemma SHA256Transform_take: "SHA256Transform st (take 64 m) = SHA256Transform st m"
proof -
  have "ROUND256 (take 64 m) j s = ROUND256 m j s" for j s
    by (cases s) (simp add: ROUND256_def sha2_expand_def drop_take min_def)
  then have "ROUND256 (take 64 m) = ROUND256 m" by blast
  then show ?thesis by (simp add: SHA256Transform_def)
qed

lemma SHA512Transform_take: "SHA512Transform st (take 128 m) = SHA512Transform st m"
proof -
  have "ROUND512 (take 128 m) j s = ROUND512 m j s" for j s
    by (cases s) (simp add: ROUND512_def sha2_expand_def drop_take min_def)
  then have "ROUND512 (take 128 m) = ROUND512 m" by blast
  then show ?thesis by (simp add: SHA512Transform_def)
qed

lemma count_keeps [simp]:
  "c_state (count256 k c) = c_state c" "c_buffer (count256 k c) = c_buffer c"
  "c_state (count512 k c) = c_state c" "c_buffer (count512 k c) = c_buffer c"
  by (simp_all add: count256_def count512_def ADDINC128_def Let_def)

interpretation s256: sha2_counter 64 count256 counted256 SHA256Transform
proof unfold_locales
  show "usedspace 64 c = n mod 64" if "counted256 c n" for c :: "u32 sha2_ctx" and n
    by (rule counted_usedspace) (use that in \<open>simp_all add: counted256_def\<close>)
  show "counted256 (count256 k c) (n + k)" if "counted256 c n" for c :: "u32 sha2_ctx" and n k
    using that by (rule counted256_count)
qed (simp_all add: counted256_def SHA256Transform_take)

interpretation s512: sha2_counter 128 count512 counted512 SHA512Transform
proof unfold_locales
  show "usedspace 128 c = n mod 128" if "counted512 c n" for c :: "u64 sha2_ctx" and n
    by (rule counted_usedspace) (use that in \<open>simp_all add: counted512_def\<close>)
  show "counted512 (count512 k c) (n + k)" if "counted512 c n" "k < 2 ^ 61" for c :: "u64 sha2_ctx" and n k
    using that by (rule counted512_count)
qed (simp_all add: counted512_def SHA512Transform_take)

section \<open>Digests\<close>

lemma sha256_fold_fips:
  assumes "length iv = 8"
  shows "fold_blocks 64 SHA256Transform iv xs = fold_blocks 64 fips_sha256_block iv xs \<and>
   length (fst (fold_blocks 64 SHA256Transform iv xs)) = 8"
  by (rule fold_blocks_cong) (simp_all add: SHA256Transform_fips fips_sha256_block_def assms)

lemma sha512_fold_fips:
  assumes "length iv = 8"
  shows "fold_blocks 128 SHA512Transform iv xs = fold_blocks 128 fips_sha512_block iv xs \<and>
   length (fst (fold_blocks 128 SHA512Transform iv xs)) = 8"
  by (rule fold_blocks_cong) (simp_all add: SHA512Transform_fips fips_sha512_block_def assms)

lemma digest_words: "length st = 8 \<Longrightarrow> concat (map (\<lambda>i. be_bytes n (st ! i)) [0..<8]) = concat (map (be_bytes n) st)"
  by (erule length_8) (simp add: upt_rec)

lemma digest_words_6:
  "length st = 8 \<Longrightarrow> concat (map (\<lambda>i. be_bytes 8 (st ! i)) [0..<6]) = take 48 (concat (map (be_bytes 8) st))"
  by (erule length_8) (simp add: upt_rec)

lemma be_byte_of_nat:
  assumes "k + 8 \<le> LENGTH('a::len)"
  shows "(ucast (drop_bit k (of_nat x :: 'a word)) :: u8) = of_nat (x div 2 ^ k)"
proof (rule bit_word_eqI)
  fix n
  assume "n < LENGTH(8)"
  then have "n < 8" by simp
  then show "bit (ucast (drop_bit k (of_nat x :: 'a word)) :: u8) n = bit (of_nat (x div 2 ^ k) :: u8) n"
    using assms by (simp add: bit_simps drop_bit_eq_div [symmetric] bit_of_nat_iff)
qed

lemma be_bytes_16:
  "be_bytes 16 (of_nat x :: 128 word) = be_bytes 8 (of_nat (x div 2 ^ 64) :: u64) @ be_bytes 8 (of_nat x :: u64)"
  by (simp add: be_bytes_def upt_rec be_byte_of_nat div_mult2_eq [symmetric])

lemma sha256_final_ok:
  assumes "s256.absorbed sha256_initial_hash_value c m"
  shows "fst (SHA256Final c) = fips_sha256 m"
proof -
  define p where "p = m @ sha_padding 64 8 (be_bytes 8 (of_nat (8 * length m) :: u64)) (length m)"
  have iv: "length sha256_initial_hash_value = 8" by (simp add: sha256_initial_hash_value_def)
  have cnt: "bitcount0 c = of_nat (8 * length m)"
    using assms unfolding s256.absorbed_def counted256_def by blast
  have "c_state (SHA256Pad c) = fst (fold_blocks 64 SHA256Transform sha256_initial_hash_value p)"
    using s256.pad_absorbed [OF assms, of "be_bytes 8 (bitcount0 c)" 8 "64 - 8"]
    unfolding p_def cnt [symmetric] SHA256Pad_def by simp
  then have st: "c_state (SHA256Pad c) = fst (fold_blocks 64 fips_sha256_block sha256_initial_hash_value p)"
    "length (c_state (SHA256Pad c)) = 8"
    using conjunct1 [OF sha256_fold_fips [OF iv, of p]] conjunct2 [OF sha256_fold_fips [OF iv, of p]] by metis+
  show ?thesis
    using digest_words [OF st(2), of 4] unfolding SHA256Final_def fst_conv fips_sha256_def p_def [symmetric] st(1) .
qed

lemma sha512_pad_ok:
  assumes "s512.absorbed iv c m" and iv: "length iv = 8"
  shows "concat (map (be_bytes 8) (c_state (SHA512Pad c))) = fips_sha512_from iv m" "length (c_state (SHA512Pad c)) = 8"
proof -
  define p where "p = m @ sha_padding 128 16 (be_bytes 16 (of_nat (8 * length m) :: 128 word)) (length m)"
  have "bitcount0 c = of_nat (8 * length m)" "bitcount1 c = of_nat (8 * length m div 2 ^ 64)"
    using assms(1) unfolding s512.absorbed_def counted512_def by blast+
  then have len: "be_bytes 8 (bitcount1 c) @ be_bytes 8 (bitcount0 c) = be_bytes 16 (of_nat (8 * length m) :: 128 word)"
    unfolding be_bytes_16 by (simp only:)
  have "c_state (SHA512Pad c) = fst (fold_blocks 128 SHA512Transform iv p)"
    using s512.pad_absorbed [OF assms(1), of "be_bytes 16 (of_nat (8 * length m) :: 128 word)" 16 "128 - 2"]
    unfolding p_def len SHA512Pad_def by simp
  then have st: "c_state (SHA512Pad c) = fst (fold_blocks 128 fips_sha512_block iv p)" "length (c_state (SHA512Pad c)) = 8"
    using conjunct1 [OF sha512_fold_fips [OF iv, of p]] conjunct2 [OF sha512_fold_fips [OF iv, of p]] by metis+
  show "length (c_state (SHA512Pad c)) = 8" by (rule st(2))
  show "concat (map (be_bytes 8) (c_state (SHA512Pad c))) = fips_sha512_from iv m"
    unfolding fips_sha512_from_def p_def [symmetric] st(1) ..
qed

lemma length_iv_512: "length sha512_initial_hash_value = 8" "length sha384_initial_hash_value = 8"
  by (simp_all add: sha512_initial_hash_value_def sha384_initial_hash_value_def)

lemma sha512_final_ok:
  assumes "s512.absorbed sha512_initial_hash_value c m"
  shows "fst (SHA512Final c) = fips_sha512 m"
  using sha512_pad_ok [OF assms length_iv_512(1)] by (simp add: digest_words SHA512Final_def fips_sha512_def)

lemma sha384_final_ok:
  assumes "s512.absorbed sha384_initial_hash_value c m"
  shows "fst (SHA384Final c) = fips_sha384 m"
  using sha512_pad_ok [OF assms length_iv_512(2)] by (simp add: digest_words_6 SHA384Final_def SHA384Pad_def fips_sha384_def)

interpretation sha256: stream_hash "s256.absorbed sha256_initial_hash_value" "\<lambda>d. length d < 2 ^ 61"
  "\<lambda>c. \<exists>g. c = SHA256Init g" SHA256Update "\<lambda>c. Some (fst (SHA256Final c))" fips_sha256
proof unfold_locales
  fix c assume "\<exists>g. c = SHA256Init g"
  then show "s256.absorbed sha256_initial_hash_value c []"
    by (auto simp: s256.absorbed_def SHA256Init_def counted256_def)
qed (simp_all add: SHA256Update_def s256.update_absorbed sha256_final_ok)

interpretation sha512: stream_hash "s512.absorbed sha512_initial_hash_value" "\<lambda>d. length d < 2 ^ 61"
  "\<lambda>c. c = SHA512Init" SHA512Update "\<lambda>c. Some (fst (SHA512Final c))" fips_sha512
proof unfold_locales
  fix c assume "c = SHA512Init"
  then show "s512.absorbed sha512_initial_hash_value c []"
    by (simp add: s512.absorbed_def SHA512Init_def counted512_def)
qed (simp_all add: SHA512Update_def s512.update_absorbed sha512_final_ok)

interpretation sha384: stream_hash "s512.absorbed sha384_initial_hash_value" "\<lambda>d. length d < 2 ^ 61"
  "\<lambda>c. c = SHA384Init" SHA384Update "\<lambda>c. Some (fst (SHA384Final c))" fips_sha384
proof unfold_locales
  fix c assume "c = SHA384Init"
  then show "s512.absorbed sha384_initial_hash_value c []"
    by (simp add: s512.absorbed_def SHA384Init_def counted512_def)
qed (simp_all add: SHA384Update_def SHA512Update_def s512.update_absorbed sha384_final_ok)

text \<open>
  C5. For every division of a message into pieces of less than 2 to the 61 bytes, the digests computed
  by SHA-256, SHA-384 and SHA-512 are those that FIPS 180-4 defines for the whole message, including
  the carry between the two words of the 128-bit counter.
\<close>

theorem sha2_correct:
  assumes "\<forall>d \<in> set pieces. length d < 2 ^ 61"
  shows "fst (SHA256Final (fold (\<lambda>d c. SHA256Update c d) pieces (SHA256Init garbage))) = fips_sha256 (concat pieces) \<and>
    fst (SHA384Final (fold (\<lambda>d c. SHA384Update c d) pieces SHA384Init)) = fips_sha384 (concat pieces) \<and>
    fst (SHA512Final (fold (\<lambda>d c. SHA512Update c d) pieces SHA512Init)) = fips_sha512 (concat pieces)"
  using assms sha256.hash_pieces [of "SHA256Init garbage" pieces] sha384.hash_pieces [of SHA384Init pieces]
    sha512.hash_pieces [of SHA512Init pieces] by (auto simp: list_all_iff)

theorem sha2_correct_witness:
  "fst (SHA256Final (fold (\<lambda>d c. SHA256Update c d) [[0x61], [], [0x62, 0x63]] (SHA256Init 5))) = fips_sha256 [0x61, 0x62, 0x63]"
  using sha2_correct [of "[[0x61], [], [0x62, 0x63]]" 5] by simp

end
