(* ===== verification/Http.thy ===== *)
theory Http
  imports Sha2 Buf
begin

text \<open>
  The HTTP layer of \<open>src/src/http.c\<close> from the received bytes to the complete request, with the routing
  table (\<open>src/src/route.c\<close>, \<open>src/src/domain.c\<close>), the validators (\<open>src/src/validator.c\<close>) and the
  authentication blocks (\<open>src/src/auth.c\<close>) it consults.

  The limits of \<open>kore/http.h\<close>, the configuration, the matchers \<open>regexec\<close> and \<open>fnmatch\<close>, the conversion
  of a header to a number and the functions of an application are the fields of \<open>http_env\<close>.  The
  responses are a log of status codes with the redirect target; rendering them is not modelled.  A
  string is what lies in front of its terminating NUL.
\<close>

section \<open>Character tables\<close>

definition http_token :: "char list" where
  "http_token =
     [NUL, NUL, NUL, NUL, NUL, NUL, NUL, NUL] @
     [NUL, NUL, NUL, NUL, NUL, NUL, NUL, NUL] @
     [NUL, NUL, NUL, NUL, NUL, NUL, NUL, NUL] @
     [NUL, NUL, NUL, NUL, NUL, NUL, NUL, NUL] @
     [NUL] @ ''!'' @ [NUL] @ ''#$%&'' @ [CHR 0x27] @
     [NUL, NUL] @ ''*+'' @ [NUL] @ ''-.'' @ [NUL] @
     ''01234567'' @
     ''89'' @ [NUL, NUL, NUL, NUL, NUL, NUL] @
     [NUL] @ ''ABCDEFG'' @
     ''HIJKLMNO'' @
     ''PQRSTUVW'' @
     ''XYZ'' @ [NUL, NUL, NUL] @ ''^_'' @
     [CHR 0x60] @ ''abcdefg'' @
     ''hijklmno'' @
     ''pqrstuvw'' @
     ''xyz'' @ [NUL] @ ''|'' @ [NUL] @ ''~'' @ [NUL]"

definition http_field_content :: "char list" where
  "http_field_content =
     [NUL, NUL, NUL, NUL, NUL, NUL, NUL, NUL] @
     [NUL, NUL, NUL, NUL, NUL, NUL, NUL, NUL] @
     [NUL, NUL, NUL, NUL, NUL, NUL, NUL, NUL] @
     [NUL, NUL, NUL, NUL, NUL, NUL, NUL, NUL] @
     '' !'' @ [CHR 0x22] @ ''#$%&'' @ [CHR 0x27] @
     ''()*+,-./'' @
     ''01234567'' @
     ''89:;<=>?'' @
     ''@ABCDEFG'' @
     ''HIJKLMNO'' @
     ''PQRSTUVW'' @
     ''XYZ['' @ [CHR 0x5C] @ '']^_'' @
     [CHR 0x60] @ ''abcdefg'' @
     ''hijklmno'' @
     ''pqrstuvw'' @
     ''xyz{|}~'' @ [NUL]"

lemmas http_tables_flat = http_token_def [simplified] http_field_content_def [simplified]

text \<open>The index of the last entry of both tables.\<close>

definition HTTP_MAP_LIMIT :: nat where
  "HTTP_MAP_LIMIT = 127"

section \<open>Validation of a header line\<close>

text \<open>
  The first loop of \<open>http_validate_header\<close>: the name up to the colon, in lower case, and what follows.
  Without a colon the whole line is consumed.
\<close>

fun header_name :: "string \<Rightarrow> (string \<times> string) option" where
  "header_name [] = Some ([], [])"
| "header_name (c # s) =
     (let idx = of_char c :: nat in
      if idx > HTTP_MAP_LIMIT then None
      else if c = CHR '':'' then Some ([], s)
      else if http_token ! idx = NUL then None
      else map_option (\<lambda>(n, r). ((if 65 \<le> idx \<and> idx \<le> 90 then char_of (idx + 32) else c) # n, r)) (header_name s))"

definition field_ok :: "char \<Rightarrow> bool" where
  "field_ok c \<longleftrightarrow> (of_char c :: nat) \<le> HTTP_MAP_LIMIT \<and> http_field_content ! of_char c \<noteq> NUL"

text \<open>The result is the name, which the function leaves in place of the line, and the value it returns.\<close>

definition http_validate_header :: "string \<Rightarrow> (string \<times> string) option" where
  "http_validate_header header =
     (case header_name header of
        None \<Rightarrow> None
      | Some (n, r) \<Rightarrow>
          (let v = dropWhile isspace r in
           if v = [] then None
           else if list_all field_ok v then Some (n, v) else None))"

section \<open>Decoding of arguments\<close>

definition isxdigit :: "char \<Rightarrow> bool" where
  "isxdigit c \<longleftrightarrow> is_digit 16 c"

definition isalpha :: "char \<Rightarrow> bool" where
  "isalpha c \<longleftrightarrow> (let n = of_char c :: nat in 65 \<le> n \<and> n \<le> 90 \<or> 97 \<le> n \<and> n \<le> 122)"

text \<open>
  The loop works in place; the write position never passes the read position, so that the bytes still
  to be read are those of the argument.  \<open>None\<close> is \<open>KORE_RESULT_ERROR\<close>.
\<close>

fun http_argument_urldecode :: "bool \<Rightarrow> string \<Rightarrow> string option" where
  "http_argument_urldecode url [] = Some []"
| "http_argument_urldecode url (c # s) =
     (if c = CHR ''+'' then map_option ((#) (CHR '' '')) (http_argument_urldecode url s)
      else if c \<noteq> CHR ''%'' then map_option ((#) c) (http_argument_urldecode url s)
      else case s of
             h1 # h2 # r \<Rightarrow>
               (if \<not> isxdigit h1 \<or> \<not> isxdigit h2
                then map_option ((#) c) (http_argument_urldecode url s)
                else case kore_strtonum [CHR ''0'', CHR ''x'', h1, h2] 16 0 255 of
                       None \<Rightarrow> None
                     | Some v \<Rightarrow>
                         if (v \<le> 31 \<or> v = 127) \<and> (url \<or> v \<notin> {10, 13, 9}) then None
                         else map_option ((#) (char_of (nat v))) (http_argument_urldecode url r))
           | _ \<Rightarrow> None)"

section \<open>State\<close>

text \<open>The methods; \<open>rt_methods\<close> is the set of those a route answers to.\<close>

datatype http_method =
    HTTP_METHOD_GET | HTTP_METHOD_POST | HTTP_METHOD_PUT | HTTP_METHOD_DELETE | HTTP_METHOD_HEAD
  | HTTP_METHOD_OPTIONS | HTTP_METHOD_PATCH

datatype handler_type = HANDLER_TYPE_STATIC | HANDLER_TYPE_DYNAMIC

datatype validator_type = VAL_REGEX | VAL_FUNCTION | VAL_OTHER

record kore_validator =
  val_type :: validator_type
  val_name :: string
  val_arg :: string

record kore_route_params =
  pa_query_string :: bool
  pa_method :: http_method
  pa_name :: string
  pa_validator :: kore_validator

record kore_route =
  rt_type :: handler_type
  rt_path :: string
  rt_methods :: "http_method list"
  rt_params :: "kore_route_params list"
  on_headers :: "string option"
  on_body_chunk :: "string option"

record http_redirect =
  rdr_regex :: string
  rdr_target :: "string option"
  rdr_status :: nat

record kore_domain =
  dom_domain :: string
  dom_cafile :: bool
  dom_routes :: "kore_route list"
  dom_redirects :: "http_redirect list"

text \<open>
  A request.  \<open>hr_fd\<close> holds the bytes of the file the body is written to, with the read position;
  \<open>hr_chunks\<close> logs what was passed to \<open>on_body_chunk\<close>.
\<close>

record http_request =
  hr_method :: http_method
  hr_host :: string
  hr_path :: string
  hr_query_string :: "string option"
  hr_rt :: "kore_route option"
  hr_v10 :: bool
  hr_complete :: bool
  hr_expect_body :: bool
  hr_delete :: bool
  hr_sleeping :: bool
  hr_authed :: bool
  hr_headers :: "(string \<times> string) list"
  hr_cookies :: "(string \<times> string) list"
  hr_arguments :: "(string \<times> string) list"
  hr_agent :: "string option"
  hr_referer :: "string option"
  hr_content_length :: u64
  hr_body_length :: u64
  hr_body_offset :: u64
  hr_body :: "kore_buf option"
  hr_fd :: "(byte list \<times> nat) option"
  hr_chunks :: "byte list list"
  hr_hashctx :: "u32 sha2_ctx"
  hr_digest :: "u8 list"

text \<open>
  The server as the parser sees it: limits, tables, callbacks, and what the headers of the framework and the C library define.  The
  macros behind \<open>http_request_header_get\<close> are in such a header; \<open>e_u64\<close> is the conversion of a value to 64 bits they stand for.
\<close>

record http_env =
  e_header_max :: nat
  e_req_header_max :: nat
  e_domainname_len :: nat
  e_uri_len :: nat
  e_capture_groups :: nat
  e_max_cookies :: nat
  e_max_query_args :: nat
  e_request_limit :: nat
  e_body_max :: nat
  e_body_timeout :: nat
  e_disk_offload :: nat
  e_disk_path :: string
  e_body_path_max :: nat
  e_payload_max :: nat
  e_regexec :: "string \<Rightarrow> string \<Rightarrow> (int \<times> int) list option"
  e_fnmatch :: "string \<Rightarrow> string \<Rightarrow> bool"
  e_u64 :: "string \<Rightarrow> u64 option"
  e_mkstemp :: bool
  e_write :: "byte list \<Rightarrow> bool"
  e_lseek :: bool
  e_garbage :: u64
  e_on_headers :: "string \<Rightarrow> http_request \<Rightarrow> bool \<times> http_request"
  e_on_body_chunk :: "string \<Rightarrow> byte list \<Rightarrow> bool"
  e_validator :: "string \<Rightarrow> http_request \<Rightarrow> string \<Rightarrow> int"
  e_validator_request :: "string \<Rightarrow> http_request \<Rightarrow> int"

text \<open>
  The connection and the counter of requests.  \<open>hs_recv\<close> is what \<open>http_body_update\<close> asks
  \<open>net_recv_reset\<close> for: the number of bytes after which \<open>http_body_recv\<close> is called.
\<close>

record http_state =
  hs_inet6 :: bool
  hs_tls :: bool
  hs_tls_sni :: "string option"
  hs_tls_cert :: bool
  hs_domains :: "kore_domain list"
  hs_count :: nat
  hs_timeout :: nat
  hs_recv :: "nat option"
  hs_close_empty :: bool
  hs_responses :: "(nat \<times> string option) list"

definition http_error_response :: "nat \<Rightarrow> http_state \<Rightarrow> http_state" where
  "http_error_response status c = c\<lparr>hs_close_empty := True, hs_responses := hs_responses c @ [(status, None)]\<rparr>"

section \<open>Domains and routes\<close>

fun domain_lookup :: "http_env \<Rightarrow> kore_domain list \<Rightarrow> string \<Rightarrow> kore_domain option" where
  "domain_lookup env [] host = None"
| "domain_lookup env (d # ds) host =
     (if dom_domain d = host then Some d
      else if e_fnmatch env (dom_domain d) host then Some d
      else domain_lookup env ds host)"

definition kore_domain_lookup :: "http_env \<Rightarrow> http_state \<Rightarrow> string \<Rightarrow> kore_domain option" where
  "kore_domain_lookup env c host = domain_lookup env (hs_domains c) host"

definition route_matches :: "http_env \<Rightarrow> string \<Rightarrow> kore_route \<Rightarrow> bool" where
  "route_matches env path rt =
     (if rt_type rt = HANDLER_TYPE_STATIC then rt_path rt = path else e_regexec env (rt_path rt) path \<noteq> None)"

fun route_lookup :: "http_env \<Rightarrow> string \<Rightarrow> http_method \<Rightarrow> nat \<Rightarrow> kore_route list \<Rightarrow> nat \<times> kore_route option" where
  "route_lookup env path m exists [] = (exists, None)"
| "route_lookup env path m exists (rt # rts) =
     (if route_matches env path rt
      then if m \<in> set (rt_methods rt) then (1, Some rt) else route_lookup env path m (exists + 1) rts
      else route_lookup env path m exists rts)"

definition kore_route_lookup :: "http_env \<Rightarrow> string \<Rightarrow> kore_domain \<Rightarrow> http_method \<Rightarrow> nat \<times> kore_route option" where
  "kore_route_lookup env path dm m = route_lookup env path m 0 (dom_routes dm)"

section \<open>Redirects\<close>

text \<open>
  \<open>$1\<close> to \<open>$n\<close> in the target are replaced by the groups that matched; the key is printed into four
  bytes.  A replacement of a non-empty key always ends, so that the branch for a replacement that does
  not is never taken.
\<close>

fun redirect_groups :: "string \<Rightarrow> nat \<Rightarrow> (int \<times> int) list \<Rightarrow> kore_buf \<Rightarrow> kore_buf result" where
  "redirect_groups path idx [] b = Inr b"
| "redirect_groups path idx ((so, eo) # gs) b =
     (if so = - 1 \<or> eo = - 1 then Inr b
      else case kore_buf_replace_string b (take 3 (CHR ''$'' # int_str (int idx))) (Some (drop (nat so) path)) (nat (eo - so)) of
             None \<Rightarrow> Inl Indeterminate
           | Some r \<Rightarrow> bindR r (redirect_groups path (idx + 1) gs))"

definition redirect_location ::
  "http_env \<Rightarrow> http_request \<Rightarrow> (int \<times> int) list \<Rightarrow> string \<Rightarrow> string result" where
  "redirect_location env req groups target =
     bindR (kore_buf_append (kore_buf_init 128) target) (\<lambda>b.
     bindR (case hr_query_string req of
              None \<Rightarrow> Inr b
            | Some qs \<Rightarrow> (case kore_buf_replace_string b ''$qs'' (Some qs) (length qs) of
                            None \<Rightarrow> Inl Indeterminate
                          | Some r \<Rightarrow> r)) (\<lambda>b1.
     bindR (redirect_groups (hr_path req) 1 (take (e_capture_groups env - 2) (tl groups)) b1) (\<lambda>b2.
     bindR (kore_buf_stringify b2) (\<lambda>(s, _). Inr s))))"

fun find_redirect :: "http_env \<Rightarrow> string \<Rightarrow> http_redirect list \<Rightarrow> (http_redirect \<times> (int \<times> int) list) option" where
  "find_redirect env path [] = None"
| "find_redirect env path (r # rs) =
     (case e_regexec env (rdr_regex r) path of
        Some groups \<Rightarrow> Some (r, groups)
      | None \<Rightarrow> find_redirect env path rs)"

definition http_check_redirect :: "http_env \<Rightarrow> http_request \<Rightarrow> kore_domain \<Rightarrow> http_state \<Rightarrow> (bool \<times> http_state) result" where
  "http_check_redirect env req dm c =
     (case find_redirect env (hr_path req) (dom_redirects dm) of
        None \<Rightarrow> Inr (False, c)
      | Some (rdr, groups) \<Rightarrow>
          bindR (case rdr_target rdr of
                   None \<Rightarrow> Inr None
                 | Some t \<Rightarrow> bindR (redirect_location env req groups t) (\<lambda>s. Inr (Some s))) (\<lambda>loc.
            Inr (True, c\<lparr>hs_responses := hs_responses c @ [(rdr_status rdr, loc)]\<rparr>)))"

section \<open>A new request\<close>

text \<open>What lies in front of the last occurrence of a character (\<open>strrchr\<close>).\<close>

definition before_last :: "char \<Rightarrow> string \<Rightarrow> string" where
  "before_last x s = rev (tl (dropWhile (\<lambda>y. y \<noteq> x) (rev s)))"

text \<open>
  The name the domain is looked up under: the host without the port.  \<open>None\<close> is an IPv6 literal
  without its closing bracket.
\<close>

definition host_name :: "bool \<Rightarrow> string \<Rightarrow> string option" where
  "host_name inet6 host =
     (if inet6
      then if take 1 host = ''[''
           then if CHR '']'' \<notin> set host then None
                else (let lit = before_last (CHR '']'') host @ '']''
                      in if take 1 (drop (length lit) host) = '':'' then Some lit else Some host)
           else Some host
      else if CHR '':'' \<in> set host then Some (before_last (CHR '':'') host) else Some host)"

definition method_of :: "string \<Rightarrow> (http_method \<times> bool) option" where
  "method_of m =
     (if strcase_eq m ''get'' then Some (HTTP_METHOD_GET, False)
      else if strcase_eq m ''delete'' then Some (HTTP_METHOD_DELETE, True)
      else if strcase_eq m ''post'' then Some (HTTP_METHOD_POST, True)
      else if strcase_eq m ''put'' then Some (HTTP_METHOD_PUT, True)
      else if strcase_eq m ''head'' then Some (HTTP_METHOD_HEAD, False)
      else if strcase_eq m ''options'' then Some (HTTP_METHOD_OPTIONS, False)
      else if strcase_eq m ''patch'' then Some (HTTP_METHOD_PATCH, True)
      else None)"

text \<open>A path that starts with the question mark is kept as it is.\<close>

definition split_path :: "string \<Rightarrow> string \<times> string option" where
  "split_path path =
     (let qsoff = (if CHR ''?'' \<in> set path then length (takeWhile (\<lambda>y. y \<noteq> CHR ''?'') path) else 0)
      in if qsoff > 0 then (take qsoff path, Some (drop (qsoff + 1) path)) else (path, None))"

definition fresh_request ::
  "http_env \<Rightarrow> http_method \<Rightarrow> bool \<Rightarrow> bool \<Rightarrow> string \<Rightarrow> string \<Rightarrow> kore_route option \<Rightarrow> http_request" where
  "fresh_request env m expect v10 host path rt =
     \<lparr>hr_method = m, hr_host = host, hr_path = fst (split_path path), hr_query_string = snd (split_path path),
      hr_rt = rt, hr_v10 = v10, hr_complete = \<not> expect, hr_expect_body = expect, hr_delete = False,
      hr_sleeping = False, hr_authed = False, hr_headers = [], hr_cookies = [], hr_arguments = [],
      hr_agent = None, hr_referer = None, hr_content_length = 0, hr_body_length = 0, hr_body_offset = 0,
      hr_body = None, hr_fd = None, hr_chunks = [], hr_hashctx = SHA256Init (e_garbage env), hr_digest = []\<rparr>"

text \<open>\<open>http_request_free\<close>, as far as the connection sees it.\<close>

definition http_request_free :: "http_state \<Rightarrow> http_state" where
  "http_request_free c = c\<lparr>hs_count := hs_count c - 1\<rparr>"

definition http_request_new ::
  "http_env \<Rightarrow> http_state \<Rightarrow> string \<Rightarrow> string \<Rightarrow> string \<Rightarrow> string \<Rightarrow> (http_request option \<times> http_state) result" where
  "http_request_new env c host method path version =
     (let err = (\<lambda>status. Inr (None, http_error_response status c)) in
      if hs_count c \<ge> e_request_limit env then err 503
      else if length host \<ge> e_domainname_len env - 1 then err 400
      else if length path \<ge> e_uri_len env - 1 then err 414
      else if \<not> strcase_eq version ''http/1.1'' \<and> \<not> strcase_eq version ''http/1.0'' then err 505
      else case host_name (hs_inet6 c) host of
        None \<Rightarrow> err 400
      | Some name \<Rightarrow>
          if hs_tls c \<and> hs_tls_sni c \<noteq> None \<and> \<not> strcase_eq (the (hs_tls_sni c)) name then err 421
          else case kore_domain_lookup env c name of
            None \<Rightarrow> err 404
          | Some dm \<Rightarrow>
              if dom_cafile dm \<and> \<not> hs_tls_cert c then err 403
              else case method_of method of
                None \<Rightarrow> err 400
              | Some (m, expect) \<Rightarrow>
                  (let v10 = (\<not> strcase_eq version ''http/1.1'') in
                   if v10 \<and> m \<notin> {HTTP_METHOD_GET, HTTP_METHOD_POST, HTTP_METHOD_HEAD} then err 405
                   else let (exists, rt) = kore_route_lookup env (fst (split_path path)) dm m;
                            req = fresh_request env m expect v10 host path rt;
                            c1 = c\<lparr>hs_count := hs_count c + 1\<rparr>
                        in bindR (http_check_redirect env req dm c1) (\<lambda>(redirected, c2).
                             if redirected then Inr (None, http_request_free c2)
                             else if exists = 0 then Inr (None, http_error_response 404 (http_request_free c2))
                             else if rt = None then Inr (None, http_error_response 405 (http_request_free c2))
                             else Inr (Some req, c2))))"

section \<open>The body\<close>

definition octets :: "byte list \<Rightarrow> u8 list" where
  "octets d = map (\<lambda>x. word_of_nat (of_char x)) d"

definition http_body_rewind :: "http_env \<Rightarrow> http_request \<Rightarrow> bool \<times> http_request" where
  "http_body_rewind env req =
     (let reset = (\<lambda>r. r\<lparr>hr_body_offset := 0, hr_body_length := hr_content_length r\<rparr>) in
      case hr_fd req of
        Some (d, _) \<Rightarrow> (if \<not> e_lseek env then (False, req) else (True, reset (req\<lparr>hr_fd := Some (d, 0)\<rparr>)))
      | None \<Rightarrow>
          (case hr_body req of
             Some b \<Rightarrow> (True, reset (req\<lparr>hr_body := Some (kore_buf_reset b)\<rparr>))
           | None \<Rightarrow> (True, reset req)))"

text \<open>Where the bytes go: the function of the application, the file or the buffer; \<open>None\<close> is a failure.\<close>

definition body_store :: "http_env \<Rightarrow> byte list \<Rightarrow> http_request \<Rightarrow> http_request option result" where
  "body_store env d req =
     (case hr_rt req of
        None \<Rightarrow> Inl NullDeref
      | Some rt \<Rightarrow>
          (case on_body_chunk rt of
             Some f \<Rightarrow> Inr (if e_on_body_chunk env f d then Some (req\<lparr>hr_chunks := hr_chunks req @ [d]\<rparr>) else None)
           | None \<Rightarrow>
               (case hr_fd req of
                  Some (file, pos) \<Rightarrow> Inr (if e_write env d then Some (req\<lparr>hr_fd := Some (file @ d, pos)\<rparr>) else None)
                | None \<Rightarrow>
                    (case hr_body req of
                       Some b \<Rightarrow> bindR (kore_buf_append b d) (\<lambda>b'. Inr (Some (req\<lparr>hr_body := Some b'\<rparr>)))
                     | None \<Rightarrow> Inr None))))"

definition http_body_update ::
  "http_env \<Rightarrow> byte list \<Rightarrow> http_request \<Rightarrow> http_state \<Rightarrow> (bool \<times> http_request \<times> http_state) result" where
  "http_body_update env d req c =
     (let req0 = req\<lparr>hr_hashctx := SHA256Update (hr_hashctx req) (octets d)\<rparr>;
          fail = (\<lambda>r c. Inr (False, r\<lparr>hr_delete := True\<rparr>, http_error_response 500 c))
      in bindR (body_store env d req0) (\<lambda>stored.
           case stored of
             None \<Rightarrow> fail req0 c
           | Some req1 \<Rightarrow>
               (let left = hr_content_length req1 - of_nat (length d) in
                if left = 0
                then (let c1 = c\<lparr>hs_timeout := 0, hs_recv := None\<rparr>;
                          req2 = req1\<lparr>hr_sleeping := False, hr_complete := True, hr_expect_body := False,
                                      hr_content_length := hr_body_length req1\<rparr>;
                          (rewound, req3) = http_body_rewind env req2
                      in if \<not> rewound then fail req3 c1
                         else (let (digest, ctx) = SHA256Final (hr_hashctx req3)
                               in Inr (True, req3\<lparr>hr_digest := digest, hr_hashctx := ctx\<rparr>, c1)))
                else Inr (True, req1\<lparr>hr_content_length := left\<rparr>,
                          c\<lparr>hs_recv := Some (min (unat left) (e_payload_max env))\<rparr>))))"

text \<open>\<open>http_body_recv\<close> passes on what \<open>net_recv\<close> has collected.\<close>

definition http_body_recv ::
  "http_env \<Rightarrow> byte list \<Rightarrow> http_request \<Rightarrow> http_state \<Rightarrow> (bool \<times> http_request \<times> http_state) result" where
  "http_body_recv env d req c = http_body_update env d req c"

text \<open>\<open>None\<close> is the return value -1.  Reading from the file is not interrupted.\<close>

definition http_body_read :: "http_request \<Rightarrow> nat \<Rightarrow> (byte list option \<times> http_request) result" where
  "http_body_read req len =
     (let toread = min (unat (hr_body_length req)) len;
          done = (\<lambda>d r. Inr (Some d, r\<lparr>hr_body_length := hr_body_length r - of_nat (length d),
                                       hr_body_offset := hr_body_offset r + of_nat (length d)\<rparr>))
      in if toread = 0 then Inr (Some [], req)
         else case hr_fd req of
                Some (file, pos) \<Rightarrow>
                  (let d = take toread (drop pos file)
                   in if d = [] then Inr (Some [], req) else done d (req\<lparr>hr_fd := Some (file, pos + length d)\<rparr>))
              | None \<Rightarrow>
                  (case hr_body req of
                     None \<Rightarrow> Inr (None, req)
                   | Some b \<Rightarrow>
                       bindR (region b (buf_offset b) toread) (\<lambda>d.
                         done d (req\<lparr>hr_body := Some (b\<lparr>buf_offset := size_mod (buf_offset b + toread)\<rparr>)\<rparr>))))"

section \<open>Looking up headers\<close>

definition http_request_header :: "http_request \<Rightarrow> string \<Rightarrow> string option" where
  "http_request_header req header =
     (case find (\<lambda>(n, v). strcase_eq n header) (hr_headers req) of
        Some (n, v) \<Rightarrow> Some v
      | None \<Rightarrow> if strcase_eq header ''host'' then Some (hr_host req) else None)"

definition http_request_header_get :: "http_env \<Rightarrow> http_request \<Rightarrow> string \<Rightarrow> u64 option" where
  "http_request_header_get env req header =
     (case find (\<lambda>(n, v). strcase_eq n header) (hr_headers req) of
        Some (n, v) \<Rightarrow> e_u64 env v
      | None \<Rightarrow> None)"

section \<open>Receiving the headers\<close>

fun find_host :: "nat \<Rightarrow> string list \<Rightarrow> (nat \<times> (string \<times> string) option) option" where
  "find_host i [] = None"
| "find_host i (h # hs) =
     (if strcase_eq (take 4 h) ''host'' then Some (i, http_validate_header h) else find_host (i + 1) hs)"

fun add_headers :: "string list \<Rightarrow> http_request \<Rightarrow> bool \<times> http_request" where
  "add_headers [] req = (True, req)"
| "add_headers (h # hs) req =
     (case http_validate_header h of
        None \<Rightarrow> (False, req)
      | Some (n, v) \<Rightarrow>
          if v = [] then (False, req)
          else add_headers hs
                 (req\<lparr>hr_headers := hr_headers req @ [(n, v)],
                      hr_agent := (if hr_agent req = None \<and> strcase_eq n ''user-agent'' then Some v else hr_agent req),
                      hr_referer := (if hr_referer req = None \<and> strcase_eq n ''referer'' then Some v else hr_referer req)\<rparr>))"

text \<open>
  What \<open>http_header_recv\<close> does once the headers are stored.  \<open>rest\<close> are the bytes behind the headers
  that have already been received.
\<close>

definition start_body ::
  "http_env \<Rightarrow> byte list \<Rightarrow> http_request \<Rightarrow> http_state \<Rightarrow> (bool \<times> bool \<times> http_request \<times> http_state) result" where
  "start_body env rest req c =
     (let stop = (\<lambda>status. Inr (True, False, req\<lparr>hr_delete := True\<rparr>, http_error_response status c)) in
      if e_body_max env = 0 then stop 405
      else case http_request_header_get env req ''content-length'' of
        None \<Rightarrow>
          if hr_method req = HTTP_METHOD_DELETE then Inr (True, False, req\<lparr>hr_complete := True\<rparr>, c) else stop 411
      | Some cl \<Rightarrow>
          if cl = 0
          then Inr (True, False, req\<lparr>hr_content_length := cl, hr_complete := True, hr_expect_body := False\<rparr>,
                    c\<lparr>hs_timeout := 0\<rparr>)
          else if unat cl > e_body_max env
          then Inr (True, False, req\<lparr>hr_content_length := cl, hr_delete := True\<rparr>, http_error_response 413 c)
          else case hr_rt req of
            None \<Rightarrow> Inl NullDeref
          | Some rt \<Rightarrow>
              (let req1 = req\<lparr>hr_content_length := cl, hr_body_length := cl\<rparr>;
                   disk = (on_body_chunk rt = None \<and> e_disk_offload env > 0 \<and> unat cl > e_disk_offload env);
                   req2 = (if disk then req1\<lparr>hr_body := None, hr_fd := Some ([], 0)\<rparr>
                           else if on_body_chunk rt = None then req1\<lparr>hr_fd := None, hr_body := Some (kore_buf_alloc (unat cl))\<rparr>
                           else req1);
                   req3 = req2\<lparr>hr_hashctx := SHA256Init (e_garbage env)\<rparr>
               in if disk \<and> length (e_disk_path env) + length ''/http_body.XXXXXX'' \<ge> e_body_path_max env
                  then Inr (False, False, req1\<lparr>hr_delete := True\<rparr>, http_error_response 500 c)
                  else if disk \<and> \<not> e_mkstemp env
                  then Inr (True, False, req1\<lparr>hr_delete := True\<rparr>, http_error_response 500 c)
                  else bindR (http_body_update env rest req3 (c\<lparr>hs_timeout := e_body_timeout env * 1000\<rparr>))
                         (\<lambda>(ok, req4, c4).
                            if ok then Inr (True, True, req4, c4)
                            else Inr (True, False, req4\<lparr>hr_delete := True\<rparr>, http_error_response 500 c4))))"

definition run_on_headers :: "http_env \<Rightarrow> http_request \<Rightarrow> http_request result" where
  "run_on_headers env req =
     (case hr_rt req of
        None \<Rightarrow> Inl NullDeref
      | Some rt \<Rightarrow>
          (case on_headers rt of
             None \<Rightarrow> Inr req
           | Some f \<Rightarrow> (let (ok, req') = e_on_headers env f req
                       in Inr (if ok then req' else req'\<lparr>hr_delete := True\<rparr>))))"

text \<open>
  The position of the end of the headers and the length of the separator.
\<close>

definition end_of_headers :: "byte list \<Rightarrow> (nat \<times> nat) option result" where
  "end_of_headers buf =
     bindR (kore_mem_find buf [CHR 0x0D, CHR 0x0A, CHR 0x0D, CHR 0x0A, NUL] 4) (\<lambda>p.
       case p of
         Some i \<Rightarrow> Inr (Some (i, 4))
       | None \<Rightarrow> bindR (kore_mem_find buf [CHR 0x0A, CHR 0x0A, NUL] 2) (\<lambda>q. Inr (map_option (\<lambda>i. (i, 2)) q)))"

text \<open>
  The first line shares its memory with the method: when that line itself is taken for the host, its
  name part is what is left of the method.
\<close>

definition http_headers_parse ::
  "http_env \<Rightarrow> string \<Rightarrow> byte list \<Rightarrow> http_state \<Rightarrow> (bool \<times> http_request option \<times> http_state) result" where
  "http_headers_parse env hbuf rest c =
     (let headers = kore_split_string hbuf [CHR 0x0D, CHR 0x0A] (e_req_header_max env);
          bad = Inr (True, None, http_error_response 400 c)
      in if length headers < 2 then bad
         else let request = kore_split_string (headers ! 0) '' '' 4
         in if length request \<noteq> 3 then bad
         else case find_host 0 (request ! 0 # tl headers) of
           None \<Rightarrow> bad
         | Some (_, None) \<Rightarrow> bad
         | Some (skip, Some (n, host)) \<Rightarrow>
             if host = [] then bad
             else bindR (http_request_new env c host (if skip = 0 then n else request ! 0) (request ! 1) (request ! 2))
               (\<lambda>(r, c1).
                  case r of
                    None \<Rightarrow> Inr (True, None, c1)
                  | Some req0 \<Rightarrow>
                      (let (ok, req) = add_headers [headers ! i. i \<leftarrow> [1..<length headers], i \<noteq> skip] req0
                       in if \<not> ok then Inr (True, Some (req\<lparr>hr_delete := True\<rparr>), http_error_response 400 c1)
                          else if hr_expect_body req
                          then bindR (start_body env rest req c1) (\<lambda>(ret, go, req1, c2).
                                 if go then bindR (run_on_headers env req1) (\<lambda>req2. Inr (ret, Some req2, c2))
                                 else Inr (ret, Some req1, c2))
                          else bindR (run_on_headers env req) (\<lambda>req1. Inr (True, Some req1, c1\<lparr>hs_timeout := 0\<rparr>)))))"

definition http_header_recv ::
  "http_env \<Rightarrow> byte list \<Rightarrow> http_state \<Rightarrow> (bool \<times> http_request option \<times> http_state) result" where
  "http_header_recv env buf c =
     (if length buf < 4 then Inr (True, None, c)
      else if \<not> isalpha (buf ! 0) then Inr (False, None, http_error_response 400 c)
      else bindR (end_of_headers buf) (\<lambda>p.
        case p of
          None \<Rightarrow>
            if length buf = e_header_max env then Inr (False, None, http_error_response 413 c)
            else Inr (True, None, c)
        | Some (i, skip) \<Rightarrow> http_headers_parse env (cstring (take i buf)) (drop (i + skip) buf) c))"

section \<open>Cookies, arguments and validators\<close>

definition http_request_cookie :: "http_request \<Rightarrow> string \<Rightarrow> string option" where
  "http_request_cookie req cookie = map_option snd (find (\<lambda>(n, v). strcase_eq n cookie) (hr_cookies req))"

definition add_cookie :: "string \<Rightarrow> http_request \<Rightarrow> http_request" where
  "add_cookie s req =
     (case kore_split_string (dropWhile isspace s) ''='' 3 of
        [n, v] \<Rightarrow> req\<lparr>hr_cookies := hr_cookies req @ [(n, v)]\<rparr>
      | _ \<Rightarrow> req)"

definition http_populate_cookies :: "http_env \<Rightarrow> http_request \<Rightarrow> http_request" where
  "http_populate_cookies env req =
     (case http_request_header req ''cookie'' of
        None \<Rightarrow> req
      | Some hdr \<Rightarrow> fold add_cookie (kore_split_string hdr '';'' (e_max_cookies env)) req)"

abbreviation (input) KORE_RESULT_ERROR :: int where "KORE_RESULT_ERROR \<equiv> 0"
abbreviation (input) KORE_RESULT_OK :: int where "KORE_RESULT_OK \<equiv> 1"
abbreviation (input) KORE_RESULT_RETRY :: int where "KORE_RESULT_RETRY \<equiv> 2"

definition kore_validator_check :: "http_env \<Rightarrow> http_request \<Rightarrow> kore_validator \<Rightarrow> string \<Rightarrow> int" where
  "kore_validator_check env req val d =
     (case val_type val of
        VAL_REGEX \<Rightarrow> (if e_regexec env (val_arg val) d \<noteq> None then KORE_RESULT_OK else KORE_RESULT_ERROR)
      | VAL_FUNCTION \<Rightarrow> e_validator env (val_arg val) req d
      | VAL_OTHER \<Rightarrow> KORE_RESULT_ERROR)"

definition kore_validator_lookup :: "kore_validator list \<Rightarrow> string \<Rightarrow> kore_validator option" where
  "kore_validator_lookup vals name = find (\<lambda>v. val_name v = name) vals"

definition kore_validator_run :: "http_env \<Rightarrow> kore_validator list \<Rightarrow> http_request \<Rightarrow> string \<Rightarrow> string \<Rightarrow> int" where
  "kore_validator_run env vals req name d =
     (case find (\<lambda>v. val_name v = name) vals of
        None \<Rightarrow> KORE_RESULT_ERROR
      | Some v \<Rightarrow> kore_validator_check env req v d)"

fun argument_params ::
  "http_env \<Rightarrow> bool \<Rightarrow> bool \<Rightarrow> string \<Rightarrow> string \<Rightarrow> kore_route_params list \<Rightarrow> http_request \<Rightarrow> http_request" where
  "argument_params env qs decode name value [] req = req"
| "argument_params env qs decode name value (p # ps) req =
     (if qs \<noteq> pa_query_string p \<or> pa_method p \<noteq> hr_method req \<or> pa_name p \<noteq> name
      then argument_params env qs decode name value ps req
      else case (if decode then http_argument_urldecode qs value else Some value) of
             None \<Rightarrow> req
           | Some v \<Rightarrow>
               if kore_validator_check env req (pa_validator p) v = 0 then req
               else req\<lparr>hr_arguments := hr_arguments req @ [(name, v)]\<rparr>)"

definition http_argument_add ::
  "http_env \<Rightarrow> string \<Rightarrow> string \<Rightarrow> bool \<Rightarrow> bool \<Rightarrow> http_request \<Rightarrow> http_request result" where
  "http_argument_add env name value qs decode req =
     (case (if decode then http_argument_urldecode qs name else Some name) of
        None \<Rightarrow> Inr req
      | Some n \<Rightarrow>
          (case hr_rt req of
             None \<Rightarrow> Inl NullDeref
           | Some rt \<Rightarrow> Inr (argument_params env qs decode n value (rt_params rt) req)))"

definition add_pair :: "http_env \<Rightarrow> bool \<Rightarrow> http_request \<Rightarrow> string \<Rightarrow> http_request result" where
  "add_pair env qs req arg =
     (case kore_split_string arg ''='' 3 of
        [n, v] \<Rightarrow> http_argument_add env n v qs True req
      | _ \<Rightarrow> Inr req)"

definition http_populate_qs :: "http_env \<Rightarrow> http_request \<Rightarrow> http_request result" where
  "http_populate_qs env req =
     (case hr_query_string req of
        None \<Rightarrow> Inr req
      | Some q \<Rightarrow> foldR (add_pair env True) req (kore_split_string q ''&'' (e_max_query_args env)))"

definition http_argument_get :: "http_request \<Rightarrow> string \<Rightarrow> string option" where
  "http_argument_get req name = map_option snd (find (\<lambda>(n, v). n = name) (hr_arguments req))"

section \<open>Authentication\<close>

datatype auth_type = KORE_AUTH_TYPE_COOKIE | KORE_AUTH_TYPE_HEADER | KORE_AUTH_TYPE_REQUEST | KORE_AUTH_TYPE_OTHER

record kore_auth =
  au_name :: string
  au_type :: auth_type
  au_value :: string
  au_redirect :: "string option"
  au_validator :: kore_validator

definition kore_auth_lookup :: "kore_auth list \<Rightarrow> string \<Rightarrow> kore_auth option" where
  "kore_auth_lookup auths name = find (\<lambda>a. au_name a = name) auths"

fun find_cookie :: "string \<Rightarrow> string list \<Rightarrow> string option" where
  "find_cookie value [] = None"
| "find_cookie value (s # ss) =
     (if strncmp_eq (min (length value) (length s)) (dropWhile isspace s) value then Some s else find_cookie value ss)"

definition kore_auth_cookie :: "http_env \<Rightarrow> http_request \<Rightarrow> kore_auth \<Rightarrow> int" where
  "kore_auth_cookie env req au =
     (case http_request_header req ''cookie'' of
        None \<Rightarrow> KORE_RESULT_ERROR
      | Some hdr \<Rightarrow>
          (case find_cookie (au_value au) (kore_split_string hdr '';'' (e_max_cookies env)) of
             None \<Rightarrow> KORE_RESULT_ERROR
           | Some s \<Rightarrow>
               if CHR ''='' \<notin> set s then KORE_RESULT_ERROR
               else kore_validator_check env req (au_validator au) (tl (dropWhile (\<lambda>x. x \<noteq> CHR ''='') s))))"

definition kore_auth_header :: "http_env \<Rightarrow> http_request \<Rightarrow> kore_auth \<Rightarrow> int" where
  "kore_auth_header env req au =
     (case http_request_header req (au_value au) of
        None \<Rightarrow> KORE_RESULT_ERROR
      | Some h \<Rightarrow> kore_validator_check env req (au_validator au) h)"

text \<open>
  \<open>kore_auth_request\<close> hands the request itself to the function of the validator; a regular expression
  would be matched against the bytes of the structure.
\<close>

definition kore_auth_request :: "http_env \<Rightarrow> http_request \<Rightarrow> kore_auth \<Rightarrow> int result" where
  "kore_auth_request env req au =
     (case val_type (au_validator au) of
        VAL_REGEX \<Rightarrow> Inl Indeterminate
      | VAL_FUNCTION \<Rightarrow> Inr (e_validator_request env (val_arg (au_validator au)) req)
      | VAL_OTHER \<Rightarrow> Inr KORE_RESULT_ERROR)"

definition kore_auth_run :: "http_env \<Rightarrow> http_request \<Rightarrow> kore_auth \<Rightarrow> http_state \<Rightarrow> (int \<times> http_request \<times> http_state) result" where
  "kore_auth_run env req au c =
     (if au_type au = KORE_AUTH_TYPE_OTHER then Inr (KORE_RESULT_ERROR, req, c)
      else bindR (case au_type au of
                    KORE_AUTH_TYPE_COOKIE \<Rightarrow> Inr (kore_auth_cookie env req au)
                  | KORE_AUTH_TYPE_HEADER \<Rightarrow> Inr (kore_auth_header env req au)
                  | _ \<Rightarrow> kore_auth_request env req au) (\<lambda>r.
        if r = KORE_RESULT_OK then Inr (r, req\<lparr>hr_authed := True\<rparr>, c)
        else if r = KORE_RESULT_RETRY then Inr (r, req, c)
        else if au_type au = KORE_AUTH_TYPE_REQUEST then Inr (r, req, c)
        else case au_redirect au of
               None \<Rightarrow> Inr (KORE_RESULT_ERROR, req, c\<lparr>hs_responses := hs_responses c @ [(403, None)]\<rparr>)
             | Some loc \<Rightarrow> Inr (KORE_RESULT_ERROR, req, c\<lparr>hs_responses := hs_responses c @ [(302, Some loc)]\<rparr>)))"

section \<open>The body in memory\<close>

text \<open>
  A body that arrives as \<open>rest\<close> behind the headers and then in \<open>pieces\<close>.
\<close>

definition body_arrive ::
  "http_env \<Rightarrow> byte list \<Rightarrow> byte list list \<Rightarrow> http_request \<Rightarrow> http_state \<Rightarrow> (bool \<times> http_request \<times> http_state) result" where
  "body_arrive env rest pieces req c =
     bindR (start_body env rest req c) (\<lambda>(_, ok, r, c1).
       foldR (\<lambda>(_, r, c) d. http_body_recv env d r c) (ok, r, c1) pieces)"

text \<open>
  The request while its body of \<open>cl\<close> bytes is collected in a buffer: \<open>got\<close> has arrived and been hashed,
  and there is room for \<open>k\<close> more bytes.
\<close>

definition collecting :: "u64 \<Rightarrow> byte list \<Rightarrow> nat \<Rightarrow> http_request \<Rightarrow> bool" where
  "collecting cl got k req \<longleftrightarrow>
     (\<exists>rt b. hr_rt req = Some rt \<and> on_body_chunk rt = None \<and> hr_fd req = None \<and> hr_body req = Some b \<and>
        buf_bytes b = got \<and> buf_room b k) \<and>
     s256.absorbed sha256_initial_hash_value (hr_hashctx req) (octets got) \<and>
     hr_content_length req = cl - of_nat (length got) \<and> hr_body_length req = cl"

text \<open>The request with its complete body.\<close>

definition collected :: "u64 \<Rightarrow> byte list \<Rightarrow> http_request \<Rightarrow> bool" where
  "collected cl d req \<longleftrightarrow>
     hr_complete req \<and> \<not> hr_expect_body req \<and> hr_content_length req = cl \<and> hr_body_length req = cl \<and>
     hr_digest req = fips_sha256 (octets d) \<and>
     (\<exists>req'. http_body_read req (unat cl) = Inr (Some d, req'))"

lemma octets_append [simp]: "octets (a @ b) = octets a @ octets b"
  by (simp add: octets_def)

lemma length_octets [simp]: "length (octets d) = length d"
  by (simp add: octets_def)

lemma word_minus_zero_iff:
  assumes "n < 2 ^ 64"
  shows "(cl :: u64) - of_nat n = 0 \<longleftrightarrow> unat cl = n"
proof -
  have "unat (of_nat n :: u64) = n" using assms by (simp add: unat_of_nat take_bit_nat_eq_self)
  then have "cl = of_nat n \<longleftrightarrow> unat cl = n" by (metis word_of_nat_eq_iff unat_eq_nat_uint word_unat_eq_iff)
  then show ?thesis by simp
qed

lemma unat_wrap_minus:
  assumes "unat (cl :: u64) < n" "n < 2 ^ 64"
  shows "unat (cl - of_nat n) = 2 ^ 64 - (n - unat cl)"
proof -
  have "unat (of_nat n :: u64) = n" using assms(2) by (simp add: unat_of_nat take_bit_nat_eq_self)
  then show ?thesis using assms by (simp add: unat_sub_if_size word_size)
qed

lemma collecting_store:
  assumes "collecting cl got (length d + k) req" "length d < 2 ^ 61"
  obtains req1 where "body_store env d (req\<lparr>hr_hashctx := SHA256Update (hr_hashctx req) (octets d)\<rparr>) = Inr (Some req1)"
    "collecting cl (got @ d) k (req1\<lparr>hr_content_length := hr_content_length req1 - of_nat (length d)\<rparr>)"
    "hr_complete req1 = hr_complete req" "hr_content_length req1 = cl - of_nat (length got)"
proof -
  from assms(1) obtain rt b where b: "hr_rt req = Some rt" "on_body_chunk rt = None" "hr_fd req = None"
      "hr_body req = Some b" "buf_bytes b = got" "buf_room b (length d + k)"
    and h: "s256.absorbed sha256_initial_hash_value (hr_hashctx req) (octets got)"
    and l: "hr_content_length req = cl - of_nat (length got)" "hr_body_length req = cl"
    unfolding collecting_def by blast
  obtain b' where b': "kore_buf_append b d = Inr b'" "buf_bytes b' = got @ d" "buf_room b' k"
    using kore_buf_append_ok [OF b(6)] b(5) by auto
  have h': "s256.absorbed sha256_initial_hash_value (SHA256Update (hr_hashctx req) (octets d)) (octets (got @ d))"
    using sha256.ok_update [OF h, of "octets d"] assms(2) by simp
  show ?thesis
    by (rule that [of "req\<lparr>hr_hashctx := SHA256Update (hr_hashctx req) (octets d), hr_body := Some b'\<rparr>"])
      (use b b' l h' in \<open>simp_all add: body_store_def collecting_def\<close>)
qed

lemma collecting_update:
  assumes "collecting cl got (length d + k) req" "length (got @ d) < 2 ^ 61" "unat cl \<noteq> length (got @ d)"
  shows "\<exists>req'. http_body_update env d req c =
      Inr (True, req', c\<lparr>hs_recv := Some (min (unat (cl - of_nat (length (got @ d)))) (e_payload_max env))\<rparr>) \<and>
    collecting cl (got @ d) k req' \<and> hr_complete req' = hr_complete req"
proof -
  have d: "length d < 2 ^ 61" using assms(2) by simp
  obtain req1 where r: "body_store env d (req\<lparr>hr_hashctx := SHA256Update (hr_hashctx req) (octets d)\<rparr>) = Inr (Some req1)"
    "collecting cl (got @ d) k (req1\<lparr>hr_content_length := hr_content_length req1 - of_nat (length d)\<rparr>)"
    "hr_complete req1 = hr_complete req" "hr_content_length req1 = cl - of_nat (length got)"
    by (rule collecting_store [OF assms(1) d])
  have "cl - of_nat (length (got @ d)) \<noteq> 0"
    using word_minus_zero_iff [of "length (got @ d)" cl] assms(2,3) by simp
  then have "cl - of_nat (length got) \<noteq> of_nat (length d)"
    by (simp add: diff_diff_eq [symmetric])
  then show ?thesis
    using r(2,3) by (simp add: http_body_update_def Let_def r(1,4) diff_diff_eq)
qed

lemma http_body_read_buffer:
  assumes "hr_fd r = None" "hr_body r = Some b" "buf_offset b = 0" "region b 0 (unat (hr_body_length r)) = Inr d"
  shows "\<exists>req'. http_body_read r (unat (hr_body_length r)) = Inr (Some d, req')"
  using assms by (auto simp: http_body_read_def Let_def region_def split: if_splits)

lemma collecting_last:
  assumes "collecting cl got (length d) req" "length (got @ d) < 2 ^ 61" "unat cl = length (got @ d)"
  shows "\<exists>req'. http_body_update env d req c = Inr (True, req', c\<lparr>hs_timeout := 0, hs_recv := None\<rparr>) \<and>
    collected cl (got @ d) req'"
proof -
  have a: "collecting cl got (length d + 0) req" and d: "length d < 2 ^ 61" using assms(1,2) by simp_all
  obtain req1 where r: "body_store env d (req\<lparr>hr_hashctx := SHA256Update (hr_hashctx req) (octets d)\<rparr>) = Inr (Some req1)"
    "collecting cl (got @ d) 0 (req1\<lparr>hr_content_length := hr_content_length req1 - of_nat (length d)\<rparr>)"
    "hr_complete req1 = hr_complete req" "hr_content_length req1 = cl - of_nat (length got)"
    by (rule collecting_store [OF a d])
  have "cl - of_nat (length (got @ d)) = 0"
    using word_minus_zero_iff [of "length (got @ d)" cl] assms(2,3) by simp
  then have left: "hr_content_length req1 = of_nat (length d)" using r(4) by (simp add: diff_diff_eq [symmetric])
  from r(2) obtain b where b: "hr_fd req1 = None" "hr_body req1 = Some b" "buf_bytes b = got @ d" "buf_room b 0"
      "s256.absorbed sha256_initial_hash_value (hr_hashctx req1) (octets (got @ d))" "hr_body_length req1 = cl"
    unfolding collecting_def by auto
  have digest: "fst (SHA256Final (hr_hashctx req1)) = fips_sha256 (octets (got @ d))"
    using sha256.ok_final [OF b(5)] by simp
  have "buf_offset b = unat cl" using length_buf_bytes [of b] b(3,4) assms(3) by (simp add: buf_room_def)
  then have "region (kore_buf_reset b) 0 (unat cl) = Inr (got @ d)"
    using b(3,4) assms(3) by (auto simp: region_def kore_buf_reset_def buf_bytes_def buf_room_def buf_wf_def mem_read_def split: option.splits)
  then have read: "\<exists>req'. http_body_read r (unat cl) = Inr (Some (got @ d), req')"
    if "hr_fd r = None" "hr_body r = Some (kore_buf_reset b)" "hr_body_length r = cl" for r
    using http_body_read_buffer [of r "kore_buf_reset b" "got @ d"] that by (simp add: kore_buf_reset_def)
  show ?thesis
    using digest b(1,2,6) read
    by (auto simp: http_body_update_def r(1) left http_body_rewind_def collected_def Let_def split: prod.split)
qed

text \<open>Pieces that keep the number of bytes away from the announced length.\<close>

lemma collecting_pieces:
  assumes "collecting cl got (length (concat ds) + k) req" "length (got @ concat ds) < 2 ^ 61"
    "length (got @ concat ds) < unat cl \<or> unat cl < length got"
  shows "\<exists>ok req' c'. foldR (\<lambda>(_, r, c) d. http_body_recv env d r c) (True, req, c) ds = Inr (True, req', c') \<and>
    collecting cl (got @ concat ds) k req' \<and> hr_complete req' = hr_complete req \<and> hs_responses c' = hs_responses c \<and>
    (ds \<noteq> [] \<longrightarrow> hs_recv c' = Some (min (unat (cl - of_nat (length (got @ concat ds)))) (e_payload_max env)))"
  using assms
proof (induction ds arbitrary: got req c)
  case (Cons d ds)
  have "collecting cl got (length d + (length (concat ds) + k)) req" using Cons.prems(1) by (simp add: add.assoc)
  moreover have "length (got @ d) < 2 ^ 61" "unat cl \<noteq> length (got @ d)" using Cons.prems(2,3) by auto
  ultimately obtain req1 where r: "http_body_update env d req c =
      Inr (True, req1, c\<lparr>hs_recv := Some (min (unat (cl - of_nat (length (got @ d)))) (e_payload_max env))\<rparr>)"
    "collecting cl (got @ d) (length (concat ds) + k) req1" "hr_complete req1 = hr_complete req"
    using collecting_update by blast
  have "length ((got @ d) @ concat ds) < 2 ^ 61" "length ((got @ d) @ concat ds) < unat cl \<or> unat cl < length (got @ d)"
    using Cons.prems(2,3) by auto
  from Cons.IH [OF r(2) this, of "c\<lparr>hs_recv := Some (min (unat (cl - of_nat (length (got @ d)))) (e_payload_max env))\<rparr>"]
  show ?case using r(1,3) by (cases ds) (simp_all add: http_body_recv_def)
qed simp

text \<open>A request whose body is to be kept in memory.\<close>

definition memory_body :: "http_env \<Rightarrow> u64 \<Rightarrow> http_request \<Rightarrow> bool" where
  "memory_body env cl req \<longleftrightarrow>
     (\<exists>rt. hr_rt req = Some rt \<and> on_body_chunk rt = None) \<and> hr_fd req = None \<and> \<not> hr_complete req \<and>
     http_request_header_get env req ''content-length'' = Some cl \<and>
     0 < unat cl \<and> unat cl \<le> e_body_max env \<and> unat cl < 2 ^ 61 \<and>
     (e_disk_offload env = 0 \<or> unat cl \<le> e_disk_offload env)"

lemma start_body_memory:
  assumes "memory_body env cl req"
  obtains req3 where
    "start_body env rest req c =
       bindR (http_body_update env rest req3 (c\<lparr>hs_timeout := e_body_timeout env * 1000\<rparr>))
         (\<lambda>(ok, req4, c4). if ok then Inr (True, True, req4, c4)
            else Inr (True, False, req4\<lparr>hr_delete := True\<rparr>, http_error_response 500 c4))"
    "\<And>k. k < 2 ^ 63 \<Longrightarrow> collecting cl [] k req3" "\<not> hr_complete req3"
proof -
  from assms obtain rt where a: "hr_rt req = Some rt" "on_body_chunk rt = None" "hr_fd req = None" "\<not> hr_complete req"
    "http_request_header_get env req ''content-length'' = Some cl" "cl \<noteq> 0" "unat cl \<le> e_body_max env" "unat cl < 2 ^ 61"
    "\<not> (e_disk_offload env > 0 \<and> unat cl > e_disk_offload env)" "e_body_max env \<noteq> 0"
    unfolding memory_body_def by (auto simp: unat_gt_0)
  have disk: "(0 < e_disk_offload env \<and> e_disk_offload env < unat cl) = False" using a(9) by simp
  define req3 where "req3 = req\<lparr>hr_content_length := cl, hr_body_length := cl, hr_fd := None,
    hr_body := Some (kore_buf_alloc (unat cl)), hr_hashctx := SHA256Init (e_garbage env)\<rparr>"
  have "buf_wf (kore_buf_alloc (unat cl))" using a(8) by simp
  then have "collecting cl [] k req3" if "k < 2 ^ 63" for k
    using that a(1,2,8) sha256.ok_init [of "SHA256Init (e_garbage env)"]
    by (auto simp: collecting_def req3_def buf_room_def octets_def)
  moreover have "\<not> hr_complete req3" using a(4) by (simp add: req3_def)
  ultimately show ?thesis
    by (intro that [of req3]) (simp_all add: start_body_def req3_def Let_def disk a(1-3,5,6,10) leD [OF a(7)])
qed

lemma body_arrive_pieces:
  assumes k: "k < 2 ^ 62" and assms': "memory_body env cl req" "length (rest @ concat pieces) < 2 ^ 61"
    "length (rest @ concat pieces) < unat cl \<or> unat cl < length rest"
  shows "\<exists>req' c'. body_arrive env rest pieces req c = Inr (True, req', c') \<and> collecting cl (rest @ concat pieces) k req' \<and>
    \<not> hr_complete req' \<and> hs_responses c' = hs_responses c \<and>
    hs_recv c' = Some (min (unat (cl - of_nat (length (rest @ concat pieces)))) (e_payload_max env))"
proof -
  note assms = assms'
  obtain req3 where s: "start_body env rest req c =
       bindR (http_body_update env rest req3 (c\<lparr>hs_timeout := e_body_timeout env * 1000\<rparr>))
         (\<lambda>(ok, req4, c4). if ok then Inr (True, True, req4, c4)
            else Inr (True, False, req4\<lparr>hr_delete := True\<rparr>, http_error_response 500 c4))"
    "\<And>k. k < 2 ^ 63 \<Longrightarrow> collecting cl [] k req3" "\<not> hr_complete req3"
    using start_body_memory [OF assms(1)] by blast
  have "collecting cl [] (length rest + (length (concat pieces) + k)) req3" using s(2) assms(2) k by simp
  then obtain req4 c4 where u: "http_body_update env rest req3 (c\<lparr>hs_timeout := e_body_timeout env * 1000\<rparr>) = Inr (True, req4, c4)"
    "c4 = c\<lparr>hs_timeout := e_body_timeout env * 1000,
      hs_recv := Some (min (unat (cl - of_nat (length rest))) (e_payload_max env))\<rparr>"
    "collecting cl rest (length (concat pieces) + k) req4" "\<not> hr_complete req4"
    using collecting_update [of cl "[]" rest "length (concat pieces) + k" req3 env] assms(2,3) s(3) by fastforce
  from collecting_pieces [OF u(3), of env c4] assms(2,3)
  show ?thesis using u(1,2,4) by (cases pieces) (auto simp: body_arrive_def s(1))
qed

lemma bindR_ident: "bindR x Inr = x"
  by (cases x) simp_all

lemma body_arrive_snoc:
  "body_arrive env rest (pieces @ [d]) req c =
     bindR (body_arrive env rest pieces req c) (\<lambda>(_, r, c). http_body_recv env d r c)"
  by (cases "start_body env rest req c") (auto simp: body_arrive_def foldR_append bindR_ident case_prod_unfold)

text \<open>
  C10. A body that is kept in memory and arrives in any pieces, the first of them behind the headers, is
  complete exactly when its last byte has arrived: before, the request is not complete and the next
  receive asks for no more than what is missing; then the length, the bytes a handler reads and the
  SHA-256 digest are those of the body, and nothing was answered.
\<close>

theorem http_body_complete:
  assumes "memory_body env cl req" "length (rest @ concat pieces @ d) = unat cl" "d \<noteq> []"
  shows "\<exists>req1 c1 req2 c2.
    body_arrive env rest pieces req c = Inr (True, req1, c1) \<and> \<not> hr_complete req1 \<and>
    hs_recv c1 = Some (min (length d) (e_payload_max env)) \<and>
    body_arrive env rest (pieces @ [d]) req c = Inr (True, req2, c2) \<and>
    collected cl (rest @ concat pieces @ d) req2 \<and> hs_responses c2 = hs_responses c"
proof -
  have cl: "unat cl < 2 ^ 61" using assms(1) by (simp add: memory_body_def)
  have len: "length (rest @ concat pieces) < unat cl" using assms(2,3) by (cases d) auto
  have k: "length d < 2 ^ 62" using cl assms(2) by simp
  obtain req1 c1 where 1: "body_arrive env rest pieces req c = Inr (True, req1, c1)"
    "collecting cl (rest @ concat pieces) (length d) req1" "\<not> hr_complete req1" "hs_responses c1 = hs_responses c"
    "hs_recv c1 = Some (min (unat (cl - of_nat (length (rest @ concat pieces)))) (e_payload_max env))"
    using body_arrive_pieces [OF k assms(1), of rest pieces c] cl len by auto
  have "cl = of_nat (unat cl)" by simp
  also have "\<dots> = of_nat (length (rest @ concat pieces)) + of_nat (length d)"
    unfolding assms(2) [symmetric] by simp
  finally have "unat (cl - of_nat (length (rest @ concat pieces))) = unat (of_nat (length d) :: u64)" by simp
  also have "\<dots> = length d" using k by (simp add: unat_of_nat take_bit_nat_eq_self)
  finally have r: "hs_recv c1 = Some (min (length d) (e_payload_max env))" using 1(5) by simp
  have l: "length ((rest @ concat pieces) @ d) < 2 ^ 61" "unat cl = length ((rest @ concat pieces) @ d)"
    using cl assms(2) by simp_all
  obtain req2 where 2: "http_body_update env d req1 c1 = Inr (True, req2, c1\<lparr>hs_timeout := 0, hs_recv := None\<rparr>)"
    "collected cl ((rest @ concat pieces) @ d) req2"
    using collecting_last [OF 1(2) l, of env c1] by blast
  have 3: "body_arrive env rest (pieces @ [d]) req c = Inr (True, req2, c1\<lparr>hs_timeout := 0, hs_recv := None\<rparr>)"
    by (simp add: body_arrive_snoc http_body_recv_def 1(1) 2(1))
  show ?thesis
    by (intro exI conjI, rule 1(1), rule 1(3), rule r, rule 3) (use 2(2) 1(4) in simp_all)
qed

text \<open>
  C11. When more bytes than announced arrive together with the headers, the counter of missing bytes
  wraps around: whatever arrives afterwards, the request is never complete, every byte is stored,
  without regard to the limit on the size of a body, and the server keeps asking for more.
\<close>

theorem http_body_overrun:
  assumes "memory_body env cl req" "unat cl < length rest" "length (rest @ concat pieces) < 2 ^ 61"
  shows "\<exists>req' c' b. body_arrive env rest pieces req c = Inr (True, req', c') \<and>
    \<not> hr_complete req' \<and> hr_body req' = Some b \<and> buf_bytes b = rest @ concat pieces \<and>
    unat (hr_content_length req') = 2 ^ 64 - (length (rest @ concat pieces) - unat cl) \<and>
    hs_recv c' = Some (min (unat (hr_content_length req')) (e_payload_max env)) \<and> hs_responses c' = hs_responses c"
proof -
  obtain req' c' where 1: "body_arrive env rest pieces req c = Inr (True, req', c')"
    "collecting cl (rest @ concat pieces) 0 req'" "\<not> hr_complete req'" "hs_responses c' = hs_responses c"
    "hs_recv c' = Some (min (unat (cl - of_nat (length (rest @ concat pieces)))) (e_payload_max env))"
    using body_arrive_pieces [where k = 0 and c = c, OF _ assms(1,3)] assms(2) by auto
  then obtain b where b: "hr_body req' = Some b" "buf_bytes b = rest @ concat pieces"
    "hr_content_length req' = cl - of_nat (length (rest @ concat pieces))"
    unfolding collecting_def by auto
  have "unat (cl - of_nat (length (rest @ concat pieces))) = 2 ^ 64 - (length (rest @ concat pieces) - unat cl)"
    using assms(2,3) by (intro unat_wrap_minus) simp_all
  then show ?thesis using 1 b by auto
qed

section \<open>A sample configuration\<close>

text \<open>One domain with one static route, used to evaluate the definitions.\<close>

definition sample_env :: http_env where
  "sample_env =
     \<lparr>e_header_max = 4096, e_req_header_max = 25, e_domainname_len = 254, e_uri_len = 2000, e_capture_groups = 17,
      e_max_cookies = 10, e_max_query_args = 20, e_request_limit = 1000, e_body_max = 1024, e_body_timeout = 60,
      e_disk_offload = 0, e_disk_path = ''tmp'', e_body_path_max = 256, e_payload_max = 8192,
      e_regexec = (\<lambda>r s. None), e_fnmatch = (\<lambda>p s. p = ''*''), e_u64 = (\<lambda>s. snd (kore_strtonum64 (ENONE) s False)),
      e_mkstemp = True, e_write = (\<lambda>d. True), e_lseek = True, e_garbage = 0,
      e_on_headers = (\<lambda>f r. (True, r)), e_on_body_chunk = (\<lambda>f d. True),
      e_validator = (\<lambda>f r s. if s = ''secret'' then 1 else 0), e_validator_request = (\<lambda>f r. 1)\<rparr>"

definition sample_route :: kore_route where
  "sample_route =
     \<lparr>rt_type = HANDLER_TYPE_STATIC, rt_path = ''/'', rt_methods = [HTTP_METHOD_GET, HTTP_METHOD_POST], rt_params = [],
      on_headers = None, on_body_chunk = None\<rparr>"

definition sample_state :: http_state where
  "sample_state =
     \<lparr>hs_inet6 = False, hs_tls = False, hs_tls_sni = None, hs_tls_cert = False,
      hs_domains = [\<lparr>dom_domain = ''*'', dom_cafile = False, dom_routes = [sample_route], dom_redirects = []\<rparr>],
      hs_count = 0, hs_timeout = 0, hs_recv = None, hs_close_empty = False, hs_responses = []\<rparr>"

definition sample_post :: http_request where
  "sample_post =
     (fresh_request sample_env HTTP_METHOD_POST True False ''a'' ''/'' (Some sample_route))
       \<lparr>hr_headers := [(''content-length'', ''3'')]\<rparr>"

lemma sample_simps: "e_payload_max sample_env = 8192" "hs_responses sample_state = []"
  by (simp_all add: sample_env_def sample_state_def)

lemma sample_memory_body: "memory_body sample_env 3 sample_post"
proof -
  have "http_request_header_get sample_env sample_post ''content-length'' = Some 3"
    by (simp add: http_request_header_get_def sample_post_def sample_env_def fresh_request_def strcase_eq_def kore_strtonum64_def
        strtoll_def strtoull_def strto_parse_def strto_sign_def strto_hex_def isspace_def is_digit_def digit_val_def stale_def Let_def)
  then show ?thesis
    by (simp add: memory_body_def) (simp add: sample_post_def fresh_request_def sample_route_def sample_env_def)
qed

theorem http_body_complete_witness:
  "\<exists>req1 c1 req2 c2.
    body_arrive sample_env ''a'' [] sample_post sample_state = Inr (True, req1, c1) \<and> \<not> hr_complete req1 \<and>
    hs_recv c1 = Some (length ''bc'') \<and>
    body_arrive sample_env ''a'' [''bc''] sample_post sample_state = Inr (True, req2, c2) \<and>
    collected 3 ''abc'' req2 \<and> hs_responses c2 = []"
  using http_body_complete [of sample_env 3 sample_post "''a''" "[]" "''bc''" sample_state] sample_memory_body
  by (simp add: sample_simps)

theorem http_body_overrun_witness:
  "\<exists>req' c' b. body_arrive sample_env ''abcde'' [''fgh''] sample_post sample_state = Inr (True, req', c') \<and>
    \<not> hr_complete req' \<and> hr_body req' = Some b \<and> buf_bytes b = ''abcdefgh'' \<and>
    unat (hr_content_length req') = 2 ^ 64 - 5"
  using http_body_overrun [of sample_env 3 sample_post "''abcde''" "[''fgh'']" sample_state] sample_memory_body
  by fastforce

section \<open>Headers\<close>

text \<open>The characters of RFC 7230: tokens, here in lower case, and visible characters with the blank.\<close>

definition token_char :: "char \<Rightarrow> bool" where
  "token_char x \<longleftrightarrow>
     (let n = of_char x :: nat in
      n = 33 \<or> 35 \<le> n \<and> n \<le> 39 \<or> n = 42 \<or> n = 43 \<or> n = 45 \<or> n = 46 \<or> 48 \<le> n \<and> n \<le> 57 \<or>
      94 \<le> n \<and> n \<le> 122 \<or> n = 124 \<or> n = 126)"

definition printable :: "char \<Rightarrow> bool" where
  "printable x \<longleftrightarrow> 32 \<le> (of_char x :: nat) \<and> (of_char x :: nat) \<le> 126"

definition header_wf :: "string \<times> string \<Rightarrow> bool" where
  "header_wf h \<longleftrightarrow>
     list_all token_char (fst h) \<and> snd h \<noteq> [] \<and> list_all printable (snd h) \<and> hd (snd h) \<noteq> CHR '' ''"

lemma list_all_enumerate:
  "list_all (\<lambda>(i, x). P i x) (enumerate 0 xs) \<Longrightarrow> i < length xs \<Longrightarrow> P i (xs ! i)"
  by (auto simp: list_all_length nth_enumerate_eq)

lemma http_table_lengths: "length http_token = 128" "length http_field_content = 128"
  by (simp_all add: http_tables_flat)

lemma http_token_table:
  assumes "i < 128" "http_token ! i \<noteq> NUL"
  shows "token_char (if 65 \<le> i \<and> i \<le> 90 then char_of (i + 32) else char_of i)"
proof -
  have "list_all (\<lambda>(i, x). x \<noteq> NUL \<longrightarrow>
      token_char (if 65 \<le> i \<and> i \<le> 90 then char_of (i + 32) else char_of i)) (enumerate 0 http_token)"
    by (simp add: http_tables_flat token_char_def)
  from list_all_enumerate [OF this, of i] assms show ?thesis by (simp add: http_table_lengths)
qed

lemma http_field_content_table:
  assumes "i < 128" "http_field_content ! i \<noteq> NUL"
  shows "32 \<le> i \<and> i \<le> 126"
proof -
  have "list_all (\<lambda>(i, x). x \<noteq> NUL \<longrightarrow> 32 \<le> i \<and> i \<le> 126) (enumerate 0 http_field_content)"
    by (simp add: http_tables_flat)
  from list_all_enumerate [OF this, of i] assms show ?thesis by (simp add: http_table_lengths)
qed

lemma field_ok_printable: "field_ok x \<Longrightarrow> printable x"
  using http_field_content_table [of "of_char x"] by (simp add: field_ok_def printable_def HTTP_MAP_LIMIT_def)

lemma header_name_token: "header_name s = Some (n, r) \<Longrightarrow> list_all token_char n"
proof (induction s arbitrary: n r)
  case (Cons x s)
  show ?case
  proof (cases "x = CHR '':''")
    case False
    with Cons.prems obtain m where m: "(of_char x :: nat) < 128" "http_token ! of_char x \<noteq> NUL" "header_name s = Some (m, r)"
      "n = (if 65 \<le> (of_char x :: nat) \<and> (of_char x :: nat) \<le> 90 then char_of ((of_char x :: nat) + 32) else x) # m"
      by (auto simp: Let_def HTTP_MAP_LIMIT_def split: if_splits)
    then show ?thesis using Cons.IH [OF m(3)] http_token_table [OF m(1,2)] by (auto split: if_splits)
  qed (use Cons.prems in \<open>simp add: HTTP_MAP_LIMIT_def\<close>)
qed simp

lemma http_validate_header_wf:
  assumes "http_validate_header s = Some h"
  shows "header_wf h"
proof -
  from assms obtain n r v where h: "header_name s = Some (n, r)" "v = dropWhile isspace r" "v \<noteq> []" "list_all field_ok v" "h = (n, v)"
    by (auto simp: http_validate_header_def Let_def split: option.splits if_splits)
  have "\<not> isspace (hd v)" using h(2,3) hd_dropWhile [of isspace r] by simp
  then have "hd v \<noteq> CHR '' ''" by (auto simp: isspace_def)
  moreover have "list_all printable v" using h(4) field_ok_printable by (auto simp: list_all_iff)
  ultimately show ?thesis using h(3,5) header_name_token [OF h(1)] by (simp add: header_wf_def)
qed

lemma add_headers_wf:
  assumes "add_headers hs req = (ok, req')" "list_all header_wf (hr_headers req)"
  shows "list_all header_wf (hr_headers req') \<and> hr_host req' = hr_host req \<and> hr_method req' = hr_method req"
  using assms
proof (induction hs arbitrary: req)
  case (Cons h hs)
  show ?case
  proof (cases "http_validate_header h")
    case (Some nv)
    obtain n v where nv: "nv = (n, v)" by (cases nv)
    then have "header_wf (n, v)" using http_validate_header_wf Some by simp
    moreover from this have "v \<noteq> []" by (simp add: header_wf_def)
    ultimately show ?thesis using Cons.prems Some nv Cons.IH by fastforce
  qed (use Cons.prems in simp)
qed auto

text \<open>What stays as it is while the body arrives.\<close>

definition same_head :: "http_request \<Rightarrow> http_request \<Rightarrow> bool" where
  "same_head r s \<longleftrightarrow> hr_headers s = hr_headers r \<and> hr_host s = hr_host r \<and> hr_method s = hr_method r"

lemma body_store_head: "body_store env d r = Inr (Some r') \<Longrightarrow> same_head r r'"
  by (auto simp: body_store_def same_head_def bindR_Inr_iff split: option.splits if_splits prod.splits)

lemma body_rewind_head: "http_body_rewind env r = (b, r') \<Longrightarrow> same_head r r'"
  by (auto simp: http_body_rewind_def same_head_def split: option.splits if_splits prod.splits)

lemma body_update_head:
  assumes "http_body_update env d req c = Inr (ok, req', c')"
  shows "same_head req req' \<and> hs_count c' = hs_count c"
proof -
  from assms obtain st where st: "body_store env d (req\<lparr>hr_hashctx := SHA256Update (hr_hashctx req) (octets d)\<rparr>) = Inr st"
    by (cases "body_store env d (req\<lparr>hr_hashctx := SHA256Update (hr_hashctx req) (octets d)\<rparr>)")
      (simp_all add: http_body_update_def Let_def)
  show ?thesis
  proof (cases st)
    case None
    then show ?thesis using assms st by (auto simp: http_body_update_def same_head_def http_error_response_def)
  next
    case (Some r1)
    have h: "same_head req r1" using body_store_head [of env d _ r1] st Some by (simp add: same_head_def)
    define r2 where "r2 = r1\<lparr>hr_sleeping := False, hr_complete := True, hr_expect_body := False,
      hr_content_length := hr_body_length r1\<rparr>"
    obtain b r3 where r3: "http_body_rewind env r2 = (b, r3)" by (cases "http_body_rewind env r2")
    then have "same_head req r3" using h body_rewind_head [OF r3] by (simp add: same_head_def r2_def)
    then show ?thesis
      using assms h unfolding http_body_update_def Let_def st Some bindR.simps option.case r2_def [symmetric] r3 prod.case
      by (auto simp: same_head_def http_error_response_def split: if_splits prod.splits)
  qed
qed

lemma start_body_head:
  assumes "start_body env rest req c = Inr (ret, go, req', c')"
  shows "same_head req req' \<and> hs_count c' = hs_count c"
proof (cases "e_body_max env = 0")
  case True
  then show ?thesis using assms by (auto simp: start_body_def same_head_def http_error_response_def)
next
  case max: False
  show ?thesis
  proof (cases "http_request_header_get env req ''content-length''")
    case None
    then show ?thesis using assms max by (auto simp: start_body_def same_head_def http_error_response_def split: if_splits)
  next
    case (Some cl)
    note eq = assms [unfolded start_body_def Some if_not_P [OF max] Let_def option.case]
    show ?thesis
    proof (cases "cl = 0 \<or> unat cl > e_body_max env")
      case True
      then show ?thesis using eq by (auto simp: same_head_def http_error_response_def split: if_splits)
    next
      case False
      then obtain rt where rt: "hr_rt req = Some rt" using eq by (cases "hr_rt req") auto
      define r3 where "r3 = (if on_body_chunk rt = None \<and> 0 < e_disk_offload env \<and> e_disk_offload env < unat cl
          then req\<lparr>hr_content_length := cl, hr_body_length := cl, hr_body := None, hr_fd := Some ([], 0)\<rparr>
          else if on_body_chunk rt = None
          then req\<lparr>hr_content_length := cl, hr_body_length := cl, hr_fd := None, hr_body := Some (kore_buf_alloc (unat cl))\<rparr>
          else req\<lparr>hr_content_length := cl, hr_body_length := cl\<rparr>)\<lparr>hr_hashctx := SHA256Init (e_garbage env)\<rparr>"
      have r3: "same_head req r3" by (simp add: r3_def same_head_def)
      note eq1 = eq [unfolded rt option.case r3_def [symmetric]]
      show ?thesis
      proof (cases "http_body_update env rest r3 (c\<lparr>hs_timeout := e_body_timeout env * 1000\<rparr>)")
        case (Inr t)
        then obtain ok r4 c4 where t: "t = (ok, r4, c4)" by (cases t)
        have "same_head req r4 \<and> hs_count c4 = hs_count c"
          using body_update_head [OF Inr [unfolded t]] r3 by (simp add: same_head_def)
        then show ?thesis
          using eq1 False unfolding Inr t by (auto simp: same_head_def http_error_response_def split: if_splits)
      qed (use eq1 False in \<open>auto simp: same_head_def http_error_response_def split: if_splits\<close>)
    qed
  qed
qed

lemma http_check_redirect_count:
  "http_check_redirect env req dm c = Inr (b, c') \<Longrightarrow> hs_count c' = hs_count c"
  by (auto simp: http_check_redirect_def bindR_Inr_iff split: option.splits)

lemma http_request_new_some:
  assumes "http_request_new env c host method path version = Inr (Some req, c')"
  shows "hs_count c' = hs_count c + 1 \<and> hs_count c < e_request_limit env \<and> hr_host req = host \<and> hr_headers req = [] \<and>
    length host < e_domainname_len env - 1"
proof -
  note eq = assms [unfolded http_request_new_def Let_def]
  have a: "\<not> e_request_limit env \<le> hs_count c" by (rule notI) (use eq in simp)
  note eq = eq [unfolded if_not_P [OF a]]
  have b: "\<not> e_domainname_len env - 1 \<le> length host" by (rule notI) (use eq in simp)
  note eq = eq [unfolded if_not_P [OF b]]
  have d: "\<not> e_uri_len env - 1 \<le> length path" by (rule notI) (use eq in simp)
  note eq = eq [unfolded if_not_P [OF d]]
  have e: "\<not> (\<not> strcase_eq version ''http/1.1'' \<and> \<not> strcase_eq version ''http/1.0'')" by (rule notI) (use eq in simp)
  note eq = eq [unfolded if_not_P [OF e]]
  obtain name where n: "host_name (hs_inet6 c) host = Some name" by (cases "host_name (hs_inet6 c) host") (use eq in auto)
  note eq = eq [unfolded n option.case]
  have f: "\<not> (hs_tls c \<and> hs_tls_sni c \<noteq> None \<and> \<not> strcase_eq (the (hs_tls_sni c)) name)" by (rule notI) (use eq in simp)
  note eq = eq [unfolded if_not_P [OF f]]
  obtain dm where dm: "kore_domain_lookup env c name = Some dm" by (cases "kore_domain_lookup env c name") (use eq in auto)
  note eq = eq [unfolded dm option.case]
  have g: "\<not> (dom_cafile dm \<and> \<not> hs_tls_cert c)" by (rule notI) (use eq in simp)
  note eq = eq [unfolded if_not_P [OF g]]
  obtain m ex where m: "method_of method = Some (m, ex)" by (cases "method_of method") (use eq in auto)
  note eq = eq [unfolded m option.case prod.case]
  show ?thesis
    using eq a b
    by (auto simp: bindR_Inr_iff fresh_request_def split: if_splits prod.splits dest!: http_check_redirect_count)
qed

text \<open>
  The functions of an application that run on the headers may do anything but change what was received.
\<close>

definition keeps_headers :: "http_env \<Rightarrow> bool" where
  "keeps_headers env \<longleftrightarrow> (\<forall>f r. same_head r (snd (e_on_headers env f r)))"

lemma run_on_headers_head:
  assumes "keeps_headers env" "run_on_headers env req = Inr req'"
  shows "same_head req req'"
proof -
  have "same_head req (snd (e_on_headers env f req))" for f using assms(1) by (simp add: keeps_headers_def)
  then show ?thesis
    using assms(2) by (auto simp: run_on_headers_def same_head_def split: option.splits prod.splits) (metis snd_conv)+
qed

lemma find_host_wf: "find_host i hs = Some (k, Some (n, v)) \<Longrightarrow> header_wf (n, v)"
  by (induction i hs rule: find_host.induct) (auto intro: http_validate_header_wf split: if_splits)

text \<open>What is true of every request that the headers give rise to.\<close>

definition head_ok :: "http_env \<Rightarrow> http_request \<Rightarrow> bool" where
  "head_ok env req \<longleftrightarrow>
     list_all header_wf (hr_headers req) \<and> header_wf (''host'', hr_host req) \<and>
     length (hr_host req) < e_domainname_len env - 1"

lemma head_ok_same: "head_ok env r \<Longrightarrow> same_head r s \<Longrightarrow> head_ok env s"
  by (simp add: head_ok_def same_head_def)

lemma http_headers_parse_ok:
  assumes keep: "keeps_headers env" and parse: "http_headers_parse env hbuf rest c = Inr (ret, Some req, c')"
  shows "head_ok env req \<and> hs_count c < e_request_limit env \<and> hs_count c' = hs_count c + 1"
proof -
  define headers where "headers = kore_split_string hbuf [CHR 0x0D, CHR 0x0A] (e_req_header_max env)"
  define request where "request = kore_split_string (headers ! 0) '' '' 4"
  note eq = parse [unfolded http_headers_parse_def Let_def headers_def [symmetric] request_def [symmetric]]
  have len: "\<not> length headers < 2" "length request = 3" using eq by (auto split: if_splits)
  obtain skip n host where fh: "find_host 0 (request ! 0 # tl headers) = Some (skip, Some (n, host))" and host: "host \<noteq> []"
    using eq len by (auto split: option.splits if_splits)
  obtain r c1 where new: "http_request_new env c host (if skip = 0 then n else request ! 0) (request ! 1) (request ! 2) = Inr (r, c1)"
    using eq len fh host by (cases "http_request_new env c host (if skip = 0 then n else request ! 0) (request ! 1) (request ! 2)") auto
  from eq fh new len host obtain req0 where r: "r = Some req0" by (cases r) auto
  note n0 = http_request_new_some [OF new [unfolded r]]
  obtain ok req1 where add: "add_headers [headers ! i. i \<leftarrow> [1..<length headers], i \<noteq> skip] req0 = (ok, req1)"
    by (cases "add_headers [headers ! i. i \<leftarrow> [1..<length headers], i \<noteq> skip] req0")
  have h1: "head_ok env req1"
    using add_headers_wf [OF add] n0 find_host_wf [OF fh] by (auto simp: head_ok_def header_wf_def token_char_def)
  note eq1 = eq [unfolded fh option.case prod.case new bindR.simps r add]
  show ?thesis
  proof (cases "ok \<and> hr_expect_body req1")
    case True
    then obtain go req2 c2 where b: "start_body env rest req1 c1 = Inr (ret, go, req2, c2)" "c' = c2"
      "if go then run_on_headers env req2 = Inr req else req = req2"
      using eq1 len host by (auto simp: bindR_Inr_iff split: if_splits)
    then have "same_head req1 req2 \<and> hs_count c2 = hs_count c1" using start_body_head by blast
    then show ?thesis
      using b n0 h1 run_on_headers_head [OF keep] by (auto split: if_splits intro: head_ok_same)
  next
    case False
    show ?thesis
    proof (cases ok)
      case True
      then have "run_on_headers env req1 = Inr req" "c' = c1\<lparr>hs_timeout := 0\<rparr>"
        using False eq1 len host by (auto simp: bindR_Inr_iff split: if_splits)
      then show ?thesis using n0 h1 run_on_headers_head [OF keep] by (auto intro: head_ok_same)
    next
      case f: False
      then show ?thesis
        using eq1 len host n0 h1 by (auto simp: http_error_response_def head_ok_def)
    qed
  qed
qed

text \<open>
  C8. Whatever bytes arrive, a request comes into being only below the limit on their number and is
  counted; the names of its headers consist of token characters in lower case, the values, and the
  host, which is shorter than its buffer, of visible characters and blanks, so that no control
  character and no line break gets into them.
\<close>

theorem http_header_recv_sound:
  assumes "keeps_headers env" "http_header_recv env buf c = Inr (ret, Some req, c')"
  shows "head_ok env req \<and> hs_count c < e_request_limit env \<and> hs_count c' = hs_count c + 1"
  using assms http_headers_parse_ok
  by (auto simp: http_header_recv_def bindR_Inr_iff split: option.splits if_splits)

lemma fields_single: "set s \<inter> set delim = {} \<Longrightarrow> Utils.fields delim s = [s]"
  by (induction s) auto

section \<open>Parsing a well-formed request\<close>

abbreviation (input) CRLF :: string where "CRLF \<equiv> [CHR 0x0D, CHR 0x0A]"

text \<open>The lines of a request with the separators between them.\<close>

fun crlf_join :: "string list \<Rightarrow> string" where
  "crlf_join [] = []"
| "crlf_join [l] = l"
| "crlf_join (l # ls) = l @ CRLF @ crlf_join ls"

definition line_ok :: "string \<Rightarrow> bool" where
  "line_ok l \<longleftrightarrow> l \<noteq> [] \<and> set l \<inter> {CHR 0x0D, CHR 0x0A, NUL} = {}"

lemma find_sub_skip: "x \<notin> set l \<Longrightarrow> find_sub (x # p) (l @ s) = map_option (\<lambda>i. length l + i) (find_sub (x # p) s)"
  by (cases "find_sub (x # p) s"; induction l) auto

lemma find_sub_join:
  "ls \<noteq> [] \<Longrightarrow> list_all line_ok ls \<Longrightarrow> find_sub (CRLF @ CRLF) (crlf_join ls @ CRLF @ CRLF @ rest) = Some (length (crlf_join ls))"
proof (induction ls rule: crlf_join.induct)
  case (2 l)
  then have "CHR 0x0D \<notin> set l" by (auto simp: line_ok_def)
  then show ?case using find_sub_skip [of "CHR 0x0D" l "[CHR 0x0A, CHR 0x0D, CHR 0x0A]" "CRLF @ CRLF @ rest"] by simp
next
  case (3 l l2 ls)
  then have l: "CHR 0x0D \<notin> set l" and l2: "l2 \<noteq> []" "CHR 0x0D \<notin> set l2" by (auto simp: line_ok_def)
  obtain y ys where y: "crlf_join (l2 # ls) @ CRLF @ CRLF @ rest = y # ys" "y \<noteq> CHR 0x0D"
    using l2 by (cases l2; cases ls) auto
  have "find_sub (CRLF @ CRLF) (crlf_join (l2 # ls) @ CRLF @ CRLF @ rest) = Some (length (crlf_join (l2 # ls)))" using 3 by simp
  then have "find_sub (CRLF @ CRLF) (CRLF @ y # ys) = Some (2 + length (crlf_join (l2 # ls)))"
    unfolding y(1) using y(2) by simp
  then show ?case
    using find_sub_skip [OF l, of "[CHR 0x0A, CHR 0x0D, CHR 0x0A]" "CRLF @ y # ys"] y(1) by simp
qed simp

lemma fields_app: "set l \<inter> set delim = {} \<Longrightarrow> x \<in> set delim \<Longrightarrow> Utils.fields delim (l @ x # s) = l # Utils.fields delim s"
  by (induction l) auto

lemma fields_join: "list_all line_ok ls \<Longrightarrow> filter (\<lambda>f. f \<noteq> []) (Utils.fields CRLF (crlf_join ls)) = ls"
proof (induction ls rule: crlf_join.induct)
  case (2 l)
  then show ?case using fields_single [of l CRLF] by (auto simp: line_ok_def)
next
  case (3 l l2 ls)
  then have "Utils.fields CRLF (l @ CHR 0x0D # CHR 0x0A # crlf_join (l2 # ls)) = l # [] # Utils.fields CRLF (crlf_join (l2 # ls))"
    using fields_app [of l CRLF "CHR 0x0D"] by (auto simp: line_ok_def)
  then show ?case using 3 by (simp add: line_ok_def)
qed simp

lemma NUL_crlf_join: "list_all line_ok ls \<Longrightarrow> NUL \<notin> set (crlf_join ls)"
  by (induction ls rule: crlf_join.induct) (auto simp: line_ok_def)

lemma hd_crlf_join: "list_all line_ok (l # ls) \<Longrightarrow> hd (crlf_join (l # ls)) = hd l \<and> crlf_join (l # ls) \<noteq> []"
  by (cases ls) (auto simp: line_ok_def)

lemma http_header_recv_lines:
  assumes "list_all line_ok (l # ls)" "isalpha (hd l)"
  shows "http_header_recv env (crlf_join (l # ls) @ CRLF @ CRLF @ rest) c =
    http_headers_parse env (crlf_join (l # ls)) rest c"
proof -
  let ?J = "crlf_join (l # ls)"
  let ?buf = "?J @ CRLF @ CRLF @ rest"
  have "length (CRLF @ CRLF) = 4" by simp
  then have "kore_mem_find ?buf ((CRLF @ CRLF) @ [NUL]) 4 = Inr (find_sub (CRLF @ CRLF) ?buf)"
    using kore_mem_find_eq [of "CRLF @ CRLF" ?buf "[NUL]"] by (metis append_is_Nil_conv list.distinct(1))
  then have e: "end_of_headers ?buf = Inr (Some (length ?J, 4))"
    using find_sub_join [OF _ assms(1), of rest] by (simp add: end_of_headers_def del: crlf_join.simps)
  have n: "?J \<noteq> []" "hd ?J = hd l" using hd_crlf_join [OF assms(1)] by simp_all
  then have "?buf ! 0 = hd l" by (metis append_is_Nil_conv hd_append2 hd_conv_nth)
  moreover have "cstring ?J = ?J" using NUL_crlf_join [OF assms(1)] by (simp add: cstring_def takeWhile_eq_all_conv) metis
  moreover have "take (length ?J) ?buf = ?J" "drop (length ?J + 4) ?buf = rest" "\<not> length ?buf < 4" by simp_all
  ultimately show ?thesis
    unfolding http_header_recv_def e bindR.simps option.case prod.case using assms(2) by simp
qed

lemma split_crlf_join:
  "list_all line_ok ls \<Longrightarrow> length ls < n \<Longrightarrow> kore_split_string (crlf_join ls) CRLF n = ls"
  by (simp add: kore_split_string_def split_loop_fields fields_join)

section \<open>Rendering and parsing\<close>

lemma http_token_table_rev:
  assumes "i < 128" "token_char (tolower (char_of i))"
  shows "http_token ! i \<noteq> NUL"
proof -
  have "list_all (\<lambda>(i, x). token_char (tolower (char_of i)) \<longrightarrow> x \<noteq> NUL) (enumerate 0 http_token)"
    by (simp add: http_tables_flat token_char_def tolower_def)
  from list_all_enumerate [OF this, of i] assms show ?thesis by (simp add: http_table_lengths)
qed

lemma http_field_content_table_rev:
  assumes "32 \<le> i" "i \<le> 126"
  shows "http_field_content ! i \<noteq> NUL"
proof -
  have "list_all (\<lambda>(i, x). 32 \<le> i \<and> i \<le> 126 \<longrightarrow> x \<noteq> NUL) (enumerate 0 http_field_content)"
    by (simp add: http_tables_flat)
  from list_all_enumerate [OF this, of i] assms show ?thesis by (simp add: http_table_lengths)
qed

lemma printable_field_ok: "printable x \<Longrightarrow> field_ok x"
  using http_field_content_table_rev [of "of_char x"] by (simp add: field_ok_def printable_def HTTP_MAP_LIMIT_def)

lemma token_char_range:
  assumes "token_char (tolower x)"
  shows "(of_char x :: nat) < 128 \<and> x \<noteq> CHR '':''"
  using assms by (auto simp: token_char_def tolower_def Let_def split: if_splits)

lemma header_name_render:
  "list_all (\<lambda>x. token_char (tolower x)) n \<Longrightarrow> header_name (n @ CHR '':'' # r) = Some (map tolower n, r)"
proof (induction n)
  case (Cons x n)
  then have "(of_char x :: nat) < 128" "x \<noteq> CHR '':''" "http_token ! of_char x \<noteq> NUL"
    using token_char_range [of x] http_token_table_rev [of "of_char x"] by simp_all
  then show ?case using Cons by (simp add: HTTP_MAP_LIMIT_def tolower_def Let_def)
qed (simp add: HTTP_MAP_LIMIT_def)

lemma printable_hd: "printable x \<Longrightarrow> x \<noteq> CHR '' '' \<Longrightarrow> \<not> isspace x"
  by (auto simp: printable_def isspace_def)

lemma http_validate_header_render:
  assumes "header_wf (map tolower n, v)"
  shows "http_validate_header (n @ '': '' @ v) = Some (map tolower n, v)"
proof -
  have v: "v \<noteq> []" "list_all printable v" "hd v \<noteq> CHR '' ''" and n: "list_all (\<lambda>x. token_char (tolower x)) n"
    using assms by (simp_all add: header_wf_def list.pred_map comp_def)
  then have "\<not> isspace (hd v)" using printable_hd [of "hd v"] by (cases v) auto
  then have d: "dropWhile isspace (CHR '' '' # v) = v" using v(1) by (cases v) (auto simp: isspace_def)
  have "list_all field_ok v" using v(2) printable_field_ok by (auto simp: list_all_iff)
  moreover have "header_name (n @ '': '' @ v) = Some (map tolower n, CHR '' '' # v)"
    using header_name_render [OF n, of "CHR '' '' # v"] by simp
  ultimately show ?thesis
    using v(1) unfolding http_validate_header_def Let_def by (simp add: d del: dropWhile.simps dropWhile_eq_Nil_conv)
qed

lemma add_headers_render:
  "list_all (\<lambda>(n, v). header_wf (map tolower n, v)) hs \<Longrightarrow>
     \<exists>req'. add_headers (map (\<lambda>(n, v). n @ '': '' @ v) hs) req = (True, req') \<and>
       hr_headers req' = hr_headers req @ map (\<lambda>(n, v). (map tolower n, v)) hs \<and> hr_host req' = hr_host req \<and>
       hr_path req' = hr_path req \<and> hr_method req' = hr_method req \<and> hr_query_string req' = hr_query_string req \<and>
       hr_rt req' = hr_rt req \<and> hr_expect_body req' = hr_expect_body req \<and> hr_complete req' = hr_complete req"
proof (induction hs arbitrary: req)
  case (Cons h hs)
  obtain n v where h: "h = (n, v)" by (cases h)
  then have v: "http_validate_header (n @ '': '' @ v) = Some (map tolower n, v)" "v \<noteq> []"
    using Cons.prems http_validate_header_render [of n v] by (simp_all add: header_wf_def)
  define req1 where "req1 = req\<lparr>hr_headers := hr_headers req @ [(map tolower n, v)],
    hr_agent := (if hr_agent req = None \<and> strcase_eq (map tolower n) ''user-agent'' then Some v else hr_agent req),
    hr_referer := (if hr_referer req = None \<and> strcase_eq (map tolower n) ''referer'' then Some v else hr_referer req)\<rparr>"
  have "add_headers (map (\<lambda>(n, v). n @ '': '' @ v) (h # hs)) req = add_headers (map (\<lambda>(n, v). n @ '': '' @ v) hs) req1"
    using v unfolding h req1_def by simp
  moreover have "hr_headers req1 = hr_headers req @ [(map tolower n, v)]" "hr_host req1 = hr_host req" "hr_path req1 = hr_path req"
    "hr_method req1 = hr_method req" "hr_query_string req1 = hr_query_string req" "hr_rt req1 = hr_rt req"
    "hr_expect_body req1 = hr_expect_body req" "hr_complete req1 = hr_complete req"
    by (simp_all add: req1_def)
  moreover have "list_all (\<lambda>(n, v). header_wf (map tolower n, v)) hs" using Cons.prems by simp
  ultimately show ?case using Cons.IH [of req1] h by simp
qed simp

lemma line_ok_render: "header_wf (map tolower n, v) \<Longrightarrow> line_ok (n @ '': '' @ v)"
proof -
  assume wf: "header_wf (map tolower n, v)"
  have "x \<notin> {CHR 0x0D, CHR 0x0A, NUL}" if "x \<in> set n" for x
  proof -
    have "token_char (tolower x)" using that wf by (simp add: header_wf_def list_all_iff)
    then show ?thesis by (auto simp: token_char_def tolower_def)
  qed
  moreover have "x \<notin> {CHR 0x0D, CHR 0x0A, NUL}" if "x \<in> set v" for x
    using that wf by (auto simp: header_wf_def list_all_iff printable_def)
  ultimately show ?thesis by (auto simp: line_ok_def)
qed

lemma skip_second: "[(a # b # t) ! i. i \<leftarrow> [1..<length (a # b # t)], i \<noteq> 1] = t"
proof -
  have u: "[1..<length (a # b # t)] = 1 # [2..<length t + 2]" by (subst upt_rec) (simp add: numeral_2_eq_2)
  have "[(a # b # t) ! i. i \<leftarrow> [2..<length t + 2], i \<noteq> 1] = map (\<lambda>i. (a # b # t) ! i) [2..<length t + 2]"
  proof -
    have "i \<noteq> 1" if "i \<in> set [2..<length t + 2]" for i using that unfolding set_upt by auto
    then have "map (\<lambda>i. if i \<noteq> 1 then [(a # b # t) ! i] else []) [2..<length t + 2] = map (\<lambda>i. [(a # b # t) ! i]) [2..<length t + 2]"
      by (intro map_cong refl) metis
    then show ?thesis by (metis concat_map_singleton)
  qed
  also have "\<dots> = map (\<lambda>i. t ! i) [0..<length t]"
    unfolding map_add_upt [of 2 "length t", symmetric] by (simp add: comp_def)
  finally show ?thesis unfolding u by (simp add: map_nth)
qed

text \<open>A word of the request line.\<close>

definition word_ok :: "string \<Rightarrow> bool" where
  "word_ok w \<longleftrightarrow> w \<noteq> [] \<and> set w \<inter> {CHR '' '', CHR 0x0D, CHR 0x0A, NUL} = {}"

lemma split_words:
  assumes "word_ok a" "word_ok b" "word_ok d"
  shows "kore_split_string (a @ '' '' @ b @ '' '' @ d) '' '' 4 = [a, b, d]"
proof -
  have s: "set a \<inter> set '' '' = {}" "set b \<inter> set '' '' = {}" "set d \<inter> set '' '' = {}" using assms by (auto simp: word_ok_def)
  have "Utils.fields '' '' (a @ CHR '' '' # b @ CHR '' '' # d) = [a, b, d]"
    using fields_app [OF s(1), of "CHR '' ''"] fields_app [OF s(2), of "CHR '' ''"] fields_single [OF s(3)] by simp
  then show ?thesis using assms by (simp add: kore_split_string_def split_loop_fields word_ok_def)
qed

text \<open>A request without a body as a client writes it.\<close>

definition render_lines :: "string \<Rightarrow> string \<Rightarrow> string \<Rightarrow> string \<Rightarrow> (string \<times> string) list \<Rightarrow> string list" where
  "render_lines method path version host hs =
     (method @ '' '' @ path @ '' '' @ version) # (''Host'' @ '': '' @ host) # map (\<lambda>(n, v). n @ '': '' @ v) hs"

lemma render_lines_ok:
  assumes "word_ok method" "word_ok path" "word_ok version" "header_wf (''host'', host)"
    "list_all (\<lambda>(n, v). header_wf (map tolower n, v)) hs"
  shows "list_all line_ok (render_lines method path version host hs)"
proof -
  have "map tolower ''Host'' = ''host''" by (simp add: tolower_def char_of_eq_iff)
  then have "line_ok (''Host'' @ '': '' @ host)" using line_ok_render [of "''Host''" host] assms(4) by metis
  moreover have "line_ok (method @ '' '' @ path @ '' '' @ version)" using assms(1-3) by (auto simp: line_ok_def word_ok_def)
  moreover have "line_ok (n @ '': '' @ v)" if "(n, v) \<in> set hs" for n v
    using that assms(5) line_ok_render [of n v] by (auto simp: list_all_iff)
  ultimately show ?thesis by (auto simp: render_lines_def list_all_iff)
qed

text \<open>The target of a request: the path and, behind the question mark, the query.\<close>

definition target_text :: "string \<Rightarrow> string option \<Rightarrow> string" where
  "target_text path query = path @ (case query of None \<Rightarrow> [] | Some q \<Rightarrow> CHR ''?'' # q)"

lemma split_target:
  assumes "path \<noteq> []" "CHR ''?'' \<notin> set path"
  shows "split_path (target_text path query) = (path, query)"
proof -
  have "takeWhile (\<lambda>y. y \<noteq> CHR ''?'') (path @ CHR ''?'' # q) = path" for q using assms(2) by (auto simp: takeWhile_append)
  then show ?thesis using assms by (cases query) (simp_all add: split_path_def target_text_def)
qed

lemma route_lookup_exists: "route_lookup env path m ex rts = (n, Some rt) \<Longrightarrow> n = 1"
  by (induction rts arbitrary: ex) (auto split: if_splits)

text \<open>
  The server takes a request: it has room for one more and for its host and target, the host leads to a domain that asks
  for no client certificate and has no redirect for the path, and the domain has a route for the method and the path.
\<close>

definition accepts :: "http_env \<Rightarrow> http_state \<Rightarrow> string \<Rightarrow> http_method \<Rightarrow> string \<Rightarrow> string option \<Rightarrow> kore_route \<Rightarrow> bool" where
  "accepts env c host m path query rt \<longleftrightarrow>
     hs_count c < e_request_limit env \<and> length host < e_domainname_len env - 1 \<and> length (target_text path query) < e_uri_len env - 1 \<and>
     (case host_name (hs_inet6 c) host of
        None \<Rightarrow> False
      | Some name \<Rightarrow>
          (hs_tls c \<longrightarrow> hs_tls_sni c = None \<or> strcase_eq (the (hs_tls_sni c)) name) \<and>
          (case kore_domain_lookup env c name of
             None \<Rightarrow> False
           | Some dm \<Rightarrow> (dom_cafile dm \<longrightarrow> hs_tls_cert c) \<and> find_redirect env path (dom_redirects dm) = None \<and>
                        snd (kore_route_lookup env path dm m) = Some rt))"

lemma http_request_new_accepts:
  assumes acc: "accepts env c host m path query rt" and p: "path \<noteq> []" "CHR ''?'' \<notin> set path" and m: "method_of method = Some (m, expect)"
  shows "http_request_new env c host method (target_text path query) ''HTTP/1.1'' =
    Inr (Some (fresh_request env m expect False host (target_text path query) (Some rt)), c\<lparr>hs_count := hs_count c + 1\<rparr>)"
proof -
  let ?t = "target_text path query" and ?req = "fresh_request env m expect False host (target_text path query) (Some rt)"
  obtain name dm where n: "host_name (hs_inet6 c) host = Some name" and dm: "kore_domain_lookup env c name = Some dm"
    using acc by (auto simp: accepts_def split: option.splits)
  have lim: "\<not> hs_count c \<ge> e_request_limit env" "\<not> length host \<ge> e_domainname_len env - 1" "\<not> length ?t \<ge> e_uri_len env - 1"
    and tls: "\<not> (hs_tls c \<and> hs_tls_sni c \<noteq> None \<and> \<not> strcase_eq (the (hs_tls_sni c)) name)" "\<not> (dom_cafile dm \<and> \<not> hs_tls_cert c)"
    and red: "find_redirect env path (dom_redirects dm) = None" and rt: "snd (kore_route_lookup env path dm m) = Some rt"
    using acc n dm by (auto simp: accepts_def)
  have look: "kore_route_lookup env path dm m = (1, Some rt)"
    using rt route_lookup_exists [of env path m 0 "dom_routes dm"] by (cases "kore_route_lookup env path dm m") (auto simp: kore_route_lookup_def)
  have v: "strcase_eq ''HTTP/1.1'' ''http/1.1''" by (simp add: strcase_eq_def tolower_def char_of_eq_iff)
  have "hr_path ?req = path" using split_target [OF p] by (simp add: fresh_request_def)
  then have "http_check_redirect env ?req dm (c\<lparr>hs_count := hs_count c + 1\<rparr>) = Inr (False, c\<lparr>hs_count := hs_count c + 1\<rparr>)"
    using red by (simp add: http_check_redirect_def)
  then show ?thesis
    unfolding http_request_new_def Let_def n dm m option.case prod.case split_target [OF p] fst_conv look
    using lim tls v by simp
qed

lemma http_header_recv_rendered:
  assumes words: "word_ok method" "word_ok target" "word_ok version" "isalpha (hd method)" "\<not> strcase_eq (take 4 method) ''host''"
    and hs: "header_wf (''host'', host)" "list_all (\<lambda>(n, v). header_wf (map tolower n, v)) hs" "length hs + 2 < e_req_header_max env"
    and new: "http_request_new env c host method target version = Inr (Some req0, c1)"
  shows "\<exists>req. add_headers (map (\<lambda>(n, v). n @ '': '' @ v) hs) req0 = (True, req) \<and>
    http_header_recv env (crlf_join (render_lines method target version host hs) @ CRLF @ CRLF @ rest) c =
      (if hr_expect_body req
       then bindR (start_body env rest req c1) (\<lambda>(ret, go, req1, c2).
              if go then bindR (run_on_headers env req1) (\<lambda>req2. Inr (ret, Some req2, c2)) else Inr (ret, Some req1, c2))
       else bindR (run_on_headers env req) (\<lambda>req1. Inr (True, Some req1, c1\<lparr>hs_timeout := 0\<rparr>)))"
proof -
  let ?ls = "render_lines method target version host hs"
  let ?t = "map (\<lambda>(n, v). n @ '': '' @ v) hs"
  have ok: "list_all line_ok ?ls" by (rule render_lines_ok [OF words(1-3) hs(1,2)])
  have "hd (method @ '' '' @ target @ '' '' @ version) = hd method" using words(1) by (simp add: word_ok_def)
  then have recv: "http_header_recv env (crlf_join ?ls @ CRLF @ CRLF @ rest) c = http_headers_parse env (crlf_join ?ls) rest c"
    using ok words(4) unfolding render_lines_def by (intro http_header_recv_lines) simp_all
  have split: "kore_split_string (crlf_join ?ls) CRLF (e_req_header_max env) = ?ls"
    using ok by (rule split_crlf_join) (use hs(3) in \<open>simp add: render_lines_def\<close>)
  have low: "map tolower ''Host'' = ''host''" by (simp add: tolower_def char_of_eq_iff)
  then have val: "http_validate_header (''Host'' @ '': '' @ host) = Some (''host'', host)"
    using http_validate_header_render [of "''Host''" host] hs(1) by metis
  have "strcase_eq (take 4 (''Host'' @ '': '' @ host)) ''host''" using low by (simp add: strcase_eq_def tolower_def)
  then have host: "find_host 0 (method # (''Host'' @ '': '' @ host) # ?t) = Some (1, Some (''host'', host))"
    using words(5) val by simp
  have rest: "[?ls ! i. i \<leftarrow> [1..<length ?ls], i \<noteq> 1] = ?t" unfolding render_lines_def by (rule skip_second)
  obtain req where req: "add_headers ?t req0 = (True, req)" using add_headers_render [OF hs(2), of req0] by blast
  have ls: "length ?ls \<ge> 2" "?ls ! 0 = method @ '' '' @ target @ '' '' @ version" "tl ?ls = (''Host'' @ '': '' @ host) # ?t"
    by (simp_all add: render_lines_def)
  have ne: "host \<noteq> []" using hs(1) by (simp add: header_wf_def)
  have "http_headers_parse env (crlf_join ?ls) rest c =
      (if hr_expect_body req
       then bindR (start_body env rest req c1) (\<lambda>(ret, go, req1, c2).
              if go then bindR (run_on_headers env req1) (\<lambda>req2. Inr (ret, Some req2, c2)) else Inr (ret, Some req1, c2))
       else bindR (run_on_headers env req) (\<lambda>req1. Inr (True, Some req1, c1\<lparr>hs_timeout := 0\<rparr>)))"
    using ls(1) ne new
    unfolding http_headers_parse_def Let_def split ls(2,3) split_words [OF words(1-3)] nth_Cons_0 host option.case prod.case rest
    by (simp add: req [simplified])
  with req show ?thesis unfolding recv by (intro exI conjI) assumption+
qed

text \<open>The methods without a body, as the standard writes them.\<close>

definition bodiless :: "(string \<times> http_method) list" where
  "bodiless = [(''GET'', HTTP_METHOD_GET), (''HEAD'', HTTP_METHOD_HEAD), (''OPTIONS'', HTTP_METHOD_OPTIONS)]"

lemma bodiless_ok:
  assumes "(method, m) \<in> set bodiless"
  shows "word_ok method" "isalpha (hd method)" "\<not> strcase_eq (take 4 method) ''host''" "method_of method = Some (m, False)"
  using assms by (auto simp: bodiless_def word_ok_def isalpha_def strcase_eq_def tolower_def method_of_def char_of_eq_iff)

text \<open>
  C9. A \<open>GET\<close>, \<open>HEAD\<close> or \<open>OPTIONS\<close> request that is written as the standard prescribes, with fewer headers than there is room for,
  for a route of the server that has no hook for headers, is read back: the request is complete and holds the method, the
  path, the query if there is one, the host, and the names of the headers, in lower case, with their values in their order.
\<close>

theorem http_header_recv_parses:
  assumes "(method, m) \<in> set bodiless" "path \<noteq> []" "CHR ''?'' \<notin> set path" "word_ok (target_text path query)"
    and hs: "header_wf (''host'', host)" "list_all (\<lambda>(n, v). header_wf (map tolower n, v)) hs" "length hs + 2 < e_req_header_max env"
    and "accepts env c host m path query rt" "on_headers rt = None"
  shows "\<exists>req. http_header_recv env (crlf_join (render_lines method (target_text path query) ''HTTP/1.1'' host hs) @ CRLF @ CRLF @ rest) c =
      Inr (True, Some req, c\<lparr>hs_count := hs_count c + 1, hs_timeout := 0\<rparr>) \<and>
    hr_method req = m \<and> hr_path req = path \<and> hr_query_string req = query \<and> hr_host req = host \<and>
    hr_headers req = map (\<lambda>(n, v). (map tolower n, v)) hs \<and> hr_rt req = Some rt \<and> hr_complete req \<and> \<not> hr_expect_body req"
proof -
  note ok = bodiless_ok [OF assms(1)]
  let ?req0 = "fresh_request env m False False host (target_text path query) (Some rt)"
  have new: "http_request_new env c host method (target_text path query) ''HTTP/1.1'' = Inr (Some ?req0, c\<lparr>hs_count := hs_count c + 1\<rparr>)"
    by (rule http_request_new_accepts [OF assms(8,2,3) ok(4)])
  have v: "word_ok ''HTTP/1.1''" by (simp add: word_ok_def)
  obtain req where req: "add_headers (map (\<lambda>(n, v). n @ '': '' @ v) hs) ?req0 = (True, req)"
    "http_header_recv env (crlf_join (render_lines method (target_text path query) ''HTTP/1.1'' host hs) @ CRLF @ CRLF @ rest) c =
      (if hr_expect_body req
       then bindR (start_body env rest req (c\<lparr>hs_count := hs_count c + 1\<rparr>)) (\<lambda>(ret, go, req1, c2).
              if go then bindR (run_on_headers env req1) (\<lambda>req2. Inr (ret, Some req2, c2)) else Inr (ret, Some req1, c2))
       else bindR (run_on_headers env req) (\<lambda>req1. Inr (True, Some req1, c\<lparr>hs_count := hs_count c + 1, hs_timeout := 0\<rparr>)))"
    using http_header_recv_rendered [OF ok(1) assms(4) v ok(2,3) hs new] by auto
  have f: "hr_headers ?req0 = []" "hr_host ?req0 = host" "hr_path ?req0 = path" "hr_method ?req0 = m" "hr_query_string ?req0 = query"
    "hr_rt ?req0 = Some rt" "hr_expect_body ?req0 = False" "hr_complete ?req0 = True"
    using split_target [OF assms(2,3), of query] by (simp_all add: fresh_request_def)
  have h: "hr_headers req = map (\<lambda>(n, v). (map tolower n, v)) hs" "hr_host req = host" "hr_path req = path" "hr_method req = m"
    "hr_query_string req = query" "hr_rt req = Some rt" "\<not> hr_expect_body req" "hr_complete req"
    using add_headers_render [OF hs(2), of ?req0] req(1) f by auto
  then show ?thesis using req(2) assms(9) by (simp add: run_on_headers_def)
qed

lemma add_headers_body: "add_headers hs req = (ok, req') \<Longrightarrow> hr_body req' = hr_body req"
  by (induction hs req arbitrary: ok req' rule: add_headers.induct) (auto split: option.splits if_splits)

text \<open>A \<open>POST\<close> request that announces a body of no bytes is complete, and has no body.\<close>

lemma http_header_recv_empty_post:
  assumes path: "path \<noteq> []" "CHR ''?'' \<notin> set path" "word_ok (target_text path query)"
    and hs: "header_wf (''host'', host)" "list_all (\<lambda>(n, v). header_wf (map tolower n, v)) hs" "length hs + 2 < e_req_header_max env"
    and acc: "accepts env c host HTTP_METHOD_POST path query rt"
    and len: "find (\<lambda>(n, v). strcase_eq n ''content-length'') (map (\<lambda>(n, v). (map tolower n, v)) hs) = Some (n, v)" "e_u64 env v = Some 0"
      "e_body_max env \<noteq> 0"
  shows "\<exists>req. http_header_recv env (crlf_join (render_lines ''POST'' (target_text path query) ''HTTP/1.1'' host hs) @ CRLF @ CRLF @ rest) c =
      Inr (True, Some req, c\<lparr>hs_count := hs_count c + 1, hs_timeout := 0\<rparr>) \<and>
    hr_method req = HTTP_METHOD_POST \<and> hr_path req = path \<and> hr_rt req = Some rt \<and> hr_complete req \<and> hr_body req = None"
proof -
  let ?req0 = "fresh_request env HTTP_METHOD_POST True False host (target_text path query) (Some rt)"
  have ok: "word_ok ''POST''" "word_ok ''HTTP/1.1''" "isalpha (hd ''POST'')" "\<not> strcase_eq (take 4 ''POST'') ''host''"
    "method_of ''POST'' = Some (HTTP_METHOD_POST, True)"
    by (simp_all add: word_ok_def isalpha_def strcase_eq_def tolower_def method_of_def char_of_eq_iff)
  have new: "http_request_new env c host ''POST'' (target_text path query) ''HTTP/1.1'' = Inr (Some ?req0, c\<lparr>hs_count := hs_count c + 1\<rparr>)"
    by (rule http_request_new_accepts [OF acc path(1,2) ok(5)])
  obtain req where req: "add_headers (map (\<lambda>(n, v). n @ '': '' @ v) hs) ?req0 = (True, req)"
    "http_header_recv env (crlf_join (render_lines ''POST'' (target_text path query) ''HTTP/1.1'' host hs) @ CRLF @ CRLF @ rest) c =
      (if hr_expect_body req
       then bindR (start_body env rest req (c\<lparr>hs_count := hs_count c + 1\<rparr>)) (\<lambda>(ret, go, req1, c2).
              if go then bindR (run_on_headers env req1) (\<lambda>req2. Inr (ret, Some req2, c2)) else Inr (ret, Some req1, c2))
       else bindR (run_on_headers env req) (\<lambda>req1. Inr (True, Some req1, c\<lparr>hs_count := hs_count c + 1, hs_timeout := 0\<rparr>)))"
    using http_header_recv_rendered [OF ok(1) path(3) ok(2,3,4) hs new] by auto
  have f: "hr_headers ?req0 = []" "hr_path ?req0 = path" "hr_method ?req0 = HTTP_METHOD_POST" "hr_rt ?req0 = Some rt" "hr_expect_body ?req0"
    "hr_body ?req0 = None"
    using split_target [OF path(1,2), of query] by (simp_all add: fresh_request_def)
  have h: "hr_headers req = map (\<lambda>(n, v). (map tolower n, v)) hs" "hr_path req = path" "hr_method req = HTTP_METHOD_POST"
    "hr_rt req = Some rt" "hr_expect_body req" "hr_body req = None"
    using add_headers_render [OF hs(2), of ?req0] req(1) f add_headers_body [OF req(1)] by auto
  have "http_request_header_get env req ''content-length'' = Some 0" using len(1,2) h(1) by (simp add: http_request_header_get_def)
  then show ?thesis using req(2) h len(3) by (simp add: start_body_def)
qed

lemma sample_new:
  assumes "length host < 253"
  shows "http_request_new sample_env sample_state host ''GET'' ''/'' ''HTTP/1.1'' =
    Inr (Some (fresh_request sample_env HTTP_METHOD_GET False False host ''/'' (Some sample_route)), sample_state\<lparr>hs_count := 1\<rparr>)"
proof -
  obtain name where n: "host_name (hs_inet6 sample_state) host = Some name"
    by (cases "host_name (hs_inet6 sample_state) host") (simp_all add: sample_state_def host_name_def split: if_splits)
  have d: "kore_domain_lookup sample_env sample_state name =
      Some \<lparr>dom_domain = ''*'', dom_cafile = False, dom_routes = [sample_route], dom_redirects = []\<rparr>"
    by (simp add: kore_domain_lookup_def sample_state_def sample_env_def)
  have m: "method_of ''GET'' = Some (HTTP_METHOD_GET, False)" "strcase_eq ''HTTP/1.1'' ''http/1.1''" "split_path ''/'' = (''/'', None)"
    by (simp_all add: method_of_def strcase_eq_def tolower_def split_path_def char_of_eq_iff)
  have e: "e_request_limit sample_env = 1000" "e_domainname_len sample_env = 254" "e_uri_len sample_env = 2000"
    "hs_count sample_state = 0" "hs_tls sample_state = False"
    by (simp_all add: sample_env_def sample_state_def)
  show ?thesis
    using assms unfolding http_request_new_def Let_def n d m(1) option.case prod.case
    by (simp add: m e kore_route_lookup_def route_matches_def sample_route_def http_check_redirect_def fresh_request_def)
qed

lemma sample_request:
  assumes l: "lines = [''GET / HTTP/1.1'', h, x]" "line_ok h" "line_ok x" "strcase_eq (take 4 h) ''host''"
    and v: "http_validate_header h = Some (n, host)" "length host < 253" "http_validate_header x = Some (m, v)"
  shows "\<exists>req c'. http_header_recv sample_env (crlf_join lines @ CRLF @ CRLF) sample_state = Inr (True, Some req, c') \<and>
    hr_headers req = [(m, v)] \<and> hr_host req = host \<and> hr_complete req \<and> hs_count c' = 1"
proof -
  have ok: "list_all line_ok lines" using l by (simp add: line_ok_def)
  have recv: "http_header_recv sample_env (crlf_join lines @ CRLF @ CRLF @ []) sample_state =
      http_headers_parse sample_env (crlf_join lines) [] sample_state"
    using ok unfolding l(1) by (intro http_header_recv_lines) (simp_all add: isalpha_def)
  have split: "kore_split_string (crlf_join lines) CRLF (e_req_header_max sample_env) = lines"
    using ok by (rule split_crlf_join) (simp add: l(1) sample_env_def)
  have req: "kore_split_string ''GET / HTTP/1.1'' '' '' 4 = [''GET'', ''/'', ''HTTP/1.1'']"
    by (simp add: kore_split_string_def split_loop_fields)
  have host: "find_host 0 [''GET'', h, x] = Some (1, Some (n, host))"
    using l(4) v(1) by (simp add: strcase_eq_def tolower_def)
  have "host \<noteq> []" "v \<noteq> []" using http_validate_header_wf [OF v(1)] http_validate_header_wf [OF v(3)] by (simp_all add: header_wf_def)
  moreover have "[lines ! i. i \<leftarrow> [1..<length lines], i \<noteq> 1] = [x]" by (simp add: l(1) upt_rec)
  ultimately have "\<exists>req c'. http_headers_parse sample_env (crlf_join lines) [] sample_state = Inr (True, Some req, c') \<and>
      hr_headers req = [(m, v)] \<and> hr_host req = host \<and> hr_complete req \<and> hs_count c' = 1"
    using v(2,3) host req unfolding http_headers_parse_def Let_def split
    by (simp add: l(1) sample_new fresh_request_def run_on_headers_def sample_route_def)
  then show ?thesis using recv by simp
qed

lemma sample_hosts:
  "strcase_eq (take 4 ''Host: a:80'') ''host''" "strcase_eq (take 4 ''Host: a'') ''host''" "strcase_eq (take 4 ''Hostile: a'') ''host''"
  "length ''a:80'' < 253" "length ''a'' < 253"
  "line_ok ''Host: a:80''" "line_ok ''X-Id: 7''" "line_ok ''Host: a''" "line_ok ''Host: b''" "line_ok ''Hostile: a''"
  by (simp_all add: strcase_eq_def tolower_def char_of_eq_iff line_ok_def)

lemma sample_lines:
  "http_validate_header ''Host: a:80'' = Some (''host'', ''a:80'')" "http_validate_header ''X-Id: 7'' = Some (''x-id'', ''7'')"
  "http_validate_header ''Host: a'' = Some (''host'', ''a'')" "http_validate_header ''Host: b'' = Some (''host'', ''b'')"
  "http_validate_header ''Hostile: a'' = Some (''hostile'', ''a'')"
  by (simp_all add: http_validate_header_def HTTP_MAP_LIMIT_def http_tables_flat isspace_def field_ok_def char_of_eq_iff)

theorem http_header_recv_parses_witness:
  "\<exists>req c'. http_header_recv sample_env
      (crlf_join (render_lines ''GET'' (target_text ''/'' (Some ''x=1'')) ''HTTP/1.1'' ''a:80'' [(''X-Id'', ''7'')]) @ CRLF @ CRLF @ []) sample_state =
      Inr (True, Some req, c') \<and> hr_path req = ''/'' \<and> hr_query_string req = Some ''x=1'' \<and>
      hr_headers req = [(map tolower ''X-Id'', ''7'')] \<and> hr_host req = ''a:80''"
proof -
  have "header_wf (''host'', ''a:80'')" "header_wf (map tolower ''X-Id'', ''7'')"
    by (simp_all add: header_wf_def token_char_def printable_def tolower_def)
  moreover have "accepts sample_env sample_state ''a:80'' HTTP_METHOD_GET ''/'' (Some ''x=1'') sample_route"
    by (simp add: accepts_def sample_env_def sample_state_def target_text_def host_name_def before_last_def kore_domain_lookup_def
        kore_route_lookup_def route_matches_def sample_route_def)
  ultimately show ?thesis
    using http_header_recv_parses [of "''GET''" HTTP_METHOD_GET "''/''" "Some ''x=1''" "''a:80''" "[(''X-Id'', ''7'')]" sample_env sample_state sample_route "[]"]
    by (fastforce simp: bodiless_def word_ok_def target_text_def sample_env_def sample_route_def)
qed

theorem http_header_recv_sound_witness:
  "\<exists>ret req c'. http_header_recv sample_env (crlf_join [''GET / HTTP/1.1'', ''Host: a:80'', ''X-Id: 7''] @ CRLF @ CRLF) sample_state =
      Inr (ret, Some req, c') \<and>
    hr_headers req = [(''x-id'', ''7'')] \<and> hr_host req = ''a:80'' \<and> head_ok sample_env req \<and> hs_count c' = 1"
proof -
  let ?lines = "[''GET / HTTP/1.1'', ''Host: a:80'', ''X-Id: 7'']"
  obtain req c' where r: "http_header_recv sample_env (crlf_join ?lines @ CRLF @ CRLF) sample_state = Inr (True, Some req, c')"
    "hr_headers req = [(''x-id'', ''7'')]" "hr_host req = ''a:80''" "hs_count c' = 1"
    using sample_request [OF refl sample_hosts(6,7,1) sample_lines(1) sample_hosts(4) sample_lines(2)] by blast
  have "keeps_headers sample_env" by (simp add: keeps_headers_def sample_env_def same_head_def)
  from http_header_recv_sound [OF this r(1)] r show ?thesis by blast
qed

text \<open>
  The search for the host compares four characters and stops at the first hit.  With two host headers
  the first one selects the domain, but a handler that asks for the header reads the second; and a
  header whose name only begins with \<open>host\<close> is taken for the host, so that the real one is stored as
  an ordinary header.
\<close>

theorem http_host_confusion:
  "(\<exists>req c'. http_header_recv sample_env (crlf_join [''GET / HTTP/1.1'', ''Host: a'', ''Host: b''] @ CRLF @ CRLF) sample_state =
      Inr (True, Some req, c') \<and> hr_complete req \<and> hr_host req = ''a'' \<and> http_request_header req ''host'' = Some ''b'') \<and>
   (\<exists>req c'. http_header_recv sample_env (crlf_join [''GET / HTTP/1.1'', ''Hostile: a'', ''Host: b''] @ CRLF @ CRLF) sample_state =
      Inr (True, Some req, c') \<and> hr_complete req \<and> hr_host req = ''a'' \<and> http_request_header req ''hostile'' = None)"
proof -
  note a = sample_request [OF refl sample_hosts(8,9,2) sample_lines(3) sample_hosts(5) sample_lines(4)]
  note b = sample_request [OF refl sample_hosts(10,9,3) sample_lines(5) sample_hosts(5) sample_lines(4)]
  have "http_request_header req ''host'' = Some ''b'' \<and> http_request_header req ''hostile'' = None"
    if "hr_headers req = [(''host'', ''b'')]" for req
    using that by (simp add: http_request_header_def strcase_eq_def tolower_def)
  with a b show ?thesis by blast
qed

text \<open>
  Cookie authentication compares only a prefix of the cookie: every cookie whose name begins with the
  configured name is taken for it, and its value is what the validator sees.
\<close>

theorem kore_auth_cookie_prefix:
  assumes "http_request_header req ''cookie'' = Some (au_value au @ suf @ ''='' @ v)"
    "list_all (\<lambda>x. x \<notin> {CHR '';'', CHR ''='', CHR '' ''} \<and> \<not> isspace x) (au_value au @ suf)" "CHR '';'' \<notin> set v"
    "au_value au \<noteq> []" "e_max_cookies env > 1"
  shows "kore_auth_cookie env req au = kore_validator_check env req (au_validator au) v"
proof -
  let ?s = "au_value au @ suf @ ''='' @ v"
  have "CHR '';'' \<notin> set ?s" using assms(2,3) by (auto simp: list_all_iff)
  then have "Utils.fields '';'' ?s = [?s]" by (intro fields_single) auto
  then have "kore_split_string ?s '';'' (e_max_cookies env) = [?s]"
    using assms(4,5) by (simp add: kore_split_string_def split_loop_fields)
  moreover have "dropWhile isspace ?s = ?s"
    using assms(2,4) by (cases "au_value au") simp_all
  moreover have "dropWhile (\<lambda>x. x \<noteq> CHR ''='') ?s = CHR ''='' # v"
    using assms(2) by (simp add: dropWhile_append list_all_iff)
  ultimately show ?thesis
    using assms(1) by (simp add: kore_auth_cookie_def strncmp_eq_def)
qed

theorem kore_auth_cookie_prefix_witness:
  "\<exists>req au. au_value au = ''session'' \<and> http_request_header req ''cookie'' = Some ''session_x=secret'' \<and>
     kore_auth_cookie sample_env req au = 1"
proof (intro exI conjI)
  let ?req = "sample_post\<lparr>hr_headers := [(''cookie'', ''session_x=secret'')]\<rparr>"
  let ?au = "\<lparr>au_name = ''a'', au_type = KORE_AUTH_TYPE_COOKIE, au_value = ''session'', au_redirect = None,
    au_validator = \<lparr>val_type = VAL_FUNCTION, val_name = ''v'', val_arg = ''f''\<rparr>\<rparr>"
  show "au_value ?au = ''session''" by simp
  show h: "http_request_header ?req ''cookie'' = Some ''session_x=secret''" by (simp add: http_request_header_def strcase_eq_def)
  have "kore_auth_cookie sample_env ?req ?au = kore_validator_check sample_env ?req (au_validator ?au) ''secret''"
    by (rule kore_auth_cookie_prefix [where suf = "''_x''"]) (use h in \<open>simp_all add: isspace_def sample_env_def\<close>)
  then show "kore_auth_cookie sample_env ?req ?au = 1" by (simp add: kore_validator_check_def sample_env_def)
qed

section \<open>Decoding\<close>

text \<open>The encoding of RFC 3986: unreserved characters stay, every other byte is written as two digits.\<close>

definition hex_digit :: "nat \<Rightarrow> char" where
  "hex_digit n = char_of (if n < 10 then 48 + n else 55 + n)"

definition unreserved :: "char \<Rightarrow> bool" where
  "unreserved x \<longleftrightarrow> isalpha x \<or> is_digit 10 x \<or> x \<in> set ''-._~''"

fun url_encode :: "string \<Rightarrow> string" where
  "url_encode [] = []"
| "url_encode (x # s) =
     (if unreserved x then [x]
      else [CHR ''%'', hex_digit (of_char x div 16), hex_digit (of_char x mod 16)]) @ url_encode s"

text \<open>The control characters that the decoder lets through.\<close>

definition decodable :: "bool \<Rightarrow> char \<Rightarrow> bool" where
  "decodable url x \<longleftrightarrow>
     (let n = of_char x :: nat in (31 < n \<and> n \<noteq> 127) \<or> (\<not> url \<and> n \<in> {9, 10, 13}))"

lemma digit_val_hex_digit [simp]: "d < 16 \<Longrightarrow> digit_val (hex_digit d) = Some d"
  by (auto simp: digit_val_def hex_digit_def)

lemma hex_digit_xdigit [simp]: "d < 16 \<Longrightarrow> is_digit 16 (hex_digit d)"
  by (simp add: is_digit_def)

lemma hex_pair:
  assumes "n < 256"
  shows "isxdigit (hex_digit (n div 16)) \<and> isxdigit (hex_digit (n mod 16)) \<and>
    kore_strtonum [CHR ''0'', CHR ''x'', hex_digit (n div 16), hex_digit (n mod 16)] 16 0 255 = Some (int n)"
proof -
  have d: "n div 16 < 16" "n mod 16 < 16" "n div 16 * 16 + n mod 16 = n" using assms by auto
  then have "strto_parse 16 [CHR ''0'', CHR ''x'', hex_digit (n div 16), hex_digit (n mod 16)] = (False, n, 4)"
    by (simp add: strto_parse_def strto_sign_def strto_hex_def isspace_def)
  then have "strtoll 16 [CHR ''0'', CHR ''x'', hex_digit (n div 16), hex_digit (n mod 16)] = (int n, 4, False)"
    using assms by (simp add: strtoll_def)
  then show ?thesis using assms d by (simp add: kore_strtonum_def isxdigit_def)
qed

lemma unreserved_plain: "unreserved x \<Longrightarrow> x \<noteq> CHR ''%'' \<and> x \<noteq> CHR ''+''"
  by (auto simp: unreserved_def isalpha_def is_digit_def digit_val_def)

text \<open>
  Decoding the percent-encoding of a string gives the string back, for every string without the
  control characters that are refused; in a body line breaks and tabs are let through.
\<close>

theorem http_argument_urldecode_encode:
  assumes "list_all (decodable url) s"
  shows "http_argument_urldecode url (url_encode s) = Some s"
  using assms
proof (induction s)
  case (Cons x s)
  have IH: "http_argument_urldecode url (url_encode s) = Some s" using Cons by simp
  have d: "decodable url x" using Cons.prems by simp
  show ?case
  proof (cases "unreserved x")
    case True
    then show ?thesis using IH unreserved_plain [OF True] by simp
  next
    case False
    have "(of_char x :: nat) < 256" by simp
    note hex = hex_pair [OF this]
    have "\<not> ((int (of_char x) \<le> 31 \<or> int (of_char x) = 127) \<and> (url \<or> int (of_char x) \<notin> {10, 13, 9}))"
      using d by (auto simp: decodable_def Let_def)
    then show ?thesis using IH hex False by simp
  qed
qed simp

theorem http_argument_urldecode_encode_witness:
  "http_argument_urldecode True ''a%26b%20%25%E9'' = Some (''a&b %'' @ [CHR 0xE9])"
proof -
  have "url_encode (''a&b %'' @ [CHR 0xE9]) = ''a%26b%20%25%E9''" by code_simp
  moreover have "list_all (decodable True) (''a&b %'' @ [CHR 0xE9])" by code_simp
  ultimately show ?thesis using http_argument_urldecode_encode [of True "''a&b %'' @ [CHR 0xE9]"] by simp
qed

end
