(* ===== verification/Files.thy ===== *)
theory Files
  imports Http
begin

text \<open>
  Served files: the cache of open files of \<open>src/src/fileref.c\<close> and the mapping of request paths to
  files of \<open>src/src/filemap.c\<close>.

  A pointer to a reference is a number that is never used again; an access to a reference that has
  been returned to its pool is the fault \<open>OutOfBounds\<close>.  The file system is a field of \<open>file_env\<close> for every
  call, so that it may change between calls.  What the program does with descriptors is a log of
  \<open>close\<close> and of \<open>munmap\<close> calls.
\<close>

section \<open>The cache of files\<close>

datatype ferr = ENOENT | EPERM | EACCES | EOTHERR

datatype file_kind =
    S_REG int "int \<times> int"
  | S_DIR
  | S_OTHER

text \<open>
  \<open>fe_sendfile\<close> is \<open>KORE_USE_PLATFORM_SENDFILE\<close>; \<open>fe_pool_fd\<close> is what the field \<open>fd\<close> of a structure holds
  when it comes out of the pool.  Times are seconds and nanoseconds; \<open>fe_now\<close> is in milliseconds.
\<close>

record file_env =
  fe_tls :: bool
  fe_sendfile :: bool
  fe_mmap :: bool
  fe_pool_fd :: int
  fe_now :: nat
  fe_path_max :: nat
  fe_ext :: "string option"
  fe_index :: "string option"
  fe_realpath :: "string \<Rightarrow> ferr + string"
  fe_stat :: "string \<Rightarrow> (int \<times> int) option"
  fe_open :: "string \<Rightarrow> ferr + int"
  fe_fstat :: "int \<Rightarrow> file_kind option"

record fileref =
  fr_cnt :: int
  fr_soft :: bool
  fr_size :: int
  fr_ontls :: bool
  fr_path :: string
  fr_mtime_sec :: int
  fr_mtime :: u64
  fr_fd :: int
  fr_mapped :: bool
  fr_expiration :: nat

record files =
  fl_refs :: "nat list"
  fl_heap :: "nat \<Rightarrow> fileref option"
  fl_next :: nat
  fl_timer :: bool
  fl_closed :: "int list"
  fl_unmapped :: "nat list"

abbreviation FILEREF_EXPIRATION :: nat where "FILEREF_EXPIRATION \<equiv> 1000 * 30"

definition mtime_ms :: "int \<times> int \<Rightarrow> u64" where
  "mtime_ms ts = word_of_int (fst ts * 1000 + snd ts div 1000000)"

definition kore_fileref_init :: files where
  "kore_fileref_init =
     \<lparr>fl_refs = [], fl_heap = (\<lambda>_. None), fl_next = 0, fl_timer = False, fl_closed = [], fl_unmapped = []\<rparr>"

definition fileref_timer_prime :: "files \<Rightarrow> files" where
  "fileref_timer_prime st = st\<lparr>fl_timer := True\<rparr>"

definition fileref_drop :: "file_env \<Rightarrow> nat \<Rightarrow> files \<Rightarrow> files result" where
  "fileref_drop env r st =
     (case fl_heap st r of
        None \<Rightarrow> Inl OutOfBounds
      | Some f \<Rightarrow>
          (let st1 = (if \<not> fr_soft f then st\<lparr>fl_refs := remove1 r (fl_refs st)\<rparr> else st);
               st2 = (if \<not> fe_sendfile env then st1\<lparr>fl_unmapped := fl_unmapped st1 @ [r]\<rparr>
                      else st1\<lparr>fl_closed := fl_closed st1 @ [fr_fd f]\<rparr>)
           in Inr (st2\<lparr>fl_heap := (fl_heap st2)(r := None)\<rparr>)))"

definition fileref_soft_remove :: "file_env \<Rightarrow> nat \<Rightarrow> files \<Rightarrow> files result" where
  "fileref_soft_remove env r st =
     (case fl_heap st r of
        None \<Rightarrow> Inl OutOfBounds
      | Some f \<Rightarrow>
          if fr_soft f then Inl (Fatal ''fileref_soft_remove: already removed'')
          else (let st1 = st\<lparr>fl_refs := remove1 r (fl_refs st), fl_heap := (fl_heap st)(r \<mapsto> f\<lparr>fr_soft := True\<rparr>)\<rparr>
                in if fr_cnt f = 0 then fileref_drop env r st1 else Inr st1))"

fun find_ref :: "(nat \<Rightarrow> fileref option) \<Rightarrow> string \<Rightarrow> bool \<Rightarrow> nat list \<Rightarrow> (nat \<times> fileref) option result" where
  "find_ref h path ontls [] = Inr None"
| "find_ref h path ontls (r # rs) =
     (case h r of
        None \<Rightarrow> Inl OutOfBounds
      | Some f \<Rightarrow> if fr_path f = path \<and> fr_ontls f = ontls then Inr (Some (r, f)) else find_ref h path ontls rs)"

definition kore_fileref_get :: "file_env \<Rightarrow> string \<Rightarrow> bool \<Rightarrow> files \<Rightarrow> (nat option \<times> files) result" where
  "kore_fileref_get env path ontls st =
     bindR (find_ref (fl_heap st) path ontls (fl_refs st)) (\<lambda>found.
       case found of
         None \<Rightarrow> Inr (None, st)
       | Some (r, f) \<Rightarrow>
           (case fe_stat env (fr_path f) of
              None \<Rightarrow> bindR (fileref_soft_remove env r st) (\<lambda>st'. Inr (None, st'))
            | Some ts \<Rightarrow>
                if fr_mtime f \<noteq> mtime_ms ts then bindR (fileref_soft_remove env r st) (\<lambda>st'. Inr (None, st'))
                else Inr (Some r, st\<lparr>fl_heap := (fl_heap st)(r \<mapsto> f\<lparr>fr_cnt := fr_cnt f + 1\<rparr>),
                                     fl_refs := r # remove1 r (fl_refs st)\<rparr>)))"

text \<open>
  The field \<open>expiration\<close> is only read once the last holder has set it.  The size of a file is a 64-bit number, so that it always fits the type of a size and the branch that
  returns a null pointer is not reached.
\<close>

definition kore_fileref_create ::
  "file_env \<Rightarrow> string \<Rightarrow> int \<Rightarrow> int \<Rightarrow> int \<times> int \<Rightarrow> files \<Rightarrow> (nat option \<times> files) result" where
  "kore_fileref_create env path fd sz ts st =
     bindR (kore_fileref_get env path (fe_tls env) (fileref_timer_prime st)) (\<lambda>(found, st1).
       case found of
         Some r \<Rightarrow> Inr (Some r, st1)
       | None \<Rightarrow>
           (let r = fl_next st1; direct = (fe_sendfile env \<and> \<not> fe_tls env);
                f = \<lparr>fr_cnt = 1, fr_soft = False, fr_size = sz, fr_ontls = fe_tls env, fr_path = path, fr_mtime_sec = fst ts,
                     fr_mtime = mtime_ms ts, fr_fd = (if direct then fd else fe_pool_fd env), fr_mapped = (\<not> direct),
                     fr_expiration = 0\<rparr>
            in if \<not> direct \<and> \<not> fe_mmap env then Inl (Fatal ''net_send_file: mmap failed'')
               else Inr (Some r, st1\<lparr>fl_refs := fl_refs st1 @ [r], fl_heap := (fl_heap st1)(r \<mapsto> f), fl_next := r + 1,
                                     fl_closed := fl_closed st1 @ (if direct then [] else [fd])\<rparr>)))"

definition kore_fileref_release :: "file_env \<Rightarrow> nat \<Rightarrow> files \<Rightarrow> files result" where
  "kore_fileref_release env r st =
     (case fl_heap st r of
        None \<Rightarrow> Inl OutOfBounds
      | Some f \<Rightarrow>
          (let f1 = f\<lparr>fr_cnt := fr_cnt f - 1\<rparr>; st1 = st\<lparr>fl_heap := (fl_heap st)(r \<mapsto> f1)\<rparr>
           in if fr_cnt f1 < 0 then Inl (Fatal ''kore_fileref_release: cnt < 0'')
              else if fr_cnt f1 = 0
              then (if fr_soft f1 then fileref_drop env r st1
                    else Inr (st\<lparr>fl_heap := (fl_heap st)(r \<mapsto> f1\<lparr>fr_expiration := fe_now env + FILEREF_EXPIRATION\<rparr>)\<rparr>))
              else Inr st1))"

definition expire_ref :: "file_env \<Rightarrow> files \<Rightarrow> nat \<Rightarrow> files result" where
  "expire_ref env st r =
     (case fl_heap st r of
        None \<Rightarrow> Inl OutOfBounds
      | Some f \<Rightarrow> if fr_cnt f \<noteq> 0 \<or> fr_expiration f > fe_now env then Inr st else fileref_drop env r st)"

definition fileref_expiration_check :: "file_env \<Rightarrow> files \<Rightarrow> files result" where
  "fileref_expiration_check env st =
     bindR (foldR (expire_ref env) st (fl_refs st)) (\<lambda>st'.
       Inr (if fl_refs st' = [] then st'\<lparr>fl_timer := False\<rparr> else st'))"

section \<open>Mapping paths to files\<close>

record filemap_entry =
  fm_root :: string
  fm_domain :: nat
  fm_ondisk :: string

text \<open>
  \<open>kore_filemap_create\<close>: \<open>root_dir\<close> is the directory the workers change their root to; \<open>exists_path\<close> tells whether
  \<open>stat\<close> finds a path, \<open>compiles\<close> whether the route can be created and \<open>auth_known\<close> whether the
  authentication block exists.  The result is the regular expression of the new route, whose handler is
  \<open>filemap_resolve\<close>, with the list of entries.
\<close>

definition kore_filemap_create ::
  "file_env \<Rightarrow> string option \<Rightarrow> (string \<Rightarrow> bool) \<Rightarrow> (string \<Rightarrow> bool) \<Rightarrow> (string \<Rightarrow> bool) \<Rightarrow> filemap_entry list \<Rightarrow> nat \<Rightarrow>
   string \<Rightarrow> string \<Rightarrow> string option \<Rightarrow> (string \<times> filemap_entry list) option result" where
  "kore_filemap_create env root_dir exists_path compiles auth_known maps dm path root auth =
     (if root = [] then Inr None
      else if hd root \<noteq> CHR ''/'' \<or> last root \<noteq> CHR ''/'' then Inr None
      else let fpath = (case root_dir of None \<Rightarrow> path | Some d \<Rightarrow> d @ ''/'' @ path) in
           if length fpath \<ge> fe_path_max env
           then Inl (Fatal (if root_dir = None then ''kore_filemap_create: failed to copy path''
                            else ''kore_filemap_create: failed to concat paths''))
           else if \<not> exists_path fpath then Inr None
           else let regex = ''^'' @ root @ ''.*$'' in
                if length regex \<ge> 1024 then Inl (Fatal ''kore_filemap_create: buffer too small'')
                else if \<not> compiles regex then Inr None
                else if auth \<noteq> None \<and> \<not> auth_known (the auth) then Inl (Fatal ''filemap has unknown auth'')
                else Inr (Some (regex, maps @ [\<lparr>fm_root = root, fm_domain = dm, fm_ondisk = path\<rparr>])))"

definition resolve_entry :: "file_env \<Rightarrow> filemap_entry list \<Rightarrow> filemap_entry \<Rightarrow> filemap_entry list result" where
  "resolve_entry env acc e =
     (case fe_realpath env (fm_ondisk e) of
        Inl _ \<Rightarrow> Inl (Fatal ''realpath'')
      | Inr rpath \<Rightarrow> Inr (acc @ [e\<lparr>fm_ondisk := rpath\<rparr>]))"

definition kore_filemap_resolve_paths :: "file_env \<Rightarrow> filemap_entry list \<Rightarrow> filemap_entry list result" where
  "kore_filemap_resolve_paths env maps = foldR (resolve_entry env) [] maps"

text \<open>The answer to a request: a status, the methods that are allowed, a redirection, or a file.\<close>

datatype file_reply =
    FileStatus nat
  | FileAllow string
  | FileRedirect string
  | FileSend nat

definition close_fd :: "int \<Rightarrow> files \<Rightarrow> files" where
  "close_fd fd st = st\<lparr>fl_closed := fl_closed st @ [fd]\<rparr>"

text \<open>
  The part of \<open>filemap_serve\<close> from the label \<open>lookup\<close> on.  The number is how often the jump back may
  still be taken: 1 while \<open>index\<close> is 0, and 0 afterwards.  \<open>retry\<close> is the path with the extension or the
  name of the index file, when it fits.
\<close>

definition with_suffix :: "file_env \<Rightarrow> filemap_entry \<Rightarrow> string \<Rightarrow> string \<Rightarrow> string option" where
  "with_suffix env mp path suf =
     (let fpath = fm_ondisk mp @ ''/'' @ path @ suf in if length fpath \<ge> fe_path_max env then None else Some fpath)"

definition serve_open ::
  "(string \<Rightarrow> files \<Rightarrow> (file_reply \<times> files) result) \<Rightarrow> bool \<Rightarrow> file_env \<Rightarrow> filemap_entry \<Rightarrow> string \<Rightarrow> string \<Rightarrow> files \<Rightarrow>
   (file_reply \<times> files) result" where
  "serve_open again first env mp reqpath fpath st =
     (let path = drop (length (fm_root mp)) reqpath;
          retry = (\<lambda>suf st. case with_suffix env mp path suf of
                     None \<Rightarrow> Inr (FileStatus 500, st)
                   | Some p \<Rightarrow> again p st)
      in case fe_open env fpath of
           Inl ENOENT \<Rightarrow>
             (if \<not> first then Inr (FileStatus 404, st)
              else case fe_ext env of None \<Rightarrow> Inr (FileStatus 404, st) | Some ext \<Rightarrow> retry ext st)
         | Inl EPERM \<Rightarrow> Inr (FileStatus 403, st)
         | Inl EACCES \<Rightarrow> Inr (FileStatus 403, st)
         | Inl EOTHERR \<Rightarrow> Inr (FileStatus 500, st)
         | Inr fd \<Rightarrow>
             (case fe_fstat env fd of
                None \<Rightarrow> Inr (FileStatus 500, close_fd fd st)
              | Some (S_REG sz ts) \<Rightarrow>
                  if sz \<le> 0 then Inr (FileStatus 404, close_fd fd st)
                  else bindR (kore_fileref_create env fpath fd sz ts st) (\<lambda>(ref, st').
                         case ref of
                           None \<Rightarrow> Inr (FileStatus 500, close_fd fd st')
                         | Some r \<Rightarrow> Inr (FileSend r, st'))
              | Some S_DIR \<Rightarrow>
                  if first
                  then (if reqpath = [] then Inl OutOfBounds
                        else if last reqpath \<noteq> CHR ''/''
                        then Inr (FileRedirect (take (fe_path_max env - 1) (reqpath @ ''/'')), close_fd fd st)
                        else retry (case fe_index env of None \<Rightarrow> ''index.html'' | Some i \<Rightarrow> i) (close_fd fd st))
                  else Inr (FileStatus 404, close_fd fd st)
              | Some S_OTHER \<Rightarrow> Inr (FileStatus 404, close_fd fd st)))"

primrec serve_lookup ::
  "nat \<Rightarrow> file_env \<Rightarrow> filemap_entry \<Rightarrow> string \<Rightarrow> string \<Rightarrow> files \<Rightarrow> (file_reply \<times> files) result" where
  "serve_lookup 0 env mp reqpath fpath st =
     (case fe_realpath env fpath of
        Inl _ \<Rightarrow> Inr (FileStatus 404, st)
      | Inr rpath \<Rightarrow>
          if \<not> strncmp_eq (length (fm_ondisk mp)) rpath fpath then Inr (FileStatus 404, st)
          else bindR (kore_fileref_get env rpath (fe_tls env) st) (\<lambda>(ref, st1).
                 case ref of
                   Some r \<Rightarrow> Inr (FileSend r, st1)
                 | None \<Rightarrow> serve_open (\<lambda>p st. Inr (FileStatus 404, st)) False env mp reqpath fpath st1))"
| "serve_lookup (Suc n) env mp reqpath fpath st =
     (case fe_realpath env fpath of
        Inl e \<Rightarrow>
          (if e = ENOENT \<and> fe_ext env \<noteq> None
           then (case with_suffix env mp (drop (length (fm_root mp)) reqpath) (the (fe_ext env)) of
                   None \<Rightarrow> Inr (FileStatus 500, st)
                 | Some p \<Rightarrow> serve_lookup n env mp reqpath p st)
           else Inr (FileStatus 404, st))
      | Inr rpath \<Rightarrow>
          if \<not> strncmp_eq (length (fm_ondisk mp)) rpath fpath then Inr (FileStatus 404, st)
          else bindR (kore_fileref_get env rpath (fe_tls env) st) (\<lambda>(ref, st1).
                 case ref of
                   Some r \<Rightarrow> Inr (FileSend r, st1)
                 | None \<Rightarrow> serve_open (serve_lookup n env mp reqpath) True env mp reqpath fpath st1))"

definition filemap_serve :: "file_env \<Rightarrow> filemap_entry \<Rightarrow> string \<Rightarrow> files \<Rightarrow> (file_reply \<times> files) result" where
  "filemap_serve env mp reqpath st =
     (case with_suffix env mp (drop (length (fm_root mp)) reqpath) [] of
        None \<Rightarrow> Inr (FileStatus 500, st)
      | Some fpath \<Rightarrow>
          (case http_argument_urldecode True fpath of
             None \<Rightarrow> Inr (FileStatus 400, st)
           | Some fpath' \<Rightarrow> serve_lookup 1 env mp reqpath fpath' st))"

fun best_map :: "nat \<Rightarrow> string \<Rightarrow> filemap_entry option \<Rightarrow> filemap_entry list \<Rightarrow> filemap_entry option" where
  "best_map dm path best [] = best"
| "best_map dm path best (e # es) =
     (if fm_domain e \<noteq> dm then best_map dm path best es
      else if strncmp_eq (length (fm_root e)) (fm_root e) path \<and>
              (case best of None \<Rightarrow> True | Some b \<Rightarrow> length (fm_root e) > length (fm_root b))
      then best_map dm path (Some e) es
      else best_map dm path best es)"

text \<open>\<open>dm\<close> is the domain of the route of the request.\<close>

definition filemap_resolve ::
  "file_env \<Rightarrow> filemap_entry list \<Rightarrow> nat \<Rightarrow> http_method \<Rightarrow> string \<Rightarrow> files \<Rightarrow> (file_reply \<times> files) result" where
  "filemap_resolve env maps dm m reqpath st =
     (if m \<noteq> HTTP_METHOD_GET \<and> m \<noteq> HTTP_METHOD_HEAD then Inr (FileAllow ''get, head'', st)
      else case best_map dm reqpath None maps of
             None \<Rightarrow> Inr (FileStatus 404, st)
           | Some mp \<Rightarrow> filemap_serve env mp reqpath st)"

section \<open>The answer with a file\<close>

definition http_media_register :: "(string \<times> string) list \<Rightarrow> string \<Rightarrow> string \<Rightarrow> (string \<times> string) list option" where
  "http_media_register media ext type =
     (if \<exists>m \<in> set media. strcase_eq (fst m) ext then None else Some ((ext, type) # media))"

text \<open>The part behind the last dot is read backwards from the end.\<close>

definition http_media_type :: "(string \<times> string) list \<Rightarrow> string \<Rightarrow> string option" where
  "http_media_type media path =
     (if CHR ''.'' \<notin> set path then None
      else let p = rev (takeWhile (\<lambda>c. c \<noteq> CHR ''.'') (rev path)) in
           if p = [] then None else map_option snd (find (\<lambda>m. strcase_eq (fst m) p) media))"

text \<open>
  What the answer consists of, in the order of the calls: \<open>http_response_header\<close>, \<open>http_response\<close>,
  \<open>http_response_normal\<close> and \<open>net_send_fileref\<close>, which releases the reference when the file has been sent.
\<close>

datatype fileref_event =
    ResponseHeader string string
  | Response nat
  | ResponseNormal nat int
  | SendFileref nat

text \<open>
  \<open>date_to_time\<close> is \<open>kore_date_to_time\<close> with its time zone and \<open>http_date\<close> is \<open>gmtime\<close> with \<open>strftime\<close>, which may
  fail.  \<open>proto_http\<close> tells for a request that has a connection whether it speaks HTTP.
\<close>

definition http_response_fileref ::
  "file_env \<Rightarrow> (string \<times> string) list \<Rightarrow> (string \<Rightarrow> int) \<Rightarrow> (int \<Rightarrow> string option) \<Rightarrow> bool option \<Rightarrow> http_request \<Rightarrow> nat \<Rightarrow>
   nat \<Rightarrow> files \<Rightarrow> (fileref_event list \<times> files) result" where
  "http_response_fileref env media date_to_time http_date proto_http req status r st =
     (case proto_http of
        None \<Rightarrow> Inr ([], st)
      | Some http \<Rightarrow>
          (case fl_heap st r of
             None \<Rightarrow> Inl OutOfBounds
           | Some f \<Rightarrow>
               (let ctype = (case http_media_type media (fr_path f) of None \<Rightarrow> [] | Some t \<Rightarrow> [ResponseHeader ''content-type'' t]);
                    unchanged = (case http_request_header req ''if-modified-since'' of
                                   None \<Rightarrow> False
                                 | Some modified \<Rightarrow> date_to_time modified = fr_mtime_sec f);
                    lastm = (case http_date (fr_mtime_sec f) of None \<Rightarrow> [] | Some t \<Rightarrow> [ResponseHeader ''last-modified'' t])
                in if unchanged
                   then bindR (kore_fileref_release env r st) (\<lambda>st'. Inr (ctype @ [Response 304], st'))
                   else if \<not> http then Inl (Fatal ''http_response_fd() bad proto'')
                   else let ev = ctype @ lastm @ [ResponseNormal status (fr_size f)] in
                        if hr_method req \<noteq> HTTP_METHOD_HEAD then Inr (ev @ [SendFileref r], st)
                        else bindR (kore_fileref_release env r st) (\<lambda>st'. Inr (ev, st')))))"

section \<open>References are counted\<close>

text \<open>
  \<open>h r\<close> is the number of callers that hold reference \<open>r\<close>.  Cached references are alive, distinct and have
  distinct keys; the counter of a reference is the number of its holders; a reference that has been
  taken out of the cache lives only while it is held; the timer runs while there is something cached.
\<close>

definition files_inv :: "files \<Rightarrow> (nat \<Rightarrow> nat) \<Rightarrow> bool" where
  "files_inv st h \<longleftrightarrow>
     distinct (fl_refs st) \<and>
     (\<forall>r \<in> set (fl_refs st). \<exists>f. fl_heap st r = Some f \<and> \<not> fr_soft f) \<and>
     (\<forall>r f. fl_heap st r = Some f \<longrightarrow>
        fr_cnt f = int (h r) \<and> r < fl_next st \<and> (if fr_soft f then h r > 0 else r \<in> set (fl_refs st))) \<and>
     (\<forall>r. fl_heap st r = None \<longrightarrow> h r = 0) \<and>
     (\<forall>r s f g. r \<in> set (fl_refs st) \<longrightarrow> s \<in> set (fl_refs st) \<longrightarrow> fl_heap st r = Some f \<longrightarrow> fl_heap st s = Some g \<longrightarrow>
        fr_path f = fr_path g \<longrightarrow> fr_ontls f = fr_ontls g \<longrightarrow> r = s) \<and>
     (fl_refs st \<noteq> [] \<longrightarrow> fl_timer st)"

definition hold :: "nat option \<Rightarrow> (nat \<Rightarrow> nat) \<Rightarrow> nat \<Rightarrow> nat" where
  "hold ref h = (case ref of None \<Rightarrow> h | Some r \<Rightarrow> h(r := h r + 1))"

text \<open>
  The callers, in any order and with any file system: whoever got a reference may release it once.
\<close>

inductive files_reach :: "files \<Rightarrow> (nat \<Rightarrow> nat) \<Rightarrow> bool" where
  Start: "files_reach kore_fileref_init (\<lambda>_. 0)"
| Get: "files_reach st h \<Longrightarrow> kore_fileref_get env path ontls st = Inr (ref, st') \<Longrightarrow> files_reach st' (hold ref h)"
| Create: "files_reach st h \<Longrightarrow> kore_fileref_create env path fd sz ts st = Inr (ref, st') \<Longrightarrow> files_reach st' (hold ref h)"
| Release: "files_reach st h \<Longrightarrow> 0 < h r \<Longrightarrow> kore_fileref_release env r st = Inr st' \<Longrightarrow> files_reach st' (h(r := h r - 1))"
| Expire: "files_reach st h \<Longrightarrow> fileref_expiration_check env st = Inr st' \<Longrightarrow> files_reach st' h"

lemma files_invD:
  assumes "files_inv st h"
  shows "distinct (fl_refs st)"
    and "r \<in> set (fl_refs st) \<Longrightarrow> \<exists>f. fl_heap st r = Some f \<and> \<not> fr_soft f"
    and "fl_heap st r = Some f \<Longrightarrow> fr_cnt f = int (h r)"
    and "fl_heap st r = Some f \<Longrightarrow> r < fl_next st"
    and "fl_heap st r = Some f \<Longrightarrow> fr_soft f \<Longrightarrow> 0 < h r"
    and "fl_heap st r = Some f \<Longrightarrow> \<not> fr_soft f \<Longrightarrow> r \<in> set (fl_refs st)"
    and "fl_heap st r = None \<Longrightarrow> h r = 0"
    and "fl_refs st \<noteq> [] \<Longrightarrow> fl_timer st"
  using assms unfolding files_inv_def by (auto split: if_splits)

lemma files_inv_init: "files_inv kore_fileref_init (\<lambda>_. 0)"
  by (simp add: files_inv_def kore_fileref_init_def)

text \<open>A reference without holders is dropped.\<close>

lemma files_inv_drop:
  assumes inv: "files_inv st h" and r: "fl_heap st r = Some f" "h r = 0"
  obtains st' where "fileref_drop env r st = Inr st'" "files_inv st' h" "fl_heap st' = (fl_heap st)(r := None)"
    "fl_refs st' = remove1 r (fl_refs st)" "fl_timer st' = fl_timer st"
proof -
  have soft: "\<not> fr_soft f" using files_invD(5) [OF inv r(1)] r(2) by auto
  define st' where "st' = (if \<not> fe_sendfile env then st\<lparr>fl_refs := remove1 r (fl_refs st), fl_unmapped := fl_unmapped st @ [r]\<rparr>
      else st\<lparr>fl_refs := remove1 r (fl_refs st), fl_closed := fl_closed st @ [fr_fd f]\<rparr>)\<lparr>fl_heap := (fl_heap st)(r := None)\<rparr>"
  have eq: "fileref_drop env r st = Inr st'" using r(1) soft by (simp add: fileref_drop_def st'_def)
  have f: "fl_heap st' = (fl_heap st)(r := None)" "fl_refs st' = remove1 r (fl_refs st)" "fl_timer st' = fl_timer st" "fl_next st' = fl_next st"
    by (simp_all add: st'_def)
  have "distinct (fl_refs st)" using inv by (simp add: files_inv_def)
  then have "set (fl_refs st') = set (fl_refs st) - {r}" "distinct (fl_refs st')" by (simp_all add: f)
  moreover have "fl_refs st' \<noteq> [] \<longrightarrow> fl_timer st'" using files_invD(8) [OF inv] by (cases "fl_refs st") (simp_all add: f)
  ultimately have "files_inv st' h" using inv r(2) unfolding files_inv_def f(1,4) by (auto split: if_splits)
  with eq f show ?thesis using that by blast
qed

text \<open>Taking a reference out of the cache; without holders it is dropped.\<close>

lemma files_inv_soft_remove:
  assumes inv: "files_inv st h" and r: "r \<in> set (fl_refs st)"
  obtains st' where "fileref_soft_remove env r st = Inr st'" "files_inv st' h" "fl_refs st' = remove1 r (fl_refs st)"
    "\<And>s. s \<noteq> r \<Longrightarrow> fl_heap st' s = fl_heap st s" "fl_timer st' = fl_timer st" "fl_next st' = fl_next st"
proof -
  obtain f where f: "fl_heap st r = Some f" "\<not> fr_soft f" using files_invD(2) [OF inv r] by blast
  have c: "fr_cnt f = int (h r)" by (rule files_invD(3) [OF inv f(1)])
  have d: "distinct (fl_refs st)" using inv by (simp add: files_inv_def)
  define st1 where "st1 = st\<lparr>fl_refs := remove1 r (fl_refs st), fl_heap := (fl_heap st)(r \<mapsto> f\<lparr>fr_soft := True\<rparr>)\<rparr>"
  show ?thesis
  proof (cases "h r = 0")
    case True
    define st' where "st' = (if \<not> fe_sendfile env then st1\<lparr>fl_unmapped := fl_unmapped st1 @ [r]\<rparr>
      else st1\<lparr>fl_closed := fl_closed st1 @ [fr_fd f]\<rparr>)\<lparr>fl_heap := (fl_heap st)(r := None)\<rparr>"
    have eq: "fileref_soft_remove env r st = Inr st'"
      using f c True by (simp add: fileref_soft_remove_def fileref_drop_def st'_def st1_def)
    have g: "fl_heap st' = (fl_heap st)(r := None)" "fl_refs st' = remove1 r (fl_refs st)" "fl_timer st' = fl_timer st" "fl_next st' = fl_next st"
      by (simp_all add: st'_def st1_def)
    then have "set (fl_refs st') = set (fl_refs st) - {r}" "distinct (fl_refs st')" using d by simp_all
    moreover have "fl_refs st' \<noteq> [] \<longrightarrow> fl_timer st'" using files_invD(8) [OF inv] by (cases "fl_refs st") (simp_all add: g)
    ultimately have "files_inv st' h" using inv True unfolding files_inv_def g(1,4) by (auto split: if_splits)
    with eq g show ?thesis using that by simp
  next
    case False
    have eq: "fileref_soft_remove env r st = Inr st1" using f c False by (simp add: fileref_soft_remove_def st1_def)
    have g: "fl_heap st1 = (fl_heap st)(r \<mapsto> f\<lparr>fr_soft := True\<rparr>)" "fl_refs st1 = remove1 r (fl_refs st)" "fl_timer st1 = fl_timer st" "fl_next st1 = fl_next st"
      by (simp_all add: st1_def)
    then have "set (fl_refs st1) = set (fl_refs st) - {r}" "distinct (fl_refs st1)" using d by simp_all
    moreover have "fl_refs st1 \<noteq> [] \<longrightarrow> fl_timer st1" using files_invD(8) [OF inv] by (cases "fl_refs st") (simp_all add: g)
    ultimately have "files_inv st1 h" using inv f False unfolding files_inv_def g(1,4) by (auto split: if_splits)
    with eq g show ?thesis using that by simp
  qed
qed

lemma find_ref_ok:
  assumes "\<forall>r \<in> set rs. h r \<noteq> None"
  shows "\<exists>found. find_ref h path ontls rs = Inr found \<and>
    (case found of
       None \<Rightarrow> \<forall>r \<in> set rs. \<forall>f. h r = Some f \<longrightarrow> \<not> (fr_path f = path \<and> fr_ontls f = ontls)
     | Some (r, f) \<Rightarrow> r \<in> set rs \<and> h r = Some f \<and> fr_path f = path \<and> fr_ontls f = ontls)"
  using assms
proof (induction rs)
  case (Cons s rs)
  then obtain f where f: "h s = Some f" by auto
  show ?case
  proof (cases "fr_path f = path \<and> fr_ontls f = ontls")
    case True
    then show ?thesis using f by simp
  next
    case False
    obtain found where "find_ref h path ontls rs = Inr found"
      "case found of None \<Rightarrow> \<forall>r \<in> set rs. \<forall>f. h r = Some f \<longrightarrow> \<not> (fr_path f = path \<and> fr_ontls f = ontls)
       | Some (r, f) \<Rightarrow> r \<in> set rs \<and> h r = Some f \<and> fr_path f = path \<and> fr_ontls f = ontls"
      using Cons by auto
    then show ?thesis using f False by (intro exI [of _ found]) (auto split: option.splits)
  qed
qed simp

text \<open>Changing the counter of a reference, and the order of the list, with the number of its holders.\<close>

lemma files_inv_upd:
  assumes inv: "files_inv st h" and r: "fl_heap st r = Some f"
    and g: "fr_path g = fr_path f" "fr_ontls g = fr_ontls f" "fr_soft g = fr_soft f" "fr_cnt g = int n" "fr_soft f \<Longrightarrow> 0 < n"
    and l: "fl_heap st' = (fl_heap st)(r \<mapsto> g)" "set (fl_refs st') = set (fl_refs st)" "distinct (fl_refs st')"
      "fl_next st' = fl_next st" "fl_timer st' = fl_timer st"
  shows "files_inv st' (h(r := n))"
proof -
  have key: "a = b" if "a \<in> set (fl_refs st)" "b \<in> set (fl_refs st)" "fl_heap st' a = Some x" "fl_heap st' b = Some y"
    "fr_path x = fr_path y" "fr_ontls x = fr_ontls y" for a b x y
  proof -
    note ab = that
    obtain x' y' where "fl_heap st a = Some x'" "fr_path x' = fr_path x" "fr_ontls x' = fr_ontls x"
      "fl_heap st b = Some y'" "fr_path y' = fr_path y" "fr_ontls y' = fr_ontls y"
      using ab(3,4) r g(1,2) l(1) by (auto split: if_splits)
    with ab(1,2,5,6) inv show ?thesis unfolding files_inv_def by metis
  qed
  have live: "\<exists>f. fl_heap st' a = Some f \<and> \<not> fr_soft f" if "a \<in> set (fl_refs st)" for a
    using files_invD(2) [OF inv that] r g(3) l(1) by auto
  have cnt: "fr_cnt x = int ((h(r := n)) a) \<and> a < fl_next st \<and> (if fr_soft x then 0 < (h(r := n)) a else a \<in> set (fl_refs st))"
    if "fl_heap st' a = Some x" for a x
    using that r g l(1) files_invD(3-6) [OF inv, of a] by (cases "a = r") auto
  have none: "(h(r := n)) a = 0" if "fl_heap st' a = None" for a using that l(1) files_invD(7) [OF inv] by (cases "a = r") auto
  have tm: "fl_timer st" if "fl_refs st' \<noteq> []" using files_invD(8) [OF inv] l(2) that by (cases "fl_refs st") auto
  show ?thesis unfolding files_inv_def l(2,4,5) using key live cnt none tm l(3) by blast
qed

text \<open>A reference that is found is moved to the front and held once more.\<close>

lemma files_inv_hold:
  assumes inv: "files_inv st h" and r: "r \<in> set (fl_refs st)" "fl_heap st r = Some f"
  shows "files_inv (st\<lparr>fl_heap := (fl_heap st)(r \<mapsto> f\<lparr>fr_cnt := fr_cnt f + 1\<rparr>), fl_refs := r # remove1 r (fl_refs st)\<rparr>) (h(r := h r + 1))"
  using files_invD(1,3) [OF inv] r by (intro files_inv_upd [OF inv r(2)]) auto

lemma files_inv_get:
  assumes inv: "files_inv st h"
  obtains ref st' where "kore_fileref_get env path ontls st = Inr (ref, st')" "files_inv st' (hold ref h)"
    "fl_timer st' = fl_timer st"
    "ref = None \<Longrightarrow> \<forall>r \<in> set (fl_refs st'). \<forall>f. fl_heap st' r = Some f \<longrightarrow> \<not> (fr_path f = path \<and> fr_ontls f = ontls)"
    "\<And>r. ref = Some r \<Longrightarrow> \<exists>f. fl_heap st' r = Some f \<and> fr_path f = path \<and> fr_ontls f = ontls"
proof -
  have "\<forall>r \<in> set (fl_refs st). fl_heap st r \<noteq> None" using inv by (fastforce simp: files_inv_def)
  from find_ref_ok [OF this, of path ontls]
  obtain found where f: "find_ref (fl_heap st) path ontls (fl_refs st) = Inr found"
    "case found of None \<Rightarrow> \<forall>r \<in> set (fl_refs st). \<forall>f. fl_heap st r = Some f \<longrightarrow> \<not> (fr_path f = path \<and> fr_ontls f = ontls)
     | Some (r, f) \<Rightarrow> r \<in> set (fl_refs st) \<and> fl_heap st r = Some f \<and> fr_path f = path \<and> fr_ontls f = ontls" by blast
  show ?thesis
  proof (cases found)
    case None
    then show ?thesis using that [of None st] f inv by (simp add: kore_fileref_get_def hold_def)
  next
    case (Some rf)
    obtain r f' where rf: "rf = (r, f')" by (cases rf)
    have r: "r \<in> set (fl_refs st)" "fl_heap st r = Some f'" "fr_path f' = path" "fr_ontls f' = ontls" using f(2) Some rf by simp_all
    have key: "\<not> (fr_path g = path \<and> fr_ontls g = ontls)" if "s \<in> set (fl_refs st)" "s \<noteq> r" "fl_heap st s = Some g" for s g
      using inv r that unfolding files_inv_def by metis
    obtain st1 where s: "fileref_soft_remove env r st = Inr st1" "files_inv st1 h" "fl_refs st1 = remove1 r (fl_refs st)"
      "\<And>s. s \<noteq> r \<Longrightarrow> fl_heap st1 s = fl_heap st s" "fl_timer st1 = fl_timer st"
      using files_inv_soft_remove [OF inv r(1)] by metis
    have d: "distinct (fl_refs st)" using inv by (simp add: files_inv_def)
    have gone: "\<forall>s \<in> set (fl_refs st1). \<forall>g. fl_heap st1 s = Some g \<longrightarrow> \<not> (fr_path g = path \<and> fr_ontls g = ontls)"
      using key s(3,4) d by auto
    show ?thesis
    proof (cases "\<exists>ts. fe_stat env path = Some ts \<and> fr_mtime f' = mtime_ms ts")
      case True
      then show ?thesis
        using that [of "Some r" "st\<lparr>fl_heap := (fl_heap st)(r \<mapsto> f'\<lparr>fr_cnt := fr_cnt f' + 1\<rparr>), fl_refs := r # remove1 r (fl_refs st)\<rparr>"]
          f(1) Some rf r files_inv_hold [OF inv r(1,2)]
        by (auto simp: kore_fileref_get_def hold_def)
    next
      case False
      then have "kore_fileref_get env path ontls st = Inr (None, st1)"
        using f(1) Some rf r s(1) by (auto simp: kore_fileref_get_def split: option.splits)
      then show ?thesis using that [of None st1] s(2,5) gone by (simp add: hold_def)
    qed
  qed
qed

lemma files_inv_timer: "files_inv st h \<Longrightarrow> files_inv (fileref_timer_prime st) h"
  by (simp add: files_inv_def fileref_timer_prime_def)

lemma files_inv_new:
  assumes inv: "files_inv st h" and t: "fl_timer st"
    and key: "\<forall>r \<in> set (fl_refs st). \<forall>g. fl_heap st r = Some g \<longrightarrow> \<not> (fr_path g = fr_path f \<and> fr_ontls g = fr_ontls f)"
    and f: "fr_cnt f = 1" "\<not> fr_soft f"
  shows "files_inv (st\<lparr>fl_refs := fl_refs st @ [fl_next st], fl_heap := (fl_heap st)(fl_next st \<mapsto> f), fl_next := fl_next st + 1,
    fl_closed := c\<rparr>) (h(fl_next st := h (fl_next st) + 1))"
proof -
  have fresh: "fl_heap st (fl_next st) = None" using inv by (cases "fl_heap st (fl_next st)") (auto simp: files_inv_def)
  then have "fl_next st \<notin> set (fl_refs st)" "h (fl_next st) = 0" using inv by (auto simp: files_inv_def)
  then show ?thesis using inv t key f fresh unfolding files_inv_def by (auto simp: less_Suc_eq split: if_splits)
qed

lemma files_inv_create:
  assumes inv: "files_inv st h" and ok: "fe_mmap env \<or> fe_sendfile env \<and> \<not> fe_tls env"
  obtains r st' where "kore_fileref_create env path fd sz ts st = Inr (Some r, st')" "files_inv st' (hold (Some r) h)"
    "\<exists>f. fl_heap st' r = Some f \<and> fr_path f = path \<and> fr_ontls f = fe_tls env"
proof -
  obtain ref st1 where g: "kore_fileref_get env path (fe_tls env) (fileref_timer_prime st) = Inr (ref, st1)" "files_inv st1 (hold ref h)"
    "fl_timer st1 = fl_timer (fileref_timer_prime st)"
    "ref = None \<Longrightarrow> \<forall>r \<in> set (fl_refs st1). \<forall>f. fl_heap st1 r = Some f \<longrightarrow> \<not> (fr_path f = path \<and> fr_ontls f = fe_tls env)"
    "\<And>r. ref = Some r \<Longrightarrow> \<exists>f. fl_heap st1 r = Some f \<and> fr_path f = path \<and> fr_ontls f = fe_tls env"
    using files_inv_get [OF files_inv_timer [OF inv], where env = env and path = path and ontls = "fe_tls env"] by metis
  show ?thesis
  proof (cases ref)
    case (Some r)
    then show ?thesis using that [of r st1] g(1,2,5) by (simp add: kore_fileref_create_def)
  next
    case None
    have t: "fl_timer st1" using g(3) by (simp add: fileref_timer_prime_def)
    define direct where "direct = (fe_sendfile env \<and> \<not> fe_tls env)"
    define f where "f = \<lparr>fr_cnt = 1, fr_soft = False, fr_size = sz, fr_ontls = fe_tls env, fr_path = path, fr_mtime_sec = fst ts, fr_mtime = mtime_ms ts,
      fr_fd = (if direct then fd else fe_pool_fd env), fr_mapped = (\<not> direct), fr_expiration = 0\<rparr>"
    define st' where "st' = st1\<lparr>fl_refs := fl_refs st1 @ [fl_next st1], fl_heap := (fl_heap st1)(fl_next st1 \<mapsto> f),
      fl_next := fl_next st1 + 1, fl_closed := fl_closed st1 @ (if direct then [] else [fd])\<rparr>"
    have "kore_fileref_create env path fd sz ts st = Inr (Some (fl_next st1), st')"
      using None g(1) ok by (auto simp: kore_fileref_create_def Let_def st'_def f_def direct_def)
    moreover have "files_inv st' (hold (Some (fl_next st1)) h)"
      using files_inv_new [OF g(2) t, of f] g(4) None by (simp add: st'_def f_def hold_def)
    ultimately show ?thesis using that [of "fl_next st1" st'] by (simp add: st'_def f_def)
  qed
qed

lemma files_inv_release:
  assumes inv: "files_inv st h" and r: "0 < h r"
  obtains st' where "kore_fileref_release env r st = Inr st'" "files_inv st' (h(r := h r - 1))"
proof -
  obtain f where f: "fl_heap st r = Some f" "fr_cnt f = int (h r)"
    using inv r by (cases "fl_heap st r") (auto simp: files_inv_def)
  have d: "distinct (fl_refs st)" by (rule files_invD(1) [OF inv])
  show ?thesis
  proof (cases "h r = 1 \<and> fr_soft f")
    case True
    have "r \<notin> set (fl_refs st)" using files_invD(2) [OF inv, of r] f(1) True by auto
    then have "files_inv st' (h(r := 0))" if "fl_heap st' = (fl_heap st)(r := None)" "fl_refs st' = fl_refs st"
      "fl_next st' = fl_next st" "fl_timer st' = fl_timer st" for st'
      using inv unfolding files_inv_def that by (auto split: if_splits)
    then show ?thesis using that f True by (auto simp: kore_fileref_release_def Let_def fileref_drop_def)
  next
    case False
    define g where "g = (if h r = 1 then f\<lparr>fr_cnt := fr_cnt f - 1, fr_expiration := fe_now env + FILEREF_EXPIRATION\<rparr>
      else f\<lparr>fr_cnt := fr_cnt f - 1\<rparr>)"
    have "files_inv (st\<lparr>fl_heap := (fl_heap st)(r \<mapsto> g)\<rparr>) (h(r := h r - 1))"
      using False f r d by (intro files_inv_upd [OF inv f(1)]) (auto simp: g_def)
    moreover have "kore_fileref_release env r st = Inr (st\<lparr>fl_heap := (fl_heap st)(r \<mapsto> g)\<rparr>)"
      using False f r by (auto simp: kore_fileref_release_def Let_def g_def)
    ultimately show ?thesis using that by blast
  qed
qed

lemma files_inv_expire_ref:
  assumes "files_inv st h" "r \<in> set (fl_refs st)"
  obtains st' where "expire_ref env st r = Inr st'" "files_inv st' h" "set (fl_refs st) - {r} \<subseteq> set (fl_refs st')"
proof -
  obtain f where f: "fl_heap st r = Some f" "fr_cnt f = int (h r)" using assms by (auto simp: files_inv_def)
  have d: "distinct (fl_refs st)" using assms(1) by (simp add: files_inv_def)
  show ?thesis
  proof (cases "h r \<noteq> 0 \<or> fr_expiration f > fe_now env")
    case True
    then show ?thesis using that [of st] f assms(1) by (auto simp: expire_ref_def)
  next
    case False
    then obtain st' where "fileref_drop env r st = Inr st'" "files_inv st' h" "fl_refs st' = remove1 r (fl_refs st)"
      using files_inv_drop [OF assms(1) f(1), of env] by auto
    with False show ?thesis using that [of st'] f d by (simp add: expire_ref_def)
  qed
qed

lemma files_inv_expire_fold:
  "files_inv st h \<Longrightarrow> distinct rs \<Longrightarrow> set rs \<subseteq> set (fl_refs st) \<Longrightarrow>
     \<exists>st'. foldR (expire_ref env) st rs = Inr st' \<and> files_inv st' h"
proof (induction rs arbitrary: st)
  case (Cons r rs)
  obtain st1 where s: "expire_ref env st r = Inr st1" "files_inv st1 h" "set (fl_refs st) - {r} \<subseteq> set (fl_refs st1)"
    using files_inv_expire_ref [OF Cons.prems(1), of r env] Cons.prems(3) by auto
  then have "set rs \<subseteq> set (fl_refs st1)" using Cons.prems(2,3) by auto
  then show ?case using Cons.IH [OF s(2)] Cons.prems(2) s(1) by simp
qed simp

lemma files_inv_expire:
  assumes "files_inv st h"
  obtains st' where "fileref_expiration_check env st = Inr st'" "files_inv st' h"
proof -
  obtain st1 where s: "foldR (expire_ref env) st (fl_refs st) = Inr st1" "files_inv st1 h"
    using files_inv_expire_fold [OF assms, of "fl_refs st" env] assms by (auto simp: files_inv_def)
  then have "files_inv (st1\<lparr>fl_timer := False\<rparr>) h" if "fl_refs st1 = []" using that by (fastforce simp: files_inv_def)
  then show ?thesis using that s by (auto simp: fileref_expiration_check_def split: if_splits)
qed

lemma files_reach_inv: "files_reach st h \<Longrightarrow> files_inv st h"
proof (induction rule: files_reach.induct)
  case (Get st h env path ontls ref st')
  then show ?case using files_inv_get [OF Get.IH, of env path ontls] by (metis Inr_inject prod.inject)
next
  case (Create st h env path fd sz ts ref st')
  show ?case
  proof (cases "fe_mmap env \<or> fe_sendfile env \<and> \<not> fe_tls env")
    case True
    then show ?thesis using files_inv_create [OF Create.IH True, of path fd sz ts] Create.hyps by (metis Inr_inject prod.inject)
  next
    case False
    obtain g st1 where "kore_fileref_get env path (fe_tls env) (fileref_timer_prime st) = Inr (g, st1)" "files_inv st1 (hold g h)"
      using files_inv_get [OF files_inv_timer [OF Create.IH], of env path "fe_tls env"] by metis
    then show ?thesis using Create.hyps False by (auto simp: kore_fileref_create_def Let_def split: option.splits if_splits)
  qed
next
  case (Release st h r env st')
  then show ?case using files_inv_release [OF Release.IH, of r env] by (metis Inr_inject)
next
  case (Expire st h env st')
  then show ?case using files_inv_expire [OF Expire.IH, of env] by (metis Inr_inject)
qed (rule files_inv_init)

text \<open>
  C22. However callers get, create and release references and however often the expiration runs, with a file
  system that changes at will: the counter of a reference is the number of its holders, a reference
  that is held is alive, and no operation touches a released reference.  None ends the process, with one exception: creating
  a reference that is to be mapped ends it when \<open>mmap\<close> fails.
\<close>

theorem fileref_safe:
  assumes "files_reach st h"
  shows "(\<forall>r. 0 < h r \<longrightarrow> (\<exists>f. fl_heap st r = Some f \<and> fr_cnt f = int (h r))) \<and>
    (\<exists>ref st'. kore_fileref_get env path ontls st = Inr (ref, st')) \<and>
    (fe_mmap env \<or> fe_sendfile env \<and> \<not> fe_tls env \<longrightarrow>
       (\<exists>r st'. kore_fileref_create env path fd sz ts st = Inr (Some r, st'))) \<and>
    (\<forall>r. 0 < h r \<longrightarrow> (\<exists>st'. kore_fileref_release env r st = Inr st')) \<and>
    (\<exists>st'. fileref_expiration_check env st = Inr st')"
proof -
  note inv = files_reach_inv [OF assms]
  have "\<exists>f. fl_heap st r = Some f \<and> fr_cnt f = int (h r)" if "0 < h r" for r
    using inv that by (cases "fl_heap st r") (auto simp: files_inv_def)
  moreover have "\<exists>ref st'. kore_fileref_get env path ontls st = Inr (ref, st')" using files_inv_get [OF inv] by metis
  moreover have "\<exists>r st'. kore_fileref_create env path fd sz ts st = Inr (Some r, st')" if "fe_mmap env \<or> fe_sendfile env \<and> \<not> fe_tls env"
    using files_inv_create [OF inv that] by metis
  moreover have "\<exists>st'. kore_fileref_release env r st = Inr st'" if "0 < h r" for r using files_inv_release [OF inv that] by metis
  moreover have "\<exists>st'. fileref_expiration_check env st = Inr st'" using files_inv_expire [OF inv] by metis
  ultimately show ?thesis by blast
qed

definition sample_fs :: "(string \<Rightarrow> ferr + string) \<Rightarrow> file_env" where
  "sample_fs realpath = \<lparr>fe_tls = False, fe_sendfile = True, fe_mmap = True, fe_pool_fd = 0, fe_now = 0, fe_path_max = 4096,
     fe_ext = None, fe_index = None, fe_realpath = realpath, fe_stat = (\<lambda>_. Some (1, 0)), fe_open = (\<lambda>_. Inr 7),
     fe_fstat = (\<lambda>_. Some (S_REG 10 (1, 0)))\<rparr>"

lemmas sample_run = sample_fs_def kore_fileref_create_def kore_fileref_get_def fileref_timer_prime_def kore_fileref_init_def

theorem fileref_safe_witness:
  "\<exists>env st h. files_reach st h \<and> h 0 = 1 \<and> (\<exists>st'. kore_fileref_release env 0 st = Inr st')"
proof -
  define env where "env = sample_fs Inr"
  obtain st' where c: "kore_fileref_create env ''/www/a'' 7 10 (1, 0) kore_fileref_init = Inr (Some 0, st')"
    by (simp add: env_def sample_run Let_def)
  define h where "h = hold (Some 0) (\<lambda>_. 0)"
  have r: "files_reach st' h" unfolding h_def by (rule files_reach.Create [OF files_reach.Start c])
  have "h 0 = 1" by (simp add: h_def hold_def)
  with fileref_safe [OF r, of env] r show ?thesis by (metis zero_less_one)
qed

section \<open>What is served\<close>

lemma find_ref_Some:
  "find_ref h path ontls rs = Inr (Some (r, f)) \<Longrightarrow> h r = Some f \<and> fr_path f = path"
  by (induction rs) (auto split: option.splits if_splits)

lemma kore_fileref_get_path:
  assumes "kore_fileref_get env path ontls st = Inr (Some r, st')"
  shows "\<exists>f. fl_heap st' r = Some f \<and> fr_path f = path"
proof -
  obtain found where f: "find_ref (fl_heap st) path ontls (fl_refs st) = Inr found"
    using assms by (auto simp: kore_fileref_get_def bindR_Inr_iff)
  show ?thesis
  proof (cases found)
    case None
    then show ?thesis using assms f by (simp add: kore_fileref_get_def)
  next
    case (Some rf)
    obtain r' g where rf: "rf = (r', g)" by (cases rf)
    have "fl_heap st r' = Some g" "fr_path g = path" using find_ref_Some f Some rf by auto
    moreover have "r' = r \<and> st' = st\<lparr>fl_heap := (fl_heap st)(r \<mapsto> g\<lparr>fr_cnt := fr_cnt g + 1\<rparr>), fl_refs := r # remove1 r (fl_refs st)\<rparr>"
      using assms f Some rf by (auto simp: kore_fileref_get_def bindR_Inr_iff split: option.splits if_splits)
    ultimately show ?thesis by simp
  qed
qed

lemma kore_fileref_create_path:
  assumes "kore_fileref_create env path fd sz ts st = Inr (Some r, st')"
  shows "\<exists>f. fl_heap st' r = Some f \<and> fr_path f = path"
  using assms
  by (auto simp: kore_fileref_create_def bindR_Inr_iff Let_def split: option.splits if_splits dest: kore_fileref_get_path)

definition served :: "file_env \<Rightarrow> filemap_entry \<Rightarrow> nat \<Rightarrow> files \<Rightarrow> bool" where
  "served env mp r st \<longleftrightarrow>
     (\<exists>fpath rpath f. prefix (fm_ondisk mp) fpath \<and> fe_realpath env fpath = Inr rpath \<and> prefix (fm_ondisk mp) rpath \<and>
        fl_heap st r = Some f \<and> (fr_path f = rpath \<or> fr_path f = fpath))"

lemma with_suffix_prefix: "with_suffix env mp path suf = Some p \<Longrightarrow> prefix (fm_ondisk mp) p"
  by (auto simp: with_suffix_def Let_def split: if_splits)

lemma serve_open_served:
  assumes again: "\<And>p st r st'. prefix (fm_ondisk mp) p \<Longrightarrow> again p st = Inr (FileSend r, st') \<Longrightarrow> served env mp r st'"
    and p: "prefix (fm_ondisk mp) fpath" "fe_realpath env fpath = Inr rpath" "prefix (fm_ondisk mp) rpath"
    and eq: "serve_open again first env mp reqpath fpath st = Inr (FileSend r, st')"
  shows "served env mp r st'"
proof -
  consider suf p st1 where "with_suffix env mp (drop (length (fm_root mp)) reqpath) suf = Some p" "again p st1 = Inr (FileSend r, st')"
    | fd sz ts where "kore_fileref_create env fpath fd sz ts st = Inr (Some r, st')"
    using eq unfolding serve_open_def Let_def
    by (auto simp: bindR_Inr_iff split: sum.splits ferr.splits option.splits if_splits file_kind.splits)
  then show ?thesis
  proof cases
    case 1
    then show ?thesis using again with_suffix_prefix by blast
  next
    case 2
    then show ?thesis using kore_fileref_create_path [OF 2] p unfolding served_def by blast
  qed
qed

lemma strncmp_eq_prefix: "prefix a p \<Longrightarrow> strncmp_eq (length a) r p \<Longrightarrow> prefix a r"
  by (metis append_eq_conv_conj prefix_def strncmp_eq_def take_is_prefix)

text \<open>The way through the lookup of a path that exists.\<close>

lemma serve_lookup_found:
  assumes p: "prefix (fm_ondisk mp) fpath" and r: "fe_realpath env fpath = Inr rpath"
    and eq: "(if \<not> strncmp_eq (length (fm_ondisk mp)) rpath fpath then Inr (FileStatus 404, st)
       else bindR (kore_fileref_get env rpath (fe_tls env) st) (\<lambda>(ref, st1).
              case ref of Some r \<Rightarrow> Inr (FileSend r, st1) | None \<Rightarrow> serve_open again first env mp reqpath fpath st1)) = Inr (FileSend r, st')"
    and again: "\<And>p st r st'. prefix (fm_ondisk mp) p \<Longrightarrow> again p st = Inr (FileSend r, st') \<Longrightarrow> served env mp r st'"
  shows "served env mp r st'"
proof -
  have n: "strncmp_eq (length (fm_ondisk mp)) rpath fpath" by (rule ccontr) (use eq in simp)
  note pr = strncmp_eq_prefix [OF p n]
  obtain ref st1 where g: "kore_fileref_get env rpath (fe_tls env) st = Inr (ref, st1)"
    using eq n by (cases "kore_fileref_get env rpath (fe_tls env) st") auto
  show ?thesis
  proof (cases ref)
    case None
    then have o: "serve_open again first env mp reqpath fpath st1 = Inr (FileSend r, st')" using eq n g by simp
    show ?thesis by (rule serve_open_served [OF _ p r pr o]) (rule again)
  next
    case (Some r')
    then have "r' = r" "st1 = st'" using eq n g by simp_all
    then show ?thesis using kore_fileref_get_path g Some p r pr unfolding served_def by blast
  qed
qed

lemma serve_lookup_served:
  "prefix (fm_ondisk mp) fpath \<Longrightarrow> serve_lookup n env mp reqpath fpath st = Inr (FileSend r, st') \<Longrightarrow> served env mp r st'"
proof (induction n arbitrary: fpath st r st')
  case 0
  show ?case
  proof (cases "fe_realpath env fpath")
    case (Inl e)
    then show ?thesis using 0(2) by simp
  next
    case (Inr rpath)
    show ?thesis
      by (rule serve_lookup_found [OF 0(1) Inr 0(2) [unfolded serve_lookup.simps(1) Inr sum.case]]) simp
  qed
next
  case (Suc n)
  show ?case
  proof (cases "fe_realpath env fpath")
    case (Inl e)
    note eq = Suc.prems(2) [unfolded serve_lookup.simps(2) Inl sum.case]
    have "e = ENOENT \<and> fe_ext env \<noteq> None" using eq by (auto split: if_splits)
    note eq = eq [unfolded if_P [OF this]]
    obtain p where p: "with_suffix env mp (drop (length (fm_root mp)) reqpath) (the (fe_ext env)) = Some p"
      using eq by (cases "with_suffix env mp (drop (length (fm_root mp)) reqpath) (the (fe_ext env))") auto
    show ?thesis using eq Suc.IH [OF with_suffix_prefix [OF p]] by (simp add: p)
  next
    case (Inr rpath)
    show ?thesis
      by (rule serve_lookup_found [OF Suc.prems(1) Inr Suc.prems(2) [unfolded serve_lookup.simps(2) Inr sum.case] Suc.IH])
  qed
qed

lemma urldecode_prefix:
  "http_argument_urldecode url (a @ s) = Some t \<Longrightarrow> CHR ''%'' \<notin> set a \<Longrightarrow> CHR ''+'' \<notin> set a \<Longrightarrow> prefix a t"
  by (induction a arbitrary: t) auto

text \<open>
  C23. Where the mapped directory has no \<open>%\<close> and no \<open>+\<close> in its name, a request is only answered with a file whose real
  path, with all symbolic links and all \<open>..\<close> resolved, begins with the name of that directory; whatever the
  request path, its escapes, the configured extension and index file, and the file system.
\<close>

theorem filemap_serve_inside:
  assumes "filemap_serve env mp reqpath st = Inr (FileSend r, st')"
    and "CHR ''%'' \<notin> set (fm_ondisk mp)" "CHR ''+'' \<notin> set (fm_ondisk mp)"
  shows "\<exists>fpath rpath f. fe_realpath env fpath = Inr rpath \<and> prefix (fm_ondisk mp) rpath \<and>
    fl_heap st' r = Some f \<and> (fr_path f = rpath \<or> fr_path f = fpath)"
proof -
  obtain fpath fpath' where f: "with_suffix env mp (drop (length (fm_root mp)) reqpath) [] = Some fpath"
    "http_argument_urldecode True fpath = Some fpath'" "serve_lookup 1 env mp reqpath fpath' st = Inr (FileSend r, st')"
    using assms(1) by (auto simp: filemap_serve_def split: option.splits)
  have "prefix (fm_ondisk mp) fpath'"
    using f(1,2) assms(2,3) urldecode_prefix by (auto simp: with_suffix_def Let_def split: if_splits)
  from serve_lookup_served [OF this f(3)] show ?thesis unfolding served_def by blast
qed

theorem filemap_serve_inside_witness:
  "\<exists>mp r st' f. fm_ondisk mp = ''/www'' \<and> filemap_serve (sample_fs Inr) mp ''/a'' kore_fileref_init = Inr (FileSend r, st') \<and>
     fl_heap st' r = Some f \<and> prefix ''/www'' (fr_path f)"
proof -
  define mp where "mp = \<lparr>fm_root = ''/'', fm_domain = 0, fm_ondisk = ''/www''\<rparr>"
  obtain st' where s: "filemap_serve (sample_fs Inr) mp ''/a'' kore_fileref_init = Inr (FileSend 0, st')"
    by (simp add: filemap_serve_def with_suffix_def serve_open_def mp_def sample_run strncmp_eq_def Let_def)
  have d: "fm_ondisk mp = ''/www''" by (simp add: mp_def)
  have "fe_realpath (sample_fs Inr) = Inr" by (simp add: sample_fs_def)
  then obtain f where "fl_heap st' 0 = Some f" "prefix ''/www'' (fr_path f)"
    using filemap_serve_inside [OF s] d by fastforce
  with s d show ?thesis by blast
qed

lemma urldecode_clean: "CHR ''%'' \<notin> set s \<Longrightarrow> CHR ''+'' \<notin> set s \<Longrightarrow> http_argument_urldecode url s = Some s"
  by (induction s) auto

text \<open>A regular file whose real path passes the comparison is sent.\<close>

lemma serve_lookup_sends:
  assumes inv: "files_inv st h" and ok: "fe_mmap env \<or> fe_sendfile env \<and> \<not> fe_tls env"
    and r: "fe_realpath env fpath = Inr rpath" "strncmp_eq (length (fm_ondisk mp)) rpath fpath"
    and o: "fe_open env fpath = Inr fd" "fe_fstat env fd = Some (S_REG sz ts)" "0 < sz"
  shows "\<exists>r st'. serve_lookup (Suc n) env mp reqpath fpath st = Inr (FileSend r, st')"
proof -
  obtain ref st1 where g: "kore_fileref_get env rpath (fe_tls env) st = Inr (ref, st1)" "files_inv st1 (hold ref h)"
    using files_inv_get [OF inv, of env rpath "fe_tls env"] by metis
  obtain r' st' where "kore_fileref_create env fpath fd sz ts st1 = Inr (Some r', st')"
    using files_inv_create [OF g(2) ok, of fpath fd sz ts] by metis
  then show ?thesis using g(1) r o by (cases ref) (simp_all add: serve_open_def Let_def)
qed

text \<open>
  C24. The comparison of the real path with the mapped directory does not look at what follows the name: a
  request that climbs to a sibling directory whose name only begins with that of the mapped
  directory is answered with the file it names there.
\<close>

theorem filemap_escape:
  assumes dir: "fm_ondisk mp = dir @ ''/'' @ base" and req: "reqpath = fm_root mp @ ''../'' @ base @ suf @ ''/'' @ name"
    and clean: "CHR ''%'' \<notin> set (fm_ondisk mp @ suf @ name)" "CHR ''+'' \<notin> set (fm_ondisk mp @ suf @ name)"
    and fits: "length (fm_ondisk mp @ ''/../'' @ base @ suf @ ''/'' @ name) < fe_path_max env"
    and real: "fe_realpath env (fm_ondisk mp @ ''/../'' @ base @ suf @ ''/'' @ name) = Inr (dir @ ''/'' @ base @ suf @ ''/'' @ name)"
    and opens: "fe_open env (fm_ondisk mp @ ''/../'' @ base @ suf @ ''/'' @ name) = Inr fd"
    and regular: "fe_fstat env fd = Some (S_REG sz ts)" "0 < sz"
    and ok: "files_reach st h" "fe_mmap env \<or> fe_sendfile env \<and> \<not> fe_tls env"
  shows "\<exists>r st'. filemap_serve env mp reqpath st = Inr (FileSend r, st')"
proof -
  define fpath where "fpath = fm_ondisk mp @ ''/../'' @ base @ suf @ ''/'' @ name"
  have "with_suffix env mp (drop (length (fm_root mp)) reqpath) [] = Some fpath"
    using fits by (simp add: with_suffix_def req fpath_def)
  moreover have "http_argument_urldecode True fpath = Some fpath"
    using clean by (intro urldecode_clean) (simp_all add: fpath_def dir)
  moreover have "strncmp_eq (length (fm_ondisk mp)) (dir @ ''/'' @ base @ suf @ ''/'' @ name) fpath"
    by (simp add: strncmp_eq_def fpath_def dir)
  then obtain r st' where "serve_lookup (Suc 0) env mp reqpath fpath st = Inr (FileSend r, st')"
    using serve_lookup_sends [OF files_reach_inv [OF ok(1)] ok(2) real [folded fpath_def] _ opens [folded fpath_def] regular] by blast
  ultimately show ?thesis by (simp add: filemap_serve_def)
qed

theorem filemap_escape_witness:
  "\<exists>mp r st'. fm_ondisk mp = ''/srv/www'' \<and>
     filemap_serve (sample_fs (\<lambda>p. if p = ''/srv/www/../www-private/key'' then Inr ''/srv/www-private/key'' else Inl ENOENT))
       mp ''/../www-private/key'' kore_fileref_init = Inr (FileSend r, st')"
proof -
  define env where "env = sample_fs (\<lambda>p. if p = ''/srv/www/../www-private/key'' then Inr ''/srv/www-private/key'' else Inl ENOENT)"
  define mp where "mp = \<lparr>fm_root = ''/'', fm_domain = 0, fm_ondisk = ''/srv/www''\<rparr>"
  have "\<exists>r st'. filemap_serve env mp ''/../www-private/key'' kore_fileref_init = Inr (FileSend r, st')"
    using filemap_escape [of mp "''/srv''" "''www''" "''/../www-private/key''" "''-private''" "''key''" env 7 10 "(1, 0)", OF _ _ _ _ _ _ _ _ _ files_reach.Start]
    by (simp add: env_def mp_def sample_fs_def)
  then show ?thesis unfolding env_def by (intro exI [of _ mp]) (simp add: mp_def)
qed

text \<open>
  The descriptor that is handed over to \<open>kore_fileref_create\<close> is neither closed nor kept when the file is in
  the cache already.  \<open>filemap_serve\<close> looks for the real path but creates the reference for the path of the
  request, so that this is what happens for each request whose path is not the real one.
\<close>

theorem kore_fileref_create_keeps_fd_open:
  assumes "kore_fileref_get env path (fe_tls env) (fileref_timer_prime st) = Inr (Some r, st1)"
  shows "kore_fileref_create env path fd sz ts st = Inr (Some r, st1) \<and> fl_closed st1 = fl_closed st \<and>
    map_option fr_fd \<circ> fl_heap st1 = map_option fr_fd \<circ> fl_heap st"
proof -
  obtain found where f: "find_ref (fl_heap st) path (fe_tls env) (fl_refs st) = Inr found"
    using assms by (auto simp: kore_fileref_get_def fileref_timer_prime_def bindR_Inr_iff)
  obtain g where found: "found = Some (r, g)"
    "st1 = fileref_timer_prime st\<lparr>fl_heap := (fl_heap st)(r \<mapsto> g\<lparr>fr_cnt := fr_cnt g + 1\<rparr>), fl_refs := r # remove1 r (fl_refs st)\<rparr>"
    using assms f by (cases found) (auto simp: kore_fileref_get_def fileref_timer_prime_def bindR_Inr_iff split: option.splits if_splits)
  then have "fl_heap st r = Some g" using find_ref_Some f by blast
  then show ?thesis using assms found(2) by (auto simp: kore_fileref_create_def fileref_timer_prime_def fun_eq_iff)
qed

text \<open>
  With \<open>sendfile\<close> a file that is served over TLS is mapped into memory, but dropping its reference closes
  the descriptor field, which was never assigned, and leaves the mapping.
\<close>

theorem fileref_drop_tls:
  assumes "fe_sendfile env" "fe_tls env" "fe_mmap env"
    and "kore_fileref_get env path True (fileref_timer_prime st) = Inr (None, st1)"
    and "kore_fileref_create env path fd sz ts st = Inr (Some r, st2)"
  shows "\<exists>st3. fileref_drop env r st2 = Inr st3 \<and> fl_closed st3 = fl_closed st1 @ [fd, fe_pool_fd env] \<and>
    fl_unmapped st3 = fl_unmapped st1"
  using assms by (auto simp: kore_fileref_create_def fileref_drop_def Let_def)

end
