(* ===== verification/CJson.thy ===== *)
theory CJson
  imports Utils "HOL-Library.Word"
begin

text \<open>
  The parser of the vendored library \<open>src/vendor/cjson/cJSON.c\<close>.

  An item is the structure \<open>cJSON\<close> with the list of its children instead of the chain of pointers; the
  flags that tell who owns a string or a child are left out.  Memory is always available, so that
  the branches for a failed allocation are not taken.  The parse buffer keeps the fields of the C
  structure, and each access outside the text or outside an allocated block is the fault
  \<open>OutOfBounds\<close>.  The result is \<open>None\<close> when the fuel of a loop is used up, which is shown not to happen.
  Floating point numbers and their conversions are those of the C library: a parameter.
\<close>

unbundle bit_operations_syntax

section \<open>Items\<close>

datatype cJSON_type =
    cJSON_Invalid
  | cJSON_False
  | cJSON_True
  | cJSON_NULL
  | cJSON_Number
  | cJSON_String
  | cJSON_Array
  | cJSON_Object
  | cJSON_Raw

datatype 'd cJSON = Item
  (item_type: cJSON_type)
  (valueint: int)
  (valuedouble: 'd)
  (valuestring: "string option")
  (item_string: "string option")
  (child: "'d cJSON list")

text \<open>
  \<open>fo_strtod\<close> also tells how many characters were used; \<open>fo_g15\<close> and \<open>fo_g17\<close> are \<open>printf\<close> with \<open>%1.15g\<close> and \<open>%1.17g\<close>.
\<close>

record 'd float_ops =
  fo_zero :: 'd
  fo_strtod :: "string \<Rightarrow> 'd \<times> nat"
  fo_of_int :: "int \<Rightarrow> 'd"
  fo_to_int :: "'d \<Rightarrow> int"
  fo_le :: "'d \<Rightarrow> 'd \<Rightarrow> bool"
  fo_less :: "'d \<Rightarrow> 'd \<Rightarrow> bool"
  fo_eq :: "'d \<Rightarrow> 'd \<Rightarrow> bool"
  fo_special :: "'d \<Rightarrow> bool"
  fo_abs :: "'d \<Rightarrow> 'd"
  fo_sub :: "'d \<Rightarrow> 'd \<Rightarrow> 'd"
  fo_mul :: "'d \<Rightarrow> 'd \<Rightarrow> 'd"
  fo_epsilon :: 'd
  fo_g15 :: "'d \<Rightarrow> string"
  fo_g17 :: "'d \<Rightarrow> string"

definition INT_MAX :: int where "INT_MAX = 2147483647"
definition INT_MIN :: int where "INT_MIN = - 2147483648"

abbreviation CJSON_NESTING_LIMIT :: nat where "CJSON_NESTING_LIMIT \<equiv> 1000"

definition cJSON_New_Item :: "'d float_ops \<Rightarrow> 'd cJSON" where
  "cJSON_New_Item fo = Item cJSON_Invalid 0 (fo_zero fo) None None []"

text \<open>The item \<open>cJSON_New_Item\<close> with the given type, integer, string and children.\<close>

definition new_item :: "'d float_ops \<Rightarrow> cJSON_type \<Rightarrow> int \<Rightarrow> string option \<Rightarrow> 'd cJSON list \<Rightarrow> 'd cJSON" where
  "new_item fo t i s cs = Item t i (fo_zero fo) s None cs"

text \<open>The key of a child.\<close>

primrec named :: "string \<Rightarrow> 'd cJSON \<Rightarrow> 'd cJSON" where
  "named k (Item t vi vd vs s cs) = Item t vi vd vs (Some k) cs"

text \<open>The integer of a number, with saturation.\<close>

definition int_value :: "'d float_ops \<Rightarrow> 'd \<Rightarrow> int" where
  "int_value fo d =
     (if fo_le fo (fo_of_int fo INT_MAX) d then INT_MAX
      else if fo_le fo d (fo_of_int fo INT_MIN) then INT_MIN
      else fo_to_int fo d)"

section \<open>The parse buffer\<close>

record parse_buffer =
  pb_content :: string
  pb_offset :: nat
  pb_depth :: nat

type_synonym 'a parsed = "('a option \<times> parse_buffer) result option"

definition can_read :: "parse_buffer \<Rightarrow> nat \<Rightarrow> bool" where
  "can_read b n \<longleftrightarrow> pb_offset b + n \<le> length (pb_content b)"

definition can_access_at_index :: "parse_buffer \<Rightarrow> nat \<Rightarrow> bool" where
  "can_access_at_index b i \<longleftrightarrow> pb_offset b + i < length (pb_content b)"

text \<open>An access that the code does not guard, a comparison behind \<open>can_access_at_index\<close>, and one behind \<open>can_read\<close>.\<close>

definition byte_at :: "parse_buffer \<Rightarrow> nat \<Rightarrow> char result" where
  "byte_at b i = (if can_access_at_index b i then Inr (pb_content b ! (pb_offset b + i)) else Inl OutOfBounds)"

definition looking_at :: "parse_buffer \<Rightarrow> char \<Rightarrow> bool" where
  "looking_at b c \<longleftrightarrow> can_access_at_index b 0 \<and> pb_content b ! pb_offset b = c"

definition starts_with :: "parse_buffer \<Rightarrow> string \<Rightarrow> bool" where
  "starts_with b s \<longleftrightarrow> can_read b (length s) \<and> take (length s) (drop (pb_offset b) (pb_content b)) = s"

definition advance :: "nat \<Rightarrow> parse_buffer \<Rightarrow> parse_buffer" where
  "advance n b = b\<lparr>pb_offset := pb_offset b + n\<rparr>"

definition buffer_skip_whitespace :: "parse_buffer \<Rightarrow> parse_buffer" where
  "buffer_skip_whitespace b =
     (if \<not> can_access_at_index b 0 then b
      else let off = pb_offset b + length (takeWhile (\<lambda>c. of_char c \<le> (32 :: nat)) (drop (pb_offset b) (pb_content b)))
           in b\<lparr>pb_offset := (if off = length (pb_content b) then off - 1 else off)\<rparr>)"

definition skip_utf8_bom :: "parse_buffer \<Rightarrow> parse_buffer option" where
  "skip_utf8_bom b =
     (if pb_offset b \<noteq> 0 then None
      else if can_access_at_index b 4 \<and> take 3 (pb_content b) = [CHR 0xEF, CHR 0xBB, CHR 0xBF] then Some (advance 3 b)
      else Some b)"

text \<open>A failing call leaves the buffer as it is, and so does the function that called it.\<close>

definition bindP :: "'a parsed \<Rightarrow> ('a \<Rightarrow> parse_buffer \<Rightarrow> 'b parsed) \<Rightarrow> 'b parsed" where
  "bindP m f =
     (case m of
        None \<Rightarrow> None
      | Some (Inl e) \<Rightarrow> Some (Inl e)
      | Some (Inr (None, b)) \<Rightarrow> Some (Inr (None, b))
      | Some (Inr (Some x, b)) \<Rightarrow> f x b)"

abbreviation pfail :: "parse_buffer \<Rightarrow> 'a parsed" where "pfail b \<equiv> Some (Inr (None, b))"
abbreviation pdone :: "'a \<Rightarrow> parse_buffer \<Rightarrow> 'a parsed" where "pdone x b \<equiv> Some (Inr (Some x, b))"

section \<open>Numbers\<close>

definition number_char :: "char \<Rightarrow> bool" where
  "number_char c \<longleftrightarrow> c \<in> set ''0123456789+-eE.''"

text \<open>Without locales the decimal point of \<open>strtod\<close> is a dot and nothing is replaced.\<close>

definition parse_number :: "'d float_ops \<Rightarrow> parse_buffer \<Rightarrow> 'd cJSON parsed" where
  "parse_number fo b =
     (let number_c_string = takeWhile number_char (drop (pb_offset b) (pb_content b));
          (number, n) = fo_strtod fo number_c_string
      in if n = 0 then pfail b
         else pdone (Item cJSON_Number (int_value fo number) number None None []) (advance n b))"

section \<open>Strings\<close>

definition hex_val :: "char \<Rightarrow> nat option" where
  "hex_val c =
     (let n = of_char c :: nat in
      if 48 \<le> n \<and> n \<le> 57 then Some (n - 48)
      else if 65 \<le> n \<and> n \<le> 70 then Some (10 + n - 65)
      else if 97 \<le> n \<and> n \<le> 102 then Some (10 + n - 97)
      else None)"

fun hex4_loop :: "nat \<Rightarrow> string \<Rightarrow> nat" where
  "hex4_loop h [] = h"
| "hex4_loop h (c # cs) = (case hex_val c of None \<Rightarrow> 0 | Some v \<Rightarrow> hex4_loop (16 * h + v) cs)"

definition parse_hex4 :: "string \<Rightarrow> nat" where
  "parse_hex4 input = hex4_loop 0 (take 4 input)"

text \<open>The continuation bytes, written from the last one to the second one.\<close>

fun utf8_tail :: "nat \<Rightarrow> nat \<Rightarrow> string \<Rightarrow> nat \<times> string" where
  "utf8_tail 0 codepoint out = (codepoint, out)"
| "utf8_tail (Suc k) codepoint out = utf8_tail k (drop_bit 6 codepoint) (char_of ((codepoint OR 0x80) AND 0xBF) # out)"

definition utf8_encode :: "nat \<Rightarrow> string option" where
  "utf8_encode codepoint =
     (if codepoint < 0x80 then Some [char_of (codepoint AND 0x7F)]
      else let mark = (\<lambda>k m. let (cp, out) = utf8_tail k codepoint [] in Some (char_of ((cp OR m) AND 0xFF) # out)) in
           if codepoint < 0x800 then mark 1 0xC0
           else if codepoint < 0x10000 then mark 2 0xE0
           else if codepoint \<le> 0x10FFFF then mark 3 0xF0
           else None)"

text \<open>
  \<open>input_pointer\<close> and \<open>input_end\<close> are positions in the text; the four digits lie before \<open>input_end\<close>.  The
  result is the encoded character with the length of the sequence.
\<close>

definition utf16_literal_to_utf8 :: "string \<Rightarrow> nat \<Rightarrow> nat \<Rightarrow> (string \<times> nat) option" where
  "utf16_literal_to_utf8 content input_pointer input_end =
     (if input_end < input_pointer + 6 then None
      else let first_code = parse_hex4 (drop (input_pointer + 2) content) in
           if 0xDC00 \<le> first_code \<and> first_code \<le> 0xDFFF then None
           else if 0xD800 \<le> first_code \<and> first_code \<le> 0xDBFF
           then (let second = input_pointer + 6 in
                 if input_end < second + 6 then None
                 else if content ! second \<noteq> CHR 0x5C \<or> content ! (second + 1) \<noteq> CHR ''u'' then None
                 else let second_code = parse_hex4 (drop (second + 2) content) in
                      if second_code < 0xDC00 \<or> second_code > 0xDFFF then None
                      else map_option (\<lambda>s. (s, 12))
                             (utf8_encode (0x10000 + (push_bit 10 (first_code AND 0x3FF) OR (second_code AND 0x3FF)))))
           else map_option (\<lambda>s. (s, 6)) (utf8_encode first_code))"

text \<open>The first pass: the position of the closing quote and the number of skipped bytes.\<close>

function scan_string :: "string \<Rightarrow> nat \<Rightarrow> nat \<Rightarrow> (nat \<times> nat) option" where
  "scan_string content input_end skipped =
     (if input_end < length content \<and> content ! input_end \<noteq> CHR 0x22
      then (if content ! input_end = CHR 0x5C
            then (if input_end + 1 \<ge> length content then None
                  else scan_string content (input_end + 2) (skipped + 1))
            else scan_string content (input_end + 1) skipped)
      else if input_end \<ge> length content then None
      else Some (input_end, skipped))"
  by auto
termination
  by (relation "measure (\<lambda>(content, input_end, _). length content - input_end)") auto

definition escape_char :: "char \<Rightarrow> char option" where
  "escape_char c =
     (if c = CHR ''b'' then Some (CHR 0x08)
      else if c = CHR ''f'' then Some (CHR 0x0C)
      else if c = CHR ''n'' then Some (CHR 0x0A)
      else if c = CHR ''r'' then Some (CHR 0x0D)
      else if c = CHR ''t'' then Some (CHR 0x09)
      else if c = CHR 0x22 \<or> c = CHR 0x5C \<or> c = CHR ''/'' then Some c
      else None)"

text \<open>
  The second pass: \<open>out\<close> is what has been written to the \<open>cap\<close> bytes of the block.  A failure returns the position
  where it happened.
\<close>

lemma utf16_literal_pos:
  assumes "utf16_literal_to_utf8 content p e = Some (s, n)"
  shows "n = 6 \<or> n = 12" "p + n \<le> e"
  using assms by (auto simp: utf16_literal_to_utf8_def Let_def split: if_splits)

function unescape :: "string \<Rightarrow> nat \<Rightarrow> nat \<Rightarrow> nat \<Rightarrow> string \<Rightarrow> (string option \<times> nat) result" where
  "unescape content input_end cap input_pointer out =
     (if input_pointer < input_end
      then (if input_pointer \<ge> length content then Inl OutOfBounds
            else if content ! input_pointer \<noteq> CHR 0x5C
            then (if length out + 1 > cap then Inl OutOfBounds
                  else unescape content input_end cap (input_pointer + 1) (out @ [content ! input_pointer]))
            else if input_pointer + 1 \<ge> length content then Inl OutOfBounds
            else case escape_char (content ! (input_pointer + 1)) of
                   Some c \<Rightarrow>
                     (if length out + 1 > cap then Inl OutOfBounds
                      else unescape content input_end cap (input_pointer + 2) (out @ [c]))
                 | None \<Rightarrow>
                     (if content ! (input_pointer + 1) \<noteq> CHR ''u'' then Inr (None, input_pointer)
                      else case utf16_literal_to_utf8 content input_pointer input_end of
                             None \<Rightarrow> Inr (None, input_pointer)
                           | Some (s, n) \<Rightarrow>
                               (if length out + length s > cap then Inl OutOfBounds
                                else unescape content input_end cap (input_pointer + n) (out @ s))))
      else if length out + 1 > cap then Inl OutOfBounds
      else Inr (Some out, input_pointer))"
  by pat_completeness auto
termination
  by (relation "measure (\<lambda>(content, e, cap, p, out). e - p)") (auto dest: utf16_literal_pos)

declare scan_string.simps [simp del] unescape.simps [simp del]

text \<open>The parsed string is a C string: it ends with the first zero byte that was written.\<close>

definition parse_string :: "parse_buffer \<Rightarrow> (string option \<times> parse_buffer) result" where
  "parse_string b =
     (let start = pb_offset b + 1; failed = (\<lambda>p. Inr (None, b\<lparr>pb_offset := p\<rparr>)) in
      bindR (byte_at b 0) (\<lambda>c.
        if c \<noteq> CHR 0x22 then failed start
        else case scan_string (pb_content b) start 0 of
               None \<Rightarrow> failed start
             | Some (input_end, skipped) \<Rightarrow>
                 (let allocation_length = input_end - pb_offset b - skipped in
                  bindR (unescape (pb_content b) input_end (allocation_length + 1) start []) (\<lambda>(out, p).
                    case out of
                      None \<Rightarrow> failed p
                    | Some s \<Rightarrow> Inr (Some (cstring s), b\<lparr>pb_offset := input_end + 1\<rparr>)))))"

section \<open>Values\<close>

text \<open>
  The loops over the elements of an array and over the members of an object; \<open>pv\<close> is \<open>parse_value\<close>.  The first argument bounds
  the number of iterations: the offset grows in each one.
\<close>

primrec parse_elements :: "nat \<Rightarrow> (parse_buffer \<Rightarrow> 'd cJSON parsed) \<Rightarrow> 'd cJSON list \<Rightarrow> parse_buffer \<Rightarrow> 'd cJSON list parsed" where
  "parse_elements 0 pv items b = None"
| "parse_elements (Suc k) pv items b =
     bindP (pv (buffer_skip_whitespace (advance 1 b))) (\<lambda>v b1.
       let b2 = buffer_skip_whitespace b1 in
       if looking_at b2 (CHR '','') then parse_elements k pv (items @ [v]) b2 else pdone (items @ [v]) b2)"

definition parse_array :: "'d float_ops \<Rightarrow> (parse_buffer \<Rightarrow> 'd cJSON parsed) \<Rightarrow> parse_buffer \<Rightarrow> 'd cJSON parsed" where
  "parse_array fo pv b =
     (if pb_depth b \<ge> CJSON_NESTING_LIMIT then pfail b
      else let b1 = b\<lparr>pb_depth := pb_depth b + 1\<rparr>;
               success = (\<lambda>items b. pdone (new_item fo cJSON_Array 0 None items)
                                      (b\<lparr>pb_depth := pb_depth b - 1, pb_offset := pb_offset b + 1\<rparr>))
           in case byte_at b1 0 of
                Inl e \<Rightarrow> Some (Inl e)
              | Inr c \<Rightarrow>
                  if c \<noteq> CHR ''['' then pfail b1
                  else let b2 = buffer_skip_whitespace (advance 1 b1);
                           before = b2\<lparr>pb_offset := pb_offset b2 - 1\<rparr>
                       in if looking_at b2 (CHR '']'') then success [] b2
                          else if \<not> can_access_at_index b2 0 then pfail before
                          else bindP (parse_elements (length (pb_content b)) pv [] before) (\<lambda>items b3.
                                 if \<not> looking_at b3 (CHR '']'') then pfail b3 else success items b3))"

primrec parse_members :: "nat \<Rightarrow> (parse_buffer \<Rightarrow> 'd cJSON parsed) \<Rightarrow> 'd cJSON list \<Rightarrow> parse_buffer \<Rightarrow> 'd cJSON list parsed" where
  "parse_members 0 pv items b = None"
| "parse_members (Suc k) pv items b =
     (if \<not> can_access_at_index b 1 then pfail b
      else bindP (Some (parse_string (buffer_skip_whitespace (advance 1 b)))) (\<lambda>name b1.
             let b2 = buffer_skip_whitespace b1 in
             if \<not> looking_at b2 (CHR '':'') then pfail b2
             else bindP (pv (buffer_skip_whitespace (advance 1 b2))) (\<lambda>v b3.
                    let b4 = buffer_skip_whitespace b3 in
                    if looking_at b4 (CHR '','') then parse_members k pv (items @ [named name v]) b4
                    else pdone (items @ [named name v]) b4)))"

definition parse_object :: "'d float_ops \<Rightarrow> (parse_buffer \<Rightarrow> 'd cJSON parsed) \<Rightarrow> parse_buffer \<Rightarrow> 'd cJSON parsed" where
  "parse_object fo pv b =
     (if pb_depth b \<ge> CJSON_NESTING_LIMIT then pfail b
      else let b1 = b\<lparr>pb_depth := pb_depth b + 1\<rparr>;
               success = (\<lambda>items b. pdone (new_item fo cJSON_Object 0 None items)
                                      (b\<lparr>pb_depth := pb_depth b - 1, pb_offset := pb_offset b + 1\<rparr>))
           in if \<not> looking_at b1 (CHR ''{'') then pfail b1
              else let b2 = buffer_skip_whitespace (advance 1 b1);
                       before = b2\<lparr>pb_offset := pb_offset b2 - 1\<rparr>
                   in if looking_at b2 (CHR ''}'') then success [] b2
                      else if \<not> can_access_at_index b2 0 then pfail before
                      else bindP (parse_members (length (pb_content b)) pv [] before) (\<lambda>items b3.
                             if \<not> looking_at b3 (CHR ''}'') then pfail b3 else success items b3))"

text \<open>The first argument bounds the nesting of the calls.\<close>

primrec parse_value :: "nat \<Rightarrow> 'd float_ops \<Rightarrow> parse_buffer \<Rightarrow> 'd cJSON parsed" where
  "parse_value 0 fo b = None"
| "parse_value (Suc n) fo b =
     (if starts_with b ''null'' then pdone (new_item fo cJSON_NULL 0 None []) (advance 4 b)
      else if starts_with b ''false'' then pdone (new_item fo cJSON_False 0 None []) (advance 5 b)
      else if starts_with b ''true'' then pdone (new_item fo cJSON_True 1 None []) (advance 4 b)
      else if looking_at b (CHR 0x22)
      then bindP (Some (parse_string b)) (\<lambda>s b1. pdone (new_item fo cJSON_String 0 (Some s) []) b1)
      else if looking_at b (CHR ''-'') \<or> (\<exists>d \<in> set ''0123456789''. looking_at b d) then parse_number fo b
      else if looking_at b (CHR ''['') then parse_array fo (parse_value n fo) b
      else if looking_at b (CHR ''{'') then parse_object fo (parse_value n fo) b
      else pfail b)"

text \<open>
  The result is the item with the position behind it, or no item with the position of the error, as in \<open>return_parse_end\<close> and
  \<open>global_error\<close>.  A null pointer has no position.
\<close>

definition error_position :: "parse_buffer \<Rightarrow> nat" where
  "error_position b =
     (if pb_offset b < length (pb_content b) then pb_offset b
      else if length (pb_content b) > 0 then length (pb_content b) - 1 else 0)"

definition cJSON_ParseWithLengthOpts ::
  "'d float_ops \<Rightarrow> string option \<Rightarrow> bool \<Rightarrow> ('d cJSON option \<times> nat option) result option" where
  "cJSON_ParseWithLengthOpts fo value require_null_terminated =
     (case value of
        None \<Rightarrow> Some (Inr (None, None))
      | Some content \<Rightarrow>
          (let b = \<lparr>pb_content = content, pb_offset = 0, pb_depth = 0\<rparr> in
           if content = [] then Some (Inr (None, Some 0))
           else let r = (case skip_utf8_bom b of
                           None \<Rightarrow> pfail b
                         | Some b1 \<Rightarrow> parse_value (CJSON_NESTING_LIMIT + 1) fo (buffer_skip_whitespace b1))
                in case r of
                     None \<Rightarrow> None
                   | Some (Inl e) \<Rightarrow> Some (Inl e)
                   | Some (Inr (None, b2)) \<Rightarrow> Some (Inr (None, Some (error_position b2)))
                   | Some (Inr (Some item, b2)) \<Rightarrow>
                       (let b3 = (if require_null_terminated then buffer_skip_whitespace b2 else b2) in
                        if require_null_terminated \<and> \<not> looking_at b3 NUL then Some (Inr (None, Some (error_position b3)))
                        else Some (Inr (Some item, Some (pb_offset b3))))))"

definition cJSON_ParseWithOpts ::
  "'d float_ops \<Rightarrow> string option \<Rightarrow> bool \<Rightarrow> ('d cJSON option \<times> nat option) result option" where
  "cJSON_ParseWithOpts fo value require_null_terminated =
     cJSON_ParseWithLengthOpts fo (map_option (\<lambda>s. s @ [NUL]) value) require_null_terminated"

definition cJSON_Parse :: "'d float_ops \<Rightarrow> string option \<Rightarrow> ('d cJSON option \<times> nat option) result option" where
  "cJSON_Parse fo value = cJSON_ParseWithOpts fo value False"

definition cJSON_ParseWithLength :: "'d float_ops \<Rightarrow> string option \<Rightarrow> ('d cJSON option \<times> nat option) result option" where
  "cJSON_ParseWithLength fo value = cJSON_ParseWithLengthOpts fo value False"

section \<open>The room for an unescaped string\<close>

text \<open>
  The first pass reads one character or one escape sequence in each step; \<open>tok\<close> counts the steps from a position to the
  closing quote.  The second pass may lose this alignment in an escape sequence with invalid digits.
\<close>

inductive tok :: "string \<Rightarrow> nat \<Rightarrow> nat \<Rightarrow> nat \<Rightarrow> bool" for content e where
  tok_end: "e < length content \<Longrightarrow> content ! e = CHR 0x22 \<Longrightarrow> tok content e e 0"
| tok_char: "q < length content \<Longrightarrow> content ! q \<noteq> CHR 0x22 \<Longrightarrow> content ! q \<noteq> CHR 0x5C \<Longrightarrow> tok content e (q + 1) n \<Longrightarrow> tok content e q (Suc n)"
| tok_esc: "q + 1 < length content \<Longrightarrow> content ! q = CHR 0x5C \<Longrightarrow> tok content e (q + 2) n \<Longrightarrow> tok content e q (Suc n)"

inductive_cases tok_cases: "tok content e q n"

lemma tok_le: "tok content e q n \<Longrightarrow> q \<le> e \<and> e < length content"
  by (induction rule: tok.induct) auto

lemma scan_string_tok:
  "scan_string content q s = Some (e, t) \<Longrightarrow> \<exists>n. tok content e q n \<and> s \<le> t \<and> e - q = n + (t - s)"
proof (induction content q s rule: scan_string.induct)
  case (1 content q s)
  note eq = 1(3) [unfolded scan_string.simps [of content q s]]
  consider "q < length content" "content ! q \<noteq> CHR 0x22" "content ! q = CHR 0x5C" "q + 1 < length content" "scan_string content (q + 2) (s + 1) = Some (e, t)"
    | "q < length content" "content ! q \<noteq> CHR 0x22" "content ! q \<noteq> CHR 0x5C" "scan_string content (q + 1) s = Some (e, t)"
    | "q < length content" "content ! q = CHR 0x22" "q = e" "s = t"
    using eq by (auto split: if_splits)
  then show ?case
  proof cases
    case 1
    then obtain n where n: "tok content e (q + 2) n" "s + 1 \<le> t" "e - (q + 2) = n + (t - (s + 1))" using "1.IH"(1) by auto
    have "q + 2 \<le> e" using tok_le n(1) by blast
    then show ?thesis using tok_esc [OF 1(4,3) n(1)] n(2,3) by (intro exI [of _ "Suc n"]) auto
  next
    case 2
    then obtain n where n: "tok content e (q + 1) n" "s \<le> t" "e - (q + 1) = n + (t - s)" using "1.IH"(2) by auto
    have "q + 1 \<le> e" using tok_le n(1) by blast
    then show ?thesis using tok_char [OF 2(1,2,3) n(1)] n(2,3) by (intro exI [of _ "Suc n"]) auto
  next
    case 3
    then show ?thesis using tok_end by auto
  qed
qed

lemma tok_drop:
  "tok content e q n \<Longrightarrow> q + k \<le> e \<Longrightarrow>
     (\<exists>m. tok content e (q + k) m \<and> m + (k + 1) div 2 \<le> n) \<or> (\<exists>m. tok content e (q + k + 1) m \<and> m + (k + 2) div 2 \<le> n)"
proof (induction arbitrary: k rule: tok.induct)
  case tok_end
  then show ?case using tok.tok_end by auto
next
  case (tok_char q n)
  show ?case
  proof (cases k)
    case 0
    then show ?thesis using tok.tok_char [OF tok_char(1-4)] by auto
  next
    case (Suc j)
    have "(\<exists>m. tok content e (q + 1 + j) m \<and> m + (j + 1) div 2 \<le> n) \<or> (\<exists>m. tok content e (q + 1 + j + 1) m \<and> m + (j + 2) div 2 \<le> n)"
      using tok_char(5) [of j] tok_char(6) Suc by simp
    moreover have "(k + 1) div 2 \<le> Suc ((j + 1) div 2)" "(k + 2) div 2 \<le> Suc ((j + 2) div 2)" using Suc by auto
    ultimately show ?thesis using Suc by (auto simp: add_ac)
  qed
next
  case (tok_esc q n)
  consider "k = 0" | "k = 1" | j where "k = j + 2" by (metis One_nat_def add_2_eq_Suc' less_2_cases_iff less_iff_Suc_add not_less_eq add.commute not_less Suc_1 le_Suc_ex)
  then show ?case
  proof cases
    case 1
    then show ?thesis using tok.tok_esc [OF tok_esc(1-3)] by auto
  next
    case 2
    then show ?thesis using tok_esc(3) by auto
  next
    case 3
    have "(\<exists>m. tok content e (q + 2 + j) m \<and> m + (j + 1) div 2 \<le> n) \<or> (\<exists>m. tok content e (q + 2 + j + 1) m \<and> m + (j + 2) div 2 \<le> n)"
      using tok_esc(4) [of j] tok_esc(5) 3 by simp
    moreover have "(k + 1) div 2 = Suc ((j + 1) div 2)" "(k + 2) div 2 = Suc ((j + 2) div 2)" using 3 by auto
    ultimately show ?thesis using 3 by (auto simp: add_ac)
  qed
qed

text \<open>\<open>k\<close> bytes have been written and the second pass stands at \<open>p\<close>.\<close>

definition room :: "string \<Rightarrow> nat \<Rightarrow> nat \<Rightarrow> nat \<Rightarrow> nat \<Rightarrow> bool" where
  "room content e cap p k \<longleftrightarrow>
     (\<exists>n. tok content e p n \<and> k + n + 1 \<le> cap) \<or> (\<exists>n. tok content e (p + 1) n \<and> k + n + 2 \<le> cap) \<or> (p = e + 1 \<and> k + 1 \<le> cap)"

lemma room_char:
  assumes "room content e cap p k" "p < e" "content ! p \<noteq> CHR 0x5C"
  shows "room content e cap (p + 1) (k + 1)"
proof -
  have "\<exists>m. n = Suc m \<and> tok content e (p + 1) m" if "tok content e p n" for n
    using that assms(2,3) by (auto elim: tok_cases)
  then show ?thesis using assms unfolding room_def by fastforce
qed

lemma room_step:
  assumes r: "room content e cap p k" "p < e" and j: "p + j \<le> e" "2 \<le> j" "w \<le> j div 2"
  shows "room content e cap (p + j) (k + w)"
proof -
  have d: "(j + 2) div 2 = j div 2 + 1" "j div 2 \<le> (j + 1) div 2" by auto
  from r consider n where "tok content e p n" "k + n + 1 \<le> cap" | n where "tok content e (p + 1) n" "k + n + 2 \<le> cap"
    unfolding room_def by auto
  then show ?thesis
  proof cases
    case 1
    from tok_drop [OF 1(1) j(1)] show ?thesis
    proof (elim disjE exE conjE)
      fix m assume "tok content e (p + j) m" "m + (j + 1) div 2 \<le> n"
      then show ?thesis using 1(2) j(3) d unfolding room_def by (intro disjI1 exI [of _ m]) auto
    next
      fix m assume "tok content e (p + j + 1) m" "m + (j + 2) div 2 \<le> n"
      then show ?thesis using 1(2) j(3) d unfolding room_def by (intro disjI2 disjI1 exI [of _ m]) auto
    qed
  next
    case 2
    have p: "p + 1 + (j - 1) = p + j" "j - 1 + 1 = j" "j - 1 + 2 = j + 1" using j(2) by auto
    from tok_drop [OF 2(1), of "j - 1", unfolded p, OF j(1)] show ?thesis
    proof (elim disjE exE conjE)
      fix m assume "tok content e (p + j) m" "m + j div 2 \<le> n"
      then show ?thesis using 2(2) j(3) unfolding room_def by (intro disjI1 exI [of _ m]) auto
    next
      fix m assume "tok content e (p + j + 1) m" "m + (j + 1) div 2 \<le> n"
      then show ?thesis using 2(2) j(3) d unfolding room_def by (intro disjI2 disjI1 exI [of _ m]) auto
    qed
  qed
qed

lemma room_last:
  assumes "room content e cap p k" "p + 1 = e" "content ! p = CHR 0x5C"
  shows "room content e cap (p + 2) (k + 1)"
proof -
  have "\<not> tok content e p n" for n
  proof
    assume "tok content e p n"
    then obtain m where "tok content e (p + 2) m" using assms(2,3) by (auto elim: tok_cases)
    then show False using tok_le assms(2) by fastforce
  qed
  then show ?thesis using assms unfolding room_def by auto
qed

lemma utf8_tail_length: "length (snd (utf8_tail k cp out)) = k + length out"
  by (induction k arbitrary: cp out) auto

lemma utf8_encode_length:
  assumes "utf8_encode cp = Some s"
  shows "length s = (if cp < 0x80 then 1 else if cp < 0x800 then 2 else if cp < 0x10000 then 3 else 4)"
  using assms utf8_tail_length [of 1 cp "[]"] utf8_tail_length [of 2 cp "[]"] utf8_tail_length [of 3 cp "[]"]
  by (auto simp: utf8_encode_def Let_def split: if_splits prod.splits)

lemma hex_val_less: "hex_val c = Some v \<Longrightarrow> v < 16"
  by (auto simp: hex_val_def Let_def split: if_splits)

lemma hex4_loop_less: "hex4_loop h s < (h + 1) * 16 ^ length s"
proof (induction s arbitrary: h)
  case (Cons c s)
  show ?case
  proof (cases "hex_val c")
    case (Some v)
    have "hex4_loop (16 * h + v) s < (16 * h + v + 1) * 16 ^ length s" by (rule Cons.IH)
    also have "\<dots> \<le> (16 * (h + 1)) * 16 ^ length s" using hex_val_less [OF Some] by (intro mult_right_mono) auto
    finally show ?thesis using Some by (simp add: algebra_simps)
  qed simp
qed simp

lemma parse_hex4_less: "parse_hex4 s < 0x10000"
proof -
  have "parse_hex4 s < 16 ^ length (take 4 s)" using hex4_loop_less [of 0 "take 4 s"] by (simp add: parse_hex4_def)
  also have "(16 :: nat) ^ length (take 4 s) \<le> 16 ^ 4" by (intro power_increasing) auto
  finally show ?thesis by simp
qed

lemma utf16_literal_length:
  assumes "utf16_literal_to_utf8 content p e = Some (s, n)"
  shows "length s \<le> n div 2"
  using assms parse_hex4_less [of "drop (p + 2) content"]
  by (auto simp: utf16_literal_to_utf8_def Let_def split: if_splits dest!: utf8_encode_length)

lemma unescape_safe:
  "room content e cap p (length out) \<Longrightarrow> e < length content \<Longrightarrow> p \<le> e + 1 \<Longrightarrow>
     \<exists>r p'. unescape content e cap p out = Inr (r, p') \<and> p' \<le> e + 1"
proof (induction content e cap p out rule: unescape.induct)
  case (1 content e cap p out)
  note room = 1(4) and e = 1(5) and pe = 1(6)
  show ?case
  proof (cases "p < e")
    case False
    have "length out + 1 \<le> cap" using room by (auto simp: room_def)
    then show ?thesis using False pe by (subst unescape.simps) simp
  next
    case True
    then have p: "p < length content" "p + 1 < length content" using e by auto
    have cap: "length out + 1 \<le> cap" using room by (auto simp: room_def)
    show ?thesis
    proof (cases "content ! p = CHR 0x5C")
      case False
      have "room content e cap (p + 1) (length (out @ [content ! p]))" using room_char [OF room True False] by simp
      then show ?thesis using 1(1) True False p cap e by (subst unescape.simps) simp
    next
      case bs: True
      show ?thesis
      proof (cases "escape_char (content ! (p + 1))")
        case (Some c)
        have "room content e cap (p + 2) (length (out @ [c]))"
          using room_step [OF room True, of 2 1] room_last [OF room _ bs] True by (cases "p + 1 = e") auto
        then show ?thesis using 1(3) True bs p cap e Some by (subst unescape.simps) simp
      next
        case None
        show ?thesis
        proof (cases "content ! (p + 1) = CHR ''u'' \<and> utf16_literal_to_utf8 content p e \<noteq> None")
          case False
          then show ?thesis using True bs p None pe by (subst unescape.simps) (auto split: option.splits)
        next
          case u: True
          then obtain s n where sn: "utf16_literal_to_utf8 content p e = Some (s, n)" by auto
          note pos = utf16_literal_pos [OF sn]
          have r: "room content e cap (p + n) (length (out @ s))"
            using room_step [OF room True pos(2), of "length s"] pos(1) utf16_literal_length [OF sn] by auto
          then have "length out + length s \<le> cap" by (auto simp: room_def)
          then show ?thesis using 1(2) True bs p e None u sn r pos(2) by (subst unescape.simps) auto
        qed
      qed
    qed
  qed
qed

lemma cstr_cstring: "cstr (cstring s)"
  by (auto simp: cstr_def cstring_def dest: set_takeWhileD)

text \<open>What every parsing function does: it ends inside the text, and moves forward when it succeeds.\<close>

definition moves :: "('a \<Rightarrow> bool) \<Rightarrow> parse_buffer \<Rightarrow> 'a parsed \<Rightarrow> bool" where
  "moves P b m \<longleftrightarrow>
     (\<exists>r b'. m = Some (Inr (r, b')) \<and> pb_content b' = pb_content b \<and> pb_offset b' \<le> length (pb_content b) \<and>
        (\<forall>x. r = Some x \<longrightarrow> pb_offset b < pb_offset b' \<and> pb_depth b' = pb_depth b \<and> P x))"

lemma parse_string_moves:
  assumes "can_access_at_index b 0"
  shows "moves cstr b (Some (parse_string b))"
proof -
  define c where "c = pb_content b ! pb_offset b"
  have c: "byte_at b 0 = Inr c" and len: "pb_offset b < length (pb_content b)" using assms by (simp_all add: byte_at_def c_def can_access_at_index_def)
  show ?thesis
  proof (cases "c = CHR 0x22 \<and> scan_string (pb_content b) (pb_offset b + 1) 0 \<noteq> None")
    case False
    then have "parse_string b = Inr (None, b\<lparr>pb_offset := pb_offset b + 1\<rparr>)" using c by (cases "c = CHR 0x22") (auto simp: parse_string_def split: option.splits)
    then show ?thesis using len by (simp add: moves_def)
  next
    case True
    then obtain e t where scan: "scan_string (pb_content b) (pb_offset b + 1) 0 = Some (e, t)" by auto
    obtain n where n: "tok (pb_content b) e (pb_offset b + 1) n" "e - (pb_offset b + 1) = n + t" using scan_string_tok [OF scan] by auto
    note le = tok_le [OF n(1)]
    have "room (pb_content b) e (e - pb_offset b - t + 1) (pb_offset b + 1) (length ([] :: string))"
      using n le unfolding room_def by (intro disjI1 exI [of _ n]) auto
    then obtain r p' where "unescape (pb_content b) e (e - pb_offset b - t + 1) (pb_offset b + 1) [] = Inr (r, p')" "p' \<le> e + 1"
      using unescape_safe [of "pb_content b" e "e - pb_offset b - t + 1" "pb_offset b + 1" "[]"] le by auto
    then show ?thesis using c True scan le by (cases r) (simp_all add: moves_def parse_string_def cstr_cstring)
  qed
qed

section \<open>The parser ends inside the text\<close>

text \<open>The items the parser makes: the fields of each type, keys exactly in objects, and the nesting.\<close>

primrec cj_wf :: "'d float_ops \<Rightarrow> 'd cJSON \<Rightarrow> bool" where
  "cj_wf fo (Item t vi vd vs s cs) =
     (case t of
        cJSON_NULL \<Rightarrow> vi = 0 \<and> vd = fo_zero fo \<and> vs = None \<and> cs = []
      | cJSON_False \<Rightarrow> vi = 0 \<and> vd = fo_zero fo \<and> vs = None \<and> cs = []
      | cJSON_True \<Rightarrow> vi = 1 \<and> vd = fo_zero fo \<and> vs = None \<and> cs = []
      | cJSON_Number \<Rightarrow> vi = int_value fo vd \<and> vs = None \<and> cs = []
      | cJSON_String \<Rightarrow> vi = 0 \<and> vd = fo_zero fo \<and> vs \<noteq> None \<and> cstr (the vs) \<and> cs = []
      | cJSON_Array \<Rightarrow> vi = 0 \<and> vd = fo_zero fo \<and> vs = None \<and> list_all id (map (cj_wf fo) cs) \<and>
                      list_all (\<lambda>c. item_string c = None) cs
      | cJSON_Object \<Rightarrow> vi = 0 \<and> vd = fo_zero fo \<and> vs = None \<and> list_all id (map (cj_wf fo) cs) \<and>
                      list_all (\<lambda>c. item_string c \<noteq> None \<and> cstr (the (item_string c))) cs
      | _ \<Rightarrow> False)"

primrec cj_height :: "'d cJSON \<Rightarrow> nat" where
  "cj_height (Item t vi vd vs s cs) =
     (if t = cJSON_Array \<or> t = cJSON_Object then Suc (foldr max (map cj_height cs) 0) else 0)"

lemma foldr_max_le: "foldr max xs (0 :: nat) \<le> n \<longleftrightarrow> (\<forall>x \<in> set xs. x \<le> n)"
  by (induction xs) auto

definition parsed_ok :: "'d float_ops \<Rightarrow> nat \<Rightarrow> 'd cJSON \<Rightarrow> bool" where
  "parsed_ok fo d it \<longleftrightarrow> cj_wf fo it \<and> item_string it = None \<and> cj_height it + d \<le> CJSON_NESTING_LIMIT"

lemma named_wf [simp]: "cj_wf fo (named k it) = cj_wf fo it" "cj_height (named k it) = cj_height it" "item_string (named k it) = Some k"
  by (cases it; simp)+

lemma parsed_ok_array:
  assumes "\<forall>x \<in> set items. parsed_ok fo (d + 1) x" "d + 1 \<le> CJSON_NESTING_LIMIT"
  shows "parsed_ok fo d (new_item fo cJSON_Array 0 None items)"
proof -
  have "foldr max (map cj_height items) 0 \<le> CJSON_NESTING_LIMIT - (d + 1)" using assms(1) by (force simp: foldr_max_le parsed_ok_def)
  then show ?thesis using assms by (auto simp: parsed_ok_def new_item_def list_all_iff)
qed

definition member_ok :: "'d float_ops \<Rightarrow> nat \<Rightarrow> 'd cJSON \<Rightarrow> bool" where
  "member_ok fo d it \<longleftrightarrow> cj_wf fo it \<and> item_string it \<noteq> None \<and> cstr (the (item_string it)) \<and> cj_height it + d \<le> CJSON_NESTING_LIMIT"

lemma parsed_ok_object:
  assumes "\<forall>x \<in> set items. member_ok fo (d + 1) x" "d + 1 \<le> CJSON_NESTING_LIMIT"
  shows "parsed_ok fo d (new_item fo cJSON_Object 0 None items)"
proof -
  have "foldr max (map cj_height items) 0 \<le> CJSON_NESTING_LIMIT - (d + 1)" using assms(1) by (force simp: foldr_max_le member_ok_def)
  then show ?thesis using assms by (auto simp: parsed_ok_def member_ok_def new_item_def list_all_iff)
qed

lemma advance_simps [simp]:
  "pb_content (advance n b) = pb_content b" "pb_depth (advance n b) = pb_depth b" "pb_offset (advance n b) = pb_offset b + n"
  by (simp_all add: advance_def)

lemma skip_simps [simp]:
  "pb_content (buffer_skip_whitespace b) = pb_content b" "pb_depth (buffer_skip_whitespace b) = pb_depth b"
  by (simp_all add: buffer_skip_whitespace_def Let_def)

lemma skip_offset:
  assumes "pb_offset b \<le> length (pb_content b)"
  shows "pb_offset b \<le> pb_offset (buffer_skip_whitespace b)" "pb_offset (buffer_skip_whitespace b) \<le> length (pb_content b)"
    "can_access_at_index b 0 \<Longrightarrow> can_access_at_index (buffer_skip_whitespace b) 0"
proof -
  define w where "w = length (takeWhile (\<lambda>c. of_char c \<le> (32 :: nat)) (drop (pb_offset b) (pb_content b)))"
  have "w \<le> length (pb_content b) - pb_offset b" unfolding w_def by (metis length_drop length_takeWhile_le)
  then show "pb_offset b \<le> pb_offset (buffer_skip_whitespace b)" "pb_offset (buffer_skip_whitespace b) \<le> length (pb_content b)"
    "can_access_at_index b 0 \<Longrightarrow> can_access_at_index (buffer_skip_whitespace b) 0"
    using assms by (auto simp: buffer_skip_whitespace_def Let_def w_def [symmetric] can_access_at_index_def)
qed

lemma movesI_fail: "pb_content b' = pb_content b \<Longrightarrow> pb_offset b' \<le> length (pb_content b) \<Longrightarrow> moves P b (pfail b')"
  by (simp add: moves_def)

lemma moves_bind:
  assumes m: "moves P b0 m" and c: "pb_content b0 = pb_content b"
    and f: "\<And>x b'. P x \<Longrightarrow> pb_content b' = pb_content b \<Longrightarrow> pb_offset b0 < pb_offset b' \<Longrightarrow> pb_offset b' \<le> length (pb_content b) \<Longrightarrow>
      pb_depth b' = pb_depth b0 \<Longrightarrow> moves Q b (f x b')"
  shows "moves Q b (bindP m f)"
proof -
  obtain r b' where r: "m = Some (Inr (r, b'))" "pb_content b' = pb_content b" "pb_offset b' \<le> length (pb_content b)"
    "\<forall>x. r = Some x \<longrightarrow> pb_offset b0 < pb_offset b' \<and> pb_depth b' = pb_depth b0 \<and> P x"
    using m c by (auto simp: moves_def)
  show ?thesis
  proof (cases r)
    case None
    then show ?thesis using r(1-3) by (simp add: bindP_def moves_def)
  next
    case (Some x)
    then show ?thesis using r f [of x b'] by (simp add: bindP_def)
  qed
qed

lemma moves_from:
  assumes "moves P b1 m" "pb_content b1 = pb_content b" "pb_offset b \<le> pb_offset b1" "pb_depth b1 = pb_depth b"
  shows "moves P b m"
  using assms by (fastforce simp: moves_def)

lemma looking_at_less: "looking_at b c \<Longrightarrow> pb_offset b < length (pb_content b)"
  by (simp add: looking_at_def can_access_at_index_def)

text \<open>A function that parses one value at the given depth of the text.\<close>

definition value_parser :: "('a \<Rightarrow> bool) \<Rightarrow> string \<Rightarrow> nat \<Rightarrow> (parse_buffer \<Rightarrow> 'a parsed) \<Rightarrow> bool" where
  "value_parser P content d pv \<longleftrightarrow>
     (\<forall>b. pb_content b = content \<longrightarrow> pb_depth b = d \<longrightarrow> pb_offset b \<le> length content \<longrightarrow> moves P b (pv b))"

lemma parse_elements_moves:
  assumes pv: "value_parser P (pb_content b) (pb_depth b) pv"
    and "length (pb_content b) \<le> pb_offset b + k" "pb_offset b < length (pb_content b)" "\<forall>x \<in> set items. P x"
  shows "moves (\<lambda>xs. \<forall>x \<in> set xs. P x) b (parse_elements k pv items b)"
  using assms
proof (induction k arbitrary: b items)
  case (Suc k)
  define b0 where "b0 = buffer_skip_whitespace (advance 1 b)"
  have b0: "pb_content b0 = pb_content b" "pb_depth b0 = pb_depth b" "pb_offset b < pb_offset b0" "pb_offset b0 \<le> length (pb_content b)"
    using skip_offset [of "advance 1 b"] Suc.prems(3) by (auto simp: b0_def)
  have m: "moves P b0 (pv b0)" using Suc.prems(1) b0 by (auto simp: value_parser_def)
  show ?case unfolding parse_elements.simps b0_def [symmetric] Let_def
  proof (rule moves_bind [OF m b0(1)])
    fix v and b1 :: parse_buffer
    assume v: "P v" "pb_content b1 = pb_content b" "pb_offset b0 < pb_offset b1" "pb_offset b1 \<le> length (pb_content b)" "pb_depth b1 = pb_depth b0"
    define b2 where "b2 = buffer_skip_whitespace b1"
    have b2: "pb_content b2 = pb_content b" "pb_depth b2 = pb_depth b" "pb_offset b < pb_offset b2" "pb_offset b2 \<le> length (pb_content b)"
      using skip_offset [of b1] v b0 by (auto simp: b2_def)
    have "moves (\<lambda>xs. \<forall>x \<in> set xs. P x) b (parse_elements k pv (items @ [v]) b2)" if "looking_at b2 (CHR '','')"
    proof (rule moves_from [OF _ b2(1) _ b2(2)])
      show "moves (\<lambda>xs. \<forall>x \<in> set xs. P x) b2 (parse_elements k pv (items @ [v]) b2)"
        using Suc.prems(1,2,4) v(1) b2 looking_at_less [OF that] by (intro Suc.IH) auto
      show "pb_offset b \<le> pb_offset b2" using b2(3) by simp
    qed
    then show "moves (\<lambda>xs. \<forall>x \<in> set xs. P x) b
        (if looking_at (buffer_skip_whitespace b1) (CHR '','') then parse_elements k pv (items @ [v]) (buffer_skip_whitespace b1)
         else pdone (items @ [v]) (buffer_skip_whitespace b1))"
      using Suc.prems(4) v(1) b2 unfolding b2_def [symmetric] by (auto simp: moves_def)
  qed
qed simp

lemma parse_members_moves:
  assumes pv: "value_parser P (pb_content b) (pb_depth b) pv"
    and "length (pb_content b) \<le> pb_offset b + k" "pb_offset b < length (pb_content b)" "\<forall>x \<in> set items. Q x"
    and "\<And>name v. cstr name \<Longrightarrow> P v \<Longrightarrow> Q (named name v)"
  shows "moves (\<lambda>xs. \<forall>x \<in> set xs. Q x) b (parse_members k pv items b)"
  using assms
proof (induction k arbitrary: b items)
  case (Suc k)
  define b0 where "b0 = buffer_skip_whitespace (advance 1 b)"
  show ?case
  proof (cases "can_access_at_index b 1")
    case False
    then show ?thesis using Suc.prems(3) by (simp add: moves_def)
  next
    case True
    then have b0: "pb_content b0 = pb_content b" "pb_depth b0 = pb_depth b" "pb_offset b < pb_offset b0" "pb_offset b0 \<le> length (pb_content b)"
      "can_access_at_index b0 0"
      using skip_offset [of "advance 1 b"] Suc.prems(3) by (auto simp: b0_def can_access_at_index_def)
    have m: "moves cstr b0 (Some (parse_string b0))" by (rule parse_string_moves [OF b0(5)])
    have "moves (\<lambda>xs. \<forall>x \<in> set xs. Q x) b (bindP (Some (parse_string b0)) (\<lambda>name b1.
      let b2 = buffer_skip_whitespace b1 in
      if \<not> looking_at b2 (CHR '':'') then pfail b2
      else bindP (pv (buffer_skip_whitespace (advance 1 b2))) (\<lambda>v b3.
             let b4 = buffer_skip_whitespace b3 in
             if looking_at b4 (CHR '','') then parse_members k pv (items @ [named name v]) b4
             else pdone (items @ [named name v]) b4)))" (is "moves ?R b (bindP _ ?f)")
    proof (rule moves_bind [OF m b0(1)])
      fix name and b1 :: parse_buffer
      assume n: "cstr name" "pb_content b1 = pb_content b" "pb_offset b0 < pb_offset b1" "pb_offset b1 \<le> length (pb_content b)" "pb_depth b1 = pb_depth b0"
      define b2 where "b2 = buffer_skip_whitespace b1"
      have b2: "pb_content b2 = pb_content b" "pb_depth b2 = pb_depth b" "pb_offset b < pb_offset b2" "pb_offset b2 \<le> length (pb_content b)"
        using skip_offset [of b1] n b0 by (auto simp: b2_def)
      define b3 where "b3 = buffer_skip_whitespace (advance 1 b2)"
      have "moves ?R b (bindP (pv b3) (\<lambda>v b3. let b4 = buffer_skip_whitespace b3 in
          if looking_at b4 (CHR '','') then parse_members k pv (items @ [named name v]) b4 else pdone (items @ [named name v]) b4))"
        (is "moves _ _ (bindP _ ?g)") if colon: "looking_at b2 (CHR '':'')"
      proof -
        have b3: "pb_content b3 = pb_content b" "pb_depth b3 = pb_depth b" "pb_offset b < pb_offset b3" "pb_offset b3 \<le> length (pb_content b)"
          using skip_offset [of "advance 1 b2"] looking_at_less [OF colon] b2 by (auto simp: b3_def)
        have m3: "moves P b3 (pv b3)" using Suc.prems(1) b3 by (auto simp: value_parser_def)
        show ?thesis
        proof (rule moves_bind [OF m3 b3(1)])
          fix v and b4 :: parse_buffer
          assume v: "P v" "pb_content b4 = pb_content b" "pb_offset b3 < pb_offset b4" "pb_offset b4 \<le> length (pb_content b)" "pb_depth b4 = pb_depth b3"
          define b5 where "b5 = buffer_skip_whitespace b4"
          have b5: "pb_content b5 = pb_content b" "pb_depth b5 = pb_depth b" "pb_offset b < pb_offset b5" "pb_offset b5 \<le> length (pb_content b)"
            using skip_offset [of b4] v b3 by (auto simp: b5_def)
          have q: "\<forall>x \<in> set (items @ [named name v]). Q x" using Suc.prems(4,5) n(1) v(1) by auto
          have "moves ?R b (parse_members k pv (items @ [named name v]) b5)" if "looking_at b5 (CHR '','')"
          proof (rule moves_from [OF _ b5(1) _ b5(2)])
            show "moves ?R b5 (parse_members k pv (items @ [named name v]) b5)"
              using Suc.prems(1,2,5) q b5 looking_at_less [OF that] by (intro Suc.IH) auto
            show "pb_offset b \<le> pb_offset b5" using b5(3) by simp
          qed
          then show "moves ?R b (?g v b4)"
            using q b5 unfolding b5_def [symmetric] Let_def by (auto simp: moves_def)
        qed
      qed
      then show "moves ?R b (?f name b1)"
        using b2 unfolding b2_def [symmetric] b3_def [symmetric] Let_def by (auto simp: moves_def)
    qed
    then show ?thesis using True unfolding b0_def by simp
  qed
qed simp

lemma success_moves:
  assumes "Q x" "pb_content b3 = pb_content b" "pb_offset b \<le> pb_offset b3" "pb_offset b3 < length (pb_content b)" "pb_depth b3 = pb_depth b + 1"
  shows "moves Q b (pdone x (b3\<lparr>pb_depth := pb_depth b3 - 1, pb_offset := pb_offset b3 + 1\<rparr>))"
  using assms by (simp add: moves_def)

text \<open>The common frame of arrays and objects behind the opening bracket.\<close>

lemma bracket_moves:
  assumes b1: "b1 = b\<lparr>pb_depth := pb_depth b + 1\<rparr>" "can_access_at_index b1 0"
    and b2: "b2 = buffer_skip_whitespace (advance 1 b1)" "before = b2\<lparr>pb_offset := pb_offset b2 - 1\<rparr>"
    and items: "can_access_at_index b2 0 \<Longrightarrow> moves P before (elems before)"
    and q: "Q (mk [])" "\<And>xs. P xs \<Longrightarrow> Q (mk xs)"
  shows "moves Q b
    (if looking_at b2 c then pdone (mk []) (b2\<lparr>pb_depth := pb_depth b2 - 1, pb_offset := pb_offset b2 + 1\<rparr>)
     else if \<not> can_access_at_index b2 0 then pfail before
     else bindP (elems before) (\<lambda>xs b3. if \<not> looking_at b3 c then pfail b3
            else pdone (mk xs) (b3\<lparr>pb_depth := pb_depth b3 - 1, pb_offset := pb_offset b3 + 1\<rparr>)))"
proof -
  have o: "pb_content b2 = pb_content b" "pb_depth b2 = pb_depth b + 1" "pb_offset b < pb_offset b2" "pb_offset b2 \<le> length (pb_content b)"
    using skip_offset [of "advance 1 b1"] b1 by (auto simp: b2 can_access_at_index_def)
  have bf: "pb_content before = pb_content b" "pb_depth before = pb_depth b + 1" "pb_offset b \<le> pb_offset before" "pb_offset before \<le> length (pb_content b)"
    using o by (auto simp: b2(2))
  consider "looking_at b2 c" | "\<not> looking_at b2 c" "\<not> can_access_at_index b2 0" | "\<not> looking_at b2 c" "can_access_at_index b2 0" by blast
  then show ?thesis
  proof cases
    case 1
    then show ?thesis using success_moves [of Q "mk []" b2 b] q(1) o looking_at_less [OF 1] by simp
  next
    case 2
    then show ?thesis using bf by (simp add: moves_def)
  next
    case 3
    have "moves Q b (bindP (elems before) (\<lambda>xs b3. if \<not> looking_at b3 c then pfail b3
            else pdone (mk xs) (b3\<lparr>pb_depth := pb_depth b3 - 1, pb_offset := pb_offset b3 + 1\<rparr>)))"
    proof (rule moves_bind [OF items [OF 3(2)] bf(1)])
      fix xs and b3 :: parse_buffer
      assume "P xs" "pb_content b3 = pb_content b" "pb_offset before < pb_offset b3" "pb_offset b3 \<le> length (pb_content b)" "pb_depth b3 = pb_depth before"
      then show "moves Q b (if \<not> looking_at b3 c then pfail b3 else pdone (mk xs) (b3\<lparr>pb_depth := pb_depth b3 - 1, pb_offset := pb_offset b3 + 1\<rparr>))"
        using success_moves [of Q "mk xs" b3 b] q(2) bf looking_at_less [of b3 c] by (auto simp: movesI_fail)
    qed
    then show ?thesis using 3 by simp
  qed
qed

lemma parse_array_moves:
  assumes acc: "can_access_at_index b 0" and pv: "value_parser (parsed_ok fo (pb_depth b + 1)) (pb_content b) (pb_depth b + 1) pv"
  shows "moves (parsed_ok fo (pb_depth b)) b (parse_array fo pv b)"
proof (cases "pb_depth b \<ge> CJSON_NESTING_LIMIT \<or> pb_content b ! pb_offset b \<noteq> CHR ''['' ")
  case True
  then show ?thesis using acc by (auto simp: parse_array_def moves_def byte_at_def can_access_at_index_def)
next
  case False
  define b1 where "b1 = b\<lparr>pb_depth := pb_depth b + 1\<rparr>"
  define b2 where "b2 = buffer_skip_whitespace (advance 1 b1)"
  define before where "before = b2\<lparr>pb_offset := pb_offset b2 - 1\<rparr>"
  have a1: "can_access_at_index b1 0" using acc by (simp add: b1_def can_access_at_index_def)
  have o: "pb_content b2 = pb_content b" "pb_depth b2 = pb_depth b + 1" "pb_offset b < pb_offset b2"
    using skip_offset [of "advance 1 b1"] a1 by (auto simp: b2_def b1_def can_access_at_index_def)
  have "moves (\<lambda>xs. \<forall>x \<in> set xs. parsed_ok fo (pb_depth b + 1) x) before (parse_elements (length (pb_content b)) pv [] before)"
    if "can_access_at_index b2 0"
    using parse_elements_moves [of "parsed_ok fo (pb_depth b + 1)" before pv] pv o that by (simp add: before_def can_access_at_index_def)
  note bm = bracket_moves [OF b1_def a1 b2_def before_def, of "\<lambda>xs. \<forall>x \<in> set xs. parsed_ok fo (pb_depth b + 1) x"
      "parse_elements (length (pb_content b)) pv []" "parsed_ok fo (pb_depth b)" "new_item fo cJSON_Array 0 None" "CHR '']''", OF this]
  have c: "byte_at b1 0 = Inr (CHR ''['')" using False acc by (simp add: b1_def byte_at_def can_access_at_index_def)
  show ?thesis
    using bm parsed_ok_array [of _ fo "pb_depth b"] False c
    unfolding parse_array_def Let_def b1_def [symmetric] b2_def [symmetric] before_def [symmetric] by simp
qed

lemma parse_object_moves:
  assumes acc: "can_access_at_index b 0" and pv: "value_parser (parsed_ok fo (pb_depth b + 1)) (pb_content b) (pb_depth b + 1) pv"
  shows "moves (parsed_ok fo (pb_depth b)) b (parse_object fo pv b)"
proof (cases "pb_depth b \<ge> CJSON_NESTING_LIMIT \<or> pb_content b ! pb_offset b \<noteq> CHR ''{'' ")
  case True
  then show ?thesis using acc by (auto simp: parse_object_def moves_def looking_at_def can_access_at_index_def)
next
  case False
  define b1 where "b1 = b\<lparr>pb_depth := pb_depth b + 1\<rparr>"
  define b2 where "b2 = buffer_skip_whitespace (advance 1 b1)"
  define before where "before = b2\<lparr>pb_offset := pb_offset b2 - 1\<rparr>"
  have a1: "can_access_at_index b1 0" using acc by (simp add: b1_def can_access_at_index_def)
  have o: "pb_content b2 = pb_content b" "pb_depth b2 = pb_depth b + 1" "pb_offset b < pb_offset b2"
    using skip_offset [of "advance 1 b1"] a1 by (auto simp: b2_def b1_def can_access_at_index_def)
  have "moves (\<lambda>xs. \<forall>x \<in> set xs. member_ok fo (pb_depth b + 1) x) before (parse_members (length (pb_content b)) pv [] before)"
    if "can_access_at_index b2 0"
    using parse_members_moves [of "parsed_ok fo (pb_depth b + 1)" before pv _ _ "member_ok fo (pb_depth b + 1)"] pv o that
    by (simp add: before_def can_access_at_index_def parsed_ok_def member_ok_def)
  note bm = bracket_moves [OF b1_def a1 b2_def before_def, of "\<lambda>xs. \<forall>x \<in> set xs. member_ok fo (pb_depth b + 1) x"
      "parse_members (length (pb_content b)) pv []" "parsed_ok fo (pb_depth b)" "new_item fo cJSON_Object 0 None" "CHR ''}''", OF this]
  have c: "looking_at b1 (CHR ''{'')" using False acc by (simp add: b1_def looking_at_def can_access_at_index_def)
  show ?thesis
    using bm parsed_ok_object [of _ fo "pb_depth b"] False c
    unfolding parse_object_def Let_def b1_def [symmetric] b2_def [symmetric] before_def [symmetric] by simp
qed

text \<open>\<open>strtod\<close> does not use more characters than there are.\<close>

definition strtod_inside :: "'d float_ops \<Rightarrow> bool" where
  "strtod_inside fo \<longleftrightarrow> (\<forall>s. snd (fo_strtod fo s) \<le> length s)"

lemma parse_number_moves:
  assumes "strtod_inside fo" "pb_offset b \<le> length (pb_content b)" "pb_depth b \<le> CJSON_NESTING_LIMIT"
  shows "moves (parsed_ok fo (pb_depth b)) b (parse_number fo b)"
proof -
  define s where "s = takeWhile number_char (drop (pb_offset b) (pb_content b))"
  obtain d n where dn: "fo_strtod fo s = (d, n)" by (cases "fo_strtod fo s")
  have "n \<le> length s" using assms(1) dn unfolding strtod_inside_def by (metis snd_conv)
  moreover have "length s \<le> length (pb_content b) - pb_offset b" unfolding s_def by (metis length_drop length_takeWhile_le)
  ultimately show ?thesis using assms(2,3) dn by (auto simp: parse_number_def s_def [symmetric] moves_def parsed_ok_def)
qed

lemma starts_with_moves:
  assumes "starts_with b s" "s \<noteq> []" "Q x"
  shows "moves Q b (pdone x (advance (length s) b))"
  using assms by (simp add: starts_with_def can_read_def moves_def)

lemma moves_if: "(c \<Longrightarrow> moves P b x) \<Longrightarrow> (\<not> c \<Longrightarrow> moves P b y) \<Longrightarrow> moves P b (if c then x else y)"
  by simp

lemma parse_value_moves:
  assumes fo: "strtod_inside fo"
  shows "CJSON_NESTING_LIMIT < n + pb_depth b \<Longrightarrow> pb_depth b \<le> CJSON_NESTING_LIMIT \<Longrightarrow> pb_offset b \<le> length (pb_content b) \<Longrightarrow>
     moves (parsed_ok fo (pb_depth b)) b (parse_value n fo b)"
proof (induction n arbitrary: b)
  case (Suc n)
  have pv: "value_parser (parsed_ok fo (pb_depth b + 1)) (pb_content b) (pb_depth b + 1) (parse_value n fo)" if "pb_depth b < CJSON_NESTING_LIMIT"
    unfolding value_parser_def
  proof (intro allI impI)
    fix b' :: parse_buffer
    assume "pb_content b' = pb_content b" "pb_depth b' = pb_depth b + 1" "pb_offset b' \<le> length (pb_content b)"
    then show "moves (parsed_ok fo (pb_depth b + 1)) b' (parse_value n fo b')" using Suc.IH [of b'] Suc.prems(1) that by simp
  qed
  have acc: "can_access_at_index b 0" if "looking_at b c" for c using that by (simp add: looking_at_def)
  have arr: "moves (parsed_ok fo (pb_depth b)) b (parse_array fo (parse_value n fo) b)" if "looking_at b c" for c
  proof (cases "pb_depth b < CJSON_NESTING_LIMIT")
    case True
    show ?thesis by (rule parse_array_moves [OF acc [OF that] pv [OF True]])
  next
    case False
    then show ?thesis using Suc.prems(3) by (simp add: parse_array_def moves_def)
  qed
  have obj: "moves (parsed_ok fo (pb_depth b)) b (parse_object fo (parse_value n fo) b)" if "looking_at b c" for c
  proof (cases "pb_depth b < CJSON_NESTING_LIMIT")
    case True
    show ?thesis by (rule parse_object_moves [OF acc [OF that] pv [OF True]])
  next
    case False
    then show ?thesis using Suc.prems(3) by (simp add: parse_object_def moves_def)
  qed
  have lit: "moves (parsed_ok fo (pb_depth b)) b (pdone (new_item fo t i None []) (advance (length s) b))"
    if "starts_with b s" "s \<noteq> []" "(t, i) \<in> {(cJSON_NULL, 0), (cJSON_False, 0), (cJSON_True, 1)}" for s t i
  proof (rule starts_with_moves [OF that(1,2)])
    show "parsed_ok fo (pb_depth b) (new_item fo t i None [])" using that(3) Suc.prems(2) by (auto simp: parsed_ok_def new_item_def)
  qed
  have str: "moves (parsed_ok fo (pb_depth b)) b (bindP (Some (parse_string b)) (\<lambda>s b1. pdone (new_item fo cJSON_String 0 (Some s) []) b1))"
    if "looking_at b c" for c
    by (rule moves_bind [OF parse_string_moves [OF acc [OF that]] refl]) (use Suc.prems(2) in \<open>auto simp: moves_def parsed_ok_def new_item_def\<close>)
  have num: "moves (parsed_ok fo (pb_depth b)) b (parse_number fo b)" by (rule parse_number_moves [OF fo Suc.prems(3,2)])
  have fail: "moves (parsed_ok fo (pb_depth b)) b (pfail b)" using Suc.prems(3) by (simp add: moves_def)
  have null: "starts_with b ''null'' \<Longrightarrow> moves (parsed_ok fo (pb_depth b)) b (pdone (new_item fo cJSON_NULL 0 None []) (advance 4 b))"
    and fls: "starts_with b ''false'' \<Longrightarrow> moves (parsed_ok fo (pb_depth b)) b (pdone (new_item fo cJSON_False 0 None []) (advance 5 b))"
    and tru: "starts_with b ''true'' \<Longrightarrow> moves (parsed_ok fo (pb_depth b)) b (pdone (new_item fo cJSON_True 1 None []) (advance 4 b))"
    using lit [of "''null''" cJSON_NULL 0] lit [of "''false''" cJSON_False 0] lit [of "''true''" cJSON_True 1] by (simp_all add: eval_nat_numeral)
  show ?case unfolding parse_value.simps by (intro moves_if num fail; elim null fls tru str arr obj)
qed simp

text \<open>A small instance of the floating point numbers: decimal integers.\<close>

definition dec_read :: "string \<Rightarrow> int \<times> nat" where
  "dec_read s = (let t = takeWhile (\<lambda>c. c \<in> set ''0123456789'') s in (foldl (\<lambda>n c. 10 * n + (of_char c - 48)) 0 t, length t))"

definition int_ops :: "int float_ops" where
  "int_ops = \<lparr>fo_zero = 0, fo_strtod = dec_read, fo_of_int = (\<lambda>i. i), fo_to_int = (\<lambda>i. i), fo_le = (\<le>), fo_less = (<), fo_eq = (=),
     fo_special = (\<lambda>_. False), fo_abs = abs, fo_sub = (-), fo_mul = (*), fo_epsilon = 0, fo_g15 = int_str, fo_g17 = int_str\<rparr>"

lemma int_ops_inside: "strtod_inside int_ops"
  by (simp add: strtod_inside_def int_ops_def dec_read_def Let_def length_takeWhile_le)

text \<open>
  C12. Parsing any bytes of any length, with or without a terminating zero, returns: it reads no byte outside the
  text, and the second pass over a string never leaves the block whose size the first pass computed, also when
  an escape sequence with invalid digits makes both passes disagree.  The item it returns has
  exactly the fields of its type, keys exactly in objects and at most 1000 nested arrays and objects, and the position it
  reports lies inside the text or behind its end.
\<close>

theorem cJSON_parse_safe:
  assumes "strtod_inside fo"
  shows "\<exists>item pos. cJSON_ParseWithLengthOpts fo (Some content) require_null = Some (Inr (item, Some pos)) \<and>
    pos \<le> length content \<and> (\<forall>it. item = Some it \<longrightarrow> cj_wf fo it \<and> item_string it = None \<and> cj_height it \<le> CJSON_NESTING_LIMIT)"
proof (cases "content = []")
  case True
  then show ?thesis by (simp add: cJSON_ParseWithLengthOpts_def)
next
  case False
  define b where "b = \<lparr>pb_content = content, pb_offset = 0, pb_depth = 0\<rparr>"
  obtain b1 where b1: "skip_utf8_bom b = Some b1" "pb_content b1 = content" "pb_depth b1 = 0" "pb_offset b1 \<le> length content"
    by (cases "4 < length content \<and> take 3 content = [CHR 0xEF, CHR 0xBB, CHR 0xBF]")
      (auto simp: skip_utf8_bom_def b_def can_access_at_index_def)
  have "moves (parsed_ok fo 0) (buffer_skip_whitespace b1) (parse_value (CJSON_NESTING_LIMIT + 1) fo (buffer_skip_whitespace b1))"
    using parse_value_moves [OF assms, of "CJSON_NESTING_LIMIT + 1" "buffer_skip_whitespace b1"] skip_offset [of b1] b1 by simp
  then obtain r b2 where r: "parse_value (CJSON_NESTING_LIMIT + 1) fo (buffer_skip_whitespace b1) = Some (Inr (r, b2))"
    "pb_content b2 = content" "pb_offset b2 \<le> length content" "\<forall>x. r = Some x \<longrightarrow> parsed_ok fo 0 x"
    using b1(2) by (auto simp: moves_def)
  have e: "error_position b' \<le> length content" if "pb_content b' = content" for b' :: parse_buffer using that by (auto simp: error_position_def)
  show ?thesis
  proof (cases r)
    case None
    then show ?thesis using False r(2,3) e unfolding cJSON_ParseWithLengthOpts_def option.case Let_def b_def [symmetric] b1(1) r(1) by simp
  next
    case (Some it)
    define b3 where "b3 = (if require_null then buffer_skip_whitespace b2 else b2)"
    have "pb_content b3 = content" "pb_offset b3 \<le> length content" using skip_offset [of b2] r by (auto simp: b3_def)
    then show ?thesis using False r(2-4) Some e
      unfolding cJSON_ParseWithLengthOpts_def option.case Let_def b_def [symmetric] b1(1) r(1) Some sum.case prod.case b3_def [symmetric]
      by (simp add: parsed_ok_def)
  qed
qed

theorem cJSON_parse_safe_witness:
  "\<exists>item pos. cJSON_ParseWithLengthOpts int_ops (Some ([CHR 0x22, CHR 0x5C] @ ''u123'' @ [CHR 0x5C, CHR 0x5C, CHR 0x22])) True = Some (Inr (item, Some pos)) \<and>
     pos \<le> 9"
  using cJSON_parse_safe [OF int_ops_inside, of "[CHR 0x22, CHR 0x5C] @ ''u123'' @ [CHR 0x5C, CHR 0x5C, CHR 0x22]" True] by auto

end
