(* ===== verification/CJson_Print.thy ===== *)
theory CJson_Print
  imports CJson
begin

text \<open>
  The printer of \<open>src/vendor/cjson/cJSON.c\<close> on a buffer of bytes that is as large as the code believes: a write outside of it and a
  read of a byte that was never written are faults.  \<open>hooks\<close> tells which allocations succeed and whether \<open>realloc\<close> is available.
\<close>

section \<open>The print buffer\<close>

record printbuffer =
  pr_buffer :: "mem_block option"
  pr_length :: nat
  pr_offset :: nat
  pr_depth :: nat
  pr_noalloc :: bool
  pr_format :: bool

record hooks =
  hk_alloc :: "nat \<Rightarrow> bool"
  hk_realloc :: bool

type_synonym printed = "(bool \<times> printbuffer) result"

abbreviation IMAX :: nat where "IMAX \<equiv> 2147483647"

text \<open>The result of \<open>ensure\<close> is whether the pointer at the offset is returned.\<close>

definition ensure :: "hooks \<Rightarrow> nat \<Rightarrow> printbuffer \<Rightarrow> printed" where
  "ensure hk needed p =
     (case pr_buffer p of
        None \<Rightarrow> Inr (False, p)
      | Some blk \<Rightarrow>
          if pr_length p > 0 \<and> pr_offset p \<ge> pr_length p then Inr (False, p)
          else if needed > IMAX then Inr (False, p)
          else let need = needed + pr_offset p + 1 in
               if need \<le> pr_length p then Inr (True, p)
               else if pr_noalloc p then Inr (False, p)
               else if need > IMAX then Inr (False, p)
               else let newsize = (if need > IMAX div 2 then IMAX else need * 2);
                        keep = (if hk_realloc hk then length blk else pr_offset p + 1)
                    in if \<not> hk_alloc hk newsize then Inr (False, p\<lparr>pr_length := 0, pr_buffer := None\<rparr>)
                       else if keep > length blk then Inl OutOfBounds
                       else Inr (True, p\<lparr>pr_length := newsize,
                                         pr_buffer := Some (take keep blk @ replicate (newsize - keep) None)\<rparr>))"

text \<open>Writing at the pointer that \<open>ensure\<close> returned, and then moving the offset.\<close>

definition put :: "string \<Rightarrow> printbuffer \<Rightarrow> printbuffer result" where
  "put s p =
     (case pr_buffer p of
        None \<Rightarrow> Inl NullDeref
      | Some blk \<Rightarrow> bindR (mem_write blk (pr_offset p) s) (\<lambda>blk'. Inr (p\<lparr>pr_buffer := Some blk'\<rparr>)))"

definition emit :: "hooks \<Rightarrow> nat \<Rightarrow> string \<Rightarrow> nat \<Rightarrow> printbuffer \<Rightarrow> printed" where
  "emit hk needed s adv p =
     bindR (ensure hk needed p) (\<lambda>(ok, p1).
       if \<not> ok then Inr (False, p1)
       else bindR (put s p1) (\<lambda>p2. Inr (True, p2\<lparr>pr_offset := pr_offset p2 + adv\<rparr>)))"

definition bindT :: "printed \<Rightarrow> (printbuffer \<Rightarrow> printed) \<Rightarrow> printed" where
  "bindT m f = bindR m (\<lambda>(ok, p). if ok then f p else Inr (False, p))"

text \<open>\<open>strlen\<close> on the buffer.\<close>

definition strlen_at :: "mem_block \<Rightarrow> nat \<Rightarrow> nat result" where
  "strlen_at blk off =
     (let n = length (takeWhile (\<lambda>x. x \<noteq> None \<and> x \<noteq> Some NUL) (drop off blk)) in
      if off + n \<ge> length blk then Inl OutOfBounds
      else if blk ! (off + n) = None then Inl Indeterminate
      else Inr n)"

definition update_offset :: "printbuffer \<Rightarrow> printbuffer result" where
  "update_offset p =
     (case pr_buffer p of
        None \<Rightarrow> Inr p
      | Some blk \<Rightarrow> bindR (strlen_at blk (pr_offset p)) (\<lambda>n. Inr (p\<lparr>pr_offset := pr_offset p + n\<rparr>)))"

section \<open>Numbers and strings\<close>

definition compare_double :: "'d float_ops \<Rightarrow> 'd \<Rightarrow> 'd \<Rightarrow> bool" where
  "compare_double fo a b =
     (let maxVal = (if fo_less fo (fo_abs fo b) (fo_abs fo a) then fo_abs fo a else fo_abs fo b)
      in fo_le fo (fo_abs fo (fo_sub fo a b)) (fo_mul fo maxVal (fo_epsilon fo)))"

definition number_text :: "'d float_ops \<Rightarrow> int \<Rightarrow> 'd \<Rightarrow> string" where
  "number_text fo vi d =
     (if fo_special fo d then ''null''
      else if fo_eq fo d (fo_of_int fo vi) then int_str vi
      else let s = fo_g15 fo d; (test, n) = fo_strtod fo s in
           if n = 0 \<or> \<not> compare_double fo test d then fo_g17 fo d else s)"

text \<open>\<open>number_buffer\<close> has 26 bytes; \<open>sprintf\<close> writes the terminator as well.\<close>

definition print_number :: "'d float_ops \<Rightarrow> hooks \<Rightarrow> int \<Rightarrow> 'd \<Rightarrow> printbuffer \<Rightarrow> printed" where
  "print_number fo hk vi d p =
     (let number_buffer = number_text fo vi d; len = length number_buffer in
      if len > 25 then Inl OutOfBounds
      else emit hk (len + 1) (number_buffer @ [NUL]) len p)"

definition hex_digit :: "nat \<Rightarrow> char" where
  "hex_digit n = ''0123456789abcdef'' ! n"

definition escape_text :: "char \<Rightarrow> string" where
  "escape_text c =
     (if of_char c > (31 :: nat) \<and> c \<noteq> CHR 0x22 \<and> c \<noteq> CHR 0x5C then [c]
      else CHR 0x5C #
        (if c = CHR 0x5C then [CHR 0x5C]
         else if c = CHR 0x22 then [CHR 0x22]
         else if c = CHR 0x08 then ''b''
         else if c = CHR 0x0C then ''f''
         else if c = CHR 0x0A then ''n''
         else if c = CHR 0x0D then ''r''
         else if c = CHR 0x09 then ''t''
         else ''u00'' @ [hex_digit (of_char c div 16), hex_digit (of_char c mod 16)]))"

definition escape_extra :: "char \<Rightarrow> nat" where
  "escape_extra c =
     (if c \<in> {CHR 0x22, CHR 0x5C, CHR 0x08, CHR 0x0C, CHR 0x0A, CHR 0x0D, CHR 0x09} then 1
      else if of_char c < (32 :: nat) then 5 else 0)"

text \<open>The closing quote and the terminator are written at the length computed first, not behind the last byte.\<close>

definition print_string_ptr :: "hooks \<Rightarrow> string option \<Rightarrow> printbuffer \<Rightarrow> printed" where
  "print_string_ptr hk input p =
     (case input of
        None \<Rightarrow> emit hk 3 [CHR 0x22, CHR 0x22, NUL] 0 p
      | Some s \<Rightarrow>
          (let escape_characters = sum_list (map escape_extra s); output_length = length s + escape_characters in
           bindR (ensure hk (output_length + 3) p) (\<lambda>(ok, p1).
             if \<not> ok then Inr (False, p1)
             else if escape_characters = 0
             then bindR (put (CHR 0x22 # s @ [CHR 0x22, NUL]) p1) (\<lambda>p2. Inr (True, p2))
             else bindR (put (CHR 0x22 # concat (map escape_text s)) p1) (\<lambda>p2.
                  case pr_buffer p2 of
                    None \<Rightarrow> Inl NullDeref
                  | Some blk \<Rightarrow>
                      bindR (mem_write blk (pr_offset p2 + output_length + 1) [CHR 0x22, NUL]) (\<lambda>blk'.
                        Inr (True, p2\<lparr>pr_buffer := Some blk'\<rparr>))))))"

section \<open>Values\<close>

fun print_elements :: "hooks \<Rightarrow> (printbuffer \<Rightarrow> printed) list \<Rightarrow> printbuffer \<Rightarrow> printed" where
  "print_elements hk [] p = Inr (True, p)"
| "print_elements hk (pv # pvs) p =
     bindT (pv p) (\<lambda>p1.
     bindR (update_offset p1) (\<lambda>p2.
       if pvs = [] then Inr (True, p2)
       else let len = (if pr_format p2 then 2 else 1) in
            bindT (emit hk (len + 1) ('','' @ (if pr_format p2 then '' '' else []) @ [NUL]) len p2)
              (print_elements hk pvs)))"

definition print_array :: "hooks \<Rightarrow> (printbuffer \<Rightarrow> printed) list \<Rightarrow> printbuffer \<Rightarrow> printed" where
  "print_array hk pvs p =
     (if pr_depth p \<ge> CJSON_NESTING_LIMIT then Inr (False, p)
      else bindT (emit hk 1 ''['' 1 p) (\<lambda>p1.
           bindT (print_elements hk pvs (p1\<lparr>pr_depth := pr_depth p1 + 1\<rparr>)) (\<lambda>p2.
           bindT (emit hk 2 ('']'' @ [NUL]) 0 p2) (\<lambda>p3.
             Inr (True, p3\<lparr>pr_depth := pr_depth p3 - 1\<rparr>)))))"

fun print_members :: "hooks \<Rightarrow> (string option \<times> (printbuffer \<Rightarrow> printed)) list \<Rightarrow> printbuffer \<Rightarrow> printed" where
  "print_members hk [] p = Inr (True, p)"
| "print_members hk ((key, pv) # kvs) p =
     bindT (if pr_format p then emit hk (pr_depth p) (replicate (pr_depth p) (CHR 0x09)) (pr_depth p) p else Inr (True, p)) (\<lambda>p1.
     bindT (print_string_ptr hk key p1) (\<lambda>p2.
     bindR (update_offset p2) (\<lambda>p3.
       let len = (if pr_format p3 then 2 else 1) in
       bindT (emit hk len ('':'' @ (if pr_format p3 then [CHR 0x09] else [])) len p3) (\<lambda>p4.
       bindT (pv p4) (\<lambda>p5.
       bindR (update_offset p5) (\<lambda>p6.
         let sep = (if kvs \<noteq> [] then '','' else []) @ (if pr_format p6 then [CHR 0x0A] else []) in
         bindT (emit hk (length sep + 1) (sep @ [NUL]) (length sep) p6) (print_members hk kvs)))))))"

definition print_object :: "hooks \<Rightarrow> (string option \<times> (printbuffer \<Rightarrow> printed)) list \<Rightarrow> printbuffer \<Rightarrow> printed" where
  "print_object hk kvs p =
     (if pr_depth p \<ge> CJSON_NESTING_LIMIT then Inr (False, p)
      else let len = (if pr_format p then 2 else 1) in
           bindT (emit hk (len + 1) (''{'' @ (if pr_format p then [CHR 0x0A] else [])) len p) (\<lambda>p1.
           bindT (print_members hk kvs (p1\<lparr>pr_depth := pr_depth p1 + 1\<rparr>)) (\<lambda>p2.
           bindT (emit hk (if pr_format p2 then pr_depth p2 + 1 else 2)
                    ((if pr_format p2 then replicate (pr_depth p2 - 1) (CHR 0x09) else []) @ ''}'' @ [NUL]) 0 p2) (\<lambda>p3.
             Inr (True, p3\<lparr>pr_depth := pr_depth p3 - 1\<rparr>)))))"

primrec print_value :: "'d float_ops \<Rightarrow> hooks \<Rightarrow> 'd cJSON \<Rightarrow> printbuffer \<Rightarrow> printed" where
  "print_value fo hk (Item t vi vd vs s cs) =
     (case t of
        cJSON_NULL \<Rightarrow> emit hk 5 (''null'' @ [NUL]) 0
      | cJSON_False \<Rightarrow> emit hk 6 (''false'' @ [NUL]) 0
      | cJSON_True \<Rightarrow> emit hk 5 (''true'' @ [NUL]) 0
      | cJSON_Number \<Rightarrow> print_number fo hk vi vd
      | cJSON_Raw \<Rightarrow> (case vs of None \<Rightarrow> (\<lambda>p. Inr (False, p)) | Some r \<Rightarrow> emit hk (length r + 1) (r @ [NUL]) 0)
      | cJSON_String \<Rightarrow> print_string_ptr hk vs
      | cJSON_Array \<Rightarrow> print_array hk (map (print_value fo hk) cs)
      | cJSON_Object \<Rightarrow> print_object hk (zip (map item_string cs) (map (print_value fo hk) cs))
      | cJSON_Invalid \<Rightarrow> (\<lambda>p. Inr (False, p)))"

text \<open>
  \<open>print\<close>, which returns a block with exactly the text and its terminator.
\<close>

definition print_item :: "'d float_ops \<Rightarrow> hooks \<Rightarrow> bool \<Rightarrow> 'd cJSON \<Rightarrow> mem_block option result" where
  "print_item fo hk format it =
     (if \<not> hk_alloc hk 256 then Inr None
      else bindR (print_value fo hk it \<lparr>pr_buffer = Some (replicate 256 None), pr_length = 256, pr_offset = 0, pr_depth = 0,
                                         pr_noalloc = False, pr_format = format\<rparr>) (\<lambda>(ok, p).
             if \<not> ok then Inr None
             else bindR (update_offset p) (\<lambda>p1.
                  case pr_buffer p1 of
                    None \<Rightarrow> Inl NullDeref
                  | Some blk \<Rightarrow>
                      if \<not> hk_alloc hk (pr_offset p1 + 1) then Inr None
                      else if hk_realloc hk then Inr (Some (take (pr_offset p1 + 1) blk))
                      else Inr (Some (take (pr_offset p1) (take (min (pr_length p1) (pr_offset p1 + 1)) blk) @ [Some NUL])))))"

definition cJSON_Print :: "'d float_ops \<Rightarrow> hooks \<Rightarrow> 'd cJSON \<Rightarrow> mem_block option result" where
  "cJSON_Print fo hk it = print_item fo hk True it"

definition cJSON_PrintUnformatted :: "'d float_ops \<Rightarrow> hooks \<Rightarrow> 'd cJSON \<Rightarrow> mem_block option result" where
  "cJSON_PrintUnformatted fo hk it = print_item fo hk False it"

definition cJSON_PrintBuffered :: "'d float_ops \<Rightarrow> hooks \<Rightarrow> int \<Rightarrow> bool \<Rightarrow> 'd cJSON \<Rightarrow> mem_block option result" where
  "cJSON_PrintBuffered fo hk prebuffer fmt it =
     (if prebuffer < 0 \<or> \<not> hk_alloc hk (nat prebuffer) then Inr None
      else bindR (print_value fo hk it \<lparr>pr_buffer = Some (replicate (nat prebuffer) None), pr_length = nat prebuffer, pr_offset = 0,
                                         pr_depth = 0, pr_noalloc = False, pr_format = fmt\<rparr>) (\<lambda>(ok, p).
             if ok then Inr (pr_buffer p) else Inr None))"

text \<open>The buffer of the caller, with its size, is changed in place.\<close>

definition cJSON_PrintPreallocated :: "'d float_ops \<Rightarrow> hooks \<Rightarrow> mem_block option \<Rightarrow> bool \<Rightarrow> 'd cJSON \<Rightarrow> (bool \<times> mem_block option) result" where
  "cJSON_PrintPreallocated fo hk buffer fmt it =
     (case buffer of
        None \<Rightarrow> Inr (False, None)
      | Some blk \<Rightarrow>
          bindR (print_value fo hk it \<lparr>pr_buffer = Some blk, pr_length = length blk, pr_offset = 0, pr_depth = 0, pr_noalloc = True,
                                       pr_format = fmt\<rparr>) (\<lambda>(ok, p). Inr (ok, pr_buffer p)))"

section \<open>What the buffer holds\<close>

text \<open>The offset lies inside the buffer; an empty buffer can only be one that is replaced before it is copied, or never.\<close>

definition pr_ok :: "hooks \<Rightarrow> printbuffer \<Rightarrow> bool" where
  "pr_ok hk p \<longleftrightarrow>
     (\<exists>blk. pr_buffer p = Some blk \<and> length blk = pr_length p \<and>
        (pr_offset p < pr_length p \<or> pr_offset p = 0 \<and> pr_length p = 0 \<and> (hk_realloc hk \<or> pr_noalloc p)))"

definition held :: "printbuffer \<Rightarrow> mem_block" where
  "held p = take (pr_offset p) (the (pr_buffer p))"

definition stable :: "printbuffer \<Rightarrow> printbuffer \<Rightarrow> bool" where
  "stable p q \<longleftrightarrow> pr_depth q = pr_depth p \<and> pr_format q = pr_format p \<and> pr_noalloc q = pr_noalloc p \<and>
     (pr_noalloc p \<longrightarrow> pr_length q = pr_length p)"

text \<open>The text was added and the offset is behind it; or it stands at the old offset with a terminator.\<close>

definition added :: "hooks \<Rightarrow> string \<Rightarrow> printbuffer \<Rightarrow> printbuffer \<Rightarrow> bool" where
  "added hk t p q \<longleftrightarrow> pr_ok hk q \<and> stable p q \<and> pr_offset q = pr_offset p + length t \<and> held q = held p @ block_of t"

definition wrote :: "hooks \<Rightarrow> string \<Rightarrow> printbuffer \<Rightarrow> printbuffer \<Rightarrow> bool" where
  "wrote hk t p q \<longleftrightarrow> pr_ok hk q \<and> stable p q \<and> pr_offset p \<le> pr_offset q \<and> pr_offset q \<le> pr_offset p + length t \<and>
     pr_offset p + length t < pr_length q \<and>
     take (pr_offset p + length t + 1) (the (pr_buffer q)) = held p @ block_of (t @ [NUL])"

text \<open>There is room for \<open>n\<close> bytes, or it can be had.\<close>

definition fits :: "hooks \<Rightarrow> printbuffer \<Rightarrow> nat \<Rightarrow> bool" where
  "fits hk p n \<longleftrightarrow> n \<le> IMAX \<and> (if pr_noalloc p then n \<le> pr_length p else \<forall>m. hk_alloc hk m)"

text \<open>A piece of the printer runs without a fault, and succeeds when there is room.\<close>

definition runs :: "hooks \<Rightarrow> (printbuffer \<Rightarrow> printbuffer \<Rightarrow> bool) \<Rightarrow> bool \<Rightarrow> nat \<Rightarrow> printbuffer \<Rightarrow> printed \<Rightarrow> bool" where
  "runs hk R lim n p m \<longleftrightarrow> (\<exists>ok q. m = Inr (ok, q) \<and> (ok \<longrightarrow> R p q) \<and> (lim \<and> fits hk p n \<longrightarrow> ok))"

lemma pr_okD:
  assumes "pr_ok hk p"
  obtains blk where "pr_buffer p = Some blk" "length blk = pr_length p" "pr_offset p \<le> length blk" "held p = take (pr_offset p) blk"
    "length (held p) = pr_offset p"
  using assms that by (auto simp: pr_ok_def held_def)

lemma fits_stable: "stable p q \<Longrightarrow> fits hk q n = fits hk p n"
  by (auto simp: stable_def fits_def)

lemma stable_refl: "stable p p"
  and stable_trans: "stable p q \<Longrightarrow> stable q r \<Longrightarrow> stable p r"
  by (auto simp: stable_def)

lemma ensure_spec:
  assumes ok: "pr_ok hk p"
  shows "\<exists>r q. ensure hk needed p = Inr (r, q) \<and>
    (r \<longrightarrow> (\<exists>blk. pr_buffer q = Some blk \<and> length blk = pr_length q \<and> take (pr_offset p) blk = held p) \<and>
       pr_offset q = pr_offset p \<and> stable p q \<and> needed + pr_offset p + 1 \<le> pr_length q) \<and>
    (fits hk p (needed + pr_offset p + 1) \<longrightarrow> r)"
proof -
  obtain blk where blk: "pr_buffer p = Some blk" "length blk = pr_length p" "pr_offset p \<le> length blk" "held p = take (pr_offset p) blk"
    using pr_okD [OF ok] by metis
  have v: "\<not> (pr_length p > 0 \<and> pr_offset p \<ge> pr_length p)" using ok by (auto simp: pr_ok_def)
  define need where "need = needed + pr_offset p + 1"
  consider "needed > IMAX" | "needed \<le> IMAX" "need \<le> pr_length p" | "needed \<le> IMAX" "pr_length p < need" "pr_noalloc p \<or> need > IMAX"
    | "needed \<le> IMAX" "pr_length p < need" "\<not> pr_noalloc p" "need \<le> IMAX" by linarith
  then show ?thesis
  proof cases
    case 1
    then have "ensure hk needed p = Inr (False, p)" "\<not> fits hk p (needed + pr_offset p + 1)"
      using blk(1) by (simp_all add: ensure_def fits_def)
    then show ?thesis by (intro exI [of _ False] exI [of _ p]) simp
  next
    case 2
    then have "ensure hk needed p = Inr (True, p)" using blk(1) v unfolding ensure_def need_def [symmetric] Let_def by simp
    then show ?thesis using 2(2) blk by (intro exI [of _ True] exI [of _ p]) (simp add: stable_refl need_def)
  next
    case 3
    then have "ensure hk needed p = Inr (False, p)" using blk(1) v unfolding ensure_def need_def [symmetric] Let_def by auto
    moreover have "\<not> fits hk p (needed + pr_offset p + 1)" using 3 by (auto simp: fits_def need_def)
    ultimately show ?thesis by (intro exI [of _ False] exI [of _ p]) simp
  next
    case 4
    define newsize where "newsize = (if need > IMAX div 2 then IMAX else need * 2)"
    define keep where "keep = (if hk_realloc hk then length blk else pr_offset p + 1)"
    have k: "keep \<le> length blk" "pr_offset p \<le> keep" using ok blk 4(3) by (auto simp: keep_def pr_ok_def)
    have n: "need \<le> newsize" "length blk \<le> newsize" using 4 blk(2) by (auto simp: newsize_def)
    have e: "ensure hk needed p = (if \<not> hk_alloc hk newsize then Inr (False, p\<lparr>pr_length := 0, pr_buffer := None\<rparr>)
      else Inr (True, p\<lparr>pr_length := newsize, pr_buffer := Some (take keep blk @ replicate (newsize - keep) None)\<rparr>))"
      using 4 blk(1) v k(1) unfolding ensure_def need_def [symmetric] Let_def newsize_def [symmetric] by (auto simp: keep_def)
    show ?thesis unfolding e
      using k n blk(4) 4(3) by (auto simp: fits_def stable_def need_def min_def)
  qed
qed

lemma emit_spec:
  assumes ok: "pr_ok hk p" and s: "length s \<le> needed + 1" "adv \<le> needed"
  shows "\<exists>r q. emit hk needed s adv p = Inr (r, q) \<and>
    (r \<longrightarrow> (\<exists>blk. pr_buffer q = Some blk \<and> length blk = pr_length q \<and> take (pr_offset p + length s) blk = held p @ block_of s) \<and>
       pr_offset q = pr_offset p + adv \<and> stable p q \<and> needed + pr_offset p + 1 \<le> pr_length q) \<and>
    (fits hk p (needed + pr_offset p + 1) \<longrightarrow> r)"
proof -
  obtain r q where e: "ensure hk needed p = Inr (r, q)" "fits hk p (needed + pr_offset p + 1) \<longrightarrow> r"
    and rq: "r \<longrightarrow> (\<exists>blk. pr_buffer q = Some blk \<and> length blk = pr_length q \<and> take (pr_offset p) blk = held p) \<and>
       pr_offset q = pr_offset p \<and> stable p q \<and> needed + pr_offset p + 1 \<le> pr_length q"
    using ensure_spec [OF ok, of needed] by blast
  show ?thesis
  proof (cases r)
    case False
    then show ?thesis using e by (intro exI [of _ False] exI [of _ q]) (simp add: emit_def)
  next
    case True
    then obtain blk where blk: "pr_buffer q = Some blk" "length blk = pr_length q" "take (pr_offset p) blk = held p"
      and o: "pr_offset q = pr_offset p" "stable p q" "needed + pr_offset p + 1 \<le> pr_length q" using rq by blast
    define blk' where "blk' = take (pr_offset p) blk @ block_of s @ drop (pr_offset p + length s) blk"
    have w: "mem_write blk (pr_offset q) s = Inr blk'" using blk(2) o s(1) by (simp add: mem_write_def blk'_def)
    have h: "length (held p) = pr_offset p" using pr_okD [OF ok] by metis
    have l: "length blk' = length blk" "take (pr_offset p + length s) blk' = held p @ block_of s"
      using blk(2) o(3) s(1) h unfolding blk'_def blk(3) by simp_all
    have "emit hk needed s adv p = Inr (True, q\<lparr>pr_buffer := Some blk', pr_offset := pr_offset q + adv\<rparr>)"
      using e True blk(1) w by (simp add: emit_def put_def)
    then show ?thesis using l blk(2) o
      by (intro exI [of _ True] exI [of _ "q\<lparr>pr_buffer := Some blk', pr_offset := pr_offset q + adv\<rparr>"]) (simp add: stable_def)
  qed
qed

text \<open>The three ways in which the printer uses it.\<close>

lemma emit_added:
  assumes "pr_ok hk p" "length t \<le> needed" "needed + pr_offset p + 1 \<le> n"
  shows "runs hk (added hk t) lim n p (emit hk needed t (length t) p)"
proof -
  obtain r q where e: "emit hk needed t (length t) p = Inr (r, q)"
    and rq: "r \<longrightarrow> (\<exists>blk. pr_buffer q = Some blk \<and> length blk = pr_length q \<and> take (pr_offset p + length t) blk = held p @ block_of t) \<and>
       pr_offset q = pr_offset p + length t \<and> stable p q \<and> needed + pr_offset p + 1 \<le> pr_length q"
    and f: "fits hk p (needed + pr_offset p + 1) \<longrightarrow> r"
    using emit_spec [OF assms(1), of t needed "length t"] assms(2) by auto
  have "added hk t p q" if r using rq that assms(2) by (auto simp: added_def held_def pr_ok_def)
  moreover have "r" if "fits hk p n" using f that assms(3) by (auto simp: fits_def split: if_splits)
  ultimately show ?thesis using e by (auto simp: runs_def)
qed

lemma emit_added_NUL:
  assumes "pr_ok hk p" "length t \<le> needed" "needed + pr_offset p + 1 \<le> n"
  shows "runs hk (added hk t) lim n p (emit hk needed (t @ [NUL]) (length t) p)"
proof -
  obtain r q where e: "emit hk needed (t @ [NUL]) (length t) p = Inr (r, q)"
    and rq: "r \<longrightarrow> (\<exists>blk. pr_buffer q = Some blk \<and> length blk = pr_length q \<and>
         take (pr_offset p + length (t @ [NUL])) blk = held p @ block_of (t @ [NUL])) \<and>
       pr_offset q = pr_offset p + length t \<and> stable p q \<and> needed + pr_offset p + 1 \<le> pr_length q"
    and f: "fits hk p (needed + pr_offset p + 1) \<longrightarrow> r"
    using emit_spec [OF assms(1), of "t @ [NUL]" needed "length t"] assms(2) by auto
  have "added hk t p q" if rt: r
  proof -
    obtain blk where blk: "pr_buffer q = Some blk" "length blk = pr_length q" "take (pr_offset p + length (t @ [NUL])) blk = held p @ block_of (t @ [NUL])"
      using rq rt by blast
    have "length (held p) = pr_offset p" using pr_okD [OF assms(1)] by metis
    then have "take (pr_offset p + length t) blk = held p @ block_of t"
      using arg_cong [OF blk(3), of "take (pr_offset p + length t)"] by (simp add: block_of_append)
    then show ?thesis using rq rt blk assms(2) by (auto simp: added_def held_def pr_ok_def)
  qed
  moreover have "r" if "fits hk p n" using f that assms(3) by (auto simp: fits_def split: if_splits)
  ultimately show ?thesis using e by (auto simp: runs_def)
qed

lemma emit_wrote:
  assumes "pr_ok hk p" "length t \<le> needed" "needed + pr_offset p + 1 \<le> n" "adv \<le> length t"
  shows "runs hk (wrote hk t) lim n p (emit hk needed (t @ [NUL]) adv p)"
proof -
  obtain r q where e: "emit hk needed (t @ [NUL]) adv p = Inr (r, q)"
    and rq: "r \<longrightarrow> (\<exists>blk. pr_buffer q = Some blk \<and> length blk = pr_length q \<and>
         take (pr_offset p + length (t @ [NUL])) blk = held p @ block_of (t @ [NUL])) \<and>
       pr_offset q = pr_offset p + adv \<and> stable p q \<and> needed + pr_offset p + 1 \<le> pr_length q"
    and f: "fits hk p (needed + pr_offset p + 1) \<longrightarrow> r"
    using emit_spec [OF assms(1), of "t @ [NUL]" needed adv] assms(2,4) by auto
  have "wrote hk t p q" if r using rq that assms(2,4) by (auto simp: wrote_def pr_ok_def)
  moreover have "r" if "fits hk p n" using f that assms(3) by (auto simp: fits_def split: if_splits)
  ultimately show ?thesis using e by (auto simp: runs_def)
qed

text \<open>\<open>update_offset\<close> moves behind the text.\<close>

lemma takeWhile_block_of:
  "cstr t \<Longrightarrow> takeWhile (\<lambda>x. x \<noteq> None \<and> x \<noteq> Some NUL) (block_of t @ Some NUL # r) = block_of t"
  by (induction t) (auto simp: block_of_def cstr_def)

lemma update_offset_added:
  assumes w: "wrote hk t p q" and p: "pr_ok hk p" and t: "cstr t"
  shows "\<exists>q'. update_offset q = Inr q' \<and> added hk t p q'"
proof -
  obtain blk where blk: "pr_buffer q = Some blk" "length blk = pr_length q" using w by (auto simp: wrote_def pr_ok_def)
  define k where "k = pr_offset q - pr_offset p"
  have q: "pr_offset q = pr_offset p + k" "k \<le> length t" "pr_offset p + length t < length blk"
    "take (pr_offset p + length t + 1) blk = held p @ block_of (t @ [NUL])" using w blk by (auto simp: wrote_def k_def)
  have h: "length (held p) = pr_offset p" using pr_okD [OF p] by metis
  define rest where "rest = drop (pr_offset p + length t + 1) blk"
  have b: "blk = held p @ block_of (t @ [NUL]) @ rest" using q(4) unfolding rest_def by (metis append_assoc append_take_drop_id)
  have d: "drop (pr_offset q) blk = block_of (drop k t) @ Some NUL # rest"
    using q(2) h unfolding q(1) b by (simp add: block_of_def drop_map)
  have "cstr (drop k t)" using t by (auto simp: cstr_def dest: in_set_dropD)
  then have tw: "length (takeWhile (\<lambda>x. x \<noteq> None \<and> x \<noteq> Some NUL) (drop (pr_offset q) blk)) = length t - k"
    using takeWhile_block_of d by simp
  have e: "pr_offset q + (length t - k) = pr_offset p + length t" using q(1,2) by simp
  have nth: "blk ! (pr_offset p + length t) = Some NUL" using h unfolding b by (simp add: nth_append block_of_def)
  have "strlen_at blk (pr_offset q) = Inr (length t - k)" using q(3) unfolding strlen_at_def tw Let_def e nth by simp
  then have "update_offset q = Inr (q\<lparr>pr_offset := pr_offset p + length t\<rparr>)" using blk(1) e by (simp add: update_offset_def)
  moreover have "take (pr_offset p + length t) blk = held p @ block_of t" using h unfolding b by (simp add: block_of_append)
  ultimately show ?thesis using w blk q(3) by (auto simp: added_def wrote_def stable_def pr_ok_def held_def)
qed

lemma added_trans: "added hk s p q \<Longrightarrow> added hk t q r \<Longrightarrow> added hk (s @ t) p r"
  by (auto simp: added_def stable_def block_of_append)

lemma added_wrote: "added hk s p q \<Longrightarrow> wrote hk t q r \<Longrightarrow> wrote hk (s @ t) p r"
  by (auto simp: added_def wrote_def stable_def block_of_append add.assoc)

text \<open>Sequencing.\<close>

lemma runs_bindT:
  assumes m: "runs hk (added hk s) lim n p m" and f: "\<And>q. added hk s p q \<Longrightarrow> runs hk (R t) lim n q (f q)"
    and R: "\<And>q r. added hk s p q \<Longrightarrow> R t q r \<Longrightarrow> R (s @ t) p r"
  shows "runs hk (R (s @ t)) lim n p (bindT m f)"
proof -
  obtain ok q where q: "m = Inr (ok, q)" "ok \<longrightarrow> added hk s p q" "lim \<and> fits hk p n \<longrightarrow> ok" using m by (auto simp: runs_def)
  show ?thesis
  proof (cases ok)
    case False
    then show ?thesis using q unfolding runs_def by (intro exI [of _ False] exI [of _ q]) (simp add: bindT_def)
  next
    case True
    then have a: "added hk s p q" using q(2) by simp
    then have "fits hk q n = fits hk p n" by (intro fits_stable) (simp add: added_def)
    then show ?thesis using f [OF a] R [OF a] q(1) True by (auto simp: runs_def bindT_def)
  qed
qed

lemma runs_update:
  assumes m: "runs hk (wrote hk s) lim n p m" and p: "pr_ok hk p" and s: "cstr s"
    and f: "\<And>q. added hk s p q \<Longrightarrow> runs hk (R t) lim n q (f q)" and R: "\<And>q r. added hk s p q \<Longrightarrow> R t q r \<Longrightarrow> R (s @ t) p r"
  shows "runs hk (R (s @ t)) lim n p (bindT m (\<lambda>p1. bindR (update_offset p1) f))"
proof -
  obtain ok q where q: "m = Inr (ok, q)" "ok \<longrightarrow> wrote hk s p q" "lim \<and> fits hk p n \<longrightarrow> ok" using m by (auto simp: runs_def)
  show ?thesis
  proof (cases ok)
    case False
    then show ?thesis using q unfolding runs_def by (intro exI [of _ False] exI [of _ q]) (simp add: bindT_def)
  next
    case True
    then obtain q' where u: "update_offset q = Inr q'" and a: "added hk s p q'" using update_offset_added q(2) p s by blast
    then have "fits hk q' n = fits hk p n" by (intro fits_stable) (simp add: added_def)
    then show ?thesis using f [OF a] R [OF a] q(1) True u by (auto simp: runs_def bindT_def)
  qed
qed

section \<open>The text of an item\<close>

definition quoted :: "string option \<Rightarrow> string" where
  "quoted s = (case s of None \<Rightarrow> [CHR 0x22, CHR 0x22] | Some t \<Rightarrow> CHR 0x22 # concat (map escape_text t) @ [CHR 0x22])"

fun join_text :: "bool \<Rightarrow> string list \<Rightarrow> string" where
  "join_text fmt [] = []"
| "join_text fmt (t # ts) = t @ (if ts = [] then [] else '','' @ (if fmt then '' '' else []) @ join_text fmt ts)"

fun members_text :: "bool \<Rightarrow> nat \<Rightarrow> (string option \<times> string) list \<Rightarrow> string" where
  "members_text fmt d [] = []"
| "members_text fmt d ((k, t) # kts) =
     (if fmt then replicate d (CHR 0x09) else []) @ quoted k @ '':'' @ (if fmt then [CHR 0x09] else []) @ t @
     (if kts \<noteq> [] then '','' else []) @ (if fmt then [CHR 0x0A] else []) @ members_text fmt d kts"

text \<open>The reference: what an item is printed as, at the given depth.\<close>

primrec cj_text :: "'d float_ops \<Rightarrow> bool \<Rightarrow> 'd cJSON \<Rightarrow> nat \<Rightarrow> string" where
  "cj_text fo fmt (Item t vi vd vs s cs) =
     (\<lambda>d. case t of
        cJSON_NULL \<Rightarrow> ''null''
      | cJSON_False \<Rightarrow> ''false''
      | cJSON_True \<Rightarrow> ''true''
      | cJSON_Number \<Rightarrow> number_text fo vi vd
      | cJSON_Raw \<Rightarrow> the vs
      | cJSON_String \<Rightarrow> quoted vs
      | cJSON_Array \<Rightarrow> ''['' @ join_text fmt (map (\<lambda>f. f (d + 1)) (map (cj_text fo fmt) cs)) @ '']''
      | cJSON_Object \<Rightarrow> ''{'' @ (if fmt then [CHR 0x0A] else []) @
          members_text fmt (d + 1) (zip (map item_string cs) (map (\<lambda>f. f (d + 1)) (map (cj_text fo fmt) cs))) @
          (if fmt then replicate d (CHR 0x09) else []) @ ''}''
      | cJSON_Invalid \<Rightarrow> [])"

text \<open>Items whose strings are C strings and whose numbers fit the buffer of \<open>print_number\<close>.\<close>

primrec printable :: "'d float_ops \<Rightarrow> 'd cJSON \<Rightarrow> bool" where
  "printable fo (Item t vi vd vs s cs) =
     (t \<noteq> cJSON_Invalid \<and> (t = cJSON_Raw \<longrightarrow> vs \<noteq> None) \<and> list_all cstr (case vs of None \<Rightarrow> [] | Some x \<Rightarrow> [x]) \<and>
      list_all cstr (case s of None \<Rightarrow> [] | Some x \<Rightarrow> [x]) \<and>
      (t = cJSON_Number \<longrightarrow> cstr (number_text fo vi vd) \<and> length (number_text fo vi vd) \<le> 25) \<and>
      list_all id (map (printable fo) cs))"

lemma length_escape_text: "length (escape_text c) = 1 + escape_extra c"
  by (auto simp: escape_text_def escape_extra_def)

lemma escape_text_plain:
  assumes "escape_extra c = 0"
  shows "escape_text c = [c]"
proof -
  have "c \<notin> {CHR 0x22, CHR 0x5C, CHR 0x08, CHR 0x0C, CHR 0x0A, CHR 0x0D, CHR 0x09}" "\<not> of_char c < (32 :: nat)"
    using assms unfolding escape_extra_def by (metis one_neq_zero, metis numeral_neq_zero one_neq_zero)
  then show ?thesis by (simp add: escape_text_def)
qed

lemma length_escaped: "length (concat (map escape_text s)) = length s + sum_list (map escape_extra s)"
  by (induction s) (auto simp: length_escape_text)

lemma escaped_plain: "sum_list (map escape_extra s) = 0 \<Longrightarrow> concat (map escape_text s) = s"
  by (induction s) (auto simp: escape_text_plain)

lemma hex_digit_not_NUL: "n < 16 \<Longrightarrow> hex_digit n \<noteq> NUL"
  by (auto simp: hex_digit_def less_Suc_eq eval_nat_numeral)

lemma cstr_escape_text: "c \<noteq> NUL \<Longrightarrow> cstr (escape_text c)"
proof -
  have "of_char c div 16 < (16 :: nat)" using nat_of_char_less_256 [of c] by linarith
  then have "hex_digit (of_char c div 16) \<noteq> NUL" "hex_digit (of_char c mod 16) \<noteq> NUL" by (intro hex_digit_not_NUL, simp)+
  then show "c \<noteq> NUL \<Longrightarrow> cstr (escape_text c)" by (auto simp: escape_text_def cstr_def)
qed

lemma cstr_quoted: "list_all cstr (case s of None \<Rightarrow> [] | Some x \<Rightarrow> [x]) \<Longrightarrow> cstr (quoted s)"
proof -
  have "cstr t \<Longrightarrow> cstr (concat (map escape_text t))" for t
  proof (induction t)
    case (Cons c t)
    then show ?case using cstr_escape_text [of c] by (auto simp: cstr_def)
  qed simp
  then show "list_all cstr (case s of None \<Rightarrow> [] | Some x \<Rightarrow> [x]) \<Longrightarrow> cstr (quoted s)"
    by (auto simp: quoted_def cstr_def split: option.splits)
qed

lemma print_string_ptr_runs:
  assumes ok: "pr_ok hk p" and n: "pr_offset p + length (quoted s) + 2 \<le> n"
  shows "runs hk (wrote hk (quoted s)) lim n p (print_string_ptr hk s p)"
proof (cases s)
  case None
  then show ?thesis using emit_wrote [OF ok, of "[CHR 0x22, CHR 0x22]" 3 n 0 lim] n by (simp add: print_string_ptr_def quoted_def)
next
  case (Some t)
  define extra where "extra = sum_list (map escape_extra t)"
  define body where "body = concat (map escape_text t)"
  have len: "length body = length t + extra" unfolding body_def extra_def by (rule length_escaped)
  have q: "quoted s = CHR 0x22 # body @ [CHR 0x22]" by (simp add: quoted_def Some body_def)
  have split: "print_string_ptr hk s p = emit hk (length t + extra + 3) (quoted s @ [NUL]) 0 p"
  proof -
    obtain r p1 where e: "ensure hk (length t + extra + 3) p = Inr (r, p1)" and r1: "r \<longrightarrow> (\<exists>blk. pr_buffer p1 = Some blk \<and> length blk = pr_length p1) \<and>
       pr_offset p1 = pr_offset p \<and> length t + extra + 3 + pr_offset p + 1 \<le> pr_length p1"
      using ensure_spec [OF ok, of "length t + extra + 3"] by blast
    show ?thesis
    proof (cases r)
      case False
      then show ?thesis using e Some by (simp add: print_string_ptr_def emit_def extra_def [symmetric])
    next
      case True
      then obtain blk where blk: "pr_buffer p1 = Some blk" "length blk = pr_length p1" and o: "pr_offset p1 = pr_offset p"
        "length t + extra + 3 + pr_offset p + 1 \<le> pr_length p1" using r1 by blast
      show ?thesis
      proof (cases "extra = 0")
        case True
        then have "body = t" using escaped_plain by (simp add: extra_def body_def)
        then show ?thesis using e \<open>r\<close> True Some q by (simp add: print_string_ptr_def emit_def extra_def [symmetric] bindR_assoc put_def)
      next
        case False
        define off where "off = pr_offset p1"
        have w1: "mem_write blk off (CHR 0x22 # body) = Inr (take off blk @ block_of (CHR 0x22 # body) @ drop (off + length (CHR 0x22 # body)) blk)"
          using blk(2) o len by (simp add: mem_write_def off_def)
        have w2: "mem_write (take off blk @ block_of (CHR 0x22 # body) @ drop (off + length (CHR 0x22 # body)) blk) (off + (length t + extra) + 1) [CHR 0x22, NUL] =
          mem_write blk off (quoted s @ [NUL])"
          using blk(2) o len by (simp add: mem_write_def off_def q block_of_def min_def numeral_3_eq_3)
        show ?thesis using e \<open>r\<close> False Some blk w1 w2
          by (simp add: print_string_ptr_def emit_def extra_def [symmetric] body_def [symmetric] put_def off_def [symmetric] bindR_assoc)
      qed
    qed
  qed
  show ?thesis unfolding split using n by (intro emit_wrote [OF ok]) (simp_all add: q len)
qed

section \<open>The printer is correct\<close>

lemma bindT_assoc: "bindT (bindT m f) g = bindT m (\<lambda>p. bindT (f p) g)"
  by (cases m) (auto simp: bindT_def)

lemma added_refl: "pr_ok hk p \<Longrightarrow> added hk [] p p"
  by (simp add: added_def stable_refl block_of_def)

lemma added_facts: "added hk t p q \<Longrightarrow> pr_ok hk q \<and> pr_offset q = pr_offset p + length t \<and> pr_format q = pr_format p \<and> pr_depth q = pr_depth p"
  by (simp add: added_def stable_def)

lemma runs_done: "pr_ok hk p \<Longrightarrow> runs hk (added hk []) lim n p (Inr (True, p))"
  unfolding runs_def by (intro exI [of _ True] exI [of _ p]) (simp add: added_refl)

text \<open>A printer of one value, at a depth and in a format.\<close>

definition prints :: "hooks \<Rightarrow> bool \<Rightarrow> nat \<Rightarrow> nat \<Rightarrow> bool \<Rightarrow> string \<Rightarrow> (printbuffer \<Rightarrow> printed) \<Rightarrow> bool" where
  "prints hk lim n d fmt t pv \<longleftrightarrow> cstr t \<and>
     (\<forall>p. pr_ok hk p \<longrightarrow> pr_format p = fmt \<longrightarrow> pr_depth p = d \<longrightarrow> pr_offset p + length t + 2 \<le> n \<longrightarrow> runs hk (wrote hk t) lim n p (pv p))"

lemma print_elements_runs:
  assumes "list_all2 (prints hk lim n d fmt) ts pvs" "pr_ok hk p" "pr_format p = fmt" "pr_depth p = d"
    "pr_offset p + length (join_text fmt ts) + 2 \<le> n"
  shows "runs hk (added hk (join_text fmt ts)) lim n p (print_elements hk pvs p)"
  using assms
proof (induction pvs arbitrary: ts p rule: list.induct)
  case Nil
  have "ts = []" using Nil(1) by simp
  then show ?case using Nil(2) by (simp add: runs_done)
next
  case (Cons pv pvs)
  then obtain t ts' where ts: "ts = t # ts'" "prints hk lim n d fmt t pv" "list_all2 (prints hk lim n d fmt) ts' pvs"
    by (auto simp: list_all2_Cons2)
  have e: "(ts' = []) = (pvs = [])" using ts(3) by auto
  define sep where "sep = (if pvs = [] then [] else '','' @ (if fmt then '' '' else []))"
  define f where "f = (\<lambda>p2. if pvs = [] then Inr (True, p2)
       else let len = (if pr_format p2 then 2 else 1) in
            bindT (emit hk (len + 1) ('','' @ (if pr_format p2 then '' '' else []) @ [NUL]) len p2) (print_elements hk pvs))"
  have j: "join_text fmt ts = t @ sep @ join_text fmt ts'" using e by (cases "pvs = []") (simp_all add: ts(1) sep_def)
  have "runs hk (added hk (sep @ join_text fmt ts')) lim n q (f q)" if q: "added hk t p q" for q
  proof (cases "pvs = []")
    case True
    then show ?thesis using added_facts [OF q] e by (simp add: f_def sep_def runs_done)
  next
    case False
    have qf: "pr_format q = fmt" "pr_ok hk q" "pr_depth q = d" "pr_offset q = pr_offset p + length t" using added_facts [OF q] Cons.prems(3,4) by auto
    have fq: "f q = bindT (emit hk (length sep + 1) (sep @ [NUL]) (length sep) q) (print_elements hk pvs)"
      using False qf(1) by (simp add: f_def sep_def eval_nat_numeral)
    show ?thesis unfolding fq
    proof (rule runs_bindT)
      show "runs hk (added hk sep) lim n q (emit hk (length sep + 1) (sep @ [NUL]) (length sep) q)"
        using Cons.prems(5) qf(4) by (intro emit_added_NUL [OF qf(2)]) (simp_all add: j)
      fix q' assume q': "added hk sep q q'"
      show "runs hk (added hk (join_text fmt ts')) lim n q' (print_elements hk pvs q')"
        using added_facts [OF q'] qf Cons.prems(5) by (intro Cons.IH [OF ts(3)]) (auto simp: j)
    qed (rule added_trans)
  qed
  note fq = this
  have m: "runs hk (wrote hk t) lim n p (pv p)" "cstr t" using ts(2) Cons.prems(2-5) by (simp_all add: prints_def j)
  have "runs hk (added hk (t @ sep @ join_text fmt ts')) lim n p (bindT (pv p) (\<lambda>p1. bindR (update_offset p1) f))"
  proof (rule runs_update [OF m(1) Cons.prems(2) m(2)])
    fix q assume "added hk t p q"
    then show "runs hk (added hk (sep @ join_text fmt ts')) lim n q (f q)" by (rule fq)
  qed (rule added_trans)
  then show ?case by (simp add: j f_def)
qed

text \<open>The brackets change the depth.\<close>

lemma added_depth: "added hk t p q \<Longrightarrow> added hk t (p\<lparr>pr_depth := d\<rparr>) (q\<lparr>pr_depth := d\<rparr>)"
  by (auto simp: added_def stable_def pr_ok_def held_def)

lemma wrote_depth: "wrote hk t p q \<Longrightarrow> wrote hk t (p\<lparr>pr_depth := d\<rparr>) (q\<lparr>pr_depth := d\<rparr>)"
  by (auto simp: wrote_def stable_def pr_ok_def held_def)

lemma runs_deeper:
  assumes m: "runs hk (added hk s) lim n p m"
    and f: "\<And>q. added hk s (p\<lparr>pr_depth := pr_depth p + 1\<rparr>) q \<Longrightarrow> runs hk (wrote hk t) lim n q (f q)"
  shows "runs hk (wrote hk (s @ t)) lim n p
    (bindT m (\<lambda>p1. bindT (f (p1\<lparr>pr_depth := pr_depth p1 + 1\<rparr>)) (\<lambda>p3. Inr (True, p3\<lparr>pr_depth := pr_depth p3 - 1\<rparr>))))"
proof -
  obtain ok q where q: "m = Inr (ok, q)" "ok \<longrightarrow> added hk s p q" "lim \<and> fits hk p n \<longrightarrow> ok" using m by (auto simp: runs_def)
  show ?thesis
  proof (cases ok)
    case False
    then show ?thesis using q unfolding runs_def by (intro exI [of _ False] exI [of _ q]) (simp add: bindT_def)
  next
    case True
    then have a0: "added hk s p q" using q(2) by simp
    then have d: "pr_depth q = pr_depth p" "stable p q" by (simp_all add: added_def stable_def)
    define q1 where "q1 = q\<lparr>pr_depth := pr_depth p + 1\<rparr>"
    have a: "added hk s (p\<lparr>pr_depth := pr_depth p + 1\<rparr>) q1" unfolding q1_def by (rule added_depth [OF a0])
    obtain ok2 r where r: "f q1 = Inr (ok2, r)" "ok2 \<longrightarrow> wrote hk t q1 r" "lim \<and> fits hk q1 n \<longrightarrow> ok2"
      using f [OF a] by (auto simp: runs_def)
    have "fits hk q1 n = fits hk q n" by (simp add: fits_def q1_def)
    then have fit: "fits hk q1 n = fits hk p n" using fits_stable [OF d(2)] by simp
    have "wrote hk (s @ t) p (r\<lparr>pr_depth := pr_depth r - 1\<rparr>)" if ok2
    proof -
      have w: "wrote hk (s @ t) (p\<lparr>pr_depth := pr_depth p + 1\<rparr>) r" using added_wrote [OF a] r(2) that by simp
      then have "pr_depth r = pr_depth p + 1" by (simp add: wrote_def stable_def)
      then show ?thesis using wrote_depth [OF w, of "pr_depth p"] by simp
    qed
    then show ?thesis using q(1) True r fit d(1) by (auto simp: runs_def bindT_def q1_def)
  qed
qed

lemma print_array_runs:
  assumes items: "lim \<Longrightarrow> pr_depth p < CJSON_NESTING_LIMIT" "list_all2 (prints hk lim n (pr_depth p + 1) (pr_format p)) ts pvs"
    and ok: "pr_ok hk p" and n: "pr_offset p + length (''['' @ join_text (pr_format p) ts @ '']'') + 2 \<le> n"
  shows "runs hk (wrote hk (''['' @ join_text (pr_format p) ts @ '']'')) lim n p (print_array hk pvs p)"
proof (cases "pr_depth p \<ge> CJSON_NESTING_LIMIT")
  case True
  then show ?thesis using items(1) by (auto simp: print_array_def runs_def)
next
  case False
  have "print_array hk pvs p = bindT (emit hk 1 ''['' 1 p) (\<lambda>p1.
    bindT (bindT (print_elements hk pvs (p1\<lparr>pr_depth := pr_depth p1 + 1\<rparr>)) (emit hk 2 ('']'' @ [NUL]) 0))
      (\<lambda>p3. Inr (True, p3\<lparr>pr_depth := pr_depth p3 - 1\<rparr>)))"
    using False by (simp add: print_array_def bindT_assoc)
  moreover have "runs hk (wrote hk (''['' @ join_text (pr_format p) ts @ '']'')) lim n p \<dots>"
  proof (rule runs_deeper)
    show "runs hk (added hk ''['') lim n p (emit hk 1 ''['' 1 p)" using emit_added [OF ok, of "''[''" 1 n lim] n by simp
    fix q assume q: "added hk ''['' (p\<lparr>pr_depth := pr_depth p + 1\<rparr>) q"
    have qf: "pr_ok hk q" "pr_offset q = pr_offset p + 1" "pr_format q = pr_format p" "pr_depth q = pr_depth p + 1" using added_facts [OF q] by auto
    show "runs hk (wrote hk (join_text (pr_format p) ts @ '']'')) lim n q (bindT (print_elements hk pvs q) (emit hk 2 ('']'' @ [NUL]) 0))"
    proof (rule runs_bindT)
      show "runs hk (added hk (join_text (pr_format p) ts)) lim n q (print_elements hk pvs q)"
        using qf n by (intro print_elements_runs [OF items(2)]) auto
      fix q' assume q': "added hk (join_text (pr_format p) ts) q q'"
      show "runs hk (wrote hk '']'') lim n q' (emit hk 2 ('']'' @ [NUL]) 0 q')"
        using added_facts [OF q'] qf(2) n by (intro emit_wrote) auto
    qed (rule added_wrote)
  qed
  ultimately show ?thesis by simp
qed

lemma print_members_runs:
  assumes "list_all2 (\<lambda>(k, t) (k', pv). k = k' \<and> cstr (quoted k) \<and> prints hk lim n d fmt t pv) kts kvs" "pr_ok hk p" "pr_format p = fmt" "pr_depth p = d"
    "pr_offset p + length (members_text fmt d kts) + 2 \<le> n"
  shows "runs hk (added hk (members_text fmt d kts)) lim n p (print_members hk kvs p)"
  using assms
proof (induction kvs arbitrary: kts p rule: list.induct)
  case Nil
  have "kts = []" using Nil(1) by simp
  then show ?case using Nil(2) by (simp add: runs_done)
next
  case (Cons kv kvs)
  obtain k pv where kv: "kv = (k, pv)" by (cases kv)
  then obtain t kts' where ts: "kts = (k, t) # kts'" "cstr (quoted k)" "prints hk lim n d fmt t pv"
    "list_all2 (\<lambda>(k, t) (k', pv). k = k' \<and> cstr (quoted k) \<and> prints hk lim n d fmt t pv) kts' kvs"
    using Cons.prems(1) by (auto simp: list_all2_Cons2)
  have e: "(kts' = []) = (kvs = [])" using ts(4) by auto
  define indent where "indent = (if fmt then replicate d (CHR 0x09) else [])"
  define colon where "colon = '':'' @ (if fmt then [CHR 0x09] else [])"
  define sep where "sep = (if kvs \<noteq> [] then '','' else []) @ (if fmt then [CHR 0x0A] else [])"
  have whole: "members_text fmt d kts = indent @ quoted k @ colon @ t @ sep @ members_text fmt d kts'"
    by (simp add: ts(1) indent_def colon_def sep_def e)
  note n = Cons.prems(5) [unfolded whole]
  define f6 where "f6 = (\<lambda>p6. let sep = (if kvs \<noteq> [] then '','' else []) @ (if pr_format p6 then [CHR 0x0A] else []) in
     bindT (emit hk (length sep + 1) (sep @ [NUL]) (length sep) p6) (print_members hk kvs))"
  define f3 where "f3 = (\<lambda>p3. let len = (if pr_format p3 then 2 else 1) in
     bindT (emit hk len ('':'' @ (if pr_format p3 then [CHR 0x09] else [])) len p3) (\<lambda>p4. bindT (pv p4) (\<lambda>p5. bindR (update_offset p5) f6)))"
  have r6: "runs hk (added hk (sep @ members_text fmt d kts')) lim n q (f6 q)"
    if q: "pr_ok hk q" "pr_format q = fmt" "pr_depth q = d" "pr_offset q = pr_offset p + length (indent @ quoted k @ colon @ t)" for q
  proof -
    have fq: "f6 q = bindT (emit hk (length sep + 1) (sep @ [NUL]) (length sep) q) (print_members hk kvs)" using q(2) by (simp add: f6_def sep_def)
    show ?thesis unfolding fq
    proof (rule runs_bindT)
      show "runs hk (added hk sep) lim n q (emit hk (length sep + 1) (sep @ [NUL]) (length sep) q)"
        using n q(4) by (intro emit_added_NUL [OF q(1)]) simp_all
      fix q' assume q': "added hk sep q q'"
      show "runs hk (added hk (members_text fmt d kts')) lim n q' (print_members hk kvs q')"
        using added_facts [OF q'] q n by (intro Cons.IH [OF ts(4)]) auto
    qed (rule added_trans)
  qed
  have r3: "runs hk (added hk (colon @ t @ sep @ members_text fmt d kts')) lim n q (f3 q)"
    if q: "pr_ok hk q" "pr_format q = fmt" "pr_depth q = d" "pr_offset q = pr_offset p + length (indent @ quoted k)" for q
  proof -
    have fq: "f3 q = bindT (emit hk (length colon) colon (length colon) q) (\<lambda>p4. bindT (pv p4) (\<lambda>p5. bindR (update_offset p5) f6))"
      using q(2) by (simp add: f3_def colon_def eval_nat_numeral)
    show ?thesis unfolding fq
    proof (rule runs_bindT)
      show "runs hk (added hk colon) lim n q (emit hk (length colon) colon (length colon) q)"
        using n q(4) by (intro emit_added [OF q(1)]) simp_all
      fix q' assume q': "added hk colon q q'"
      have qf: "pr_ok hk q'" "pr_format q' = fmt" "pr_depth q' = d" "pr_offset q' = pr_offset p + length (indent @ quoted k @ colon)"
        using added_facts [OF q'] q by auto
      have "runs hk (wrote hk t) lim n q' (pv q')" using ts(3) qf n by (simp add: prints_def)
      then show "runs hk (added hk (t @ sep @ members_text fmt d kts')) lim n q' (bindT (pv q') (\<lambda>p5. bindR (update_offset p5) f6))"
      proof (rule runs_update [OF _ qf(1)])
        show "cstr t" using ts(3) by (simp add: prints_def)
        fix q2 assume q2: "added hk t q' q2"
        show "runs hk (added hk (sep @ members_text fmt d kts')) lim n q2 (f6 q2)" using added_facts [OF q2] qf by (intro r6) auto
      qed (rule added_trans)
    qed (rule added_trans)
  qed
  have "runs hk (added hk (indent @ quoted k @ colon @ t @ sep @ members_text fmt d kts')) lim n p
    (bindT (if fmt then emit hk d indent d p else Inr (True, p)) (\<lambda>p1. bindT (print_string_ptr hk k p1) (\<lambda>p2. bindR (update_offset p2) f3)))"
  proof (rule runs_bindT)
    show "runs hk (added hk indent) lim n p (if fmt then emit hk d indent d p else Inr (True, p))"
      using emit_added [OF Cons.prems(2), of indent d n lim] n Cons.prems(2) by (auto simp: indent_def runs_done)
    fix q assume q: "added hk indent p q"
    have qf: "pr_ok hk q" "pr_format q = fmt" "pr_depth q = d" "pr_offset q = pr_offset p + length indent"
      using added_facts [OF q] Cons.prems(3,4) by auto
    have "runs hk (wrote hk (quoted k)) lim n q (print_string_ptr hk k q)" using n qf(4) by (intro print_string_ptr_runs [OF qf(1)]) simp
    then show "runs hk (added hk (quoted k @ colon @ t @ sep @ members_text fmt d kts')) lim n q
        (bindT (print_string_ptr hk k q) (\<lambda>p2. bindR (update_offset p2) f3))"
    proof (rule runs_update [OF _ qf(1) ts(2)])
      fix q2 assume q2: "added hk (quoted k) q q2"
      show "runs hk (added hk (colon @ t @ sep @ members_text fmt d kts')) lim n q2 (f3 q2)" using added_facts [OF q2] qf by (intro r3) auto
    qed (rule added_trans)
  qed (rule added_trans)
  moreover have "print_members hk (kv # kvs) p =
    bindT (if fmt then emit hk d indent d p else Inr (True, p)) (\<lambda>p1. bindT (print_string_ptr hk k p1) (\<lambda>p2. bindR (update_offset p2) f3))"
    unfolding kv print_members.simps f3_def f6_def Cons.prems(3,4) indent_def by (cases fmt) simp_all
  ultimately show ?case by (simp add: whole)
qed

lemma print_object_runs:
  assumes items: "lim \<Longrightarrow> pr_depth p < CJSON_NESTING_LIMIT"
      "list_all2 (\<lambda>(k, t) (k', pv). k = k' \<and> cstr (quoted k) \<and> prints hk lim n (pr_depth p + 1) (pr_format p) t pv) kts kvs"
    and ok: "pr_ok hk p"
    and n: "pr_offset p + length (''{'' @ (if pr_format p then [CHR 0x0A] else []) @ members_text (pr_format p) (pr_depth p + 1) kts @
      (if pr_format p then replicate (pr_depth p) (CHR 0x09) else []) @ ''}'') + 2 \<le> n"
  shows "runs hk (wrote hk (''{'' @ (if pr_format p then [CHR 0x0A] else []) @ members_text (pr_format p) (pr_depth p + 1) kts @
      (if pr_format p then replicate (pr_depth p) (CHR 0x09) else []) @ ''}'')) lim n p (print_object hk kvs p)"
proof (cases "pr_depth p \<ge> CJSON_NESTING_LIMIT")
  case True
  then show ?thesis using items(1) by (auto simp: print_object_def runs_def)
next
  case False
  define opn where "opn = ''{'' @ (if pr_format p then [CHR 0x0A] else [])"
  define body where "body = members_text (pr_format p) (pr_depth p + 1) kts"
  define cls where "cls = (if pr_format p then replicate (pr_depth p) (CHR 0x09) else []) @ ''}''"
  define fin where "fin = (\<lambda>p2. emit hk (if pr_format p2 then pr_depth p2 + 1 else 2)
    ((if pr_format p2 then replicate (pr_depth p2 - 1) (CHR 0x09) else []) @ ''}'' @ [NUL]) 0 p2)"
  have n': "pr_offset p + length (opn @ body @ cls) + 2 \<le> n" using n by (simp add: opn_def body_def cls_def)
  have e: "print_object hk kvs p = bindT (emit hk (length opn + 1) opn (length opn) p) (\<lambda>p1.
    bindT (bindT (print_members hk kvs (p1\<lparr>pr_depth := pr_depth p1 + 1\<rparr>)) fin)
      (\<lambda>p3. Inr (True, p3\<lparr>pr_depth := pr_depth p3 - 1\<rparr>)))"
    using False by (simp add: print_object_def bindT_assoc opn_def fin_def eval_nat_numeral)
  have "runs hk (wrote hk (opn @ body @ cls)) lim n p (print_object hk kvs p)" unfolding e
  proof (rule runs_deeper)
    show "runs hk (added hk opn) lim n p (emit hk (length opn + 1) opn (length opn) p)"
      using n' by (intro emit_added [OF ok]) (simp_all add: cls_def)
    fix q assume q: "added hk opn (p\<lparr>pr_depth := pr_depth p + 1\<rparr>) q"
    have qf: "pr_ok hk q" "pr_offset q = pr_offset p + length opn" "pr_format q = pr_format p" "pr_depth q = pr_depth p + 1" using added_facts [OF q] by auto
    show "runs hk (wrote hk (body @ cls)) lim n q (bindT (print_members hk kvs q) fin)"
    proof (rule runs_bindT)
      show "runs hk (added hk body) lim n q (print_members hk kvs q)"
        unfolding body_def using qf n' by (intro print_members_runs [OF items(2)]) (auto simp: body_def)
      fix q' assume q': "added hk body q q'"
      have qf': "pr_ok hk q'" "pr_format q' = pr_format p" "pr_depth q' = pr_depth p + 1" "pr_offset q' = pr_offset p + length (opn @ body)"
        using added_facts [OF q'] qf by auto
      have f: "fin q' = emit hk (if pr_format p then pr_depth p + 2 else 2) (cls @ [NUL]) 0 q'" using qf'(2,3) by (simp add: fin_def cls_def)
      have l: "length cls = (if pr_format p then pr_depth p + 1 else 1)" by (simp add: cls_def)
      show "runs hk (wrote hk cls) lim n q' (fin q')" unfolding f using qf'(4) n' l by (intro emit_wrote [OF qf'(1)]) auto
    qed (rule added_wrote)
  qed
  then show ?thesis by (simp add: opn_def body_def cls_def)
qed

lemma cstr_append: "cstr (s @ t) \<longleftrightarrow> cstr s \<and> cstr t"
  and cstr_Cons: "cstr (c # t) \<longleftrightarrow> c \<noteq> NUL \<and> cstr t"
  and cstr_replicate: "c \<noteq> NUL \<Longrightarrow> cstr (replicate k c)"
  by (auto simp: cstr_def)

lemma cstr_join: "list_all cstr ts \<Longrightarrow> cstr (join_text fmt ts)"
  by (induction ts) (auto simp: cstr_append cstr_Cons)

lemma cstr_members: "list_all (\<lambda>(k, t). cstr (quoted k) \<and> cstr t) kts \<Longrightarrow> cstr (members_text fmt d kts)"
  by (induction kts) (auto simp: cstr_append cstr_Cons cstr_replicate)

lemma printable_children: "printable fo (Item t vi vd vs s cs) \<Longrightarrow> c \<in> set cs \<Longrightarrow> printable fo c"
  by (auto simp: list_all_iff)

lemma printable_string: "printable fo c \<Longrightarrow> cstr (quoted (item_string c))"
  by (cases c) (auto intro: cstr_quoted)

lemma cj_text_cstr: "printable fo it \<Longrightarrow> cstr (cj_text fo fmt it d)"
proof (induction it arbitrary: d)
  case (Item t vi vd vs s cs)
  have ch: "cstr (cj_text fo fmt c (d + 1))" "cstr (quoted (item_string c))" if "c \<in> set cs" for c
    using Item.IH [OF that] printable_children [OF Item.prems that] printable_string by blast+
  have "list_all cstr (map (\<lambda>c. cj_text fo fmt c (d + 1)) cs)" using ch(1) by (auto simp: list_all_iff)
  then have a: "cstr (join_text fmt (map (\<lambda>f. f (d + 1)) (map (cj_text fo fmt) cs)))" by (intro cstr_join) (simp add: comp_def)
  have "list_all (\<lambda>(k, t). cstr (quoted k) \<and> cstr t) (zip (map item_string cs) (map (\<lambda>c. cj_text fo fmt c (d + 1)) cs))"
    using ch by (auto simp: list_all_iff zip_map_map zip_same_conv_map)
  then have o: "cstr (members_text fmt (d + 1) (zip (map item_string cs) (map (\<lambda>f. f (d + 1)) (map (cj_text fo fmt) cs))))"
    by (intro cstr_members) (simp add: comp_def)
  have q: "cstr (quoted vs)" using Item.prems by (auto intro: cstr_quoted)
  show ?case using a o q Item.prems
    by (auto simp: cstr_append cstr_Cons cstr_replicate split: cJSON_type.splits option.splits)
qed

lemma print_value_prints:
  "printable fo it \<Longrightarrow> (lim \<Longrightarrow> cj_height it + d \<le> CJSON_NESTING_LIMIT) \<Longrightarrow>
     prints hk lim n d fmt (cj_text fo fmt it d) (print_value fo hk it)"
proof (induction it arbitrary: d)
  case (Item t vi vd vs s cs)
  note pr = Item.prems(1) and hgt = Item.prems(2)
  show ?case unfolding prints_def
  proof (intro conjI allI impI)
    show "cstr (cj_text fo fmt (Item t vi vd vs s cs) d)" by (rule cj_text_cstr [OF pr])
    fix p assume ok: "pr_ok hk p" and p: "pr_format p = fmt" "pr_depth p = d"
      and n: "pr_offset p + length (cj_text fo fmt (Item t vi vd vs s cs) d) + 2 \<le> n"
    have ch: "prints hk lim n (d + 1) fmt (cj_text fo fmt c (d + 1)) (print_value fo hk c) \<and> cstr (quoted (item_string c))"
      if c: "c \<in> set cs" "t = cJSON_Array \<or> t = cJSON_Object" for c
    proof -
      have "cj_height c + (d + 1) \<le> CJSON_NESTING_LIMIT" if lim
      proof -
        have "foldr max (map cj_height cs) 0 \<le> CJSON_NESTING_LIMIT - (d + 1) \<and> d + 1 \<le> CJSON_NESTING_LIMIT" using hgt [OF that] c(2) by auto
        then show ?thesis using c(1) by (auto simp: foldr_max_le)
      qed
      then show ?thesis using Item.IH [OF c(1) printable_children [OF pr c(1)]] printable_string printable_children [OF pr c(1)] by blast
    qed
    have lt: "d < CJSON_NESTING_LIMIT" if lim "t = cJSON_Array \<or> t = cJSON_Object" using hgt [OF that(1)] that(2) by auto
    show "runs hk (wrote hk (cj_text fo fmt (Item t vi vd vs s cs) d)) lim n p (print_value fo hk (Item t vi vd vs s cs) p)"
    proof (cases t)
      case cJSON_Array
      have "list_all2 (prints hk lim n (d + 1) fmt) (map (\<lambda>f. f (d + 1)) (map (cj_text fo fmt) cs)) (map (print_value fo hk) cs)"
        using ch cJSON_Array by (simp add: list_all2_map1 list_all2_map2 list_all2_same)
      from print_array_runs [OF _ this [folded p] ok] show ?thesis using lt n p cJSON_Array by simp
    next
      case cJSON_Object
      have "list_all2 (\<lambda>(k, t) (k', pv). k = k' \<and> cstr (quoted k) \<and> prints hk lim n (d + 1) fmt t pv)
        (zip (map item_string cs) (map (\<lambda>f. f (d + 1)) (map (cj_text fo fmt) cs))) (zip (map item_string cs) (map (print_value fo hk) cs))"
        using ch cJSON_Object by (simp add: zip_map_map zip_same_conv_map list_all2_map1 list_all2_map2 list_all2_same)
      from print_object_runs [OF _ this [folded p] ok] show ?thesis using lt n p cJSON_Object by (cases fmt) simp_all
    next
      case cJSON_Number
      then show ?thesis using pr n by (auto simp: print_number_def Let_def intro!: emit_wrote [OF ok])
    next
      case cJSON_String
      then show ?thesis using n by (auto intro!: print_string_ptr_runs [OF ok])
    next
      case cJSON_Raw
      then show ?thesis using pr n by (auto intro!: emit_wrote [OF ok])
    next
      case cJSON_NULL
      then show ?thesis using n emit_wrote [OF ok, of "''null''" 5 n 0 lim] by simp
    next
      case cJSON_False
      then show ?thesis using n emit_wrote [OF ok, of "''false''" 6 n 0 lim] by simp
    next
      case cJSON_True
      then show ?thesis using n emit_wrote [OF ok, of "''true''" 5 n 0 lim] by simp
    next
      case cJSON_Invalid
      then show ?thesis using pr by simp
    qed
  qed
qed

lemma pr_ok_start: "0 < k \<or> hk_realloc hk \<or> na \<Longrightarrow>
  pr_ok hk \<lparr>pr_buffer = Some (replicate k None), pr_length = k, pr_offset = 0, pr_depth = 0, pr_noalloc = na, pr_format = fmt\<rparr>"
  by (auto simp: pr_ok_def)

lemma print_item_spec:
  assumes "printable fo it"
  shows "\<exists>r. print_item fo hk fmt it = Inr r \<and> (\<forall>blk. r = Some blk \<longrightarrow> blk = block_of (cj_text fo fmt it 0 @ [NUL])) \<and>
    ((\<forall>m. hk_alloc hk m) \<and> cj_height it \<le> CJSON_NESTING_LIMIT \<and> length (cj_text fo fmt it 0) + 2 \<le> IMAX \<longrightarrow> r \<noteq> None)"
proof (cases "hk_alloc hk 256")
  case False
  then show ?thesis by (auto simp: print_item_def)
next
  case True
  define tx where "tx = cj_text fo fmt it 0"
  define p where "p = \<lparr>pr_buffer = Some (replicate 256 None), pr_length = 256, pr_offset = 0, pr_depth = 0, pr_noalloc = False, pr_format = fmt\<rparr>"
  have ok: "pr_ok hk p" unfolding p_def by (rule pr_ok_start) simp
  have "runs hk (wrote hk tx) (cj_height it \<le> CJSON_NESTING_LIMIT) (length tx + 2) p (print_value fo hk it p)"
    using print_value_prints [OF assms, of "cj_height it \<le> CJSON_NESTING_LIMIT" 0 hk "length tx + 2" fmt] ok
    by (simp add: prints_def tx_def p_def)
  then obtain r q where r: "print_value fo hk it p = Inr (r, q)" "r \<longrightarrow> wrote hk tx p q"
    "cj_height it \<le> CJSON_NESTING_LIMIT \<and> fits hk p (length tx + 2) \<longrightarrow> r" by (auto simp: runs_def)
  have fits: "fits hk p (length tx + 2) \<longleftrightarrow> length tx + 2 \<le> IMAX \<and> (\<forall>m. hk_alloc hk m)" by (simp add: fits_def p_def)
  show ?thesis
  proof (cases r)
    case False
    then show ?thesis using True r(1,3) fits unfolding print_item_def p_def [symmetric] tx_def [symmetric] by auto
  next
    case rt: True
    obtain q' where u: "update_offset q = Inr q'" and a: "added hk tx p q'"
      using update_offset_added [OF _ ok] r(2) rt cj_text_cstr [OF assms] unfolding tx_def by blast
    obtain blk where blk: "pr_buffer q' = Some blk" "length blk = pr_length q'" "take (length tx) blk = block_of tx" "pr_offset q' = length tx"
      using a by (auto simp: added_def pr_ok_def held_def p_def)
    have w: "take (length tx + 1) (the (pr_buffer q)) = block_of (tx @ [NUL])" "pr_offset q \<le> length tx" "length tx < pr_length q"
      using r(2) rt by (auto simp: wrote_def p_def held_def)
    have b: "pr_buffer q' = pr_buffer q" "pr_length q' = pr_length q" using u by (auto simp: update_offset_def bindR_Inr_iff split: option.splits)
    have "print_item fo hk fmt it = Inr (if hk_alloc hk (length tx + 1) then Some (block_of (tx @ [NUL])) else None)"
      using True r(1) rt u blk w b unfolding print_item_def p_def [symmetric]
      by (auto simp: block_of_append min_def) (simp_all add: block_of_def)
    then show ?thesis unfolding tx_def [symmetric] by auto
  qed
qed

text \<open>
  C14. Printing an item whose strings are C strings and whose numbers fit the local buffer never writes outside the buffer,
  however often it is replaced, and never reads a byte that was not written.  What it returns is exactly the text of the item with
  its terminator; it returns it when memory is available, the text is shorter than an \<open>int\<close> allows and at most 1000
  arrays and objects are nested.
\<close>

theorem cJSON_Print_correct:
  assumes "printable fo it" "(f, fmt) \<in> {(cJSON_Print, True), (cJSON_PrintUnformatted, False)}"
  shows "\<exists>r. f fo hk it = Inr r \<and> (\<forall>blk. r = Some blk \<longrightarrow> blk = block_of (cj_text fo fmt it 0 @ [NUL])) \<and>
    ((\<forall>m. hk_alloc hk m) \<and> cj_height it \<le> CJSON_NESTING_LIMIT \<and> length (cj_text fo fmt it 0) + 2 \<le> IMAX \<longrightarrow> r \<noteq> None)"
  using print_item_spec [OF assms(1), of hk fmt] assms(2) by (auto simp: cJSON_Print_def cJSON_PrintUnformatted_def)

definition sample_item :: "int cJSON" where
  "sample_item = Item cJSON_Array 0 0 None None [Item cJSON_True 1 0 None None [], Item cJSON_Number 7 7 None None []]"

definition sample_hooks :: hooks where
  "sample_hooks = \<lparr>hk_alloc = (\<lambda>_. True), hk_realloc = True\<rparr>"

lemma sample_number: "number_text int_ops 7 7 = ''7''"
  by (simp add: number_text_def int_ops_def int_str_def nat_str.simps digit_char_def char_of_eq_iff)

lemma sample_printable: "printable int_ops sample_item" "cj_height sample_item \<le> CJSON_NESTING_LIMIT"
  "cj_text int_ops False sample_item 0 = ''[true,7]''"
  by (simp_all add: sample_item_def sample_number cstr_def)

theorem cJSON_Print_correct_witness:
  "cJSON_PrintUnformatted int_ops sample_hooks sample_item = Inr (Some (block_of (''[true,7]'' @ [NUL])))"
proof -
  have "\<exists>r. cJSON_PrintUnformatted int_ops sample_hooks sample_item = Inr r \<and> (\<forall>blk. r = Some blk \<longrightarrow> blk = block_of (''[true,7]'' @ [NUL])) \<and> r \<noteq> None"
    using cJSON_Print_correct [OF sample_printable(1), of cJSON_PrintUnformatted False sample_hooks] sample_printable(2,3)
    by (auto simp: sample_hooks_def)
  then show ?thesis by auto
qed

text \<open>
  C15. Printing into the caller's buffer never writes outside of it, whatever its size.  It reports success
  only when the buffer holds the whole text with its terminator, and does so as soon as there is one byte more than that.
\<close>

theorem cJSON_PrintPreallocated_correct:
  assumes "printable fo it" "length blk \<le> IMAX"
  shows "\<exists>ok blk'. cJSON_PrintPreallocated fo hk (Some blk) fmt it = Inr (ok, blk') \<and>
    (ok \<longrightarrow> (\<exists>b. blk' = Some b \<and> length b = length blk \<and>
               take (length (cj_text fo fmt it 0) + 1) b = block_of (cj_text fo fmt it 0 @ [NUL]))) \<and>
    (length (cj_text fo fmt it 0) + 2 \<le> length blk \<and> cj_height it \<le> CJSON_NESTING_LIMIT \<longrightarrow> ok)"
proof -
  define tx where "tx = cj_text fo fmt it 0"
  define p where "p = \<lparr>pr_buffer = Some blk, pr_length = length blk, pr_offset = 0, pr_depth = 0, pr_noalloc = True, pr_format = fmt\<rparr>"
  have ok: "pr_ok hk p" by (auto simp: pr_ok_def p_def)
  have "runs hk (wrote hk tx) (cj_height it \<le> CJSON_NESTING_LIMIT) (length tx + 2) p (print_value fo hk it p)"
    using print_value_prints [OF assms(1), of "cj_height it \<le> CJSON_NESTING_LIMIT" 0 hk "length tx + 2" fmt] ok
    by (simp add: prints_def tx_def p_def)
  then obtain r q where r: "print_value fo hk it p = Inr (r, q)" "r \<longrightarrow> wrote hk tx p q"
    "cj_height it \<le> CJSON_NESTING_LIMIT \<and> fits hk p (length tx + 2) \<longrightarrow> r" by (auto simp: runs_def)
  have fits: "fits hk p (length tx + 2) \<longleftrightarrow> length tx + 2 \<le> length blk" using assms(2) by (auto simp: fits_def p_def)
  have "\<exists>b. pr_buffer q = Some b \<and> length b = length blk \<and> take (length tx + 1) b = block_of (tx @ [NUL])" if r
    using r(2) that by (auto simp: wrote_def pr_ok_def stable_def p_def held_def)
  then show ?thesis using r(1,3) fits unfolding tx_def [symmetric] by (auto simp: cJSON_PrintPreallocated_def p_def [symmetric])
qed

theorem cJSON_PrintPreallocated_correct_witness:
  "\<exists>b. cJSON_PrintPreallocated int_ops sample_hooks (Some (replicate 10 None)) False sample_item = Inr (True, Some b) \<and>
     take (length ''[true,7]'' + 1) b = block_of (''[true,7]'' @ [NUL])"
proof -
  have "\<exists>ok blk'. cJSON_PrintPreallocated int_ops sample_hooks (Some (replicate 10 None)) False sample_item = Inr (ok, blk') \<and>
    (ok \<longrightarrow> (\<exists>b. blk' = Some b \<and> length b = 10 \<and> take (length ''[true,7]'' + 1) b = block_of (''[true,7]'' @ [NUL]))) \<and> ok"
    using cJSON_PrintPreallocated_correct [OF sample_printable(1), of "replicate 10 None" sample_hooks False] sample_printable(2,3) by auto
  then show ?thesis by auto
qed

text \<open>
  Without \<open>realloc\<close>, an empty first buffer is copied with one byte that it does not have.
\<close>

theorem cJSON_PrintBuffered_overread:
  assumes "\<not> hk_realloc hk" "\<forall>m. hk_alloc hk m" "item_type it = cJSON_NULL"
  shows "cJSON_PrintBuffered fo hk 0 fmt it = Inl OutOfBounds"
  using assms by (cases it) (simp add: cJSON_PrintBuffered_def emit_def ensure_def)

end
