(* ===== verification/CJson_Correct.thy ===== *)
theory CJson_Correct
  imports CJson_Print
begin

text \<open>
  What the printer writes, the parser reads back: the round trip of \<open>src/vendor/cjson/cJSON.c\<close>, for both formats.
\<close>

section \<open>Reading strings\<close>

definition rest :: "parse_buffer \<Rightarrow> string" where
  "rest b = drop (pb_offset b) (pb_content b)"

definition esc_count :: "char \<Rightarrow> nat" where
  "esc_count c = (if escape_text c = [c] then 0 else 1)"

text \<open>The three shapes of an escaped character.\<close>

lemma escape_text_cases:
  obtains (plain) "escape_text c = [c]" "c \<noteq> CHR 0x22" "c \<noteq> CHR 0x5C"
  | (short) e where "escape_text c = [CHR 0x5C, e]" "escape_char e = Some c" "e \<noteq> CHR ''u''"
  | (long) "escape_text c = [CHR 0x5C, CHR ''u'', CHR ''0'', CHR ''0'', hex_digit (of_char c div 16), hex_digit (of_char c mod 16)]"
      "of_char c < (32 :: nat)"
proof (cases "of_char c > (31 :: nat) \<and> c \<noteq> CHR 0x22 \<and> c \<noteq> CHR 0x5C")
  case True
  then show thesis using plain by (simp add: escape_text_def)
next
  case False
  show thesis
  proof (cases "c \<in> {CHR 0x5C, CHR 0x22, CHR 0x08, CHR 0x0C, CHR 0x0A, CHR 0x0D, CHR 0x09}")
    case True
    then show thesis
      using short [of "CHR 0x5C"] short [of "CHR 0x22"] short [of "CHR ''b''"] short [of "CHR ''f''"] short [of "CHR ''n''"] short [of "CHR ''r''"]
        short [of "CHR ''t''"] by (auto simp: escape_text_def escape_char_def)
  next
    case no: False
    then have "of_char c < (32 :: nat)" using False by auto
    moreover have "escape_text c = [CHR 0x5C, CHR ''u'', CHR ''0'', CHR ''0'', hex_digit (of_char c div 16), hex_digit (of_char c mod 16)]"
      using False no by (simp add: escape_text_def)
    ultimately show thesis using long by blast
  qed
qed

lemma esc_count_simps:
  "escape_text c = [CHR 0x5C, e] \<Longrightarrow> esc_count c = 1" "escape_text c = CHR 0x5C # x # y # zs \<Longrightarrow> esc_count c = 1" "escape_text c = [c] \<Longrightarrow> esc_count c = 0"
  by (simp_all add: esc_count_def)

lemma hex_val_digit: "n < 16 \<Longrightarrow> hex_val (hex_digit n) = Some n"
  by (auto simp: hex_digit_def hex_val_def less_Suc_eq eval_nat_numeral)

lemma hex_digit_not_special: "n < 16 \<Longrightarrow> hex_digit n \<noteq> CHR 0x22 \<and> hex_digit n \<noteq> CHR 0x5C"
  by (auto simp: hex_digit_def less_Suc_eq eval_nat_numeral)

lemma drop_nth: "drop p xs = c # cs \<Longrightarrow> p < length xs \<and> xs ! p = c \<and> drop (p + 1) xs = cs"
  by (metis Cons_nth_drop_Suc add.commute drop_all list.distinct(1) list.inject not_le_imp_less plus_1_eq_Suc)

lemma scan_string_escaped:
  "drop q content = concat (map escape_text t) @ CHR 0x22 # r \<Longrightarrow>
     scan_string content q s = Some (q + length (concat (map escape_text t)), s + sum_list (map esc_count t))"
proof (induction t arbitrary: q s)
  case Nil
  then show ?case using drop_nth [of q content] by (subst scan_string.simps) simp
next
  case (Cons c t)
  define tl where "tl = concat (map escape_text t) @ CHR 0x22 # r"
  have d: "drop q content = escape_text c @ tl" using Cons.prems by (simp add: tl_def)
  show ?case
  proof (cases c rule: escape_text_cases)
    case plain
    note n = drop_nth [of q content c tl, OF d [unfolded plain(1), simplified]]
    have "scan_string content q s = scan_string content (q + 1) s" using n plain by (subst scan_string.simps) simp
    then show ?thesis using Cons.IH [of "q + 1" s] n plain by (simp add: tl_def esc_count_simps)
  next
    case (short e)
    note n = drop_nth [of q content "CHR 0x5C" "e # tl", OF d [unfolded short(1), simplified]]
    note n1 = drop_nth [of "q + 1" content e tl, OF conjunct2 [OF conjunct2 [OF n]]]
    have "scan_string content q s = scan_string content (q + 2) (s + 1)" using n n1 by (subst scan_string.simps) simp
    then show ?thesis using Cons.IH [of "q + 2" "s + 1"] n1 short by (simp add: tl_def esc_count_simps)
  next
    case long
    define h1 h2 where "h1 = hex_digit (of_char c div 16)" and "h2 = hex_digit (of_char c mod 16)"
    have h: "h1 \<noteq> CHR 0x22" "h1 \<noteq> CHR 0x5C" "h2 \<noteq> CHR 0x22" "h2 \<noteq> CHR 0x5C"
      using hex_digit_not_special [of "of_char c div 16"] hex_digit_not_special [of "of_char c mod 16"] long(2) by (auto simp: h1_def h2_def)
    note d = d [unfolded long(1), folded h1_def h2_def, simplified]
    note n = drop_nth [OF d]
    note n1 = drop_nth [OF conjunct2 [OF conjunct2 [OF n]]]
    note n2 = drop_nth [OF conjunct2 [OF conjunct2 [OF n1]]]
    note n3 = drop_nth [OF conjunct2 [OF conjunct2 [OF n2]]]
    note n4 = drop_nth [OF conjunct2 [OF conjunct2 [OF n3]]]
    note n5 = drop_nth [OF conjunct2 [OF conjunct2 [OF n4]]]
    have "scan_string content q s = scan_string content (q + 2) (s + 1)" using n n1 by (subst scan_string.simps) simp
    also have "\<dots> = scan_string content (q + 3) (s + 1)" using n2 by (subst scan_string.simps) (simp add: eval_nat_numeral)
    also have "\<dots> = scan_string content (q + 4) (s + 1)" using n3 by (subst scan_string.simps) (simp add: eval_nat_numeral)
    also have "\<dots> = scan_string content (q + 5) (s + 1)" using n4 h by (subst scan_string.simps) (simp add: eval_nat_numeral)
    also have "\<dots> = scan_string content (q + 6) (s + 1)" using n5 h by (subst scan_string.simps) (simp add: eval_nat_numeral)
    finally have e: "scan_string content q s = scan_string content (q + 6) (s + 1)" .
    have "drop (q + 6) content = tl" using n5 by (simp add: eval_nat_numeral)
    then show ?thesis using Cons.IH [of "q + 6" "s + 1"] long(1) unfolding e by (simp add: tl_def esc_count_simps)
  qed
qed

lemma utf8_encode_ascii: "n < 32 \<Longrightarrow> utf8_encode n = Some [char_of n]"
proof -
  assume n: "n < 32"
  have "(n AND 0x7F) = n" using n take_bit_nat_eq_self [of n 7] by (simp add: take_bit_eq_mask mask_numeral and.commute)
  then show ?thesis using n by (simp add: utf8_encode_def)
qed

lemma utf16_literal_control:
  assumes "take 4 (drop (p + 2) content) = [CHR ''0'', CHR ''0'', hex_digit (n div 16), hex_digit (n mod 16)]" "n < 32" "p + 6 \<le> e"
  shows "utf16_literal_to_utf8 content p e = Some ([char_of n], 6)"
proof -
  have "hex_val (CHR ''0'') = Some 0" by (simp add: hex_val_def)
  then have "parse_hex4 (drop (p + 2) content) = n" unfolding parse_hex4_def assms(1) using assms(2) by (simp add: hex_val_digit)
  then show ?thesis using assms(2,3) by (simp add: utf16_literal_to_utf8_def utf8_encode_ascii)
qed

lemma unescape_escaped:
  "drop p content = concat (map escape_text t) @ CHR 0x22 # r \<Longrightarrow> e = p + length (concat (map escape_text t)) \<Longrightarrow>
     length out + length t + 1 \<le> cap \<Longrightarrow> unescape content e cap p out = Inr (Some (out @ t), e)"
proof (induction t arbitrary: p out)
  case Nil
  then show ?case by (subst unescape.simps) simp
next
  case (Cons c t)
  define tl where "tl = concat (map escape_text t) @ CHR 0x22 # r"
  have d: "drop p content = escape_text c @ tl" using Cons.prems(1) by (simp add: tl_def)
  have cap: "\<not> length out + 1 > cap" using Cons.prems(3) by simp
  have IH: "unescape content e cap (p + length (escape_text c)) (out @ [c]) = Inr (Some (out @ c # t), e)" if "drop (p + length (escape_text c)) content = tl"
    using Cons.IH [of "p + length (escape_text c)" "out @ [c]"] Cons.prems(2,3) that by (simp add: tl_def)
  show ?case
  proof (cases c rule: escape_text_cases)
    case plain
    note n = drop_nth [of p content c tl, OF d [unfolded plain(1), simplified]]
    have "unescape content e cap p out = unescape content e cap (p + 1) (out @ [c])"
      using n plain cap Cons.prems(2) by (subst unescape.simps) simp
    then show ?thesis using IH n plain(1) by simp
  next
    case (short x)
    note n = drop_nth [of p content "CHR 0x5C" "x # tl", OF d [unfolded short(1), simplified]]
    note n1 = drop_nth [of "p + 1" content x tl, OF conjunct2 [OF conjunct2 [OF n]]]
    have "unescape content e cap p out = unescape content e cap (p + 2) (out @ [c])"
      using n n1 short cap Cons.prems(2) by (subst unescape.simps) simp
    then show ?thesis using IH n1 short(1) by simp
  next
    case long
    define h1 h2 where "h1 = hex_digit (of_char c div 16)" and "h2 = hex_digit (of_char c mod 16)"
    note d = d [unfolded long(1), folded h1_def h2_def, simplified]
    note n = drop_nth [OF d]
    note n1 = drop_nth [OF conjunct2 [OF conjunct2 [OF n]]]
    have "take 4 (drop (p + 2) content) = [CHR ''0'', CHR ''0'', h1, h2]" using n1 by (simp add: eval_nat_numeral)
    from utf16_literal_control [OF this [unfolded h1_def h2_def] long(2), of e]
    have u: "utf16_literal_to_utf8 content p e = Some ([c], 6)" using Cons.prems(2) long(1) by simp
    have "unescape content e cap p out = unescape content e cap (p + 6) (out @ [c])"
      using n n1 u cap Cons.prems(2) long(1) by (subst unescape.simps) (simp add: escape_char_def)
    moreover have "drop (p + 6) content = tl" using arg_cong [OF d, of "drop 6"] by (simp add: add.commute)
    moreover have l6: "length (escape_text c) = 6" using long(1) by simp
    ultimately show ?thesis using IH [unfolded l6] by simp
  qed
qed

lemma advance_advance: "advance m (advance n b) = advance (n + m) b"
  by (simp add: advance_def add.assoc)

lemma rest_advance: "rest b = s @ t \<Longrightarrow> rest (advance (length s) b) = t"
  by (simp add: rest_def) (metis add.commute append_eq_conv_conj drop_drop)

lemma rest_facts:
  assumes "rest b = c # cs"
  shows "can_access_at_index b 0" "pb_content b ! pb_offset b = c" "looking_at b x \<longleftrightarrow> x = c" "byte_at b 0 = Inr c"
  using drop_nth [OF assms [unfolded rest_def]] by (auto simp: can_access_at_index_def looking_at_def byte_at_def)

lemma esc_count_le: "length t + sum_list (map esc_count t) \<le> length (concat (map escape_text t))"
proof (induction t)
  case (Cons c t)
  then show ?case by (cases c rule: escape_text_cases) (auto simp: esc_count_simps)
qed simp

lemma parse_string_quoted:
  assumes "rest b = quoted (Some t) @ r" "cstr t"
  shows "parse_string b = Inr (Some t, advance (length (quoted (Some t))) b)"
proof -
  have d: "drop (pb_offset b) (pb_content b) = CHR 0x22 # concat (map escape_text t) @ CHR 0x22 # r" using assms(1) by (simp add: rest_def quoted_def)
  note n = drop_nth [OF d]
  have c: "byte_at b 0 = Inr (CHR 0x22)" using rest_facts(4) [of b] d by (simp add: rest_def)
  define e where "e = pb_offset b + 1 + length (concat (map escape_text t))"
  have s: "scan_string (pb_content b) (pb_offset b + 1) 0 = Some (e, sum_list (map esc_count t))"
    using scan_string_escaped [OF conjunct2 [OF conjunct2 [OF n]], of 0] by (simp add: e_def)
  have "unescape (pb_content b) e (e - pb_offset b - sum_list (map esc_count t) + 1) (pb_offset b + 1) [] = Inr (Some ([] @ t), e)"
    using esc_count_le [of t] by (intro unescape_escaped [OF conjunct2 [OF conjunct2 [OF n]]]) (simp_all add: e_def)
  then show ?thesis using c s assms(2) by (simp add: parse_string_def advance_def quoted_def e_def)
qed

lemma skip_none: "rest b = c # cs \<Longrightarrow> of_char c > (32 :: nat) \<Longrightarrow> buffer_skip_whitespace b = b"
  using drop_nth [of "pb_offset b" "pb_content b" c cs] by (simp add: buffer_skip_whitespace_def rest_def can_access_at_index_def)

lemma skip_ws:
  assumes "rest b = ws @ c # cs" "\<forall>x \<in> set ws. of_char x \<le> (32 :: nat)" "of_char c > (32 :: nat)"
  shows "buffer_skip_whitespace b = advance (length ws) b"
proof -
  have t: "takeWhile (\<lambda>c. of_char c \<le> (32 :: nat)) (rest b) = ws" using assms by simp
  have l: "pb_offset b + length ws < length (pb_content b)" using arg_cong [OF assms(1), of length] by (simp add: rest_def)
  then show ?thesis using t by (simp add: buffer_skip_whitespace_def rest_def can_access_at_index_def advance_def)
qed

section \<open>Reading values\<close>

text \<open>
  What \<open>sprintf\<close> and \<open>strtod\<close> guarantee for a number that is neither infinite nor NaN: the texts are decimal numbers,
  which \<open>strtod\<close> reads to their end; from 17 digits it recovers the number, from the digits of an \<open>int\<close> a
  number that is equal.
\<close>

definition numeric :: "'d float_ops \<Rightarrow> string \<Rightarrow> bool" where
  "numeric fo s \<longleftrightarrow>
     s \<noteq> [] \<and> list_all number_char s \<and> (hd s = CHR ''-'' \<or> hd s \<in> set ''0123456789'') \<and> snd (fo_strtod fo s) = length s"

definition c_number :: "'d float_ops \<Rightarrow> 'd \<Rightarrow> bool" where
  "c_number fo d \<longleftrightarrow>
     fo_special fo d \<or>
     numeric fo (fo_g15 fo d) \<and> numeric fo (fo_g17 fo d) \<and> fst (fo_strtod fo (fo_g17 fo d)) = d \<and>
     (fo_eq fo d (fo_of_int fo (int_value fo d)) \<longrightarrow>
        numeric fo (int_str (int_value fo d)) \<and> fo_eq fo (fst (fo_strtod fo (int_str (int_value fo d)))) d)"

primrec c_numbers :: "'d float_ops \<Rightarrow> 'd cJSON \<Rightarrow> bool" where
  "c_numbers fo (Item t vi vd vs s cs) = ((t = cJSON_Number \<longrightarrow> c_number fo vd) \<and> list_all id (map (c_numbers fo) cs))"

text \<open>The number, and the item, that is read back.\<close>

definition num_back :: "'d float_ops \<Rightarrow> 'd \<Rightarrow> 'd" where
  "num_back fo d = fst (fo_strtod fo (number_text fo (int_value fo d) d))"

primrec cj_back :: "'d float_ops \<Rightarrow> 'd cJSON \<Rightarrow> 'd cJSON" where
  "cj_back fo (Item t vi vd vs s cs) =
     (if t = cJSON_Number
      then if fo_special fo vd then Item cJSON_NULL 0 (fo_zero fo) None s []
           else Item cJSON_Number (int_value fo (num_back fo vd)) (num_back fo vd) None s []
      else Item t vi vd vs s (map (cj_back fo) cs))"

lemma item_string_cj_back [simp]: "item_string (cj_back fo it) = item_string it"
  by (cases it) simp

lemma c_number_text:
  assumes "c_number fo d" "\<not> fo_special fo d"
  shows "numeric fo (number_text fo (int_value fo d) d)"
  using assms by (auto simp: c_number_def number_text_def Let_def split: prod.splits)

text \<open>The number that is read back is the same, equal, or so close that the printer was content with 15 digits.\<close>

lemma num_back_close:
  assumes "c_number fo d" "\<not> fo_special fo d"
  shows "num_back fo d = d \<or> fo_eq fo (num_back fo d) d \<or> compare_double fo (num_back fo d) d"
  using assms by (auto simp: c_number_def num_back_def number_text_def Let_def split: prod.splits)

text \<open>Items whose numbers are read back exactly.\<close>

definition num_exact :: "'d float_ops \<Rightarrow> 'd \<Rightarrow> bool" where
  "num_exact fo d \<longleftrightarrow>
     (let s = number_text fo (int_value fo d) d in
      s \<noteq> [] \<and> list_all number_char s \<and> (hd s = CHR ''-'' \<or> hd s \<in> set ''0123456789'') \<and> fo_strtod fo s = (d, length s))"

primrec exact :: "'d float_ops \<Rightarrow> 'd cJSON \<Rightarrow> bool" where
  "exact fo (Item t vi vd vs s cs) = ((t = cJSON_Number \<longrightarrow> num_exact fo vd) \<and> list_all id (map (exact fo) cs))"

text \<open>What the parser needs of the numbers of an item.\<close>

definition num_reads :: "'d float_ops \<Rightarrow> 'd \<Rightarrow> bool" where
  "num_reads fo d \<longleftrightarrow> fo_special fo d \<or> numeric fo (number_text fo (int_value fo d) d)"

primrec readable :: "'d float_ops \<Rightarrow> 'd cJSON \<Rightarrow> bool" where
  "readable fo (Item t vi vd vs s cs) = ((t = cJSON_Number \<longrightarrow> num_reads fo vd) \<and> list_all id (map (readable fo) cs))"

lemma c_numbers_readable: "c_numbers fo it \<Longrightarrow> readable fo it"
  by (induction it) (auto simp: list_all_iff num_reads_def dest: c_number_text)

lemma num_exact_back:
  assumes "num_exact fo d"
  shows "\<not> fo_special fo d" "numeric fo (number_text fo (int_value fo d) d)" "num_back fo d = d"
proof -
  show "\<not> fo_special fo d" using assms by (auto simp: num_exact_def number_text_def Let_def number_char_def)
  show "numeric fo (number_text fo (int_value fo d) d)" "num_back fo d = d"
    using assms by (simp_all add: num_exact_def numeric_def num_back_def Let_def)
qed

lemma exact_back: "exact fo it \<Longrightarrow> readable fo it" "exact fo it \<Longrightarrow> cj_wf fo it \<Longrightarrow> cj_back fo it = it"
proof (induction it)
  case (Item t vi vd vs s cs)
  {
    case 1
    then show ?case using Item num_exact_back(2) [of fo vd] by (auto simp: list_all_iff num_reads_def)
  next
    case 2
    have "map (cj_back fo) cs = cs" if "t = cJSON_Array \<or> t = cJSON_Object"
      using that 2 Item.IH(2) by (auto simp: list_all_iff intro!: map_idI)
    then show ?case using 2 num_exact_back [of fo vd] by (cases t) auto
  }
qed

primrec unnamed :: "'d cJSON \<Rightarrow> 'd cJSON" where
  "unnamed (Item t vi vd vs s cs) = Item t vi vd vs None cs"

lemma named_unnamed: "item_string it = Some k \<Longrightarrow> named k (unnamed it) = it"
  by (cases it) auto

lemma unnamed_None: "item_string it = None \<Longrightarrow> unnamed it = it"
  by (cases it) auto

text \<open>What follows a value: at least one byte that no number contains.\<close>

definition tail_ok :: "string \<Rightarrow> bool" where
  "tail_ok r \<longleftrightarrow> r \<noteq> [] \<and> \<not> number_char (hd r)"

definition reads :: "nat \<Rightarrow> string \<Rightarrow> 'd cJSON \<Rightarrow> (parse_buffer \<Rightarrow> 'd cJSON parsed) \<Rightarrow> bool" where
  "reads d s it pv \<longleftrightarrow> s \<noteq> [] \<and> of_char (hd s) > (32 :: nat) \<and> of_char (hd s) < (128 :: nat) \<and> hd s \<noteq> CHR '']'' \<and>
     (\<forall>b r. rest b = s @ r \<longrightarrow> tail_ok r \<longrightarrow> pb_depth b = d \<longrightarrow> pv b = pdone it (advance (length s) b))"

lemma parse_number_reads:
  assumes "numeric fo s" "rest b = s @ r" "tail_ok r"
  shows "parse_number fo b = pdone (Item cJSON_Number (int_value fo (fst (fo_strtod fo s))) (fst (fo_strtod fo s)) None None [])
    (advance (length s) b)"
proof -
  obtain v where s: "s \<noteq> []" "list_all number_char s" "fo_strtod fo s = (v, length s)"
    using assms(1) by (cases "fo_strtod fo s") (auto simp: numeric_def)
  have "takeWhile number_char (drop (pb_offset b) (pb_content b)) = s"
    using assms(2,3) s(2) unfolding rest_def tail_ok_def by (cases r) (auto simp: list_all_iff)
  then show ?thesis using s(1,3) by (simp add: parse_number_def)
qed

lemma tail_sep: "tail_ok (CHR '','' # r)" "tail_ok (CHR '']'' # r)" "tail_ok (CHR ''}'' # r)" "tail_ok (CHR 0x0A # r)" "tail_ok (CHR 0x00 # r)"
  by (simp_all add: tail_ok_def number_char_def)

lemma ws_not_number: "of_char c \<le> (32 :: nat) \<Longrightarrow> \<not> number_char c"
  by (auto simp: number_char_def)

lemma pdone_bind: "bindP (pdone x b) f = f x b"
  by (simp add: bindP_def)

lemma rest_step:
  assumes "rest b = s @ t"
  shows "rest (advance (length s) b) = t" "pb_depth (advance (length s) b) = pb_depth b"
  using rest_advance [OF assms] by simp_all

text \<open>Past one byte and some white space, to the next token.\<close>

lemma skip_to:
  assumes "rest b = x # ws @ s @ t" "\<forall>c \<in> set ws. of_char c \<le> (32 :: nat)" "s \<noteq> []" "of_char (hd s) > (32 :: nat)"
  shows "buffer_skip_whitespace (advance 1 b) = advance (1 + length ws) b" "rest (advance (1 + length ws) b) = s @ t"
proof -
  obtain c cs where s: "s = c # cs" using assms(3) by (cases s) auto
  have r: "rest (advance 1 b) = ws @ c # cs @ t" using rest_advance [of b "[x]"] assms(1) s by simp
  show "buffer_skip_whitespace (advance 1 b) = advance (1 + length ws) b"
    using skip_ws [OF r assms(2)] assms(4) s by (simp add: advance_advance)
  show "rest (advance (1 + length ws) b) = s @ t" using rest_advance [of b "x # ws" "s @ t"] assms(1) by simp
qed

lemma parse_elements_reads:
  assumes "list_all2 (\<lambda>s it. reads d s it pv) ts its" "ts \<noteq> []" "length ts \<le> k" "pb_depth b = d"
    "rest b = x # ws @ join_text fmt ts @ CHR '']'' # r" "\<forall>c \<in> set ws. of_char c \<le> (32 :: nat)"
  shows "parse_elements k pv acc b = pdone (acc @ its) (advance (1 + length ws + length (join_text fmt ts)) b)"
  using assms
proof (induction k arbitrary: ts its b x ws acc)
  case (Suc k)
  obtain s ts' it its' where ts: "ts = s # ts'" "its = it # its'" "reads d s it pv" "list_all2 (\<lambda>s it. reads d s it pv) ts' its'"
    using Suc.prems(1,2) by (cases ts; cases its) auto
  define more where "more = (if ts' = [] then [] else '','' @ (if fmt then '' '' else []) @ join_text fmt ts') @ CHR '']'' # r"
  have rb: "rest b = x # ws @ s @ more" using Suc.prems(5) by (simp add: ts(1) more_def)
  have s: "s \<noteq> []" "of_char (hd s) > (32 :: nat)" using ts(3) by (simp_all add: reads_def)
  define b1 where "b1 = advance (1 + length ws) b"
  have b1: "buffer_skip_whitespace (advance 1 b) = b1" "rest b1 = s @ more" using skip_to [OF rb Suc.prems(6) s] by (simp_all add: b1_def)
  have t: "tail_ok more" by (simp add: more_def tail_sep)
  have pv: "pv b1 = pdone it (advance (length s) b1)" using ts(3) b1(2) t Suc.prems(4) by (simp add: reads_def b1_def)
  define b2 where "b2 = advance (length s) b1"
  have b2: "rest b2 = more" "pb_depth b2 = d" "b2 = advance (1 + length ws + length s) b"
    using rest_step [OF b1(2)] Suc.prems(4) by (simp_all add: b2_def b1_def advance_advance)
  obtain c cs where m: "more = c # cs" "c = (if ts' = [] then CHR '']'' else CHR '','')" by (cases "ts' = []") (auto simp: more_def)
  have sk: "buffer_skip_whitespace b2 = b2" using skip_none [of b2 c cs] b2(1) m by (cases "ts' = []") simp_all
  have la: "looking_at b2 (CHR '','') \<longleftrightarrow> ts' \<noteq> []" using rest_facts(3) [of b2 c cs] b2(1) m by auto
  have step: "parse_elements (Suc k) pv acc b = (if ts' \<noteq> [] then parse_elements k pv (acc @ [it]) b2 else pdone (acc @ [it]) b2)"
    by (simp only: parse_elements.simps b1(1) pv pdone_bind b2_def [symmetric] sk la Let_def)
  show ?case
  proof (cases "ts' = []")
    case True
    then have "its' = []" using ts(4) by simp
    then show ?thesis using step True b2(3) ts(1,2) by simp
  next
    case False
    define w where "w = (if fmt then '' '' else [])"
    have r2: "rest b2 = CHR '','' # w @ join_text fmt ts' @ CHR '']'' # r" using b2(1) False by (simp add: more_def w_def)
    have "parse_elements k pv (acc @ [it]) b2 = pdone ((acc @ [it]) @ its') (advance (1 + length w + length (join_text fmt ts')) b2)"
      using Suc.prems(3) by (intro Suc.IH [OF ts(4) False _ b2(2) r2]) (simp_all add: ts(1) w_def)
    then show ?thesis using step False b2(3) by (simp add: ts(1,2) advance_advance w_def)
  qed
qed simp

lemma parse_members_reads:
  assumes "list_all2 (\<lambda>(k, s) it. item_string it = k \<and> k \<noteq> None \<and> cstr (the k) \<and> reads d s (unnamed it) pv) kts its" "kts \<noteq> []" "length kts \<le> k"
    "pb_depth b = d" "rest b = x # ws @ members_text fmt d' kts @ ws2 @ CHR ''}'' # r" "\<forall>c \<in> set ws. of_char c \<le> (32 :: nat)"
    "\<forall>c \<in> set ws2. of_char c \<le> (32 :: nat)"
  shows "parse_members k pv acc b = pdone (acc @ its) (advance (1 + length ws + length (members_text fmt d' kts) + length ws2) b)"
  using assms
proof (induction k arbitrary: kts its b x ws acc)
  case (Suc k)
  obtain key s kts' it its' where kts: "kts = (Some key, s) # kts'" "its = it # its'" "item_string it = Some key" "cstr key" "reads d s (unnamed it) pv"
    "list_all2 (\<lambda>(k, s) it. item_string it = k \<and> k \<noteq> None \<and> cstr (the k) \<and> reads d s (unnamed it) pv) kts' its'"
    using Suc.prems(1,2) by (cases kts; cases its) auto
  define indent where "indent = (if fmt then replicate d' (CHR 0x09) else [])"
  define tab where "tab = (if fmt then [CHR 0x09] else [])"
  define nl where "nl = (if fmt then [CHR 0x0A] else [])"
  define q where "q = quoted (Some key)"
  define end' where "end' = (if kts' \<noteq> [] then CHR '','' # nl @ members_text fmt d' kts' @ ws2 @ CHR ''}'' # r else nl @ ws2 @ CHR ''}'' # r)"
  have rb: "rest b = x # (ws @ indent) @ q @ CHR '':'' # tab @ s @ end'"
    using Suc.prems(5) by (simp add: kts(1) indent_def tab_def nl_def q_def end'_def)
  have w1: "\<forall>c \<in> set (ws @ indent). of_char c \<le> (32 :: nat)" using Suc.prems(6) by (auto simp: indent_def)
  have q: "q \<noteq> []" "of_char (hd q) > (32 :: nat)" by (simp_all add: q_def quoted_def)
  define b1 where "b1 = advance (1 + length (ws @ indent)) b"
  have b1: "buffer_skip_whitespace (advance 1 b) = b1" "rest b1 = q @ CHR '':'' # tab @ s @ end'" using skip_to [OF rb w1 q] by (simp_all add: b1_def)
  have acc1: "can_access_at_index b 1" using arg_cong [OF rb, of length] q(1) by (cases q) (auto simp: can_access_at_index_def rest_def)
  have ps: "parse_string b1 = Inr (Some key, advance (length q) b1)" using parse_string_quoted [OF _ kts(4)] b1(2) by (simp add: q_def)
  define b2 where "b2 = advance (length q) b1"
  have b2: "rest b2 = CHR '':'' # tab @ s @ end'" using rest_step [OF b1(2)] by (simp add: b2_def)
  have sk2: "buffer_skip_whitespace b2 = b2" "looking_at b2 (CHR '':'')" using skip_none [OF b2] rest_facts(3) [OF b2] by simp_all
  have s: "s \<noteq> []" "of_char (hd s) > (32 :: nat)" using kts(5) by (simp_all add: reads_def)
  have w3: "\<forall>c \<in> set tab. of_char c \<le> (32 :: nat)" by (simp add: tab_def)
  define b3 where "b3 = advance (1 + length tab) b2"
  have b3: "buffer_skip_whitespace (advance 1 b2) = b3" "rest b3 = s @ end'" using skip_to [OF b2 w3 s] by (simp_all add: b3_def)
  have hd_ok: "tail_ok end'"
  proof (cases "kts' \<noteq> [] \<or> nl @ ws2 = []")
    case True
    then show ?thesis by (auto simp: end'_def tail_sep)
  next
    case False
    then obtain y ys where y: "nl @ ws2 = y # ys" by (cases "nl @ ws2") auto
    then have "of_char y \<le> (32 :: nat)" using Suc.prems(7) by (cases fmt) (auto simp: nl_def)
    then show ?thesis using False y ws_not_number by (simp add: end'_def tail_ok_def) (metis append_Cons append_assoc list.distinct(1) list.sel(1))
  qed
  have d3: "pb_depth b3 = d" using Suc.prems(4) by (simp add: b3_def b2_def b1_def)
  have pv: "pv b3 = pdone (unnamed it) (advance (length s) b3)" using kts(5) b3(2) hd_ok d3 by (simp add: reads_def)
  define b4 where "b4 = advance (length s) b3"
  have b4: "rest b4 = end'" "pb_depth b4 = d" using rest_step [OF b3(2)] d3 by (simp_all add: b4_def)
  have step: "parse_members (Suc k) pv acc b =
    (let b5 = buffer_skip_whitespace b4 in
     if looking_at b5 (CHR '','') then parse_members k pv (acc @ [it]) b5 else pdone (acc @ [it]) b5)"
    using acc1 by (simp only: parse_members.simps b1(1) ps b2_def [symmetric] pdone_bind sk2 Let_def b3(1) pv b4_def [symmetric] named_unnamed [OF kts(3)]
      not_True_eq_False not_False_eq_True if_True if_False simp_thms)
  have b4_off: "b4 = advance (1 + length (ws @ indent) + length q + 1 + length tab + length s) b"
    by (simp add: b4_def b3_def b2_def b1_def advance_advance add_ac)
  show ?case
  proof (cases "kts' = []")
    case True
    then have its': "its' = []" using kts(6) by simp
    have r4: "rest b4 = (nl @ ws2) @ CHR ''}'' # r" using b4(1) True by (simp add: end'_def)
    have w4: "\<forall>c \<in> set (nl @ ws2). of_char c \<le> (32 :: nat)" using Suc.prems(7) by (auto simp: nl_def)
    have sk: "buffer_skip_whitespace b4 = advance (length (nl @ ws2)) b4" using skip_ws [OF r4 w4] by simp
    have "rest (advance (length (nl @ ws2)) b4) = CHR ''}'' # r" by (rule rest_advance [OF r4])
    then have "\<not> looking_at (advance (length (nl @ ws2)) b4) (CHR '','')" using rest_facts(3) by auto
    then show ?thesis using step sk True its' b4_off
      by (simp add: kts(1,2) advance_advance indent_def tab_def nl_def q_def add_ac)
  next
    case False
    have r4: "rest b4 = CHR '','' # nl @ members_text fmt d' kts' @ ws2 @ CHR ''}'' # r" using b4(1) False by (simp add: end'_def)
    have sk: "buffer_skip_whitespace b4 = b4" "looking_at b4 (CHR '','')" using skip_none [OF r4] rest_facts(3) [OF r4] by simp_all
    have "parse_members k pv (acc @ [it]) b4 = pdone ((acc @ [it]) @ its') (advance (1 + length nl + length (members_text fmt d' kts') + length ws2) b4)"
      using Suc.prems(3,7) by (intro Suc.IH [OF kts(6) False _ b4(2) r4]) (auto simp: kts(1) nl_def)
    then show ?thesis using step sk False b4_off
      by (simp add: kts(1,2) advance_advance indent_def tab_def nl_def q_def add_ac)
  qed
qed simp

lemma starts_with_rest: "s \<noteq> [] \<Longrightarrow> starts_with b s \<longleftrightarrow> take (length s) (rest b) = s"
proof -
  have "can_read b (length s)" if "take (length s) (rest b) = s" "s \<noteq> []"
  proof -
    have "length s \<le> length (pb_content b) - pb_offset b" using arg_cong [OF that(1), of length] by (simp add: rest_def)
    moreover have "0 < length s" using that(2) by simp
    ultimately show ?thesis unfolding can_read_def by linarith
  qed
  then show "s \<noteq> [] \<Longrightarrow> ?thesis" by (auto simp: starts_with_def rest_def)
qed

lemma parse_value_literal:
  "rest b = ''null'' @ r \<Longrightarrow> parse_value (Suc n) fo b = pdone (new_item fo cJSON_NULL 0 None []) (advance 4 b)"
  "rest b = ''false'' @ r \<Longrightarrow> parse_value (Suc n) fo b = pdone (new_item fo cJSON_False 0 None []) (advance 5 b)"
  "rest b = ''true'' @ r \<Longrightarrow> parse_value (Suc n) fo b = pdone (new_item fo cJSON_True 1 None []) (advance 4 b)"
proof -
  assume b: "rest b = ''null'' @ r"
  then have "starts_with b ''null''" by (simp add: starts_with_rest)
  then show "parse_value (Suc n) fo b = pdone (new_item fo cJSON_NULL 0 None []) (advance 4 b)" by simp
next
  assume b: "rest b = ''false'' @ r"
  then have "\<not> starts_with b ''null''" "starts_with b ''false''" by (simp_all add: starts_with_rest)
  then show "parse_value (Suc n) fo b = pdone (new_item fo cJSON_False 0 None []) (advance 5 b)" by simp
next
  assume b: "rest b = ''true'' @ r"
  then have "\<not> starts_with b ''null''" "\<not> starts_with b ''false''" "starts_with b ''true''" by (simp_all add: starts_with_rest)
  then show "parse_value (Suc n) fo b = pdone (new_item fo cJSON_True 1 None []) (advance 4 b)" by simp
qed

text \<open>A value whose first byte is not that of a literal.\<close>

lemma parse_value_dispatch:
  assumes "rest b = c # cs" "c \<notin> {CHR ''n'', CHR ''f'', CHR ''t''}"
  shows "parse_value (Suc n) fo b =
    (if c = CHR 0x22 then bindP (Some (parse_string b)) (\<lambda>s b1. pdone (new_item fo cJSON_String 0 (Some s) []) b1)
     else if c = CHR ''-'' \<or> c \<in> set ''0123456789'' then parse_number fo b
     else if c = CHR ''['' then parse_array fo (parse_value n fo) b
     else if c = CHR ''{'' then parse_object fo (parse_value n fo) b
     else pfail b)"
proof -
  have "\<not> starts_with b ''null''" "\<not> starts_with b ''false''" "\<not> starts_with b ''true''" using assms by (auto simp: starts_with_rest)
  moreover have "looking_at b x \<longleftrightarrow> c = x" for x using rest_facts(3) [OF assms(1)] by auto
  ultimately show ?thesis by (simp add: Let_def)
qed

lemma parse_value_number:
  assumes "rest b = c # cs" "c = CHR ''-'' \<or> c \<in> set ''0123456789''"
  shows "parse_value (Suc n) fo b = parse_number fo b"
proof -
  have c: "c \<notin> {CHR ''n'', CHR ''f'', CHR ''t''}" "c \<noteq> CHR 0x22" using assms(2) by auto
  show ?thesis unfolding parse_value_dispatch [OF assms(1) c(1)] using assms(2) c(2) by (simp only: if_True if_False)
qed

lemma join_text_length: "\<forall>t \<in> set ts. t \<noteq> [] \<Longrightarrow> length ts \<le> length (join_text fmt ts)"
proof (induction ts)
  case (Cons t ts)
  then show ?case by (cases t) auto
qed simp

lemma members_text_length: "length kts \<le> length (members_text fmt d kts)"
  by (induction kts) auto

lemma parse_members_same:
  assumes "buffer_skip_whitespace (advance 1 b) = buffer_skip_whitespace (advance 1 b')" "can_access_at_index b 1" "can_access_at_index b' 1"
  shows "parse_members (Suc k) pv acc b = parse_members (Suc k) pv acc b'"
  using assms by simp

lemma parse_array_reads:
  assumes items: "list_all2 (\<lambda>s it. reads (d + 1) s it pv) ts its" and d: "d < CJSON_NESTING_LIMIT" "pb_depth b = d"
    and b: "rest b = (''['' @ join_text fmt ts @ '']'') @ r"
  shows "parse_array fo pv b = pdone (new_item fo cJSON_Array 0 None its) (advance (length (''['' @ join_text fmt ts @ '']'')) b)"
proof -
  define b1 where "b1 = b\<lparr>pb_depth := pb_depth b + 1\<rparr>"
  have r1: "rest b1 = CHR ''['' # [] @ (join_text fmt ts @ '']'') @ r" "pb_depth b1 = d + 1" using b d(2) by (simp_all add: b1_def rest_def)
  have h: "of_char (hd (join_text fmt ts @ '']'')) > (32 :: nat)" using items by (cases ts) (auto simp: reads_def list_all2_Cons1)
  have b2: "buffer_skip_whitespace (advance 1 b1) = advance 1 b1" "rest (advance 1 b1) = (join_text fmt ts @ '']'') @ r"
    using skip_to [OF r1(1)] h by auto
  have before: "(advance 1 b1)\<lparr>pb_offset := pb_offset (advance 1 b1) - 1\<rparr> = b1" by (simp add: advance_def)
  have byte: "byte_at b1 0 = Inr (CHR ''['')" using rest_facts(4) r1(1) by simp
  have e: "parse_array fo pv b =
    (if looking_at (advance 1 b1) (CHR '']'') then pdone (new_item fo cJSON_Array 0 None []) ((advance 1 b1)\<lparr>pb_depth := pb_depth (advance 1 b1) - 1, pb_offset := pb_offset (advance 1 b1) + 1\<rparr>)
     else if \<not> can_access_at_index (advance 1 b1) 0 then pfail b1
     else bindP (parse_elements (length (pb_content b)) pv [] b1) (\<lambda>items b3. if \<not> looking_at b3 (CHR '']'') then pfail b3
            else pdone (new_item fo cJSON_Array 0 None items) (b3\<lparr>pb_depth := pb_depth b3 - 1, pb_offset := pb_offset b3 + 1\<rparr>)))"
    using d byte unfolding parse_array_def Let_def b1_def [symmetric] b2(1) before by simp
  show ?thesis
  proof (cases "ts = []")
    case True
    then have "its = []" using items by simp
    then show ?thesis using True rest_facts(3) [of "advance 1 b1"] b2(2) d(2) unfolding e by (simp add: advance_def b1_def)
  next
    case False
    then obtain t0 ts0 where t0: "ts = t0 # ts0" by (cases ts) auto
    then have "t0 \<noteq> []" "hd t0 \<noteq> CHR '']''" using items by (auto simp: reads_def list_all2_Cons1)
    then obtain c cs where c: "join_text fmt ts = c # cs" "c \<noteq> CHR '']''" using t0 by (cases t0) auto
    have acc: "can_access_at_index (advance 1 b1) 0" "\<not> looking_at (advance 1 b1) (CHR '']'')"
      using rest_facts(1,3) [of "advance 1 b1"] b2(2) c by auto
    have "\<forall>t \<in> set ts. t \<noteq> []" using items by (auto simp: reads_def list_all2_conv_all_nth in_set_conv_nth)
    then have "length ts \<le> length (join_text fmt ts)" by (rule join_text_length)
    then have l: "length ts \<le> length (pb_content b)" using arg_cong [OF b, of length] by (simp add: rest_def)
    have r1': "rest b1 = CHR ''['' # [] @ join_text fmt ts @ CHR '']'' # r" using r1(1) by simp
    have pe: "parse_elements (length (pb_content b)) pv [] b1 = pdone ([] @ its) (advance (1 + length ([] :: string) + length (join_text fmt ts)) b1)"
      by (rule parse_elements_reads [OF items False l r1(2) r1']) simp
    define b3 where "b3 = advance (1 + length ([] :: string) + length (join_text fmt ts)) b1"
    have "rest b3 = CHR '']'' # r" using rest_advance [of b1 "CHR ''['' # join_text fmt ts"] r1' by (simp add: b3_def)
    then have "looking_at b3 (CHR '']'')" using rest_facts(3) by simp
    then show ?thesis using acc d(2) unfolding e pe b3_def [symmetric] pdone_bind by (simp add: b3_def advance_def b1_def)
  qed
qed

lemma parse_object_reads:
  assumes items: "list_all2 (\<lambda>(k, s) it. item_string it = k \<and> k \<noteq> None \<and> cstr (the k) \<and> reads (d + 1) s (unnamed it) pv) kts its"
    and d: "d < CJSON_NESTING_LIMIT" "pb_depth b = d" and w2: "\<forall>c \<in> set ws2. of_char c \<le> (32 :: nat)"
    and b: "rest b = (''{'' @ (if fmt then [CHR 0x0A] else []) @ members_text fmt d' kts @ ws2 @ ''}'') @ r"
  shows "parse_object fo pv b = pdone (new_item fo cJSON_Object 0 None its)
    (advance (length (''{'' @ (if fmt then [CHR 0x0A] else []) @ members_text fmt d' kts @ ws2 @ ''}'')) b)"
proof -
  define nl where "nl = (if fmt then [CHR 0x0A] else [])"
  define b1 where "b1 = b\<lparr>pb_depth := pb_depth b + 1\<rparr>"
  have r1: "rest b1 = CHR ''{'' # nl @ members_text fmt d' kts @ ws2 @ CHR ''}'' # r" "pb_depth b1 = d + 1"
    using b d(2) by (simp_all add: b1_def rest_def nl_def)
  have wn: "\<forall>c \<in> set nl. of_char c \<le> (32 :: nat)" by (simp add: nl_def)
  have look: "looking_at b1 (CHR ''{'')" using rest_facts(3) r1(1) by simp
  define b2 where "b2 = buffer_skip_whitespace (advance 1 b1)"
  define before where "before = b2\<lparr>pb_offset := pb_offset b2 - 1\<rparr>"
  have e: "parse_object fo pv b =
    (if looking_at b2 (CHR ''}'') then pdone (new_item fo cJSON_Object 0 None []) (b2\<lparr>pb_depth := pb_depth b2 - 1, pb_offset := pb_offset b2 + 1\<rparr>)
     else if \<not> can_access_at_index b2 0 then pfail before
     else bindP (parse_members (length (pb_content b)) pv [] before) (\<lambda>items b3. if \<not> looking_at b3 (CHR ''}'') then pfail b3
            else pdone (new_item fo cJSON_Object 0 None items) (b3\<lparr>pb_depth := pb_depth b3 - 1, pb_offset := pb_offset b3 + 1\<rparr>)))"
    using d look unfolding parse_object_def Let_def b1_def [symmetric] b2_def [symmetric] before_def [symmetric] by simp
  show ?thesis
  proof (cases "kts = []")
    case True
    then have its: "its = []" using items by simp
    have "rest b1 = CHR ''{'' # (nl @ ws2) @ ''}'' @ r" using r1(1) True by simp
    moreover have "\<forall>c \<in> set (nl @ ws2). of_char c \<le> (32 :: nat)" using wn w2 by auto
    ultimately have "b2 = advance (1 + length (nl @ ws2)) b1" "rest b2 = ''}'' @ r" using skip_to [of b1 "CHR ''{''" "nl @ ws2" "''}''" r] by (simp_all add: b2_def)
    then show ?thesis using True its rest_facts(3) [of b2] d(2) unfolding e by (simp add: advance_def b1_def nl_def)
  next
    case False
    then obtain k0 s0 kts0 where k0: "kts = (Some k0, s0) # kts0" using items by (cases kts) (auto simp: list_all2_Cons1)
    define indent where "indent = (if fmt then replicate d' (CHR 0x09) else [])"
    obtain tl where tl: "members_text fmt d' kts = indent @ quoted (Some k0) @ tl" by (auto simp: k0 indent_def)
    have r1s: "rest b1 = CHR ''{'' # (nl @ indent) @ quoted (Some k0) @ tl @ ws2 @ CHR ''}'' # r" using r1(1) tl by simp
    have w: "\<forall>c \<in> set (nl @ indent). of_char c \<le> (32 :: nat)" using wn by (auto simp: indent_def)
    have b2: "b2 = advance (1 + length (nl @ indent)) b1" "rest b2 = quoted (Some k0) @ tl @ ws2 @ CHR ''}'' # r"
      using skip_to [OF r1s w] by (simp_all add: b2_def quoted_def)
    have acc: "can_access_at_index b2 0" "\<not> looking_at b2 (CHR ''}'')" using rest_facts(1,3) [of b2] b2(2) by (auto simp: quoted_def)
    have a1: "can_access_at_index b1 1" using arg_cong [OF r1s, of length] by (auto simp: can_access_at_index_def rest_def quoted_def)
    have nx: "advance 1 before = b2" using b2(1) by (simp add: before_def advance_def)
    have "buffer_skip_whitespace b2 = b2" using skip_none [of b2] b2(2) by (simp add: quoted_def)
    then have sm: "buffer_skip_whitespace (advance 1 before) = buffer_skip_whitespace (advance 1 b1)" using nx b2_def by simp
    have "can_access_at_index before 1" using acc(1) b2(1) by (simp add: before_def can_access_at_index_def advance_def)
    note same = parse_members_same [OF sm this a1]
    have ln: "length kts \<le> length (pb_content b)" using members_text_length [of kts fmt d'] arg_cong [OF b, of length] by (simp add: rest_def)
    have "0 < length kts" using False by simp
    then obtain m where m: "length (pb_content b) = Suc m" using ln by (cases "length (pb_content b)") auto
    define b3 where "b3 = advance (1 + length nl + length (members_text fmt d' kts) + length ws2) b1"
    have pm: "parse_members (length (pb_content b)) pv [] before = pdone ([] @ its) b3"
      unfolding m same b3_def unfolding m [symmetric] by (rule parse_members_reads [OF items False ln r1(2) r1(1) wn w2])
    have "rest b3 = CHR ''}'' # r" using rest_advance [of b1 "CHR ''{'' # nl @ members_text fmt d' kts @ ws2"] r1(1) by (simp add: b3_def add_ac)
    then have "looking_at b3 (CHR ''}'')" using rest_facts(3) by simp
    then show ?thesis using acc d(2) unfolding e pm pdone_bind by (simp add: b3_def advance_def b1_def nl_def add_ac)
  qed
qed

text \<open>Both formats of every item that the parser can return are read back.\<close>

lemma parse_value_reads:
  "cj_wf fo it \<Longrightarrow> readable fo it \<Longrightarrow> cj_height it + d \<le> CJSON_NESTING_LIMIT \<Longrightarrow> CJSON_NESTING_LIMIT < n + d \<Longrightarrow>
     reads d (cj_text fo fmt it d') (unnamed (cj_back fo it)) (parse_value n fo)"
proof (induction it arbitrary: n d d')
  case (Item t vi vd vs s cs)
  obtain m where n: "n = Suc m" using Item.prems(3,4) by (cases n) auto
  have ch: "reads (d + 1) (cj_text fo fmt c (d' + 1)) (unnamed (cj_back fo c)) (parse_value m fo)" if c: "c \<in> set cs" "t = cJSON_Array \<or> t = cJSON_Object" for c
  proof (rule Item.IH [OF c(1)])
    show "cj_wf fo c" "readable fo c" using Item.prems(1,2) c by (auto simp: list_all_iff)
    have "foldr max (map cj_height cs) 0 \<le> CJSON_NESTING_LIMIT - (d + 1) \<and> d + 1 \<le> CJSON_NESTING_LIMIT" using Item.prems(3) c(2) by auto
    then show "cj_height c + (d + 1) \<le> CJSON_NESTING_LIMIT" using c(1) by (auto simp: foldr_max_le)
    show "CJSON_NESTING_LIMIT < m + (d + 1)" using Item.prems(4) n by simp
  qed
  have lt: "d < CJSON_NESTING_LIMIT" if "t = cJSON_Array \<or> t = cJSON_Object" using Item.prems(3) that by auto
  show ?case unfolding reads_def
  proof (intro conjI allI impI)
    have num: "t = cJSON_Number \<Longrightarrow> num_reads fo vd \<and> vi = int_value fo vd" using Item.prems(1,2) by simp
    then have hd_num: "t = cJSON_Number \<Longrightarrow> \<not> fo_special fo vd \<Longrightarrow> numeric fo (number_text fo vi vd)" by (simp add: num_reads_def)
    have spec: "fo_special fo vd \<Longrightarrow> number_text fo vi vd = ''null''" by (simp add: number_text_def)
    have "\<exists>c cs'. cj_text fo fmt (Item t vi vd vs s cs) d' = c # cs' \<and> of_char c > (32 :: nat) \<and> of_char c < (128 :: nat) \<and> c \<noteq> CHR '']''"
    proof (cases t)
      case cJSON_Number
      show ?thesis
      proof (cases "fo_special fo vd")
        case False
        then obtain c cs' where "number_text fo vi vd = c # cs'" "c = CHR ''-'' \<or> c \<in> set ''0123456789''"
          using hd_num [OF cJSON_Number] by (cases "number_text fo vi vd") (auto simp: numeric_def)
        moreover from this(2) have "of_char c > (32 :: nat)" "of_char c < (128 :: nat)" "c \<noteq> CHR '']''" by auto
        ultimately show ?thesis using cJSON_Number by simp
      qed (use cJSON_Number spec in simp)
    next
      case cJSON_String
      then show ?thesis using Item.prems(1) by (auto simp: quoted_def)
    qed (use Item.prems(1) in simp_all)
    then obtain c cs' where c: "cj_text fo fmt (Item t vi vd vs s cs) d' = c # cs'" "of_char c > (32 :: nat)" "of_char c < (128 :: nat)" "c \<noteq> CHR '']''" by blast
    show "cj_text fo fmt (Item t vi vd vs s cs) d' \<noteq> []" "of_char (hd (cj_text fo fmt (Item t vi vd vs s cs) d')) > (32 :: nat)"
      "of_char (hd (cj_text fo fmt (Item t vi vd vs s cs) d')) < (128 :: nat)" "hd (cj_text fo fmt (Item t vi vd vs s cs) d') \<noteq> CHR '']''" unfolding c(1) using c(2-4) by simp_all
    fix b r assume b: "rest b = cj_text fo fmt (Item t vi vd vs s cs) d' @ r" and r: "tail_ok r" and dp: "pb_depth b = d"
    show "parse_value n fo b = pdone (unnamed (cj_back fo (Item t vi vd vs s cs))) (advance (length (cj_text fo fmt (Item t vi vd vs s cs) d')) b)"
    proof (cases t)
      case cJSON_Number
      show ?thesis
      proof (cases "fo_special fo vd")
        case True
        then show ?thesis using parse_value_literal(1) [of b r m fo] b n cJSON_Number spec by (simp add: new_item_def)
      next
        case False
        define s where "s = number_text fo vi vd"
        have ns: "numeric fo s" using hd_num [OF cJSON_Number False] by (simp add: s_def)
        then obtain c cs' where c: "s = c # cs'" "c = CHR ''-'' \<or> c \<in> set ''0123456789''" by (cases s) (auto simp: numeric_def)
        have b': "rest b = s @ r" using b cJSON_Number by (simp add: s_def)
        then have "rest b = c # cs' @ r" using c by simp
        from parse_value_number [OF this c(2), of m fo] have "parse_value n fo b = parse_number fo b" unfolding n .
        then show ?thesis using parse_number_reads [OF ns b' r] num [OF cJSON_Number] False cJSON_Number by (simp add: s_def num_back_def)
      qed
    next
      case cJSON_String
      then obtain x where x: "vs = Some x" "cstr x" using Item.prems(1) by auto
      have "rest b = CHR 0x22 # concat (map escape_text x) @ CHR 0x22 # r" using b cJSON_String x by (simp add: quoted_def)
      from parse_value_dispatch [OF this, of m fo] have "parse_value n fo b =
        bindP (Some (parse_string b)) (\<lambda>s b1. pdone (new_item fo cJSON_String 0 (Some s) []) b1)" unfolding n by simp
      then show ?thesis using parse_string_quoted [OF _ x(2)] b cJSON_String x Item.prems(1) by (simp add: pdone_bind new_item_def)
    next
      case cJSON_Array
      define ts where "ts = map (\<lambda>f. f (d' + 1)) (map (cj_text fo fmt) cs)"
      have wf: "\<forall>c \<in> set cs. unnamed (cj_back fo c) = cj_back fo c" "vi = 0" "vd = fo_zero fo" "vs = None" using Item.prems(1) cJSON_Array by (auto simp: list_all_iff unnamed_None)
      have items: "list_all2 (\<lambda>s it. reads (d + 1) s it (parse_value m fo)) ts (map (cj_back fo) cs)"
        using ch wf(1) cJSON_Array by (auto simp: ts_def list_all2_map1 list_all2_map2 list_all2_same)
      have b': "rest b = (''['' @ join_text fmt ts @ '']'') @ r" using b cJSON_Array by (simp add: ts_def)
      then have "rest b = CHR ''['' # (join_text fmt ts @ '']'') @ r" by simp
      from parse_value_dispatch [OF this, of m fo] have "parse_value n fo b = parse_array fo (parse_value m fo) b" unfolding n by simp
      then show ?thesis using parse_array_reads [OF items lt dp b', of fo] cJSON_Array wf by (simp add: ts_def new_item_def)
    next
      case cJSON_Object
      define kts where "kts = zip (map item_string cs) (map (\<lambda>f. f (d' + 1)) (map (cj_text fo fmt) cs))"
      define ws2 where "ws2 = (if fmt then replicate d' (CHR 0x09) else [])"
      have wf: "\<forall>c \<in> set cs. item_string c \<noteq> None \<and> cstr (the (item_string c))" "vi = 0" "vd = fo_zero fo" "vs = None"
        using Item.prems(1) cJSON_Object by (auto simp: list_all_iff)
      have items: "list_all2 (\<lambda>(k, s) it. item_string it = k \<and> k \<noteq> None \<and> cstr (the k) \<and> reads (d + 1) s (unnamed it) (parse_value m fo)) kts (map (cj_back fo) cs)"
        using ch wf(1) cJSON_Object by (auto simp: kts_def zip_map_map zip_same_conv_map list_all2_map1 list_all2_map2 list_all2_same)
      have b': "rest b = (''{'' @ (if fmt then [CHR 0x0A] else []) @ members_text fmt (d' + 1) kts @ ws2 @ ''}'') @ r"
        using b cJSON_Object by (simp add: kts_def ws2_def)
      have w: "\<forall>c \<in> set ws2. of_char c \<le> (32 :: nat)" by (auto simp: ws2_def)
      have "rest b = CHR ''{'' # ((if fmt then [CHR 0x0A] else []) @ members_text fmt (d' + 1) kts @ ws2 @ ''}'') @ r" using b' by simp
      from parse_value_dispatch [OF this, of m fo] have "parse_value n fo b = parse_object fo (parse_value m fo) b" unfolding n by simp
      then show ?thesis using parse_object_reads [OF items lt dp w b', of fo] cJSON_Object wf by (simp add: kts_def ws2_def new_item_def)
    next
      case cJSON_NULL
      then show ?thesis using parse_value_literal(1) [of b r m fo] b Item.prems(1) n by (simp add: new_item_def)
    next
      case cJSON_False
      then show ?thesis using parse_value_literal(2) [of b r m fo] b Item.prems(1) n by (simp add: new_item_def)
    next
      case cJSON_True
      then show ?thesis using parse_value_literal(3) [of b r m fo] b Item.prems(1) n by (simp add: new_item_def)
    qed (use Item.prems(1) in simp_all)
  qed
qed

lemma parse_text_back:
  assumes "cj_wf fo it" "readable fo it" "item_string it = None" "cj_height it \<le> CJSON_NESTING_LIMIT"
  shows "cJSON_Parse fo (Some (cj_text fo fmt it 0)) = Some (Inr (Some (cj_back fo it), Some (length (cj_text fo fmt it 0))))"
proof -
  define s where "s = cj_text fo fmt it 0"
  define b where "b = \<lparr>pb_content = s @ [NUL], pb_offset = 0, pb_depth = 0\<rparr>"
  have rd: "reads 0 s (unnamed (cj_back fo it)) (parse_value (CJSON_NESTING_LIMIT + 1) fo)"
    unfolding s_def by (rule parse_value_reads [OF assms(1,2)]) (use assms(4) in simp_all)
  then obtain c cs where c: "s = c # cs" "of_char c > (32 :: nat)" "of_char c < (128 :: nat)" by (cases s) (auto simp: reads_def)
  then have "c \<noteq> CHR 0xEF" by auto
  then have bom: "skip_utf8_bom b = Some b" using c(1) by (simp add: skip_utf8_bom_def b_def)
  have r: "rest b = s @ [NUL]" by (simp add: rest_def b_def)
  have sk: "buffer_skip_whitespace b = b" using skip_none [of b c] r c by simp
  have "parse_value (CJSON_NESTING_LIMIT + 1) fo b = pdone (unnamed (cj_back fo it)) (advance (length s) b)"
    using rd r tail_sep(5) [of "[]"] by (simp add: reads_def b_def)
  then have pv: "parse_value (CJSON_NESTING_LIMIT + 1) fo b = pdone (cj_back fo it) (advance (length s) b)" using unnamed_None [of "cj_back fo it"] assms(3) by simp
  have "cJSON_ParseWithLengthOpts fo (Some (s @ [NUL])) False = Some (Inr (Some (cj_back fo it), Some (length s)))"
    unfolding cJSON_ParseWithLengthOpts_def option.case Let_def b_def [symmetric] bom sk pv sum.case prod.case by (simp add: b_def)
  then show ?thesis by (simp add: cJSON_Parse_def cJSON_ParseWithOpts_def s_def)
qed

lemma parse_text:
  assumes "cj_wf fo it" "exact fo it" "item_string it = None" "cj_height it \<le> CJSON_NESTING_LIMIT"
  shows "cJSON_Parse fo (Some (cj_text fo fmt it 0)) = Some (Inr (Some it, Some (length (cj_text fo fmt it 0))))"
  using parse_text_back [OF assms(1) exact_back(1) assms(3,4)] exact_back(2) assms(1,2) by metis

text \<open>
  C13. The text that is printed for an item of the form the parser returns, formatted or not, is parsed with every byte used, to
  the item in which every infinite number or NaN has become null and every other number is the one that \<open>strtod\<close> reads
  from its text: the number itself, an equal one, or one so close to it that the printer was content with 15 digits.  All
  else is as it was, with any bytes but zero in strings and keys, quotes, backslashes and control characters included, for any nesting up to
  the limit.  If \<open>strtod\<close> recovers all numbers from their texts, it is the same item.
\<close>

theorem cJSON_print_parse:
  assumes "cj_wf fo it" "c_numbers fo it" "item_string it = None" "printable fo it" "cj_height it \<le> CJSON_NESTING_LIMIT"
    and "\<forall>m. hk_alloc hk m" "length (cj_text fo fmt it 0) + 2 \<le> IMAX"
  shows "\<exists>s. print_item fo hk fmt it = Inr (Some (block_of (s @ [NUL]))) \<and>
      cJSON_Parse fo (Some s) = Some (Inr (Some (cj_back fo it), Some (length s))) \<and> (exact fo it \<longrightarrow> cj_back fo it = it) \<and>
      (\<forall>d. c_number fo d \<and> \<not> fo_special fo d \<longrightarrow> num_back fo d = d \<or> fo_eq fo (num_back fo d) d \<or> compare_double fo (num_back fo d) d)"
proof -
  have "cJSON_Parse fo (Some (cj_text fo fmt it 0)) = Some (Inr (Some (cj_back fo it), Some (length (cj_text fo fmt it 0))))"
    by (rule parse_text_back [OF assms(1) c_numbers_readable [OF assms(2)] assms(3,5)])
  moreover have "print_item fo hk fmt it = Inr (Some (block_of (cj_text fo fmt it 0 @ [NUL])))"
    using print_item_spec [OF assms(4), of hk fmt] assms(5-7) by blast
  ultimately show ?thesis using exact_back(2) [OF _ assms(1)] num_back_close [of fo] by (intro exI [of _ "cj_text fo fmt it 0"]) simp
qed

text \<open>Numbers in tenths: a text with the digits in front of the point loses the last one.\<close>

definition tenth_ops :: "int float_ops" where
  "tenth_ops = int_ops\<lparr>fo_of_int := (\<lambda>i. 10 * i), fo_to_int := (\<lambda>d. d div 10), fo_epsilon := 1,
     fo_strtod := (\<lambda>s. (if s = ''4.3'' then 43 else if s = ''7'' then 70 else 40, length s)),
     fo_g15 := (\<lambda>d. ''4''), fo_g17 := (\<lambda>d. if d = 43 then ''4.3'' else if d = 70 then ''7'' else ''4'')\<rparr>"

theorem cJSON_print_parse_witness:
  "\<exists>s. print_item tenth_ops sample_hooks True
       (Item cJSON_Array 0 0 None None [Item cJSON_Number 4 43 None None [], Item cJSON_String 0 0 (Some [CHR 0x22]) None []]) =
       Inr (Some (block_of (s @ [NUL]))) \<and>
     cJSON_Parse tenth_ops (Some s) = Some (Inr (Some
       (Item cJSON_Array 0 0 None None [Item cJSON_Number 4 40 None None [], Item cJSON_String 0 0 (Some [CHR 0x22]) None []]), Some (length s)))"
proof -
  let ?it = "Item cJSON_Array 0 0 None None [Item cJSON_Number 4 43 None None [], Item cJSON_String 0 0 (Some [CHR 0x22]) None []]"
  have v: "int_value tenth_ops 43 = 4" "int_value tenth_ops 40 = 4" by (simp_all add: tenth_ops_def int_ops_def int_value_def INT_MAX_def INT_MIN_def)
  have t: "number_text tenth_ops 4 43 = ''4''" by (simp add: number_text_def tenth_ops_def int_ops_def compare_double_def)
  have b: "num_back tenth_ops 43 = 40" unfolding num_back_def v(1) t by (simp add: tenth_ops_def int_ops_def)
  have ns: "numeric tenth_ops ''4''" "numeric tenth_ops ''4.3''" by (simp_all add: numeric_def tenth_ops_def int_ops_def number_char_def)
  have "c_number tenth_ops 43" using ns v by (simp add: c_number_def) (simp add: tenth_ops_def int_ops_def)
  moreover have "cj_wf tenth_ops ?it" using v by (simp add: cstr_def) (simp add: tenth_ops_def int_ops_def)
  moreover have "printable tenth_ops ?it" using t by (simp add: cstr_def)
  moreover have "length (cj_text tenth_ops True ?it 0) + 2 \<le> IMAX" using t by (simp add: quoted_def escape_text_def)
  moreover have "cj_back tenth_ops ?it =
      Item cJSON_Array 0 0 None None [Item cJSON_Number 4 40 None None [], Item cJSON_String 0 0 (Some [CHR 0x22]) None []]"
    using v b by (simp add: tenth_ops_def int_ops_def)
  ultimately show ?thesis using cJSON_print_parse [of tenth_ops ?it sample_hooks True] by (auto simp: sample_hooks_def)
qed

section \<open>Invalid escape sequences\<close>

lemma scan_string_plain:
  "drop q content = xs @ r \<Longrightarrow> CHR 0x22 \<notin> set xs \<Longrightarrow> CHR 0x5C \<notin> set xs \<Longrightarrow>
     scan_string content q s = scan_string content (q + length xs) s"
proof (induction xs arbitrary: q)
  case (Cons x xs)
  note n = drop_nth [of q content x "xs @ r"]
  have "scan_string content q s = scan_string content (q + 1) s" using n Cons.prems by (subst scan_string.simps) auto
  then show ?case using Cons.IH [of "q + 1"] n Cons.prems by simp
qed simp

lemma hex4_loop_invalid: "x \<in> set xs \<Longrightarrow> hex_val x = None \<Longrightarrow> hex4_loop h xs = 0"
  by (induction xs arbitrary: h) (auto split: option.splits)

text \<open>
  C20. An escape sequence whose four characters are not hexadecimal digits is not an error: it is read as the character
  zero, and the string ends there for every reader of the item.  Whatever follows it in the text is lost.
\<close>

theorem parse_string_invalid_hex:
  assumes "rest b = CHR 0x22 # CHR 0x5C # CHR ''u'' # xs @ concat (map escape_text t) @ CHR 0x22 # r"
    and "length xs = 4" "CHR 0x22 \<notin> set xs" "CHR 0x5C \<notin> set xs" "x \<in> set xs" "hex_val x = None"
  shows "parse_string b = Inr (Some [], advance (8 + length (concat (map escape_text t))) b)"
proof -
  define o1 where "o1 = pb_offset b + 1"
  define tl where "tl = concat (map escape_text t) @ CHR 0x22 # r"
  have d0: "drop (pb_offset b) (pb_content b) = CHR 0x22 # CHR 0x5C # CHR ''u'' # xs @ tl" using assms(1) by (simp add: rest_def tl_def)
  have c: "byte_at b 0 = Inr (CHR 0x22)" using rest_facts(4) assms(1) by simp
  note d1 = drop_nth [OF d0, folded o1_def]
  note d2 = drop_nth [OF conjunct2 [OF conjunct2 [OF d1]]]
  note d3 = drop_nth [OF conjunct2 [OF conjunct2 [OF d2]]]
  have dx: "drop (o1 + 2) (pb_content b) = xs @ tl" using d3 by simp
  have dt: "drop (o1 + 6) (pb_content b) = tl" using arg_cong [OF dx, of "drop 4"] assms(2) by (simp add: add.commute)
  define e where "e = o1 + 6 + length (concat (map escape_text t))"
  have "scan_string (pb_content b) o1 0 = scan_string (pb_content b) (o1 + 2) 1" using d2 d3 by (subst scan_string.simps) simp
  also have "\<dots> = scan_string (pb_content b) (o1 + 6) 1" using scan_string_plain [OF dx assms(3,4), of 1] assms(2) by (simp add: add.commute)
  also have "\<dots> = Some (e, 1 + sum_list (map esc_count t))" using scan_string_escaped [of "o1 + 6" "pb_content b" t r 1] dt by (simp add: tl_def e_def)
  finally have s: "scan_string (pb_content b) o1 0 = Some (e, 1 + sum_list (map esc_count t))" .
  define cap where "cap = e - pb_offset b - (1 + sum_list (map esc_count t)) + 1"
  have cap: "length t + 3 \<le> cap" using esc_count_le [of t] by (simp add: cap_def e_def o1_def)
  have "take 4 (drop (o1 + 2) (pb_content b)) = xs" using dx assms(2) by simp
  then have "parse_hex4 (drop (o1 + 2) (pb_content b)) = 0" using hex4_loop_invalid [OF assms(5,6)] by (simp add: parse_hex4_def)
  then have u: "utf16_literal_to_utf8 (pb_content b) o1 e = Some ([NUL], 6)" by (simp add: utf16_literal_to_utf8_def utf8_encode_ascii e_def char_of_eq_iff)
  have "unescape (pb_content b) e cap o1 [] = unescape (pb_content b) e cap (o1 + 6) [NUL]"
    using d2 d3 u cap by (subst unescape.simps) (simp add: escape_char_def e_def)
  also have "\<dots> = Inr (Some ([NUL] @ t), e)" using cap dt by (intro unescape_escaped [of _ _ _ r]) (simp_all add: tl_def e_def)
  finally have un: "unescape (pb_content b) e cap o1 [] = Inr (Some ([NUL] @ t), e)" .
  have "parse_string b = Inr (Some (cstring ([NUL] @ t)), b\<lparr>pb_offset := e + 1\<rparr>)"
    unfolding parse_string_def Let_def o1_def [symmetric] c bindR.simps s option.case prod.case cap_def [symmetric] un by simp
  then show ?thesis by (simp add: advance_def e_def o1_def cstring_def add_ac)
qed

theorem parse_string_invalid_hex_witness:
  "\<exists>b b'. pb_content b = [CHR 0x22, CHR 0x5C] @ ''uzzzzkept'' @ [CHR 0x22, NUL] \<and> parse_string b = Inr (Some [], b')"
proof -
  define b where "b = \<lparr>pb_content = [CHR 0x22, CHR 0x5C] @ ''uzzzzkept'' @ [CHR 0x22, NUL], pb_offset = 0, pb_depth = 0\<rparr>"
  have "rest b = CHR 0x22 # CHR 0x5C # CHR ''u'' # ''zzzz'' @ concat (map escape_text ''kept'') @ CHR 0x22 # [NUL]"
    by (simp add: rest_def b_def escape_text_def)
  from parse_string_invalid_hex [OF this, of "CHR ''z''"]
  have "parse_string b = Inr (Some [], advance (8 + length (concat (map escape_text ''kept''))) b)" by (simp add: hex_val_def)
  moreover have "pb_content b = [CHR 0x22, CHR 0x5C] @ ''uzzzzkept'' @ [CHR 0x22, NUL]" by (simp add: b_def)
  ultimately show ?thesis by blast
qed

end
