(* ===== verification/CJson_Tree.thy ===== *)
theory CJson_Tree
  imports CJson_Correct
begin

text \<open>
  The functions of \<open>src/vendor/cjson/cJSON.c\<close> that look into items, create them, put them together, take them apart, copy them and
  strip white space from texts.  A pointer that may be null is an option.  A function that changes an item returns the
  changed item; that an item may not be added to itself concerns pointers and has no counterpart for values.  The copied
  strings and items are owned by their items, so that the flags for references are left out.
\<close>

section \<open>Looking into items\<close>

definition case_insensitive_equal :: "string option \<Rightarrow> string option \<Rightarrow> bool" where
  "case_insensitive_equal a b = (case (a, b) of (Some x, Some y) \<Rightarrow> map tolower x = map tolower y | _ \<Rightarrow> False)"

definition cJSON_GetArraySize :: "'d cJSON option \<Rightarrow> int" where
  "cJSON_GetArraySize arr = (case arr of None \<Rightarrow> 0 | Some it \<Rightarrow> sint (word_of_nat (length (child it)) :: 32 word))"

fun nth_child :: "'d cJSON list \<Rightarrow> nat \<Rightarrow> 'd cJSON option" where
  "nth_child [] index = None"
| "nth_child (c # cs) 0 = Some c"
| "nth_child (c # cs) (Suc index) = nth_child cs index"

definition get_array_item :: "'d cJSON option \<Rightarrow> nat \<Rightarrow> 'd cJSON option" where
  "get_array_item arr index = (case arr of None \<Rightarrow> None | Some it \<Rightarrow> nth_child (child it) index)"

definition cJSON_GetArrayItem :: "'d cJSON option \<Rightarrow> int \<Rightarrow> 'd cJSON option" where
  "cJSON_GetArrayItem arr index = (if index < 0 then None else get_array_item arr (nat index))"

text \<open>The search stops at a child without a key when it respects case, and passes it otherwise.\<close>

fun find_child :: "bool \<Rightarrow> string \<Rightarrow> 'd cJSON list \<Rightarrow> 'd cJSON option" where
  "find_child case_sensitive name [] = None"
| "find_child case_sensitive name (c # cs) =
     (if case_sensitive
      then (case item_string c of None \<Rightarrow> None | Some k \<Rightarrow> if k = name then Some c else find_child case_sensitive name cs)
      else if case_insensitive_equal (Some name) (item_string c) then Some c
      else find_child case_sensitive name cs)"

definition get_object_child :: "'d cJSON option \<Rightarrow> string option \<Rightarrow> bool \<Rightarrow> 'd cJSON option" where
  "get_object_child obj name case_sensitive =
     (case (obj, name) of (Some it, Some k) \<Rightarrow> find_child case_sensitive k (child it) | _ \<Rightarrow> None)"

definition cJSON_GetObjectItem :: "'d cJSON option \<Rightarrow> string option \<Rightarrow> 'd cJSON option" where
  "cJSON_GetObjectItem obj name = get_object_child obj name False"

definition cJSON_GetObjectItemCaseSensitive :: "'d cJSON option \<Rightarrow> string option \<Rightarrow> 'd cJSON option" where
  "cJSON_GetObjectItemCaseSensitive obj name = get_object_child obj name True"

definition cJSON_HasObjectItem :: "'d cJSON option \<Rightarrow> string option \<Rightarrow> bool" where
  "cJSON_HasObjectItem obj name \<longleftrightarrow> cJSON_GetObjectItem obj name \<noteq> None"

definition has_type :: "cJSON_type set \<Rightarrow> 'd cJSON option \<Rightarrow> bool" where
  "has_type ts item = (case item of None \<Rightarrow> False | Some it \<Rightarrow> item_type it \<in> ts)"

definition cJSON_IsInvalid :: "'d cJSON option \<Rightarrow> bool" where "cJSON_IsInvalid = has_type {cJSON_Invalid}"
definition cJSON_IsFalse :: "'d cJSON option \<Rightarrow> bool" where "cJSON_IsFalse = has_type {cJSON_False}"
definition cJSON_IsTrue :: "'d cJSON option \<Rightarrow> bool" where "cJSON_IsTrue = has_type {cJSON_True}"
definition cJSON_IsBool :: "'d cJSON option \<Rightarrow> bool" where "cJSON_IsBool = has_type {cJSON_True, cJSON_False}"
definition cJSON_IsNull :: "'d cJSON option \<Rightarrow> bool" where "cJSON_IsNull = has_type {cJSON_NULL}"
definition cJSON_IsNumber :: "'d cJSON option \<Rightarrow> bool" where "cJSON_IsNumber = has_type {cJSON_Number}"
definition cJSON_IsString :: "'d cJSON option \<Rightarrow> bool" where "cJSON_IsString = has_type {cJSON_String}"
definition cJSON_IsArray :: "'d cJSON option \<Rightarrow> bool" where "cJSON_IsArray = has_type {cJSON_Array}"
definition cJSON_IsObject :: "'d cJSON option \<Rightarrow> bool" where "cJSON_IsObject = has_type {cJSON_Object}"
definition cJSON_IsRaw :: "'d cJSON option \<Rightarrow> bool" where "cJSON_IsRaw = has_type {cJSON_Raw}"

definition cJSON_GetStringValue :: "'d cJSON option \<Rightarrow> string option" where
  "cJSON_GetStringValue item = (if \<not> cJSON_IsString item then None else valuestring (the item))"

definition cJSON_GetNumberValue :: "'d \<Rightarrow> 'd cJSON option \<Rightarrow> 'd" where
  "cJSON_GetNumberValue nan item = (if \<not> cJSON_IsNumber item then nan else valuedouble (the item))"

section \<open>Creating items\<close>

definition cJSON_CreateNull :: "'d float_ops \<Rightarrow> 'd cJSON" where "cJSON_CreateNull fo = new_item fo cJSON_NULL 0 None []"
definition cJSON_CreateTrue :: "'d float_ops \<Rightarrow> 'd cJSON" where "cJSON_CreateTrue fo = new_item fo cJSON_True 0 None []"
definition cJSON_CreateFalse :: "'d float_ops \<Rightarrow> 'd cJSON" where "cJSON_CreateFalse fo = new_item fo cJSON_False 0 None []"
definition cJSON_CreateBool :: "'d float_ops \<Rightarrow> bool \<Rightarrow> 'd cJSON" where
  "cJSON_CreateBool fo boolean = new_item fo (if boolean then cJSON_True else cJSON_False) 0 None []"
definition cJSON_CreateNumber :: "'d float_ops \<Rightarrow> 'd \<Rightarrow> 'd cJSON" where
  "cJSON_CreateNumber fo num = Item cJSON_Number (int_value fo num) num None None []"
definition cJSON_CreateString :: "'d float_ops \<Rightarrow> string option \<Rightarrow> 'd cJSON option" where
  "cJSON_CreateString fo s = (if s = None then None else Some (new_item fo cJSON_String 0 s []))"
definition cJSON_CreateRaw :: "'d float_ops \<Rightarrow> string option \<Rightarrow> 'd cJSON option" where
  "cJSON_CreateRaw fo raw = (if raw = None then None else Some (new_item fo cJSON_Raw 0 raw []))"
definition cJSON_CreateArray :: "'d float_ops \<Rightarrow> 'd cJSON" where "cJSON_CreateArray fo = new_item fo cJSON_Array 0 None []"
definition cJSON_CreateObject :: "'d float_ops \<Rightarrow> 'd cJSON" where "cJSON_CreateObject fo = new_item fo cJSON_Object 0 None []"

text \<open>The loop over a C array of \<open>count\<close> entries; an array that is shorter is read outside.\<close>

definition create_array :: "'d float_ops \<Rightarrow> ('a \<Rightarrow> 'd cJSON option) \<Rightarrow> 'a list option \<Rightarrow> int \<Rightarrow> 'd cJSON option result" where
  "create_array fo create xs count =
     (case xs of
        None \<Rightarrow> Inr None
      | Some xs \<Rightarrow>
          if count < 0 then Inr None
          else if nat count > length xs then Inl OutOfBounds
          else let cs = map create (take (nat count) xs) in
               Inr (if None \<in> set cs then None else Some (new_item fo cJSON_Array 0 None (map the cs))))"

definition cJSON_CreateIntArray :: "'d float_ops \<Rightarrow> int list option \<Rightarrow> int \<Rightarrow> 'd cJSON option result" where
  "cJSON_CreateIntArray fo = create_array fo (\<lambda>i. Some (cJSON_CreateNumber fo (fo_of_int fo i)))"
definition cJSON_CreateDoubleArray :: "'d float_ops \<Rightarrow> 'd list option \<Rightarrow> int \<Rightarrow> 'd cJSON option result" where
  "cJSON_CreateDoubleArray fo = create_array fo (\<lambda>d. Some (cJSON_CreateNumber fo d))"
definition cJSON_CreateStringArray :: "'d float_ops \<Rightarrow> string option list option \<Rightarrow> int \<Rightarrow> 'd cJSON option result" where
  "cJSON_CreateStringArray fo = create_array fo (cJSON_CreateString fo)"

section \<open>Editing items\<close>

primrec with_child :: "'d cJSON list \<Rightarrow> 'd cJSON \<Rightarrow> 'd cJSON" where
  "with_child cs' (Item t vi vd vs s cs) = Item t vi vd vs s cs'"

definition add_item_to_array :: "'d cJSON option \<Rightarrow> 'd cJSON option \<Rightarrow> 'd cJSON option" where
  "add_item_to_array arr item =
     (case (arr, item) of (Some a, Some it) \<Rightarrow> Some (with_child (child a @ [it]) a) | _ \<Rightarrow> None)"

definition cJSON_AddItemToArray :: "'d cJSON option \<Rightarrow> 'd cJSON option \<Rightarrow> 'd cJSON option" where
  "cJSON_AddItemToArray = add_item_to_array"

definition add_item_to_object :: "'d cJSON option \<Rightarrow> string option \<Rightarrow> 'd cJSON option \<Rightarrow> 'd cJSON option" where
  "add_item_to_object obj name item =
     (case (obj, name, item) of (Some ob, Some k, Some it) \<Rightarrow> add_item_to_array (Some ob) (Some (named k it)) | _ \<Rightarrow> None)"

definition cJSON_AddItemToObject :: "'d cJSON option \<Rightarrow> string option \<Rightarrow> 'd cJSON option \<Rightarrow> 'd cJSON option" where
  "cJSON_AddItemToObject = add_item_to_object"

text \<open>The nine functions that create an item and add it; the result is the changed object.\<close>

definition cJSON_AddNullToObject :: "'d float_ops \<Rightarrow> 'd cJSON option \<Rightarrow> string option \<Rightarrow> 'd cJSON option" where
  "cJSON_AddNullToObject fo obj name = add_item_to_object obj name (Some (cJSON_CreateNull fo))"
definition cJSON_AddTrueToObject :: "'d float_ops \<Rightarrow> 'd cJSON option \<Rightarrow> string option \<Rightarrow> 'd cJSON option" where
  "cJSON_AddTrueToObject fo obj name = add_item_to_object obj name (Some (cJSON_CreateTrue fo))"
definition cJSON_AddFalseToObject :: "'d float_ops \<Rightarrow> 'd cJSON option \<Rightarrow> string option \<Rightarrow> 'd cJSON option" where
  "cJSON_AddFalseToObject fo obj name = add_item_to_object obj name (Some (cJSON_CreateFalse fo))"
definition cJSON_AddBoolToObject :: "'d float_ops \<Rightarrow> 'd cJSON option \<Rightarrow> string option \<Rightarrow> bool \<Rightarrow> 'd cJSON option" where
  "cJSON_AddBoolToObject fo obj name boolean = add_item_to_object obj name (Some (cJSON_CreateBool fo boolean))"
definition cJSON_AddNumberToObject :: "'d float_ops \<Rightarrow> 'd cJSON option \<Rightarrow> string option \<Rightarrow> 'd \<Rightarrow> 'd cJSON option" where
  "cJSON_AddNumberToObject fo obj name num = add_item_to_object obj name (Some (cJSON_CreateNumber fo num))"
definition cJSON_AddStringToObject :: "'d float_ops \<Rightarrow> 'd cJSON option \<Rightarrow> string option \<Rightarrow> string option \<Rightarrow> 'd cJSON option" where
  "cJSON_AddStringToObject fo obj name s = add_item_to_object obj name (cJSON_CreateString fo s)"
definition cJSON_AddRawToObject :: "'d float_ops \<Rightarrow> 'd cJSON option \<Rightarrow> string option \<Rightarrow> string option \<Rightarrow> 'd cJSON option" where
  "cJSON_AddRawToObject fo obj name raw = add_item_to_object obj name (cJSON_CreateRaw fo raw)"
definition cJSON_AddObjectToObject :: "'d float_ops \<Rightarrow> 'd cJSON option \<Rightarrow> string option \<Rightarrow> 'd cJSON option" where
  "cJSON_AddObjectToObject fo obj name = add_item_to_object obj name (Some (cJSON_CreateObject fo))"
definition cJSON_AddArrayToObject :: "'d float_ops \<Rightarrow> 'd cJSON option \<Rightarrow> string option \<Rightarrow> 'd cJSON option" where
  "cJSON_AddArrayToObject fo obj name = add_item_to_object obj name (Some (cJSON_CreateArray fo))"

text \<open>Taking out and replacing by position; the detached item comes with the changed parent.\<close>

definition cJSON_DetachItemFromArray :: "'d cJSON option \<Rightarrow> int \<Rightarrow> ('d cJSON \<times> 'd cJSON) option" where
  "cJSON_DetachItemFromArray arr which =
     (if which < 0 then None
      else case (arr, get_array_item arr (nat which)) of
             (Some a, Some it) \<Rightarrow> Some (it, with_child (take (nat which) (child a) @ drop (Suc (nat which)) (child a)) a)
           | _ \<Rightarrow> None)"

definition cJSON_DeleteItemFromArray :: "'d cJSON option \<Rightarrow> int \<Rightarrow> 'd cJSON option" where
  "cJSON_DeleteItemFromArray arr which = (case cJSON_DetachItemFromArray arr which of None \<Rightarrow> arr | Some (it, a) \<Rightarrow> Some a)"

definition cJSON_InsertItemInArray :: "'d cJSON option \<Rightarrow> int \<Rightarrow> 'd cJSON option \<Rightarrow> 'd cJSON option" where
  "cJSON_InsertItemInArray arr which newitem =
     (if which < 0 then None
      else case newitem of
             None \<Rightarrow> None
           | Some it \<Rightarrow>
               (case (arr, get_array_item arr (nat which)) of
                  (Some a, Some after_inserted) \<Rightarrow> Some (with_child (take (nat which) (child a) @ it # drop (nat which) (child a)) a)
                | _ \<Rightarrow> add_item_to_array arr newitem))"

definition cJSON_ReplaceItemInArray :: "'d cJSON option \<Rightarrow> int \<Rightarrow> 'd cJSON option \<Rightarrow> 'd cJSON option" where
  "cJSON_ReplaceItemInArray arr which newitem =
     (if which < 0 then None
      else case (arr, get_array_item arr (nat which), newitem) of
             (Some a, Some it, Some n) \<Rightarrow> Some (with_child ((child a)[nat which := n]) a)
           | _ \<Rightarrow> None)"

section \<open>Copying\<close>

abbreviation CJSON_CIRCULAR_LIMIT :: nat where "CJSON_CIRCULAR_LIMIT \<equiv> 10000"

primrec cJSON_Duplicate_rec :: "'d cJSON \<Rightarrow> nat \<Rightarrow> bool \<Rightarrow> 'd cJSON option" where
  "cJSON_Duplicate_rec (Item t vi vd vs s cs) =
     (\<lambda>depth recurse.
        if \<not> recurse then Some (Item t vi vd vs s [])
        else if cs \<noteq> [] \<and> depth \<ge> CJSON_CIRCULAR_LIMIT then None
        else let copies = map (\<lambda>f. f (depth + 1) True) (map cJSON_Duplicate_rec cs) in
             if None \<in> set copies then None else Some (Item t vi vd vs s (map the copies)))"

definition cJSON_Duplicate :: "'d cJSON option \<Rightarrow> bool \<Rightarrow> 'd cJSON option" where
  "cJSON_Duplicate item recurse = (case item of None \<Rightarrow> None | Some it \<Rightarrow> cJSON_Duplicate_rec it 0 recurse)"

section \<open>Stripping white space\<close>

text \<open>The texts are C strings; the output is written into the same memory, never in front of the place that is read.\<close>

fun skip_oneline_comment :: "string \<Rightarrow> string" where
  "skip_oneline_comment [] = []"
| "skip_oneline_comment (c # s) = (if c = CHR 0x0A then s else skip_oneline_comment s)"

fun skip_multiline_comment :: "string \<Rightarrow> string" where
  "skip_multiline_comment [] = []"
| "skip_multiline_comment (c # s) =
     (if c = CHR ''*'' \<and> s \<noteq> [] \<and> hd s = CHR ''/'' then tl s else skip_multiline_comment s)"

text \<open>Behind the opening quote: what is copied, and the rest of the text.\<close>

function minify_string :: "string \<Rightarrow> string \<times> string" where
  "minify_string [] = ([], [])"
| "minify_string (c # s) =
     (if c = CHR 0x22 then ([c], s)
      else if c = CHR 0x5C \<and> s \<noteq> [] \<and> hd s = CHR 0x22
      then (let (out, r) = minify_string (tl s) in (c # CHR 0x22 # out, r))
      else (let (out, r) = minify_string s in (c # out, r)))"
  by pat_completeness auto
termination
  by (relation "measure length") auto

lemma skip_oneline_length: "length (skip_oneline_comment s) \<le> length s"
  by (induction s) auto

lemma skip_multiline_length: "length (skip_multiline_comment s) \<le> length s"
  by (induction s) auto

lemma minify_string_length: "length (snd (minify_string s)) \<le> length s"
  by (induction s rule: minify_string.induct) (auto simp: Let_def split: prod.splits)

function cJSON_Minify :: "string \<Rightarrow> string" where
  "cJSON_Minify [] = []"
| "cJSON_Minify (c # s) =
     (if c = CHR '' '' \<or> c = CHR 0x09 \<or> c = CHR 0x0D \<or> c = CHR 0x0A then cJSON_Minify s
      else if c = CHR ''/''
      then (if s \<noteq> [] \<and> hd s = CHR ''/'' then cJSON_Minify (skip_oneline_comment (tl s))
            else if s \<noteq> [] \<and> hd s = CHR ''*'' then cJSON_Minify (skip_multiline_comment (tl s))
            else cJSON_Minify s)
      else if c = CHR 0x22 then (c # fst (minify_string s)) @ cJSON_Minify (snd (minify_string s))
      else c # cJSON_Minify s)"
  by pat_completeness auto
termination
proof (relation "measure length")
  fix s :: string
  show "(skip_oneline_comment (tl s), c # s) \<in> measure length" "(skip_multiline_comment (tl s), c # s) \<in> measure length" for c
    using skip_oneline_length [of "tl s"] skip_multiline_length [of "tl s"] by simp_all
  show "(snd (minify_string s), c # s) \<in> measure length" for c using minify_string_length [of s] by simp
qed auto

section \<open>Copies and lookups\<close>

primrec full_height :: "'d cJSON \<Rightarrow> nat" where
  "full_height (Item t vi vd vs s cs) = (if cs = [] then 0 else Suc (foldr max (map full_height cs) 0))"

lemma duplicate_rec_same: "full_height it + d \<le> CJSON_CIRCULAR_LIMIT \<Longrightarrow> cJSON_Duplicate_rec it d True = Some it"
proof (induction it arbitrary: d)
  case (Item t vi vd vs s cs)
  have h: "full_height c + (d + 1) \<le> CJSON_CIRCULAR_LIMIT" if "c \<in> set cs" for c
  proof -
    have "cs \<noteq> []" using that by auto
    then have "foldr max (map full_height cs) 0 \<le> CJSON_CIRCULAR_LIMIT - (d + 1) \<and> d + 1 \<le> CJSON_CIRCULAR_LIMIT" using Item.prems by simp
    then show ?thesis using that by (auto simp: foldr_max_le)
  qed
  then have c: "map (\<lambda>f. f (d + 1) True) (map cJSON_Duplicate_rec cs) = map Some cs" using Item.IH by simp
  have "cs \<noteq> [] \<Longrightarrow> d < CJSON_CIRCULAR_LIMIT" using Item.prems by auto
  then show ?case using c by (auto simp: comp_def intro!: map_idI)
qed

text \<open>
  A copy with all its children is equal to its original as long as the nesting stays below the limit, and without them it is the
  item alone.
\<close>

theorem cJSON_Duplicate_correct:
  assumes "full_height it \<le> CJSON_CIRCULAR_LIMIT"
  shows "cJSON_Duplicate (Some it) True = Some it \<and> cJSON_Duplicate (Some it) False = Some (with_child [] it)"
  using duplicate_rec_same [of it 0] assms by (cases it) (simp add: cJSON_Duplicate_def)

lemma child_with_child [simp]: "child (with_child cs it) = cs"
  by (cases it) simp

lemma find_child_append:
  "\<forall>c \<in> set cs. \<not> case_insensitive_equal (Some k) (item_string c) \<Longrightarrow> find_child False k (cs @ [c]) = find_child False k [c]"
  by (induction cs) auto

text \<open>A member that was added is found under its name in any case, when no earlier member has that name.\<close>

theorem cJSON_AddItemToObject_found:
  assumes "\<forall>c \<in> set (child ob). \<not> case_insensitive_equal (Some k') (item_string c)" "map tolower k' = map tolower k"
  shows "cJSON_GetObjectItem (cJSON_AddItemToObject (Some ob) (Some k) (Some it)) (Some k') = Some (named k it)"
  using find_child_append [OF assms(1), of "named k it"] assms(2)
  by (simp add: cJSON_GetObjectItem_def cJSON_AddItemToObject_def add_item_to_object_def add_item_to_array_def get_object_child_def
      case_insensitive_equal_def)

section \<open>Formatted texts without white space\<close>

lemma minify_ws: "c \<in> {CHR '' '', CHR 0x09, CHR 0x0D, CHR 0x0A} \<Longrightarrow> cJSON_Minify (c # s) = cJSON_Minify s"
  by auto

lemma minify_plain: "c \<notin> {CHR '' '', CHR 0x09, CHR 0x0D, CHR 0x0A, CHR ''/'', CHR 0x22} \<Longrightarrow> cJSON_Minify (c # s) = c # cJSON_Minify s"
  by auto

declare cJSON_Minify.simps(2) [simp del]

lemma minify_plains:
  "\<forall>c \<in> set t. c \<notin> {CHR '' '', CHR 0x09, CHR 0x0D, CHR 0x0A, CHR ''/'', CHR 0x22} \<Longrightarrow> cJSON_Minify (t @ s) = t @ cJSON_Minify s"
  by (induction t) (simp_all add: minify_plain)

lemma minify_wss: "\<forall>c \<in> set t. c \<in> {CHR '' '', CHR 0x09, CHR 0x0D, CHR 0x0A} \<Longrightarrow> cJSON_Minify (t @ s) = cJSON_Minify s"
  by (induction t) (simp_all add: minify_ws)

lemma minify_string_plain:
  assumes "c \<noteq> CHR 0x22" "c \<noteq> CHR 0x5C \<or> s \<noteq> [] \<and> hd s \<noteq> CHR 0x22"
  shows "minify_string (c # s) = (c # fst (minify_string s), snd (minify_string s))"
  using assms by (auto simp: Let_def split: prod.splits)

declare minify_string.simps(2) [simp del]

text \<open>Escaped characters pass as they are, unless the last one is a backslash and a quote follows.\<close>

lemma escape_text_hd: "hd (escape_text c @ s) \<noteq> CHR 0x22"
  by (cases c rule: escape_text_cases) simp_all

lemma minify_string_escaped:
  assumes "s \<noteq> []" "hd s \<noteq> CHR 0x22 \<or> t = [] \<or> last t \<noteq> CHR 0x5C"
  shows "minify_string (concat (map escape_text t) @ s) = (concat (map escape_text t) @ fst (minify_string s), snd (minify_string s))"
  using assms(2)
proof (induction t)
  case Nil
  then show ?case by simp
next
  case (Cons c t)
  define z where "z = concat (map escape_text t) @ s"
  have "hd s \<noteq> CHR 0x22 \<or> t = [] \<or> last t \<noteq> CHR 0x5C" using Cons.prems by auto
  then have IH: "minify_string z = (concat (map escape_text t) @ fst (minify_string s), snd (minify_string s))" unfolding z_def by (rule Cons.IH)
  have z: "z \<noteq> []" using assms(1) by (simp add: z_def)
  have hd_z: "hd z \<noteq> CHR 0x22" if "c = CHR 0x5C"
  proof (cases t)
    case Nil
    then show ?thesis using Cons.prems that by (simp add: z_def)
  next
    case (Cons x xs)
    then show ?thesis using escape_text_hd [of x "concat (map escape_text xs) @ s"] by (simp add: z_def)
  qed
  have "minify_string (escape_text c @ z) = (escape_text c @ fst (minify_string z), snd (minify_string z))"
  proof (cases c rule: escape_text_cases)
    case plain
    then show ?thesis by (simp add: minify_string_plain)
  next
    case (short e)
    have "c = CHR 0x5C" if "e = CHR 0x5C" using short(2) unfolding that by (simp add: escape_char_def)
    then consider "e = CHR 0x22" | "e = CHR 0x5C" "c = CHR 0x5C" | "e \<noteq> CHR 0x22" "e \<noteq> CHR 0x5C" by blast
    then show ?thesis
    proof cases
      case 1
      then show ?thesis using short(1) by (simp add: minify_string.simps(2) split: prod.splits)
    next
      case 2
      then show ?thesis using short(1) z hd_z by (simp add: minify_string_plain)
    next
      case 3
      then show ?thesis using short(1) by (simp add: minify_string_plain)
    qed
  next
    case long
    define h1 h2 where "h1 = hex_digit (of_char c div 16)" and "h2 = hex_digit (of_char c mod 16)"
    have h: "h1 \<noteq> CHR 0x22" "h1 \<noteq> CHR 0x5C" "h2 \<noteq> CHR 0x22" "h2 \<noteq> CHR 0x5C"
      using hex_digit_not_special [of "of_char c div 16"] hex_digit_not_special [of "of_char c mod 16"] long(2) by (auto simp: h1_def h2_def)
    then show ?thesis unfolding long(1) h1_def [symmetric] h2_def [symmetric] by (simp add: minify_string_plain)
  qed
  then show ?case using IH by (simp add: z_def)
qed

definition safe_end :: "string \<Rightarrow> bool" where
  "safe_end t \<longleftrightarrow> t = [] \<or> last t \<noteq> CHR 0x5C"

lemma minify_quoted:
  assumes "safe_end t"
  shows "cJSON_Minify (quoted (Some t) @ s) = quoted (Some t) @ cJSON_Minify s"
  using minify_string_escaped [of "CHR 0x22 # s" t] assms
  by (simp add: quoted_def cJSON_Minify.simps(2) minify_string.simps(2) safe_end_def)

text \<open>Items none of whose strings and keys ends in a backslash.\<close>

primrec safe_ends :: "'d cJSON \<Rightarrow> bool" where
  "safe_ends (Item t vi vd vs s cs) =
     ((case vs of None \<Rightarrow> True | Some x \<Rightarrow> safe_end x) \<and> (case s of None \<Rightarrow> True | Some x \<Rightarrow> safe_end x) \<and>
      list_all id (map safe_ends cs))"

lemma minify_join:
  assumes "list_all2 (\<lambda>t u. \<forall>r. cJSON_Minify (t @ r) = u @ cJSON_Minify r) ts us"
  shows "cJSON_Minify (join_text True ts @ r) = join_text False us @ cJSON_Minify r"
  using assms
proof (induction arbitrary: r rule: list_all2_induct)
  case (Cons t ts u us)
  have "(ts = []) = (us = [])" using Cons.hyps(2) by auto
  then show ?case using Cons by (cases "ts = []") (simp_all add: minify_plain minify_ws)
qed simp

lemma minify_members:
  assumes "list_all2 (\<lambda>(k, t) (k', u). k = k' \<and> (\<exists>x. k = Some x \<and> safe_end x) \<and> (\<forall>r. cJSON_Minify (t @ r) = u @ cJSON_Minify r)) kts kus"
  shows "cJSON_Minify (members_text True d kts @ r) = members_text False d' kus @ cJSON_Minify r"
  using assms
proof (induction arbitrary: r rule: list_all2_induct)
  case (Cons kt kts ku kus)
  obtain x t u where kt: "kt = (Some x, t)" "ku = (Some x, u)" "safe_end x" "\<And>r. cJSON_Minify (t @ r) = u @ cJSON_Minify r"
    using Cons.hyps(1) by (cases kt; cases ku) auto
  have e: "(kts = []) = (kus = [])" using Cons.hyps(2) by auto
  have ind: "cJSON_Minify (replicate d (CHR 0x09) @ z) = cJSON_Minify z" for z by (rule minify_wss) simp
  have q: "cJSON_Minify (quoted (Some x) @ z) = quoted (Some x) @ cJSON_Minify z" for z by (rule minify_quoted [OF kt(3)])
  show ?case using Cons.IH [of r] e unfolding kt(1,2)
    by (cases "kts = []") (simp_all add: ind q kt(4) minify_plain minify_ws)
qed simp

lemma number_char_plain: "number_char c \<Longrightarrow> c \<notin> {CHR '' '', CHR 0x09, CHR 0x0D, CHR 0x0A, CHR ''/'', CHR 0x22}"
proof
  assume "number_char c" "c \<in> {CHR '' '', CHR 0x09, CHR 0x0D, CHR 0x0A, CHR ''/'', CHR 0x22}"
  then show False by (elim insertE) (simp_all add: number_char_def)
qed

lemma minify_value:
  "cj_wf fo it \<Longrightarrow> exact fo it \<Longrightarrow> safe_ends it \<Longrightarrow> cJSON_Minify (cj_text fo True it d @ r) = cj_text fo False it d' @ cJSON_Minify r"
proof (induction it arbitrary: d d' r)
  case (Item t vi vd vs s cs)
  have ch: "cJSON_Minify (cj_text fo True c (d + 1) @ z) = cj_text fo False c (d' + 1) @ cJSON_Minify z"
    if "c \<in> set cs" "t = cJSON_Array \<or> t = cJSON_Object" for c z
    using that Item.prems by (intro Item.IH) (auto simp: list_all_iff)
  show ?case
  proof (cases t)
    case cJSON_Number
    have "list_all number_char (number_text fo vi vd)" using Item.prems(1,2) cJSON_Number by (auto simp: num_exact_def Let_def)
    then have "\<forall>c \<in> set (number_text fo vi vd). c \<notin> {CHR '' '', CHR 0x09, CHR 0x0D, CHR 0x0A, CHR ''/'', CHR 0x22}"
      using number_char_plain unfolding list_all_iff by blast
    then show ?thesis using cJSON_Number by (simp add: minify_plains)
  next
    case cJSON_String
    then show ?thesis using Item.prems(1,3) minify_quoted by (auto split: option.splits)
  next
    case cJSON_Array
    have "list_all2 (\<lambda>t u. \<forall>r. cJSON_Minify (t @ r) = u @ cJSON_Minify r) (map (\<lambda>f. f (d + 1)) (map (cj_text fo True) cs)) (map (\<lambda>f. f (d' + 1)) (map (cj_text fo False) cs))"
      using ch cJSON_Array by (simp add: list_all2_map1 list_all2_map2 list_all2_same)
    from minify_join [OF this] show ?thesis using cJSON_Array by (simp add: minify_plain)
  next
    case cJSON_Object
    have keys: "\<exists>x. item_string c = Some x \<and> safe_end x" if "c \<in> set cs" for c
    proof -
      have "item_string c \<noteq> None" "safe_ends c" using that Item.prems(1,3) cJSON_Object by (auto simp: list_all_iff)
      then show ?thesis by (cases c) auto
    qed
    have "list_all2 (\<lambda>(k, t) (k', u). k = k' \<and> (\<exists>x. k = Some x \<and> safe_end x) \<and> (\<forall>r. cJSON_Minify (t @ r) = u @ cJSON_Minify r))
      (zip (map item_string cs) (map (\<lambda>f. f (d + 1)) (map (cj_text fo True) cs))) (zip (map item_string cs) (map (\<lambda>f. f (d' + 1)) (map (cj_text fo False) cs)))"
      using ch keys cJSON_Object by (simp add: zip_map_map zip_same_conv_map list_all2_map1 list_all2_map2 list_all2_same)
    note mm = minify_members [OF this, of "d + 1" _ "d' + 1"]
    have ind: "cJSON_Minify (replicate d (CHR 0x09) @ z) = cJSON_Minify z" for z by (rule minify_wss) simp
    show ?thesis using mm cJSON_Object by (simp add: minify_plain minify_ws ind)
  qed (use Item.prems(1) in \<open>simp_all add: minify_plain\<close>)
qed

text \<open>
  C18. Stripping the formatted text of an item of the form the parser returns, none of whose strings and keys ends in a backslash
  and whose numbers are recovered from their texts, gives exactly its unformatted text.
\<close>

theorem cJSON_Minify_formatted:
  assumes "cj_wf fo it" "exact fo it" "safe_ends it"
  shows "cJSON_Minify (cj_text fo True it 0) = cj_text fo False it 0"
  using minify_value [OF assms, of 0 "[]" 0] by simp

theorem cJSON_Minify_formatted_witness:
  "cJSON_Minify (cj_text int_ops True sample_item 0) = ''[true,7]''"
proof -
  have "int_value int_ops 7 = 7" by (simp add: int_ops_def int_value_def INT_MAX_def INT_MIN_def)
  then have n: "num_exact int_ops 7" by (simp add: num_exact_def sample_number Let_def number_char_def) (simp add: int_ops_def dec_read_def)
  have "cj_wf int_ops sample_item" by (simp add: sample_item_def int_ops_def int_value_def INT_MAX_def INT_MIN_def)
  moreover have "exact int_ops sample_item" "safe_ends sample_item" using n by (simp_all add: sample_item_def)
  ultimately show ?thesis using cJSON_Minify_formatted sample_printable(3) by metis
qed

definition two_strings :: "'d float_ops \<Rightarrow> string \<Rightarrow> string \<Rightarrow> 'd cJSON" where
  "two_strings fo a b = new_item fo cJSON_Array 0 None [new_item fo cJSON_String 0 (Some a) [], new_item fo cJSON_String 0 (Some b) []]"

lemma parse_two_strings:
  assumes "cstr a" "cstr b"
  shows "cJSON_Parse fo (Some (cj_text fo fmt (two_strings fo a b) 0)) =
    Some (Inr (Some (two_strings fo a b), Some (length (cj_text fo fmt (two_strings fo a b) 0))))"
  using assms by (intro parse_text) (simp_all add: two_strings_def new_item_def)

text \<open>Characters that are printed as they are and that are not part of a comment.\<close>

definition plain_char :: "char \<Rightarrow> bool" where
  "plain_char c \<longleftrightarrow> (31 :: nat) < of_char c \<and> c \<noteq> CHR 0x22 \<and> c \<noteq> CHR 0x5C \<and> c \<noteq> CHR ''/''"

lemma plain_text: "list_all plain_char b \<Longrightarrow> concat (map escape_text b) = b"
  by (induction b) (auto simp: plain_char_def escape_text_def)

lemma minify_plain_chars:
  "list_all plain_char b \<Longrightarrow> cJSON_Minify (b @ s) = filter (\<lambda>c. c \<noteq> CHR '' '') b @ cJSON_Minify s"
proof (induction b)
  case (Cons c b)
  have "plain_char c" using Cons.prems by simp
  then have "c \<notin> {CHR 0x09, CHR 0x0D, CHR 0x0A, CHR ''/'', CHR 0x22}" by (auto simp: plain_char_def)
  then show ?case using Cons by (cases "c = CHR '' ''") (simp_all add: minify_ws minify_plain)
qed simp

lemma minify_two_strings:
  assumes "list_all plain_char b"
  shows "cJSON_Minify (cj_text fo False (two_strings fo (a @ [CHR 0x5C]) b) 0) =
    cj_text fo False (two_strings fo (a @ [CHR 0x5C]) (filter (\<lambda>c. c \<noteq> CHR '' '') b)) 0"
proof -
  define s where "s = CHR 0x5C # CHR 0x5C # CHR 0x22 # CHR '','' # CHR 0x22 # b @ CHR 0x22 # '']''"
  have e: "escape_text (CHR 0x5C) = [CHR 0x5C, CHR 0x5C]" by (simp add: escape_text_def)
  have f: "list_all plain_char (filter (\<lambda>c. c \<noteq> CHR '' '') b)" using assms by (auto simp: list_all_iff)
  have text_eq: "cj_text fo False (two_strings fo (a @ [CHR 0x5C]) x) 0 =
      CHR ''['' # CHR 0x22 # concat (map escape_text a) @ CHR 0x5C # CHR 0x5C # CHR 0x22 # CHR '','' # CHR 0x22 # x @ CHR 0x22 # '']''"
    if "list_all plain_char x" for x
    using that by (simp add: two_strings_def new_item_def quoted_def e plain_text)
  have "minify_string s = ([CHR 0x5C, CHR 0x5C, CHR 0x22, CHR '','', CHR 0x22], b @ CHR 0x22 # '']'')"
    by (simp add: s_def minify_string.simps(2))
  then have m: "minify_string (concat (map escape_text a) @ s) =
      (concat (map escape_text a) @ [CHR 0x5C, CHR 0x5C, CHR 0x22, CHR '','', CHR 0x22], b @ CHR 0x22 # '']'')"
    using minify_string_escaped [of s a] by (simp add: s_def)
  have "cJSON_Minify (CHR ''['' # CHR 0x22 # concat (map escape_text a) @ s) =
      CHR ''['' # CHR 0x22 # concat (map escape_text a) @ [CHR 0x5C, CHR 0x5C, CHR 0x22, CHR '','', CHR 0x22] @ cJSON_Minify (b @ CHR 0x22 # '']'')"
    by (simp add: minify_plain) (simp add: cJSON_Minify.simps(2) m)
  moreover have "cJSON_Minify (b @ CHR 0x22 # '']'') = filter (\<lambda>c. c \<noteq> CHR '' '') b @ CHR 0x22 # '']''"
    unfolding minify_plain_chars [OF assms] by (simp add: cJSON_Minify.simps(2) minify_string.simps(2))
  ultimately show ?thesis unfolding text_eq [OF assms] text_eq [OF f] s_def by simp
qed

text \<open>
  C21. A string that ends in a backslash is not passed over: for every such string and every second string of plain characters,
  the unformatted text of the array of both is parsed to this array, but after stripping it the second string has lost its blanks.
\<close>

theorem cJSON_Minify_corrupts:
  assumes "cstr a" "list_all plain_char b" "s = cj_text fo False (two_strings fo (a @ [CHR 0x5C]) b) 0"
  shows "(\<exists>n. cJSON_Parse fo (Some s) = Some (Inr (Some (two_strings fo (a @ [CHR 0x5C]) b), n))) \<and>
    (\<exists>n. cJSON_Parse fo (Some (cJSON_Minify s)) =
       Some (Inr (Some (two_strings fo (a @ [CHR 0x5C]) (filter (\<lambda>c. c \<noteq> CHR '' '') b)), n)))"
proof -
  have "cstr (a @ [CHR 0x5C])" using assms(1) by (simp add: cstr_def)
  moreover have "\<not> plain_char NUL" by (simp add: plain_char_def)
  then have "cstr b" "cstr (filter (\<lambda>c. c \<noteq> CHR '' '') b)" using assms(2) unfolding cstr_def list_all_iff by fastforce+
  ultimately show ?thesis unfolding assms(3) minify_two_strings [OF assms(2)]
    using parse_two_strings [of "a @ [CHR 0x5C]" b fo False] parse_two_strings [of "a @ [CHR 0x5C]" "filter (\<lambda>c. c \<noteq> CHR '' '') b" fo False]
    by (intro conjI exI) simp_all
qed

theorem cJSON_Minify_corrupts_witness:
  "\<exists>s. (\<exists>n. cJSON_Parse int_ops (Some s) = Some (Inr (Some (two_strings int_ops [CHR ''C'', CHR '':'', CHR 0x5C] ''a b''), n))) \<and>
     (\<exists>n. cJSON_Parse int_ops (Some (cJSON_Minify s)) = Some (Inr (Some (two_strings int_ops [CHR ''C'', CHR '':'', CHR 0x5C] ''ab''), n)))"
proof -
  have "cstr ''C:''" "list_all plain_char ''a b''" by (simp_all add: cstr_def plain_char_def)
  from cJSON_Minify_corrupts [OF this refl, of int_ops] show ?thesis by auto
qed

end
