(* ===== verification/CJson_Compare.thy ===== *)
theory CJson_Compare
  imports CJson_Tree
begin

text \<open>
  The functions of \<open>src/vendor/cjson/cJSON.c\<close> that take members out of objects or replace them by name, and the comparison of
  items.
\<close>

section \<open>Members by name\<close>

text \<open>The position of the member that \<open>get_object_item\<close> finds.\<close>

fun child_position :: "bool \<Rightarrow> string \<Rightarrow> 'd cJSON list \<Rightarrow> nat option" where
  "child_position case_sensitive name [] = None"
| "child_position case_sensitive name (c # cs) =
     (if case_sensitive
      then (case item_string c of None \<Rightarrow> None | Some k \<Rightarrow> if k = name then Some 0 else map_option Suc (child_position case_sensitive name cs))
      else if case_insensitive_equal (Some name) (item_string c) then Some 0
      else map_option Suc (child_position case_sensitive name cs))"

definition detach_item_from_object :: "'d cJSON option \<Rightarrow> string option \<Rightarrow> bool \<Rightarrow> ('d cJSON \<times> 'd cJSON) option" where
  "detach_item_from_object obj name case_sensitive =
     (case (obj, name) of
        (Some ob, Some k) \<Rightarrow>
          (case child_position case_sensitive k (child ob) of
             None \<Rightarrow> None
           | Some i \<Rightarrow> Some (child ob ! i, with_child (take i (child ob) @ drop (Suc i) (child ob)) ob))
      | _ \<Rightarrow> None)"

definition cJSON_DetachItemFromObject :: "'d cJSON option \<Rightarrow> string option \<Rightarrow> ('d cJSON \<times> 'd cJSON) option" where
  "cJSON_DetachItemFromObject obj name = detach_item_from_object obj name False"
definition cJSON_DetachItemFromObjectCaseSensitive :: "'d cJSON option \<Rightarrow> string option \<Rightarrow> ('d cJSON \<times> 'd cJSON) option" where
  "cJSON_DetachItemFromObjectCaseSensitive obj name = detach_item_from_object obj name True"
definition cJSON_DeleteItemFromObject :: "'d cJSON option \<Rightarrow> string option \<Rightarrow> 'd cJSON option" where
  "cJSON_DeleteItemFromObject obj name = (case cJSON_DetachItemFromObject obj name of None \<Rightarrow> obj | Some (it, ob) \<Rightarrow> Some ob)"
definition cJSON_DeleteItemFromObjectCaseSensitive :: "'d cJSON option \<Rightarrow> string option \<Rightarrow> 'd cJSON option" where
  "cJSON_DeleteItemFromObjectCaseSensitive obj name =
     (case cJSON_DetachItemFromObjectCaseSensitive obj name of None \<Rightarrow> obj | Some (it, ob) \<Rightarrow> Some ob)"

definition replace_item_in_object :: "'d cJSON option \<Rightarrow> string option \<Rightarrow> 'd cJSON option \<Rightarrow> bool \<Rightarrow> 'd cJSON option" where
  "replace_item_in_object obj name replacement case_sensitive =
     (case (obj, name, replacement) of
        (Some ob, Some k, Some it) \<Rightarrow>
          (case child_position case_sensitive k (child ob) of
             None \<Rightarrow> None
           | Some i \<Rightarrow> Some (with_child ((child ob)[i := named k it]) ob))
      | _ \<Rightarrow> None)"

definition cJSON_ReplaceItemInObject :: "'d cJSON option \<Rightarrow> string option \<Rightarrow> 'd cJSON option \<Rightarrow> 'd cJSON option" where
  "cJSON_ReplaceItemInObject obj name newitem = replace_item_in_object obj name newitem False"
definition cJSON_ReplaceItemInObjectCaseSensitive :: "'d cJSON option \<Rightarrow> string option \<Rightarrow> 'd cJSON option \<Rightarrow> 'd cJSON option" where
  "cJSON_ReplaceItemInObjectCaseSensitive obj name newitem = replace_item_in_object obj name newitem True"

section \<open>Comparison\<close>

text \<open>
  Both items are trees of their own, as after parsing or copying, so that no item of one is at the address of an item of the
  other.
\<close>

lemma find_child_in: "find_child b k cs = Some c \<Longrightarrow> c \<in> set cs"
  by (induction cs) (auto split: if_splits option.splits)

lemma get_object_child_in: "get_object_child (Some it) k b = Some c \<Longrightarrow> c \<in> set (child it)"
  by (auto simp: get_object_child_def find_child_in split: option.splits)

lemma child_size: "c \<in> set (child it) \<Longrightarrow> size c < size it"
  by (cases it) (auto simp: size_list_estimation' less_Suc_eq_le)

lemma zip_child_size: "(x, y) \<in> set (zip (child a) (child b)) \<Longrightarrow> size x + size y < size a + size b"
  using child_size [of x a] child_size [of y b] by (auto dest: set_zip_leftD set_zip_rightD intro: add_strict_mono)

function cJSON_Compare :: "'d float_ops \<Rightarrow> bool \<Rightarrow> 'd cJSON \<Rightarrow> 'd cJSON \<Rightarrow> bool" where
  "cJSON_Compare fo case_sensitive a b =
     (if item_type a \<noteq> item_type b then False
      else case item_type a of
             cJSON_Invalid \<Rightarrow> False
           | cJSON_False \<Rightarrow> True
           | cJSON_True \<Rightarrow> True
           | cJSON_NULL \<Rightarrow> True
           | cJSON_Number \<Rightarrow> compare_double fo (valuedouble a) (valuedouble b)
           | cJSON_String \<Rightarrow> valuestring a \<noteq> None \<and> valuestring a = valuestring b
           | cJSON_Raw \<Rightarrow> valuestring a \<noteq> None \<and> valuestring a = valuestring b
           | cJSON_Array \<Rightarrow>
               (\<forall>(x, y) \<in> set (zip (child a) (child b)). cJSON_Compare fo case_sensitive x y) \<and> length (child a) = length (child b)
           | cJSON_Object \<Rightarrow>
               (\<forall>x \<in> set (child a).
                  case get_object_child (Some b) (item_string x) case_sensitive of
                    None \<Rightarrow> False
                  | Some y \<Rightarrow> cJSON_Compare fo case_sensitive x y) \<and>
               (\<forall>y \<in> set (child b).
                  case get_object_child (Some a) (item_string y) case_sensitive of
                    None \<Rightarrow> False
                  | Some x \<Rightarrow> cJSON_Compare fo case_sensitive y x))"
  by pat_completeness auto
termination
  by (relation "measure (\<lambda>(fo, cs, a, b). size a + size b)")
    (auto dest!: get_object_child_in child_size zip_child_size)

declare cJSON_Compare.simps [simp del]

section \<open>What they do\<close>

lemma child_position_find:
  "child_position b k cs = Some i \<Longrightarrow> i < length cs \<and> find_child b k cs = Some (cs ! i)"
  by (induction cs arbitrary: i) (auto split: if_splits option.splits)

lemma child_position_none: "child_position b k cs = None \<longleftrightarrow> find_child b k cs = None"
  by (induction cs) (auto split: option.splits)

text \<open>What is detached is the member that a lookup finds; nothing else is removed.\<close>

theorem detach_item_from_object_correct:
  "map_option fst (detach_item_from_object obj name b) = get_object_child obj name b \<and>
   (\<forall>it ob ob'. obj = Some ob \<longrightarrow> detach_item_from_object obj name b = Some (it, ob') \<longrightarrow>
      (\<exists>xs ys. child ob = xs @ it # ys \<and> ob' = with_child (xs @ ys) ob))"
proof (cases "obj = None \<or> name = None")
  case False
  then obtain ob k where o: "obj = Some ob" "name = Some k" by auto
  show ?thesis
  proof (cases "child_position b k (child ob)")
    case None
    then show ?thesis using child_position_none [of b k "child ob"] by (simp add: o detach_item_from_object_def get_object_child_def)
  next
    case (Some i)
    note f = child_position_find [OF Some]
    have "child ob = take i (child ob) @ child ob ! i # drop (Suc i) (child ob)" using f by (simp add: id_take_nth_drop)
    then show ?thesis using f Some by (auto simp: o detach_item_from_object_def get_object_child_def)
  qed
qed (auto simp: detach_item_from_object_def get_object_child_def split: option.splits)

text \<open>Numbers that are equal to themselves, strings that are there, and objects without two members of one name.\<close>

definition key_of :: "bool \<Rightarrow> 'd cJSON \<Rightarrow> string" where
  "key_of b c = (if b then the (item_string c) else map tolower (the (item_string c)))"

primrec comparable :: "'d float_ops \<Rightarrow> bool \<Rightarrow> 'd cJSON \<Rightarrow> bool" where
  "comparable fo b (Item t vi vd vs s cs) =
     (t \<noteq> cJSON_Invalid \<and> (t = cJSON_Number \<longrightarrow> compare_double fo vd vd) \<and> (t = cJSON_String \<or> t = cJSON_Raw \<longrightarrow> vs \<noteq> None) \<and>
      (t = cJSON_Object \<longrightarrow> distinct (map (key_of b) cs) \<and> (\<forall>c \<in> set cs. item_string c \<noteq> None)) \<and>
      list_all id (map (comparable fo b) cs))"

lemma find_child_distinct:
  assumes "distinct (map (key_of b) cs)" "\<forall>c \<in> set cs. item_string c \<noteq> None" "c \<in> set cs" "item_string c = Some k"
  shows "find_child b k cs = Some c"
  using assms
proof (induction cs)
  case (Cons x cs)
  obtain n where n: "item_string x = Some n" using Cons.prems(2) by auto
  show ?case
  proof (cases "x = c")
    case True
    then show ?thesis using Cons.prems(4) by (simp add: case_insensitive_equal_def)
  next
    case False
    then have c: "c \<in> set cs" using Cons.prems(3) by simp
    then have "key_of b x \<noteq> key_of b c" using Cons.prems(1) by auto
    then have k: "if b then n \<noteq> k else map tolower k \<noteq> map tolower n" using n Cons.prems(4) by (auto simp: key_of_def split: if_splits)
    have "find_child b k cs = Some c" using Cons.IH Cons.prems(1,2,4) c by simp
    then show ?thesis using k n by (cases b) (simp_all add: case_insensitive_equal_def)
  qed
qed simp

lemma compare_refl: "comparable fo b it \<Longrightarrow> cJSON_Compare fo b it it"
proof (induction it)
  case (Item t vi vd vs s cs)
  have ch: "cJSON_Compare fo b c c" if "c \<in> set cs" for c using that Item by (auto simp: list_all_iff)
  show ?case
  proof (cases t)
    case cJSON_Object
    have "get_object_child (Some (Item t vi vd vs s cs)) (item_string c) b = Some c" if "c \<in> set cs" for c
      using that Item.prems cJSON_Object find_child_distinct [of b cs c] by (auto simp: get_object_child_def)
    then show ?thesis using ch cJSON_Object by (subst cJSON_Compare.simps) simp
  next
    case cJSON_Array
    then show ?thesis using ch by (subst cJSON_Compare.simps) (auto simp: zip_same)
  qed (use Item.prems in \<open>(subst cJSON_Compare.simps, simp)+\<close>)
qed

text \<open>
  C19. A deep copy of an item compares equal to it, when its numbers are equal to themselves, no object has two members of the
  same name and the nesting is below the limit.
\<close>

theorem cJSON_Compare_copy:
  assumes "comparable fo b it" "full_height it \<le> CJSON_CIRCULAR_LIMIT"
  shows "\<exists>c. cJSON_Duplicate (Some it) True = Some c \<and> cJSON_Compare fo b it c \<and> cJSON_Compare fo b c it"
  using duplicate_rec_same [of it 0] assms compare_refl by (simp add: cJSON_Duplicate_def)

theorem cJSON_Compare_copy_witness:
  "\<exists>c. cJSON_Duplicate (Some (two_strings int_ops ''a'' ''b'')) True = Some c \<and> cJSON_Compare int_ops False (two_strings int_ops ''a'' ''b'') c \<and>
     cJSON_Compare int_ops False c (two_strings int_ops ''a'' ''b'')"
  by (rule cJSON_Compare_copy) (simp_all add: two_strings_def new_item_def)

text \<open>
  With two members of one name the comparison fails: it looks up every member by its name, finds the first one both times, and
  calls an item different from its copy.
\<close>

theorem cJSON_Compare_duplicate_keys:
  "\<exists>it c. cj_wf int_ops it \<and> cJSON_Duplicate (Some it) True = Some c \<and> c = it \<and> \<not> cJSON_Compare int_ops b it c"
proof -
  define x y where "x = named ''a'' (new_item int_ops cJSON_True 1 None [])" and "y = named ''a'' (new_item int_ops cJSON_False 0 None [])"
  define it where "it = new_item int_ops cJSON_Object 0 None [x, y]"
  have w: "cj_wf int_ops it" by (simp add: it_def x_def y_def new_item_def cstr_def)
  have d: "cJSON_Duplicate (Some it) True = Some it" by (simp add: cJSON_Duplicate_def it_def x_def y_def new_item_def)
  have "\<not> cJSON_Compare int_ops b y x" by (subst cJSON_Compare.simps) (simp add: x_def y_def new_item_def)
  moreover have "get_object_child (Some it) (item_string y) b = Some x"
    by (simp add: it_def new_item_def get_object_child_def x_def y_def case_insensitive_equal_def)
  moreover have "item_type it = cJSON_Object" "y \<in> set (child it)" by (simp_all add: it_def new_item_def)
  ultimately have "\<not> cJSON_Compare int_ops b it it" by (subst cJSON_Compare.simps) force
  then show ?thesis using w d by blast
qed

end
