(* ===== verification/Uuid.thy ===== *)
theory Uuid
  imports Prelude
begin

text \<open>
  The identifiers of jobs, sandboxes, browser sessions and agent tasks: \<open>wf_gen_uuid\<close> of
  \<open>src/src/workflow.c\<close> and the three functions \<open>gen_uuid\<close> of \<open>sandbox.c\<close>, \<open>browser.c\<close> and \<open>agent.c\<close>, which
  are the same code.  The bytes read from \<open>/dev/urandom\<close> are an argument, \<open>None\<close> when the file
  cannot be opened or read; the clock and the process id of the fallback are arguments too.  The
  fallback copies an \<open>unsigned long\<close> as the little-endian machine stores it.
\<close>

unbundle bit_operations_syntax

definition hex_digit :: "nat \<Rightarrow> char" where
  "hex_digit n = (if n < 10 then char_of (48 + n) else char_of (87 + n))"

definition hex2 :: "8 word \<Rightarrow> string" where
  "hex2 b = [hex_digit (unat b div 16), hex_digit (unat b mod 16)]"

definition long_bytes :: "64 word \<Rightarrow> 8 word list" where
  "long_bytes v = map (\<lambda>i. ucast (drop_bit (8 * i) v)) [0..<8]"

definition uuid_bytes :: "8 word list option \<Rightarrow> 64 word \<Rightarrow> 64 word \<Rightarrow> 8 word list" where
  "uuid_bytes urandom nsec pid =
     (let b = (case urandom of
                 Some bs \<Rightarrow> bs
               | None \<Rightarrow> long_bytes (xor nsec (push_bit 32 pid)) @ replicate 8 0);
          b1 = b[6 := (b ! 6 AND 0x0f) OR 0x40]
      in b1[8 := (b1 ! 8 AND 0x3f) OR 0x80])"

definition uuid_text :: "8 word list \<Rightarrow> string" where
  "uuid_text b =
     concat (map hex2 (take 4 b)) @ ''-'' @ concat (map hex2 (take 2 (drop 4 b))) @ ''-'' @
     concat (map hex2 (take 2 (drop 6 b))) @ ''-'' @ concat (map hex2 (take 2 (drop 8 b))) @ ''-'' @
     concat (map hex2 (take 6 (drop 10 b)))"

text \<open>\<open>snprintf\<close> into a buffer of \<open>len\<close> bytes.\<close>

definition uuid_v4 :: "nat \<Rightarrow> 8 word list option \<Rightarrow> 64 word \<Rightarrow> 64 word \<Rightarrow> string" where
  "uuid_v4 len urandom nsec pid = take (len - 1) (uuid_text (uuid_bytes urandom nsec pid))"

text \<open>The shape of a version 4 identifier.\<close>

definition is_hex :: "char \<Rightarrow> bool" where
  "is_hex c \<longleftrightarrow> c \<in> set ''0123456789abcdef''"

definition uuid_shape :: "string \<Rightarrow> bool" where
  "uuid_shape s \<longleftrightarrow>
     length s = 36 \<and>
     (\<forall>i < 36. if i \<in> {8, 13, 18, 23} then s ! i = CHR ''-'' else is_hex (s ! i)) \<and>
     s ! 14 = CHR ''4'' \<and> s ! 19 \<in> set ''89ab''"

section \<open>Lemmas\<close>

lemma less_16_cases: "(n :: nat) < 16 \<Longrightarrow> n \<in> set [0..<16]"
  by simp

lemma is_hex_hex_digit [simp]: "n < 16 \<Longrightarrow> is_hex (hex_digit n)"
proof -
  have "\<forall>n \<in> set [0..<16]. is_hex (hex_digit n)" by code_simp
  then show "n < 16 \<Longrightarrow> is_hex (hex_digit n)" by auto
qed

lemma hex_digit_inj: "m < 16 \<Longrightarrow> n < 16 \<Longrightarrow> hex_digit m = hex_digit n \<longleftrightarrow> m = n"
proof -
  have "\<forall>m \<in> set [0..<16]. \<forall>n \<in> set [0..<16]. hex_digit m = hex_digit n \<longrightarrow> m = n" by code_simp
  then show "m < 16 \<Longrightarrow> n < 16 \<Longrightarrow> hex_digit m = hex_digit n \<longleftrightarrow> m = n" by auto
qed

lemma unat_byte_less: "unat (b :: 8 word) < 256"
  using unsigned_less [of b, where ?'a = nat] by simp

lemma byte_nibbles: "unat (b :: 8 word) div 16 < 16" "unat (b :: 8 word) mod 16 < 16"
  using unat_byte_less [of b] by (simp_all add: less_mult_imp_div_less)

lemma hex2_inj: "hex2 a = hex2 b \<longleftrightarrow> a = b"
proof
  assume "hex2 a = hex2 b"
  then have "unat a div 16 = unat b div 16" "unat a mod 16 = unat b mod 16"
    by (simp_all add: hex2_def hex_digit_inj byte_nibbles)
  then have "unat a = unat b" by (metis div_mult_mod_eq)
  then show "a = b" by (simp add: word_unat_eq_iff)
qed simp

lemma hex2_length [simp]: "length (hex2 b) = 2"
  by (simp add: hex2_def)

lemma list_16:
  assumes "length xs = 16"
  obtains a b c d e f g h i j k l m n p q where "xs = [a, b, c, d, e, f, g, h, i, j, k, l, m, n, p, q]"
  using assms by (auto simp: length_Suc_conv eval_nat_numeral)

lemma uuid_text_inj:
  assumes "length xs = 16" "length ys = 16" "uuid_text xs = uuid_text ys"
  shows "xs = ys"
proof -
  have hex: "hex_digit (unat a div 16) = hex_digit (unat b div 16) \<and>
      hex_digit (unat a mod 16) = hex_digit (unat b mod 16) \<longleftrightarrow> a = b" for a b :: "8 word"
    using hex2_inj [of a b] by (simp add: hex2_def)
  obtain a b c d e f g h i j k l m n p q where
    xs: "xs = [a, b, c, d, e, f, g, h, i, j, k, l, m, n, p, q]" using assms(1) by (rule list_16)
  obtain a' b' c' d' e' f' g' h' i' j' k' l' m' n' p' q' where
    ys: "ys = [a', b', c', d', e', f', g', h', i', j', k', l', m', n', p', q']" using assms(2) by (rule list_16)
  show ?thesis
    using assms(3) hex unfolding xs ys by (simp add: uuid_text_def hex2_def) blast
qed

text \<open>The fixed nibbles.\<close>

lemma unat_div_16: "unat (y :: 8 word) div 16 = drop_bit 4 (unat y)"
  by (simp add: drop_bit_eq_div)

lemma version_nibble: "unat ((x AND 0x0f) OR 0x40 :: 8 word) div 16 = 4"
  unfolding unat_div_16 by (simp add: unsigned_or_eq unsigned_and_eq drop_bit_or drop_bit_and)

lemma variant_nibble: "unat ((x AND 0x3f) OR 0x80 :: 8 word) div 16 \<in> {8, 9, 10, 11}"
proof -
  let ?m = "drop_bit 4 (unat x)"
  have "?m AND 3 = take_bit 2 ?m" by (simp add: take_bit_eq_mask mask_eq_exp_minus_1)
  then have "?m AND 3 \<in> {0, 1, 2, 3}" by (auto simp: take_bit_eq_mod)
  moreover have "unat ((x AND 0x3f) OR 0x80 :: 8 word) div 16 = (?m AND 3) OR 8"
    unfolding unat_div_16 by (simp add: unsigned_or_eq unsigned_and_eq drop_bit_or drop_bit_and)
  ultimately show ?thesis by auto
qed

lemma length_uuid_bytes:
  "(\<And>bs. urandom = Some bs \<Longrightarrow> length bs = 16) \<Longrightarrow> length (uuid_bytes urandom nsec pid) = 16"
  by (auto simp: uuid_bytes_def long_bytes_def Let_def split: option.splits)

lemma hex2_nth: "hex2 b ! 0 = hex_digit (unat b div 16)" "hex2 b ! 1 = hex_digit (unat b mod 16)"
  by (simp_all add: hex2_def)

lemma all_less_36:
  "(\<forall>i < (36 :: nat). P i) \<longleftrightarrow> (\<forall>i \<in> set [0..<36]. P i)"
  by auto

lemma upt_36: "[0..<36] = [0,1,2,3,4,5,6,7,8,9,10,11,12,13,14,15,16,17,18,19,20,21,22,23,24,25,26,27,28,29,30,31,32,33,34,35 :: nat]"
  by (simp add: upt_rec)

lemma uuid_text_length: "length b = 16 \<Longrightarrow> length (uuid_text b) = 36"
  by (erule list_16) (simp add: uuid_text_def)

lemma uuid_text_shape:
  assumes "length b = 16" "unat (b ! 6) div 16 = 4" "unat (b ! 8) div 16 \<in> {8, 9, 10, 11}"
  shows "uuid_shape (uuid_text b)"
proof -
  have h: "hex_digit 4 = CHR ''4''" "hex_digit 8 = CHR ''8''" "hex_digit 9 = CHR ''9''"
    "hex_digit 10 = CHR ''a''" "hex_digit 11 = CHR ''b''"
    by code_simp+
  obtain b0 b1 b2 b3 b4 b5 b6 b7 b8 b9 b10 b11 b12 b13 b14 b15 where
    b: "b = [b0, b1, b2, b3, b4, b5, b6, b7, b8, b9, b10, b11, b12, b13, b14, b15]"
    using assms(1) by (rule list_16)
  have "unat b6 div 16 = 4" "unat b8 div 16 \<in> {8, 9, 10, 11}" using assms(2,3) by (simp_all add: b)
  then show ?thesis
    unfolding uuid_shape_def all_less_36 upt_36 b
    by (auto simp: uuid_text_def hex2_def h byte_nibbles is_hex_def [of "CHR ''4''"] simp del: set_upt)
qed

section \<open>Properties\<close>

text \<open>
  Every identifier fits its 37 byte buffer and has the shape of a version 4 identifier, whether
  the random bytes could be read or not; and two identifiers made from random bytes are equal only
  if the bytes agree outside the six fixed bits.
\<close>

theorem uuid_v4_shape:
  assumes "\<And>bs. r1 = Some bs \<Longrightarrow> length bs = 16" "\<And>bs. r2 = Some bs \<Longrightarrow> length bs = 16"
  shows "uuid_shape (uuid_v4 37 r1 nsec pid) \<and>
     (uuid_v4 37 r1 nsec pid = uuid_v4 37 r2 nsec' pid' \<longleftrightarrow> uuid_bytes r1 nsec pid = uuid_bytes r2 nsec' pid')"
proof -
  let ?b1 = "uuid_bytes r1 nsec pid" and ?b2 = "uuid_bytes r2 nsec' pid'"
  have l: "length ?b1 = 16" "length ?b2 = 16" by (rule length_uuid_bytes, erule assms)+
  have "\<exists>x. ?b1 ! 6 = (x AND 0x0f) OR 0x40" "\<exists>x. ?b1 ! 8 = (x AND 0x3f) OR 0x80"
    using l(1) by (auto simp: uuid_bytes_def Let_def)
  then have "unat (?b1 ! 6) div 16 = 4" "unat (?b1 ! 8) div 16 \<in> {8, 9, 10, 11}"
    using version_nibble variant_nibble by (metis, metis)
  then have "uuid_shape (uuid_text ?b1)" using l by (intro uuid_text_shape)
  then show ?thesis
    using l uuid_text_inj [OF l] by (auto simp: uuid_v4_def uuid_text_length)
qed

theorem uuid_v4_shape_witness:
  "uuid_shape (uuid_v4 37 (Some (replicate 16 0xff)) 0 0) \<and>
   (uuid_v4 37 (Some (replicate 16 0xff)) 0 0 = uuid_v4 37 None 5 1 \<longleftrightarrow>
      uuid_bytes (Some (replicate 16 0xff)) 0 0 = uuid_bytes None 5 1)"
  by (rule uuid_v4_shape) auto

end
