(* ===== verification/Workflow.thy ===== *)
theory Workflow
  imports Uuid
begin

text \<open>
  The durable job queue of \<open>src/src/workflow.c\<close>.

  The SQLite database is code outside the sources.  The table \<open>jobs\<close> is the list of its rows in
  insertion order, and each SQL statement of the source is the function its text denotes:
  \<open>INSERT\<close> fails on a duplicate \<open>id\<close> (the primary key) or a null column, \<open>UPDATE\<close> and \<open>DELETE\<close> change
  the rows their \<open>WHERE\<close> clause selects and report how many.  What the text leaves open is a
  parameter: \<open>sel\<close>, the row that \<open>SELECT ... ORDER BY run_at ASC LIMIT 1\<close> returns among rows with the
  same \<open>run_at\<close>, constrained by the locale \<open>job_select\<close>; and whether a statement whose result the
  code checks can be prepared and executed.

  The handlers are parameters too; only their return value matters to the queue.  A handler runs
  outside the lock, so \<open>worker_pick_one\<close> consists of the step before it (\<open>worker_claim\<close>) and the step
  after it (\<open>worker_finish\<close>), and calls of the public functions may come in between: the relation
  \<open>wf_step\<close> interleaves them.
\<close>

section \<open>Data\<close>

abbreviation WORKFLOW_JOB_ID_LEN :: nat where "WORKFLOW_JOB_ID_LEN \<equiv> 37"
abbreviation WORKFLOW_TYPE_MAX :: nat where "WORKFLOW_TYPE_MAX \<equiv> 64"
abbreviation WORKFLOW_MAX_RETRIES :: int where "WORKFLOW_MAX_RETRIES \<equiv> 5"
abbreviation WORKFLOW_BACKOFF_BASE :: int where "WORKFLOW_BACKOFF_BASE \<equiv> 3"
abbreviation MAX_HANDLERS :: nat where "MAX_HANDLERS \<equiv> 64"

datatype job_status = JOB_PENDING | JOB_RUNNING | JOB_DONE | JOB_FAILED

record job_row =
  row_id :: string
  row_type :: string
  row_payload :: string
  row_status :: string
  row_retry :: int
  row_run_at :: int
  row_created_at :: int

type_synonym db = "job_row list"

record 'h handler_entry =
  he_type :: string
  he_fn :: 'h

record 'h workflow =
  s_handlers :: "'h handler_entry list"
  s_db :: "db option"
  s_stop :: bool
  s_running :: bool

text \<open>The snapshot \<open>job_t\<close>.\<close>

record job =
  job_id :: string
  job_type :: string
  job_payload :: string
  job_status_of :: job_status
  job_retry_count :: int
  job_run_at :: int
  job_created_at :: int

text \<open>The local variables of \<open>worker_pick_one\<close> that live across the call of the handler.\<close>

record claimed =
  cl_id :: string
  cl_type :: string
  cl_payload :: string
  cl_retry :: int

section \<open>Identifiers and handlers\<close>

definition wf_gen_uuid :: "8 word list option \<Rightarrow> 64 word \<Rightarrow> 64 word \<Rightarrow> string" where
  "wf_gen_uuid urandom nsec pid = uuid_v4 WORKFLOW_JOB_ID_LEN urandom nsec pid"

text \<open>
  The table is static and entries are only added, so the last byte of every \<open>type\<close> stays zero
  after \<open>strncpy\<close>.
\<close>

definition workflow_register :: "'h workflow \<Rightarrow> string \<Rightarrow> 'h \<Rightarrow> int \<times> 'h workflow" where
  "workflow_register w type handler =
     (if length (s_handlers w) \<ge> MAX_HANDLERS then (- 1, w)
      else (0, w\<lparr>s_handlers := s_handlers w @
                   [\<lparr>he_type = strncpy (WORKFLOW_TYPE_MAX - 1) type, he_fn = handler\<rparr>]\<rparr>))"

definition find_handler :: "'h workflow \<Rightarrow> string \<Rightarrow> 'h option" where
  "find_handler w type =
     map_option he_fn (find (\<lambda>e. strncmp_eq WORKFLOW_TYPE_MAX (he_type e) type) (s_handlers w))"

section \<open>SQL statements\<close>

definition sql_update :: "(job_row \<Rightarrow> bool) \<Rightarrow> (job_row \<Rightarrow> job_row) \<Rightarrow> db \<Rightarrow> db \<times> nat" where
  "sql_update P f db = (map (\<lambda>r. if P r then f r else r) db, length (filter P db))"

definition sql_delete :: "(job_row \<Rightarrow> bool) \<Rightarrow> db \<Rightarrow> db \<times> nat" where
  "sql_delete P db = (filter (\<lambda>r. \<not> P r) db, length (filter P db))"

definition sql_insert :: "job_row \<Rightarrow> db \<Rightarrow> db option" where
  "sql_insert r db = (if row_id r \<in> row_id ` set db then None else Some (db @ [r]))"

definition due :: "int \<Rightarrow> job_row \<Rightarrow> bool" where
  "due now r \<longleftrightarrow> row_status r = ''pending'' \<and> row_run_at r \<le> now"

text \<open>The selection with ties resolved in insertion order.\<close>

fun sql_select_due :: "int \<Rightarrow> db \<Rightarrow> job_row option" where
  "sql_select_due now [] = None"
| "sql_select_due now (r # rs) =
     (case sql_select_due now rs of
        None \<Rightarrow> if due now r then Some r else None
      | Some r' \<Rightarrow> if due now r \<and> row_run_at r \<le> row_run_at r' then Some r else Some r')"

section \<open>The worker\<close>

text \<open>
  \<open>worker_pick_one\<close> up to the call of the handler; \<open>None\<close> is the return of 0.  \<open>prep_ok\<close> says whether
  the \<open>SELECT\<close> could be prepared.
\<close>

definition worker_claim ::
  "(int \<Rightarrow> db \<Rightarrow> job_row option) \<Rightarrow> bool \<Rightarrow> int \<Rightarrow> db \<Rightarrow> claimed option \<times> db" where
  "worker_claim sel prep_ok now db =
     (if \<not> prep_ok then (None, db)
      else case sel now db of
             None \<Rightarrow> (None, db)
           | Some r \<Rightarrow>
               (let cl = \<lparr>cl_id = strncpy (WORKFLOW_JOB_ID_LEN - 1) (row_id r),
                          cl_type = strncpy (WORKFLOW_TYPE_MAX - 1) (row_type r),
                          cl_payload = row_payload r, cl_retry = row_retry r\<rparr>
                in if cl_id cl = [] then (None, db)
                   else let (db', changes) =
                          sql_update (\<lambda>x. row_id x = cl_id cl \<and> row_status x = ''pending'')
                            (\<lambda>x. x\<lparr>row_status := ''running''\<rparr>) db
                        in if changes = 0 then (None, db') else (Some cl, db')))"

primrec backoff_loop :: "nat \<Rightarrow> int \<Rightarrow> int" where
  "backoff_loop 0 backoff = backoff"
| "backoff_loop (Suc n) backoff = backoff_loop n (backoff * WORKFLOW_BACKOFF_BASE)"

text \<open>The rest of \<open>worker_pick_one\<close>, with the handler's return value; it returns 1.\<close>

definition worker_finish :: "claimed \<Rightarrow> int \<Rightarrow> int \<Rightarrow> db \<Rightarrow> db" where
  "worker_finish cl handler_rc now db =
     (if handler_rc = 0
      then fst (sql_update (\<lambda>x. row_id x = cl_id cl) (\<lambda>x. x\<lparr>row_status := ''done''\<rparr>) db)
      else let new_retry = cl_retry cl + 1
           in if new_retry \<ge> WORKFLOW_MAX_RETRIES
              then fst (sql_update (\<lambda>x. row_id x = cl_id cl)
                     (\<lambda>x. x\<lparr>row_status := ''failed'', row_retry := new_retry\<rparr>) db)
              else fst (sql_update (\<lambda>x. row_id x = cl_id cl)
                     (\<lambda>x. x\<lparr>row_status := ''pending'', row_retry := new_retry,
                            row_run_at := now + backoff_loop (nat new_retry) 1\<rparr>) db))"

definition handler_result :: "(string \<Rightarrow> string \<Rightarrow> string \<Rightarrow> int) workflow \<Rightarrow> claimed \<Rightarrow> int" where
  "handler_result w cl =
     (case find_handler w (cl_type cl) of
        None \<Rightarrow> - 1
      | Some fn \<Rightarrow> fn (cl_id cl) (cl_type cl) (cl_payload cl))"

text \<open>
  \<open>worker_pick_one\<close> when nothing else happens meanwhile; the clock is read at the start and again
  after the handler.  The first result is the return value.
\<close>

definition worker_pick_one ::
  "(int \<Rightarrow> db \<Rightarrow> job_row option) \<Rightarrow> bool \<Rightarrow> int \<Rightarrow> int \<Rightarrow>
   (string \<Rightarrow> string \<Rightarrow> string \<Rightarrow> int) workflow \<Rightarrow> (int \<times> (string \<Rightarrow> string \<Rightarrow> string \<Rightarrow> int) workflow) result" where
  "worker_pick_one sel prep_ok now now' w =
     (case s_db w of
        None \<Rightarrow> Inl NullDeref
      | Some db \<Rightarrow>
          (case worker_claim sel prep_ok now db of
             (None, db') \<Rightarrow> Inr (0, w\<lparr>s_db := Some db'\<rparr>)
           | (Some cl, db') \<Rightarrow>
               Inr (1, w\<lparr>s_db := Some (worker_finish cl (handler_result w cl) now' db')\<rparr>)))"

section \<open>The public functions\<close>

text \<open>
  Results of the calls \<open>workflow_init\<close> makes: \<open>opened\<close> is the handle \<open>sqlite3_open\<close> stores together
  with its success, \<open>create_ok\<close> the result of the \<open>CREATE TABLE\<close>, \<open>thread_ok\<close> that of
  \<open>pthread_create\<close>.
\<close>

definition workflow_init ::
  "'h workflow \<Rightarrow> db option \<times> bool \<Rightarrow> bool \<Rightarrow> bool \<Rightarrow> int \<times> 'h workflow" where
  "workflow_init w opened create_ok thread_ok =
     (if s_db w \<noteq> None then (0, w)
      else let w1 = w\<lparr>s_db := fst opened\<rparr>
           in if \<not> snd opened \<or> \<not> create_ok then (- 1, w1)
              else if \<not> thread_ok then (- 1, w1\<lparr>s_stop := False, s_db := None\<rparr>)
              else (0, w1\<lparr>s_stop := False, s_running := True\<rparr>))"

text \<open>The join needs a started thread.\<close>

definition workflow_shutdown :: "'h workflow \<Rightarrow> 'h workflow result" where
  "workflow_shutdown w =
     (if s_running w then Inr (w\<lparr>s_stop := True, s_running := False, s_db := None\<rparr>)
      else Inl Indeterminate)"

text \<open>A null \<open>type\<close> or \<open>payload\<close> binds an SQL null.\<close>

definition workflow_enqueue ::
  "bool \<Rightarrow> bool \<Rightarrow> string \<Rightarrow> int \<Rightarrow> 'h workflow \<Rightarrow> string option \<Rightarrow> string option \<Rightarrow> int \<Rightarrow>
   int \<times> string option \<times> 'h workflow" where
  "workflow_enqueue prep_ok step_ok jid now w type payload delay_sec =
     (case s_db w of
        None \<Rightarrow> (- 1, None, w)
      | Some db \<Rightarrow>
          if \<not> prep_ok \<or> \<not> step_ok then (- 1, None, w)
          else (case (type, payload) of
                  (Some ty, Some pl) \<Rightarrow>
                    (case sql_insert \<lparr>row_id = jid, row_type = ty, row_payload = pl,
                            row_status = ''pending'', row_retry = 0, row_run_at = now + delay_sec,
                            row_created_at = now\<rparr> db of
                       None \<Rightarrow> (- 1, None, w)
                     | Some db' \<Rightarrow> (0, Some jid, w\<lparr>s_db := Some db'\<rparr>))
                | _ \<Rightarrow> (- 1, None, w)))"

definition status_of_text :: "string \<Rightarrow> job_status" where
  "status_of_text s =
     (if s = ''pending'' then JOB_PENDING
      else if s = ''running'' then JOB_RUNNING
      else if s = ''done'' then JOB_DONE
      else JOB_FAILED)"

definition workflow_get_job :: "'h workflow \<Rightarrow> string \<Rightarrow> job option" where
  "workflow_get_job w jid =
     (case s_db w of
        None \<Rightarrow> None
      | Some db \<Rightarrow>
          map_option (\<lambda>r. \<lparr>job_id = strncpy (WORKFLOW_JOB_ID_LEN - 1) (row_id r),
                           job_type = strncpy (WORKFLOW_TYPE_MAX - 1) (row_type r),
                           job_payload = row_payload r,
                           job_status_of = status_of_text (row_status r),
                           job_retry_count = row_retry r, job_run_at = row_run_at r,
                           job_created_at = row_created_at r\<rparr>)
            (find (\<lambda>r. row_id r = jid) db))"

definition workflow_cancel_job :: "'h workflow \<Rightarrow> string \<Rightarrow> int \<times> 'h workflow" where
  "workflow_cancel_job w jid =
     (case s_db w of
        None \<Rightarrow> (- 1, w)
      | Some db \<Rightarrow>
          (let (db', changed) = sql_update (\<lambda>r. row_id r = jid \<and> row_status r = ''pending'')
                 (\<lambda>r. r\<lparr>row_status := ''failed''\<rparr>) db
           in (if changed > 0 then 0 else - 1, w\<lparr>s_db := Some db'\<rparr>)))"

definition workflow_purge_done :: "'h workflow \<Rightarrow> int \<Rightarrow> int \<Rightarrow> int \<times> 'h workflow" where
  "workflow_purge_done w now max_age_seconds =
     (case s_db w of
        None \<Rightarrow> (- 1, w)
      | Some db \<Rightarrow>
          (let (db', deleted) =
             sql_delete (\<lambda>r. (row_status r = ''done'' \<or> row_status r = ''failed'') \<and>
                             row_created_at r < now - max_age_seconds) db
           in (int deleted, w\<lparr>s_db := Some db'\<rparr>)))"

section \<open>Interleaving\<close>

text \<open>
  The states of the whole queue: the module's variables, the job the worker thread has in hand,
  and, as history, how often a job's handler has been called since it was put into the queue.
\<close>

record 'h world =
  w_wf :: "'h workflow"
  w_cur :: "claimed option"
  w_calls :: "string \<Rightarrow> nat"

datatype wf_event =
    Enqueue string "string option" "string option" int int
  | Cancel string
  | Purge int int
  | Claim int
  | Finish int int

text \<open>\<open>with_db\<close> updates the table inside the world.\<close>

definition with_db :: "'h world \<Rightarrow> db \<Rightarrow> 'h world" where
  "with_db s db = s\<lparr>w_wf := (w_wf s)\<lparr>s_db := Some db\<rparr>\<rparr>"

inductive wf_step :: "(int \<Rightarrow> db \<Rightarrow> job_row option) \<Rightarrow> 'h world \<Rightarrow> wf_event \<Rightarrow> 'h world \<Rightarrow> bool"
  for sel where
  enqueue:
    "jid = wf_gen_uuid urandom nsec pid \<Longrightarrow> (\<And>bs. urandom = Some bs \<Longrightarrow> length bs = 16) \<Longrightarrow>
     workflow_enqueue prep_ok step_ok jid now (w_wf s) type payload delay = (rc, out, w') \<Longrightarrow>
     wf_step sel s (Enqueue jid type payload delay now)
       (s\<lparr>w_wf := w', w_calls := (if rc = 0 then (w_calls s)(jid := 0) else w_calls s)\<rparr>)"
| cancel:
    "workflow_cancel_job (w_wf s) jid = (rc, w') \<Longrightarrow> wf_step sel s (Cancel jid) (s\<lparr>w_wf := w'\<rparr>)"
| purge:
    "workflow_purge_done (w_wf s) now age = (rc, w') \<Longrightarrow> wf_step sel s (Purge now age) (s\<lparr>w_wf := w'\<rparr>)"
| claim:
    "w_cur s = None \<Longrightarrow> s_db (w_wf s) = Some db \<Longrightarrow> worker_claim sel prep_ok now db = (cur, db') \<Longrightarrow>
     wf_step sel s (Claim now)
       ((with_db s db')\<lparr>w_cur := cur,
          w_calls := (case cur of None \<Rightarrow> w_calls s
                                | Some cl \<Rightarrow> (w_calls s)(cl_id cl := Suc (w_calls s (cl_id cl))))\<rparr>)"
| finish:
    "w_cur s = Some cl \<Longrightarrow> s_db (w_wf s) = Some db \<Longrightarrow>
     wf_step sel s (Finish rc now) ((with_db s (worker_finish cl rc now db))\<lparr>w_cur := None\<rparr>)"

inductive_cases wf_stepE: "wf_step sel s e s'"

inductive wf_reach :: "(int \<Rightarrow> db \<Rightarrow> job_row option) \<Rightarrow> 'h world \<Rightarrow> 'h world \<Rightarrow> bool"
  for sel s0 where
  init: "wf_reach sel s0 s0"
| step: "wf_reach sel s0 s \<Longrightarrow> wf_step sel s e s' \<Longrightarrow> wf_reach sel s0 s'"

text \<open>The queue right after \<open>workflow_init\<close> on a new database.\<close>

definition wf_fresh :: "'h world \<Rightarrow> bool" where
  "wf_fresh s \<longleftrightarrow> s_db (w_wf s) = Some [] \<and> w_cur s = None"

section \<open>What is asked of the selection\<close>

locale job_select =
  fixes sel :: "int \<Rightarrow> db \<Rightarrow> job_row option"
  assumes sel_due: "sel now db = Some r \<Longrightarrow> r \<in> set db \<and> due now r"
    and sel_least: "sel now db = Some r \<Longrightarrow> r' \<in> set db \<Longrightarrow> due now r' \<Longrightarrow> row_run_at r \<le> row_run_at r'"
    and sel_none: "sel now db = None \<Longrightarrow> r \<in> set db \<Longrightarrow> \<not> due now r"

section \<open>The invariant\<close>

definition row_ok :: "claimed option \<Rightarrow> (string \<Rightarrow> nat) \<Rightarrow> job_row \<Rightarrow> bool" where
  "row_ok cur calls r \<longleftrightarrow>
     length (row_id r) = 36 \<and> 0 \<le> row_retry r \<and> row_retry r \<le> WORKFLOW_MAX_RETRIES \<and>
     (if row_status r = ''pending''
      then row_retry r < WORKFLOW_MAX_RETRIES \<and> int (calls (row_id r)) = row_retry r
      else if row_status r = ''running''
      then row_retry r < WORKFLOW_MAX_RETRIES \<and> int (calls (row_id r)) = row_retry r + 1 \<and>
           (\<exists>cl. cur = Some cl \<and> cl_id cl = row_id r \<and> cl_retry cl = row_retry r)
      else if row_status r = ''done''
      then row_retry r < WORKFLOW_MAX_RETRIES \<and> int (calls (row_id r)) = row_retry r + 1
      else row_status r = ''failed'' \<and> int (calls (row_id r)) = row_retry r)"

definition wf_inv :: "'h world \<Rightarrow> bool" where
  "wf_inv s \<longleftrightarrow>
     (\<exists>db. s_db (w_wf s) = Some db \<and> distinct (map row_id db) \<and>
        (\<forall>r \<in> set db. row_ok (w_cur s) (w_calls s) r) \<and>
        (\<forall>cl. w_cur s = Some cl \<longrightarrow> (\<exists>r \<in> set db. row_id r = cl_id cl \<and> row_status r = ''running'')))"

section \<open>Lemmas\<close>

lemma length_wf_gen_uuid:
  "(\<And>bs. urandom = Some bs \<Longrightarrow> length bs = 16) \<Longrightarrow> length (wf_gen_uuid urandom nsec pid) = 36"
  by (simp add: wf_gen_uuid_def uuid_v4_def uuid_text_length length_uuid_bytes)

lemma sql_update_ids [simp]:
  "(\<And>r. row_id (f r) = row_id r) \<Longrightarrow> map row_id (fst (sql_update P f db)) = map row_id db"
  by (simp add: sql_update_def)

lemma in_sql_update:
  "r' \<in> set (fst (sql_update P f db)) \<longleftrightarrow> (\<exists>r \<in> set db. r' = (if P r then f r else r))"
  by (auto simp: sql_update_def)

lemma row_unique: "distinct (map row_id db) \<Longrightarrow> r \<in> set db \<Longrightarrow> r' \<in> set db \<Longrightarrow> row_id r = row_id r' \<Longrightarrow> r = r'"
  by (metis distinct_map inj_onD)

lemma backoff_loop_eq: "backoff_loop n b = b * WORKFLOW_BACKOFF_BASE ^ n"
  by (induction n arbitrary: b) simp_all

lemma strncpy_id: "length s \<le> n \<Longrightarrow> strncpy n s = s"
  by (simp add: strncpy_def)

context job_select
begin

text \<open>A claim either finds nothing or marks one due row with the least time.\<close>

lemma worker_claim_cases:
  assumes "worker_claim sel prep_ok now db = (cur, db')" "\<forall>r \<in> set db. length (row_id r) = 36"
    and "distinct (map row_id db)"
  obtains (idle) "cur = None" "db' = db"
  | (hit) r cl where "r \<in> set db" "due now r" "\<forall>r' \<in> set db. due now r' \<longrightarrow> row_run_at r \<le> row_run_at r'"
      "cur = Some cl" "cl_id cl = row_id r" "cl_retry cl = row_retry r"
      "db' = fst (sql_update (\<lambda>x. row_id x = row_id r) (\<lambda>x. x\<lparr>row_status := ''running''\<rparr>) db)"
proof (cases "sel now db")
  case None
  then show ?thesis using assms(1) idle by (auto simp: worker_claim_def split: if_splits)
next
  case (Some r)
  have r: "r \<in> set db" "due now r" using sel_due [OF Some] by auto
  have len: "length (row_id r) = 36" using assms(2) r by blast
  then have jid: "strncpy 36 (row_id r) = row_id r" "row_id r \<noteq> []"
    by (auto simp: strncpy_id)
  have only: "x \<in> set db \<Longrightarrow> row_id x = row_id r \<and> row_status x = ''pending'' \<longleftrightarrow> row_id x = row_id r" for x
    using row_unique [OF assms(3) _ r(1)] r(2) by (auto simp: due_def)
  have upd: "fst (sql_update (\<lambda>x. row_id x = row_id r \<and> row_status x = ''pending'')
        (\<lambda>x. x\<lparr>row_status := ''running''\<rparr>) db) =
      fst (sql_update (\<lambda>x. row_id x = row_id r) (\<lambda>x. x\<lparr>row_status := ''running''\<rparr>) db)"
    using only by (auto simp: sql_update_def)
  have chg: "snd (sql_update (\<lambda>x. row_id x = row_id r \<and> row_status x = ''pending'')
        (\<lambda>x. x\<lparr>row_status := ''running''\<rparr>) db) \<noteq> 0"
    using r by (auto simp: sql_update_def due_def filter_empty_conv)
  show ?thesis
  proof (cases prep_ok)
    case False
    then show ?thesis using assms(1) idle by (simp add: worker_claim_def)
  next
    case True
    show ?thesis
      using assms(1) True Some jid chg upd r sel_least [OF Some]
      by (intro hit [of r "the cur"]) (auto simp: worker_claim_def Let_def split: prod.splits if_splits)
  qed
qed

end

lemma row_ok_length: "row_ok cur calls r \<Longrightarrow> length (row_id r) = 36"
  by (simp add: row_ok_def)

text \<open>How one row may change.\<close>

lemma row_ok_new:
  "length (row_id r) = 36 \<Longrightarrow> row_status r = ''pending'' \<Longrightarrow> row_retry r = 0 \<Longrightarrow> calls (row_id r) = 0 \<Longrightarrow>
     row_ok cur calls r"
  by (simp add: row_ok_def)

lemma row_ok_calls: "row_ok cur calls r \<Longrightarrow> calls' (row_id r) = calls (row_id r) \<Longrightarrow> row_ok cur calls' r"
  by (simp add: row_ok_def)

lemma row_ok_cancel:
  "row_ok cur calls r \<Longrightarrow> row_status r = ''pending'' \<Longrightarrow> row_ok cur calls (r\<lparr>row_status := ''failed''\<rparr>)"
  by (simp add: row_ok_def)

lemma row_ok_claim:
  "row_ok None calls r \<Longrightarrow> row_status r = ''pending'' \<Longrightarrow> cl_id cl = row_id r \<Longrightarrow> cl_retry cl = row_retry r \<Longrightarrow>
     calls' (row_id r) = Suc (calls (row_id r)) \<Longrightarrow> row_ok (Some cl) calls' (r\<lparr>row_status := ''running''\<rparr>)"
  by (simp add: row_ok_def)

lemma row_ok_other:
  "row_ok cur calls r \<Longrightarrow> (\<And>cl. cur = Some cl \<Longrightarrow> cl_id cl \<noteq> row_id r) \<Longrightarrow>
     calls' (row_id r) = calls (row_id r) \<Longrightarrow> row_ok cur' calls' r"
  by (auto simp: row_ok_def split: if_splits)

lemma row_ok_running:
  "row_ok cur calls r \<Longrightarrow> row_status r = ''running'' \<Longrightarrow>
     \<exists>cl. cur = Some cl \<and> cl_id cl = row_id r \<and> cl_retry cl = row_retry r"
  by (simp add: row_ok_def)

lemma row_ok_finish:
  assumes "row_ok cur calls r" "row_status r = ''running''"
  shows "row_ok None calls (r\<lparr>row_status := ''done''\<rparr>)"
    and "row_retry r + 1 \<ge> WORKFLOW_MAX_RETRIES \<Longrightarrow>
           row_ok None calls (r\<lparr>row_status := ''failed'', row_retry := row_retry r + 1\<rparr>)"
    and "row_retry r + 1 < WORKFLOW_MAX_RETRIES \<Longrightarrow>
           row_ok None calls (r\<lparr>row_status := ''pending'', row_retry := row_retry r + 1, row_run_at := t\<rparr>)"
  using assms by (simp_all add: row_ok_def)

lemma wf_invI:
  assumes "s_db (w_wf s) = Some db" "distinct (map row_id db)"
    and "\<And>r. r \<in> set db \<Longrightarrow> row_ok (w_cur s) (w_calls s) r"
    and "\<And>cl. w_cur s = Some cl \<Longrightarrow> \<exists>r \<in> set db. row_id r = cl_id cl \<and> row_status r = ''running''"
  shows "wf_inv s"
  unfolding wf_inv_def using assms by blast

lemma wf_invE:
  assumes "wf_inv s"
  obtains db where "s_db (w_wf s) = Some db" "distinct (map row_id db)"
    "\<And>r. r \<in> set db \<Longrightarrow> row_ok (w_cur s) (w_calls s) r"
    "\<And>cl. w_cur s = Some cl \<Longrightarrow> \<exists>r \<in> set db. row_id r = cl_id cl \<and> row_status r = ''running''"
  using assms unfolding wf_inv_def by blast

lemma wf_inv_enqueue:
  assumes inv: "wf_inv s" and len: "length jid = 36"
    and enq: "workflow_enqueue prep_ok step_ok jid now (w_wf s) type payload delay = (rc, out, w')"
  shows "wf_inv (s\<lparr>w_wf := w', w_calls := (if rc = 0 then (w_calls s)(jid := 0) else w_calls s)\<rparr>)"
  using inv
proof (rule wf_invE)
  fix db
  assume db: "s_db (w_wf s) = Some db" "distinct (map row_id db)"
    "\<And>r. r \<in> set db \<Longrightarrow> row_ok (w_cur s) (w_calls s) r"
    "\<And>cl. w_cur s = Some cl \<Longrightarrow> \<exists>r \<in> set db. row_id r = cl_id cl \<and> row_status r = ''running''"
  consider (no) "rc \<noteq> 0" "w' = w_wf s"
    | (yes) r where "rc = 0" "jid \<notin> row_id ` set db" "s_db w' = Some (db @ [r])"
        "row_id r = jid" "row_status r = ''pending''" "row_retry r = 0"
    using enq db(1)
    by (auto simp: workflow_enqueue_def sql_insert_def split: if_splits option.splits)
  then show ?thesis
  proof cases
    case no
    then show ?thesis using inv by (simp add: wf_inv_def)
  next
    case yes
    show ?thesis
    proof (rule wf_invI [where db = "db @ [r]"])
      fix x
      assume "x \<in> set (db @ [r])"
      then consider "x \<in> set db" | "x = r" by auto
      then show "row_ok (w_cur (s\<lparr>w_wf := w', w_calls := (if rc = 0 then (w_calls s)(jid := 0) else w_calls s)\<rparr>))
          (w_calls (s\<lparr>w_wf := w', w_calls := (if rc = 0 then (w_calls s)(jid := 0) else w_calls s)\<rparr>)) x"
      proof cases
        case 1
        moreover have "row_id x \<noteq> jid" using 1 yes(2) by auto
        ultimately show ?thesis
          using row_ok_calls [OF db(3) [OF 1], of "(w_calls s)(jid := 0)"] yes(1) by simp
      next
        case 2
        then show ?thesis using yes len by (auto intro!: row_ok_new)
      qed
    qed (use db yes in \<open>auto\<close>)
  qed
qed

lemma wf_inv_cancel:
  assumes inv: "wf_inv s" and c: "workflow_cancel_job (w_wf s) jid = (rc, w')"
  shows "wf_inv (s\<lparr>w_wf := w'\<rparr>)"
  using inv
proof (rule wf_invE)
  fix db
  assume db: "s_db (w_wf s) = Some db" "distinct (map row_id db)"
    "\<And>r. r \<in> set db \<Longrightarrow> row_ok (w_cur s) (w_calls s) r"
    "\<And>cl. w_cur s = Some cl \<Longrightarrow> \<exists>r \<in> set db. row_id r = cl_id cl \<and> row_status r = ''running''"
  let ?P = "\<lambda>r. row_id r = jid \<and> row_status r = ''pending''"
  let ?db = "fst (sql_update ?P (\<lambda>r. r\<lparr>row_status := ''failed''\<rparr>) db)"
  show ?thesis
  proof (rule wf_invI [where db = ?db])
    show "s_db (w_wf (s\<lparr>w_wf := w'\<rparr>)) = Some ?db"
      using c db(1) by (auto simp: workflow_cancel_job_def Let_def split: prod.splits)
    show "distinct (map row_id ?db)" using db(2) by simp
  next
    fix r
    assume "r \<in> set ?db"
    then obtain x where "x \<in> set db" "r = (if ?P x then x\<lparr>row_status := ''failed''\<rparr> else x)"
      unfolding in_sql_update by blast
    then show "row_ok (w_cur (s\<lparr>w_wf := w'\<rparr>)) (w_calls (s\<lparr>w_wf := w'\<rparr>)) r"
      using db(3) row_ok_cancel by simp
  next
    fix cl
    assume "w_cur (s\<lparr>w_wf := w'\<rparr>) = Some cl"
    then obtain r where r: "r \<in> set db" "row_id r = cl_id cl" "row_status r = ''running''"
      using db(4) [of cl] by auto
    then have "r \<in> set ?db" unfolding in_sql_update by (intro bexI [of _ r]) simp_all
    then show "\<exists>r \<in> set ?db. row_id r = cl_id cl \<and> row_status r = ''running''" using r by blast
  qed
qed

lemma wf_inv_purge:
  assumes inv: "wf_inv s" and c: "workflow_purge_done (w_wf s) now age = (rc, w')"
  shows "wf_inv (s\<lparr>w_wf := w'\<rparr>)"
  using inv
proof (rule wf_invE)
  fix db
  assume db: "s_db (w_wf s) = Some db" "distinct (map row_id db)"
    "\<And>r. r \<in> set db \<Longrightarrow> row_ok (w_cur s) (w_calls s) r"
    "\<And>cl. w_cur s = Some cl \<Longrightarrow> \<exists>r \<in> set db. row_id r = cl_id cl \<and> row_status r = ''running''"
  let ?P = "\<lambda>r. (row_status r = ''done'' \<or> row_status r = ''failed'') \<and> row_created_at r < now - age"
  show ?thesis
  proof (rule wf_invI [where db = "filter (\<lambda>r. \<not> ?P r) db"])
    show "s_db (w_wf (s\<lparr>w_wf := w'\<rparr>)) = Some (filter (\<lambda>r. \<not> ?P r) db)"
      using c db(1) by (auto simp: workflow_purge_done_def sql_delete_def Let_def)
    show "distinct (map row_id (filter (\<lambda>r. \<not> ?P r) db))" using db(2) by (rule distinct_map_filter)
  next
    fix cl
    assume "w_cur (s\<lparr>w_wf := w'\<rparr>) = Some cl"
    then obtain r where "r \<in> set db" "row_id r = cl_id cl" "row_status r = ''running''"
      using db(4) [of cl] by auto
    then show "\<exists>r \<in> set (filter (\<lambda>r. \<not> ?P r) db). row_id r = cl_id cl \<and> row_status r = ''running''"
      by (intro bexI [of _ r]) simp_all
  qed (use db(3) in auto)
qed

text \<open>The outcome is written to the one row of the job in hand.\<close>

definition finish_row :: "claimed \<Rightarrow> int \<Rightarrow> int \<Rightarrow> job_row \<Rightarrow> job_row" where
  "finish_row cl rc now r =
     (if rc = 0 then r\<lparr>row_status := ''done''\<rparr>
      else if cl_retry cl + 1 \<ge> WORKFLOW_MAX_RETRIES
      then r\<lparr>row_status := ''failed'', row_retry := cl_retry cl + 1\<rparr>
      else r\<lparr>row_status := ''pending'', row_retry := cl_retry cl + 1,
             row_run_at := now + WORKFLOW_BACKOFF_BASE ^ nat (cl_retry cl + 1)\<rparr>)"

lemma worker_finish_eq:
  "worker_finish cl rc now db = map (\<lambda>r. if row_id r = cl_id cl then finish_row cl rc now r else r) db"
  by (simp add: worker_finish_def finish_row_def sql_update_def Let_def backoff_loop_eq cong: if_cong)

lemma row_id_finish_row [simp]: "row_id (finish_row cl rc now r) = row_id r"
  by (simp add: finish_row_def)

lemma wf_inv_finish:
  assumes inv: "wf_inv s" and cur: "w_cur s = Some cl" and db0: "s_db (w_wf s) = Some db"
  shows "wf_inv ((with_db s (worker_finish cl rc now db))\<lparr>w_cur := None\<rparr>)"
  using inv
proof (rule wf_invE)
  fix db1
  assume db1: "s_db (w_wf s) = Some db1" "distinct (map row_id db1)"
    "\<And>r. r \<in> set db1 \<Longrightarrow> row_ok (w_cur s) (w_calls s) r"
    "\<And>cl. w_cur s = Some cl \<Longrightarrow> \<exists>r \<in> set db1. row_id r = cl_id cl \<and> row_status r = ''running''"
  have [simp]: "db1 = db" using db0 db1(1) by simp
  obtain r0 where r0: "r0 \<in> set db" "row_id r0 = cl_id cl" "row_status r0 = ''running''"
    using db1(4) [OF cur] by auto
  have ok0: "row_ok (Some cl) (w_calls s) r0" using db1(3) r0(1) cur by simp
  have ret: "cl_retry cl = row_retry r0" using row_ok_running [OF ok0 r0(3)] by auto
  have fin: "row_ok None (w_calls s) (finish_row cl rc now r0)"
    using row_ok_finish [OF ok0 r0(3)] by (simp add: finish_row_def ret)
  show ?thesis
  proof (rule wf_invI [where db = "worker_finish cl rc now db"])
    have "map row_id (worker_finish cl rc now db) = map row_id db"
      by (simp add: worker_finish_eq)
    then show "distinct (map row_id (worker_finish cl rc now db))" using db1(2) by simp
  next
    fix r
    assume "r \<in> set (worker_finish cl rc now db)"
    then obtain x where x: "x \<in> set db" "r = (if row_id x = cl_id cl then finish_row cl rc now x else x)"
      by (auto simp: worker_finish_eq)
    have "row_ok None (w_calls s) r"
    proof (cases "row_id x = cl_id cl")
      case True
      then have "x = r0" using row_unique [OF _ x(1) r0(1)] db1(2) r0(2) by simp
      then show ?thesis using fin x r0(2) by simp
    next
      case False
      then show ?thesis
        using row_ok_other [of "Some cl" "w_calls s" x "w_calls s" None] db1(3) [of x] x cur by auto
    qed
    then show "row_ok (w_cur ((with_db s (worker_finish cl rc now db))\<lparr>w_cur := None\<rparr>))
        (w_calls ((with_db s (worker_finish cl rc now db))\<lparr>w_cur := None\<rparr>)) r"
      by (simp add: with_db_def)
  qed (simp_all add: with_db_def)
qed

context job_select
begin

lemma wf_inv_claim:
  assumes inv: "wf_inv s" and cur: "w_cur s = None" and db0: "s_db (w_wf s) = Some db"
    and c: "worker_claim sel prep_ok now db = (cur, db')"
  shows "wf_inv ((with_db s db')\<lparr>w_cur := cur,
          w_calls := (case cur of None \<Rightarrow> w_calls s
                                | Some cl \<Rightarrow> (w_calls s)(cl_id cl := Suc (w_calls s (cl_id cl))))\<rparr>)"
    (is "wf_inv ?s'")
  using inv
proof (rule wf_invE)
  fix db1
  assume db1: "s_db (w_wf s) = Some db1" "distinct (map row_id db1)"
    "\<And>r. r \<in> set db1 \<Longrightarrow> row_ok (w_cur s) (w_calls s) r"
  have [simp]: "db1 = db" using db0 db1(1) by simp
  have len: "\<forall>r \<in> set db. length (row_id r) = 36" using db1(3) row_ok_length by auto
  have dist: "distinct (map row_id db)" using db1(2) by simp
  from c len dist show "wf_inv ?s'"
  proof (cases rule: worker_claim_cases)
    case idle
    then show ?thesis using inv cur db0 by (simp add: wf_inv_def with_db_def)
  next
    case (hit r cl)
    let ?calls = "(w_calls s)(cl_id cl := Suc (w_calls s (cl_id cl)))"
    have pend: "row_status r = ''pending''" using hit(2) by (simp add: due_def)
    have okr: "row_ok None (w_calls s) r" using db1(3) hit(1) cur by simp
    have new: "row_ok (Some cl) ?calls (r\<lparr>row_status := ''running''\<rparr>)"
      using hit(5,6) by (intro row_ok_claim [OF okr pend]) simp_all
    show ?thesis
    proof (rule wf_invI [where db = db'])
      show "distinct (map row_id db')" using dist hit(7) by simp
    next
      fix x'
      assume x': "x' \<in> set db'"
      obtain x where x: "x \<in> set db" "x' = (if row_id x = row_id r then x\<lparr>row_status := ''running''\<rparr> else x)"
        using x' [unfolded hit(7) in_sql_update] by blast
      have "row_ok (Some cl) ?calls x'"
      proof (cases "row_id x = row_id r")
        case True
        then have "x = r" using row_unique [OF dist x(1) hit(1)] by simp
        then show ?thesis using new x(2) by simp
      next
        case False
        then show ?thesis
          using row_ok_other [of None "w_calls s" x ?calls "Some cl"] db1(3) [of x] x cur hit(5) by auto
      qed
      then show "row_ok (w_cur ?s') (w_calls ?s') x'" using hit(4) by simp
    next
      fix cl'
      assume "w_cur ?s' = Some cl'"
      then have "cl' = cl" using hit(4) by simp
      have "r\<lparr>row_status := ''running''\<rparr> \<in> set db'"
        unfolding hit(7) in_sql_update using hit(1) by (intro bexI [of _ r]) simp_all
      then show "\<exists>x \<in> set db'. row_id x = cl_id cl' \<and> row_status x = ''running''"
        using hit(5) \<open>cl' = cl\<close> by (intro bexI [of _ "r\<lparr>row_status := ''running''\<rparr>"]) simp_all
    qed (simp add: with_db_def)
  qed
qed

lemma wf_inv_step: "wf_step sel s e s' \<Longrightarrow> wf_inv s \<Longrightarrow> wf_inv s'"
  by (cases rule: wf_step.cases)
    (auto intro: wf_inv_enqueue wf_inv_cancel wf_inv_purge wf_inv_claim wf_inv_finish length_wf_gen_uuid)

lemma wf_inv_reach: "wf_reach sel s0 s \<Longrightarrow> wf_inv s0 \<Longrightarrow> wf_inv s"
  by (induction rule: wf_reach.induct) (auto intro: wf_inv_step)

end

lemma wf_inv_fresh: "wf_fresh s \<Longrightarrow> wf_inv s"
  by (simp add: wf_fresh_def wf_inv_def)

text \<open>The selection in insertion order meets the contract.\<close>

lemma sql_select_due_None: "sql_select_due now db = None \<longleftrightarrow> (\<forall>r \<in> set db. \<not> due now r)"
  by (induction db) (auto split: option.splits)

lemma sql_select_due_Some:
  "sql_select_due now db = Some r \<Longrightarrow>
     r \<in> set db \<and> due now r \<and> (\<forall>r' \<in> set db. due now r' \<longrightarrow> row_run_at r \<le> row_run_at r')"
proof (induction db arbitrary: r)
  case (Cons x db)
  show ?case
  proof (cases "sql_select_due now db")
    case None
    then show ?thesis using Cons.prems sql_select_due_None [of now db] by (auto split: if_splits)
  next
    case (Some r')
    show ?thesis using Cons.prems Cons.IH [OF Some] Some by (auto split: if_splits)
  qed
qed simp

interpretation sd: job_select sql_select_due
  by unfold_locales (auto dest: sql_select_due_Some simp: sql_select_due_None)

section \<open>Draining the queue\<close>

text \<open>Calls of \<open>worker_pick_one\<close> in a row, with the clock standing still.\<close>

fun worker_run ::
  "(int \<Rightarrow> db \<Rightarrow> job_row option) \<Rightarrow> int \<Rightarrow> nat \<Rightarrow> (string \<Rightarrow> string \<Rightarrow> string \<Rightarrow> int) workflow \<Rightarrow>
   (string \<Rightarrow> string \<Rightarrow> string \<Rightarrow> int) workflow result" where
  "worker_run sel now 0 w = Inr w"
| "worker_run sel now (Suc n) w =
     bindR (worker_pick_one sel True now now w) (\<lambda>(_, w'). worker_run sel now n w')"

lemma finish_not_due: "\<not> due now (finish_row cl rc now r)"
proof -
  have "0 < WORKFLOW_BACKOFF_BASE ^ nat (cl_retry cl + 1)" by simp
  then show ?thesis by (simp add: finish_row_def due_def del: zero_less_power)
qed

lemma due_count:
  assumes "distinct (map row_id db)" "r \<in> set db" "due now r" "\<And>x. \<not> due now (g x)"
  shows "Suc (length (filter (due now) (map (\<lambda>x. if row_id x = row_id r then g x else x) db))) =
     length (filter (due now) db)"
  using assms(1,2)
proof (induction db)
  case (Cons x db)
  show ?case
  proof (cases "row_id x = row_id r")
    case True
    then have "x = r" using Cons.prems by (auto simp: image_iff)
    moreover have "map (\<lambda>y. if row_id y = row_id r then g y else y) db = db"
      using Cons.prems True by (auto intro!: map_idI simp: image_iff)
    ultimately show ?thesis using assms(3,4) by simp
  next
    case False
    then show ?thesis using Cons by auto
  qed
qed simp

definition db_ok :: "db \<Rightarrow> bool" where
  "db_ok db \<longleftrightarrow> distinct (map row_id db) \<and> (\<forall>r \<in> set db. length (row_id r) = 36 \<and> 0 \<le> row_retry r)"

context job_select
begin

lemma worker_pick_due:
  assumes db: "s_db w = Some db" "db_ok db"
  shows "\<exists>rc w' db'. worker_pick_one sel True now now w = Inr (rc, w') \<and> s_db w' = Some db' \<and> db_ok db' \<and>
     (if \<exists>r \<in> set db. due now r
      then rc = 1 \<and> Suc (length (filter (due now) db')) = length (filter (due now) db)
      else rc = 0 \<and> db' = db)"
proof -
  obtain cur db1 where c: "worker_claim sel True now db = (cur, db1)" by fastforce
  have len: "\<forall>r \<in> set db. length (row_id r) = 36" and dist: "distinct (map row_id db)"
    using db(2) by (auto simp: db_ok_def)
  from c len dist show ?thesis
  proof (cases rule: worker_claim_cases)
    case idle
    have "sel now db = None"
    proof (rule ccontr)
      assume "sel now db \<noteq> None"
      then obtain r where r: "sel now db = Some r" by auto
      then have rd: "r \<in> set db" "due now r" using sel_due by auto
      then have "row_id r \<noteq> []" "strncpy 36 (row_id r) = row_id r" using len by (auto simp: strncpy_id)
      moreover have "filter (\<lambda>x. row_id x = row_id r \<and> row_status x = ''pending'') db \<noteq> []"
        using rd by (auto simp: due_def filter_empty_conv)
      ultimately show False
        using c idle r by (simp add: worker_claim_def sql_update_def)
    qed
    then have "\<not> (\<exists>r \<in> set db. due now r)" using sel_none by blast
    then show ?thesis using db c idle by (simp add: worker_pick_one_def)
  next
    case (hit r cl)
    let ?rc = "handler_result w cl"
    have db1: "db1 = map (\<lambda>x. if row_id x = row_id r then x\<lparr>row_status := ''running''\<rparr> else x) db"
      using hit(7) by (simp add: sql_update_def)
    let ?db' = "map (\<lambda>x. if row_id x = row_id r then finish_row cl ?rc now (x\<lparr>row_status := ''running''\<rparr>) else x) db"
    have fin: "worker_finish cl ?rc now db1 = ?db'"
      by (simp add: worker_finish_eq db1 hit(5))
    have nn: "0 \<le> cl_retry cl" using db(2) hit(1,6) by (auto simp: db_ok_def)
    have ok: "db_ok ?db'"
    proof -
      have "map row_id ?db' = map row_id db" by simp
      then have "distinct (map row_id ?db')" using dist by (simp only:)
      moreover have "length (row_id x') = 36 \<and> 0 \<le> row_retry x'" if x': "x' \<in> set ?db'" for x'
      proof -
        obtain x where x: "x \<in> set db"
          "x' = (if row_id x = row_id r then finish_row cl ?rc now (x\<lparr>row_status := ''running''\<rparr>) else x)"
          using x' by auto
        then have "length (row_id x) = 36" "0 \<le> row_retry x" using db(2) by (auto simp: db_ok_def)
        then show ?thesis using x(2) nn by (auto simp: finish_row_def)
      qed
      ultimately show ?thesis unfolding db_ok_def by blast
    qed
    define db2 where "db2 = ?db'"
    have "Suc (length (filter (due now) db2)) = length (filter (due now) db)"
      unfolding db2_def by (rule due_count [OF dist hit(1,2)]) (rule finish_not_due)
    moreover have "\<exists>r \<in> set db. due now r" using hit(1,2) by blast
    moreover have "worker_pick_one sel True now now w = Inr (1, w\<lparr>s_db := Some db2\<rparr>)"
      using db(1) c hit(4) fin by (simp add: worker_pick_one_def db2_def)
    moreover have "db_ok db2" unfolding db2_def by (rule ok)
    ultimately show ?thesis by auto
  qed
qed

lemma worker_run_drains:
  assumes "s_db w = Some db" "db_ok db" "length (filter (due now) db) \<le> n"
  shows "\<exists>w' db'. worker_run sel now n w = Inr w' \<and> s_db w' = Some db' \<and> (\<forall>r \<in> set db'. \<not> due now r)"
  using assms
proof (induction n arbitrary: w db)
  case 0
  then show ?case by (simp add: filter_empty_conv)
next
  case (Suc n)
  obtain rc w1 db1 where p: "worker_pick_one sel True now now w = Inr (rc, w1)" "s_db w1 = Some db1" "db_ok db1"
    "if \<exists>r \<in> set db. due now r
     then rc = 1 \<and> Suc (length (filter (due now) db1)) = length (filter (due now) db)
     else rc = 0 \<and> db1 = db"
    using worker_pick_due [OF Suc.prems(1,2)] by blast
  have "length (filter (due now) db1) \<le> n"
    using p(4) Suc.prems(3) by (auto simp: filter_empty_conv split: if_splits)
  from Suc.IH [OF p(2,3) this] show ?case using p(1) by auto
qed

end

section \<open>Properties\<close>

text \<open>
  C1. However the public functions interleave with the worker, starting from an empty table, the
  handler of a job is called at most \<open>WORKFLOW_MAX_RETRIES\<close> times; a job is done only after its
  handler was called, a waiting job has been called exactly \<open>retry_count\<close> times, and the only job that
  can be \<open>running\<close> is the one the worker has in hand.
\<close>

theorem workflow_attempts_bounded:
  assumes "job_select sel" "wf_fresh s0" "wf_reach sel s0 s" "s_db (w_wf s) = Some db" "r \<in> set db"
  shows "w_calls s (row_id r) \<le> 5 \<and>
     row_status r \<in> {''pending'', ''running'', ''done'', ''failed''} \<and>
     (row_status r = ''pending'' \<longrightarrow> int (w_calls s (row_id r)) = row_retry r \<and> row_retry r < 5) \<and>
     (row_status r = ''done'' \<longrightarrow> 1 \<le> w_calls s (row_id r)) \<and>
     (row_status r = ''running'' \<longrightarrow> (\<exists>cl. w_cur s = Some cl \<and> cl_id cl = row_id r))"
proof -
  have "wf_inv s" using job_select.wf_inv_reach [OF assms(1,3)] wf_inv_fresh [OF assms(2)] by blast
  then have "row_ok (w_cur s) (w_calls s) r" using assms(4,5) by (auto simp: wf_inv_def)
  then show ?thesis by (auto simp: row_ok_def split: if_splits)
qed

definition demo_world :: "unit world" where
  "demo_world = \<lparr>w_wf = \<lparr>s_handlers = [], s_db = Some [], s_stop = False, s_running = True\<rparr>,
                 w_cur = None, w_calls = (\<lambda>_. 0)\<rparr>"

definition demo_row :: job_row where
  "demo_row = \<lparr>row_id = wf_gen_uuid None 0 1, row_type = ''t'', row_payload = ''{}'', row_status = ''pending'',
               row_retry = 0, row_run_at = 7, row_created_at = 7\<rparr>"

definition demo_world1 :: "unit world" where
  "demo_world1 = demo_world\<lparr>w_wf := (w_wf demo_world)\<lparr>s_db := Some [demo_row]\<rparr>,
                            w_calls := (w_calls demo_world)(row_id demo_row := 0)\<rparr>"

lemma demo_reach: "wf_reach sql_select_due demo_world demo_world1"
proof -
  let ?w' = "(w_wf demo_world)\<lparr>s_db := Some [demo_row]\<rparr>"
  have "workflow_enqueue True True (row_id demo_row) 7 (w_wf demo_world) (Some ''t'') (Some ''{}'') 0 =
      (0, Some (row_id demo_row), ?w')"
    by (simp add: workflow_enqueue_def demo_world_def demo_row_def sql_insert_def)
  from wf_step.enqueue [OF _ _ this, of None 0 1 sql_select_due]
  have "wf_step sql_select_due demo_world (Enqueue (row_id demo_row) (Some ''t'') (Some ''{}'') 0 7) demo_world1"
    by (simp add: demo_world1_def) (simp add: demo_row_def)
  then show ?thesis by (rule wf_reach.step [OF wf_reach.init])
qed

lemma demo_world1_db: "s_db (w_wf demo_world1) = Some [demo_row]"
  by (simp add: demo_world1_def)

lemma demo_row_length: "length (row_id demo_row) = 36"
  using length_wf_gen_uuid [of None 0 1] by (simp add: demo_row_def)

lemma demo_fresh: "wf_fresh demo_world"
  by (simp add: wf_fresh_def demo_world_def)

theorem workflow_attempts_bounded_witness:
  "w_calls demo_world1 (row_id demo_row) \<le> 5 \<and>
   row_status demo_row \<in> {''pending'', ''running'', ''done'', ''failed''}"
  using workflow_attempts_bounded [OF sd.job_select_axioms demo_fresh demo_reach demo_world1_db, of demo_row]
  by simp

text \<open>
  C25. The life of a row: in one step of the interleaved system a row stays as it is, except that a due
  row with the least time is claimed, a waiting row is cancelled, or the row in hand gets its
  outcome: done, failed at the fifth failure, or waiting again for 3, 9, 27 or 81 seconds.  Only a
  purge removes rows, and only finished ones older than the given age.
\<close>

theorem workflow_row_transitions:
  assumes sel: "job_select sel" and s0: "wf_fresh s0" and reach: "wf_reach sel s0 s"
    and step: "wf_step sel s e s'" and db: "s_db (w_wf s) = Some db" and r: "r \<in> set db"
  shows "\<exists>db'. s_db (w_wf s') = Some db' \<and>
     (r \<in> set db' \<or>
      (\<exists>now. e = Claim now \<and> due now r \<and> (\<forall>x \<in> set db. due now x \<longrightarrow> row_run_at r \<le> row_run_at x) \<and>
         r\<lparr>row_status := ''running''\<rparr> \<in> set db') \<or>
      (e = Cancel (row_id r) \<and> row_status r = ''pending'' \<and> r\<lparr>row_status := ''failed''\<rparr> \<in> set db') \<or>
      (\<exists>rc now. e = Finish rc now \<and> row_status r = ''running'' \<and>
         (if rc = 0 then r\<lparr>row_status := ''done''\<rparr>
          else if row_retry r = 4 then r\<lparr>row_status := ''failed'', row_retry := 5\<rparr>
          else r\<lparr>row_status := ''pending'', row_retry := row_retry r + 1,
                 row_run_at := now + 3 ^ nat (row_retry r + 1)\<rparr>) \<in> set db') \<or>
      (\<exists>now age. e = Purge now age \<and> row_status r \<in> {''done'', ''failed''} \<and> row_created_at r < now - age))"
proof -
  have inv: "wf_inv s" using job_select.wf_inv_reach [OF sel reach wf_inv_fresh [OF s0]] .
  have dist: "distinct (map row_id db)" and ok: "\<And>x. x \<in> set db \<Longrightarrow> row_ok (w_cur s) (w_calls s) x"
    using inv db by (auto simp: wf_inv_def)
  from step show ?thesis
  proof (cases rule: wf_step.cases)
    case (enqueue jid urandom nsec pid prep_ok step_ok now type payload delay rc out w')
    then show ?thesis using db r
      by (auto simp: workflow_enqueue_def sql_insert_def split: if_splits option.splits)
  next
    case (cancel jid rc w')
    then have "s_db (w_wf s') = Some (fst (sql_update (\<lambda>r. row_id r = jid \<and> row_status r = ''pending'')
        (\<lambda>r. r\<lparr>row_status := ''failed''\<rparr>) db))"
      using db by (auto simp: workflow_cancel_job_def Let_def split: prod.splits)
    then show ?thesis
      using r cancel(1)
      by (cases "row_id r = jid \<and> row_status r = ''pending''") (auto simp: in_sql_update intro!: bexI [of _ r])
  next
    case (purge now age rc w')
    then show ?thesis using db r
      by (auto simp: workflow_purge_done_def sql_delete_def Let_def)
  next
    case (claim db1 prep_ok now cur db')
    then have [simp]: "db1 = db" using db by simp
    have len: "\<forall>x \<in> set db. length (row_id x) = 36" using ok row_ok_length by blast
    have s': "s_db (w_wf s') = Some db'" using claim by (simp add: with_db_def)
    from claim(5) len dist show ?thesis unfolding \<open>db1 = db\<close>
    proof (cases rule: job_select.worker_claim_cases [OF sel, consumes 3])
      case 1
      then show ?thesis using s' r by simp
    next
      case (2 x cl)
      show ?thesis
      proof (cases "row_id r = row_id x")
        case True
        then have "r = x" using row_unique [OF dist r 2(1)] by simp
        moreover have "r\<lparr>row_status := ''running''\<rparr> \<in> set db'"
          unfolding 2(7) in_sql_update using r True by (intro bexI [of _ r]) simp_all
        ultimately show ?thesis using s' 2(2,3) claim(1) by blast
      next
        case False
        have "r \<in> set db'" unfolding 2(7) in_sql_update using r False by (intro bexI [of _ r]) simp_all
        then show ?thesis using s' by blast
      qed
    qed
  next
    case (finish cl db1 rc now)
    then have [simp]: "db1 = db" using db by simp
    have s': "s_db (w_wf s') = Some (worker_finish cl rc now db)" using finish by (simp add: with_db_def)
    obtain x where x: "x \<in> set db" "row_id x = cl_id cl" "row_status x = ''running''"
      using inv db finish(3) by (auto simp: wf_inv_def)
    show ?thesis
    proof (cases "row_id r = cl_id cl")
      case True
      then have rx: "r = x" using row_unique [OF dist r x(1)] x(2) by simp
      have rok: "row_ok (Some cl) (w_calls s) r" using ok [OF r] finish(3) by simp
      have ret: "cl_retry cl = row_retry r" using row_ok_running [OF rok] x(3) rx by auto
      have "row_retry r < 5" using rok x(3) rx by (simp add: row_ok_def)
      have "finish_row cl rc now r \<in> set (worker_finish cl rc now db)"
        unfolding worker_finish_eq using r True by (auto intro!: image_eqI [of _ _ r])
      moreover have "finish_row cl rc now r =
         (if rc = 0 then r\<lparr>row_status := ''done''\<rparr>
          else if row_retry r = 4 then r\<lparr>row_status := ''failed'', row_retry := 5\<rparr>
          else r\<lparr>row_status := ''pending'', row_retry := row_retry r + 1,
                 row_run_at := now + 3 ^ nat (row_retry r + 1)\<rparr>)"
        using \<open>row_retry r < 5\<close> by (auto simp: finish_row_def ret)
      ultimately show ?thesis using s' finish(1) x(3) rx by auto
    next
      case False
      then have "r \<in> set (worker_finish cl rc now db)"
        unfolding worker_finish_eq using r by (auto intro!: image_eqI [of _ _ r])
      then show ?thesis using s' by blast
    qed
  qed
qed

theorem workflow_row_transitions_witness:
  "\<exists>db'. s_db (w_wf (demo_world1\<lparr>w_wf := snd (workflow_cancel_job (w_wf demo_world1) (row_id demo_row))\<rparr>)) = Some db' \<and>
     (demo_row \<in> set db' \<or> demo_row\<lparr>row_status := ''failed''\<rparr> \<in> set db')"
proof -
  have "wf_step sql_select_due demo_world1 (Cancel (row_id demo_row))
     (demo_world1\<lparr>w_wf := snd (workflow_cancel_job (w_wf demo_world1) (row_id demo_row))\<rparr>)"
    by (rule wf_step.cancel [where rc = "fst (workflow_cancel_job (w_wf demo_world1) (row_id demo_row))"]) simp
  from workflow_row_transitions [OF sd.job_select_axioms demo_fresh demo_reach this demo_world1_db, of demo_row]
  show ?thesis by auto
qed

text \<open>
  C26. Nothing that is due is left waiting: at a fixed time, as many calls of \<open>worker_pick_one\<close> as there
  are due jobs leave no due job, whatever the handlers return, also when handlers are missing.
\<close>

theorem workflow_drains:
  assumes "job_select sel" "s_db w = Some db" "distinct (map row_id db)"
    and "\<forall>r \<in> set db. length (row_id r) = 36 \<and> 0 \<le> row_retry r"
  shows "\<exists>w' db'. worker_run sel now (length (filter (due now) db)) w = Inr w' \<and> s_db w' = Some db' \<and>
     (\<forall>r \<in> set db'. \<not> due now r)"
  using job_select.worker_run_drains [OF assms(1,2)] assms(3,4) by (simp add: db_ok_def)

theorem workflow_drains_witness:
  "\<exists>w' db'. worker_run sql_select_due 9 (length (filter (due 9) [demo_row]))
       \<lparr>s_handlers = [], s_db = Some [demo_row], s_stop = False, s_running = True\<rparr> = Inr w' \<and>
     s_db w' = Some db' \<and> (\<forall>r \<in> set db'. \<not> due 9 r)"
  by (rule workflow_drains [OF sd.job_select_axioms]) (simp_all add: demo_row_length, simp add: demo_row_def)

text \<open>
  A job that was enqueued under a new identifier is found under it: waiting, never tried, eligible
  after the delay, with its payload and its type (cut to 63 bytes); the other jobs are as before.
  Under an identifier that is taken nothing changes and the call fails.
\<close>

theorem workflow_enqueue_get:
  assumes "s_db w = Some db" "length jid = 36"
  shows "(case workflow_enqueue True True jid now w (Some ty) (Some pl) delay of (rc, out, w') \<Rightarrow>
     if jid \<in> row_id ` set db then rc = - 1 \<and> w' = w
     else rc = 0 \<and> out = Some jid \<and>
          workflow_get_job w' jid =
            Some \<lparr>job_id = jid, job_type = take 63 ty, job_payload = pl, job_status_of = JOB_PENDING,
                  job_retry_count = 0, job_run_at = now + delay, job_created_at = now\<rparr> \<and>
          (\<forall>other. other \<noteq> jid \<longrightarrow> workflow_get_job w' other = workflow_get_job w other))"
proof -
  have none: "find (\<lambda>r. row_id r = jid) db = None" if "jid \<notin> row_id ` set db"
    using that by (auto simp: find_None_iff)
  have app: "find P (xs @ ys) = (case find P xs of None \<Rightarrow> find P ys | Some x \<Rightarrow> Some x)" for P :: "job_row \<Rightarrow> bool" and xs ys
    by (induction xs) auto
  show ?thesis
    using assms none
    by (auto simp: workflow_enqueue_def sql_insert_def workflow_get_job_def app strncpy_def status_of_text_def
        split: option.splits)
qed

theorem workflow_enqueue_get_witness:
  "(case workflow_enqueue True True (replicate 36 CHR ''a'') 3
       (\<lparr>s_handlers = [], s_db = Some [], s_stop = False, s_running = True\<rparr> :: unit workflow)
       (Some ''t'') (Some ''{}'') 5 of (rc, out, w') \<Rightarrow>
     if replicate 36 CHR ''a'' \<in> row_id ` set ([] :: db) then rc = - 1 \<and>
        w' = \<lparr>s_handlers = [], s_db = Some [], s_stop = False, s_running = True\<rparr>
     else rc = 0 \<and> out = Some (replicate 36 CHR ''a'') \<and>
          workflow_get_job w' (replicate 36 CHR ''a'') =
            Some \<lparr>job_id = replicate 36 CHR ''a'', job_type = take 63 ''t'', job_payload = ''{}'',
                  job_status_of = JOB_PENDING, job_retry_count = 0, job_run_at = 3 + 5, job_created_at = 3\<rparr> \<and>
          (\<forall>other. other \<noteq> replicate 36 CHR ''a'' \<longrightarrow> workflow_get_job w' other =
             workflow_get_job (\<lparr>s_handlers = [], s_db = Some [], s_stop = False, s_running = True\<rparr> :: unit workflow) other))"
  by (rule workflow_enqueue_get) simp_all

section \<open>Rows left behind by a crash\<close>

definition stuck_inv :: "job_row \<Rightarrow> 'h world \<Rightarrow> bool" where
  "stuck_inv r s \<longleftrightarrow>
     (\<exists>db. s_db (w_wf s) = Some db \<and> distinct (map row_id db) \<and> (\<forall>x \<in> set db. length (row_id x) = 36) \<and>
        r \<in> set db \<and> row_status r = ''running'' \<and> (\<forall>cl. w_cur s = Some cl \<longrightarrow> cl_id cl \<noteq> row_id r))"

lemma stuck_invI:
  assumes "s_db (w_wf s) = Some db" "distinct (map row_id db)" "\<forall>x \<in> set db. length (row_id x) = 36"
    "r \<in> set db" "row_status r = ''running''" "\<And>cl. w_cur s = Some cl \<Longrightarrow> cl_id cl \<noteq> row_id r"
  shows "stuck_inv r s"
  unfolding stuck_inv_def using assms by blast

lemma stuck_update:
  assumes "distinct (map row_id db)" "\<forall>x \<in> set db. length (row_id x) = 36" "r \<in> set db"
    and "\<And>x. row_id (f x) = row_id x" "\<not> P r"
  shows "distinct (map row_id (fst (sql_update P f db))) \<and>
     (\<forall>x \<in> set (fst (sql_update P f db)). length (row_id x) = 36) \<and> r \<in> set (fst (sql_update P f db))"
  using assms by (auto simp: in_sql_update intro!: bexI [of _ r])

context job_select
begin

lemma stuck_step:
  assumes "wf_step sel s e s'" "stuck_inv r s"
  shows "stuck_inv r s'"
proof -
  obtain db where db: "s_db (w_wf s) = Some db" "distinct (map row_id db)" "\<forall>x \<in> set db. length (row_id x) = 36"
    "r \<in> set db" "row_status r = ''running''" "\<And>cl. w_cur s = Some cl \<Longrightarrow> cl_id cl \<noteq> row_id r"
    using assms(2) unfolding stuck_inv_def by blast
  from assms(1) show ?thesis
  proof (cases rule: wf_step.cases)
    case (enqueue jid urandom nsec pid prep_ok step_ok now type payload delay rc out w')
    have len: "length jid = 36" using enqueue(3,4) by (simp add: length_wf_gen_uuid)
    consider "w' = w_wf s" | x where "s_db w' = Some (db @ [x])" "row_id x = jid" "jid \<notin> row_id ` set db"
      using enqueue(5) db(1)
      by (auto simp: workflow_enqueue_def sql_insert_def split: if_splits option.splits)
    then show ?thesis
    proof cases
      case 1
      then show ?thesis using enqueue(2) assms(2) by (simp add: stuck_inv_def)
    next
      case 2
      then show ?thesis
        using db len enqueue(2) by (intro stuck_invI [where db = "db @ [x]"]) auto
    qed
  next
    case (cancel jid rc w')
    let ?P = "\<lambda>r. row_id r = jid \<and> row_status r = ''pending''"
    have "s_db w' = Some (fst (sql_update ?P (\<lambda>r. r\<lparr>row_status := ''failed''\<rparr>) db))"
      using cancel(3) db(1) by (auto simp: workflow_cancel_job_def Let_def split: prod.splits)
    then show ?thesis
      using stuck_update [OF db(2,3,4), of "\<lambda>r. r\<lparr>row_status := ''failed''\<rparr>" ?P] db(5,6) cancel(2)
      by (intro stuck_invI) auto
  next
    case (purge now age rc w')
    let ?P = "\<lambda>r. (row_status r = ''done'' \<or> row_status r = ''failed'') \<and> row_created_at r < now - age"
    have "s_db w' = Some (filter (\<lambda>r. \<not> ?P r) db)"
      using purge(3) db(1) by (auto simp: workflow_purge_done_def sql_delete_def Let_def)
    then show ?thesis
      using db purge(2) by (intro stuck_invI [where db = "filter (\<lambda>r. \<not> ?P r) db"]) (auto simp: distinct_map_filter)
  next
    case (claim db1 prep_ok now cur db')
    then have c: "worker_claim sel prep_ok now db = (cur, db')" using db(1) by simp
    from c db(3,2) show ?thesis
    proof (cases rule: worker_claim_cases)
      case idle
      then show ?thesis using claim(2) db by (intro stuck_invI [where db = db]) (auto simp: with_db_def)
    next
      case (hit x cl)
      have "row_id r \<noteq> row_id x"
        using row_unique [OF db(2,4) hit(1)] hit(2) db(5) by (auto simp: due_def)
      with stuck_update [OF db(2,3,4), where f = "\<lambda>x. x\<lparr>row_status := ''running''\<rparr>" and
          P = "\<lambda>y. row_id y = row_id x"]
      show ?thesis
        using hit(4,5,7) claim(2) db(5) \<open>row_id r \<noteq> row_id x\<close>
        by (intro stuck_invI [where db = db']) (auto simp: with_db_def)
    qed
  next
    case (finish cl db1 rc now)
    then have ne: "cl_id cl \<noteq> row_id r" using db(6) by blast
    have "distinct (map row_id (worker_finish cl rc now db))"
      using db(2) by (simp add: worker_finish_eq comp_def if_distrib cong: if_cong)
    moreover have "\<forall>x \<in> set (worker_finish cl rc now db). length (row_id x) = 36"
      using db(3) by (auto simp: worker_finish_eq)
    moreover have "r \<in> set (worker_finish cl rc now db)"
      using db(4) ne by (auto simp: worker_finish_eq intro!: image_eqI [of _ _ r])
    ultimately show ?thesis
      using finish db(1,5) by (intro stuck_invI [where db = "worker_finish cl rc now db"]) (auto simp: with_db_def)
  qed
qed

end

text \<open>
  C34. A job that the database holds as \<open>running\<close> when no worker has it in hand, as after a crash, keeps
  that state for ever: no sequence of calls and worker steps runs, changes or removes it.
\<close>

theorem workflow_running_row_stuck:
  assumes "job_select sel" "s_db (w_wf s0) = Some db" "w_cur s0 = None" "distinct (map row_id db)"
    and "\<forall>x \<in> set db. length (row_id x) = 36" "r \<in> set db" "row_status r = ''running''" "wf_reach sel s0 s"
  shows "\<exists>db'. s_db (w_wf s) = Some db' \<and> r \<in> set db' \<and> (\<forall>cl. w_cur s = Some cl \<longrightarrow> cl_id cl \<noteq> row_id r)"
proof -
  have "stuck_inv r s0" using assms by (intro stuck_invI) auto
  with assms(8) have "stuck_inv r s"
    by (induction rule: wf_reach.induct) (auto intro: job_select.stuck_step [OF assms(1)])
  then show ?thesis by (auto simp: stuck_inv_def)
qed

definition demo_crashed :: "unit world" where
  "demo_crashed = demo_world\<lparr>w_wf := (w_wf demo_world)\<lparr>s_db := Some [demo_row\<lparr>row_status := ''running''\<rparr>]\<rparr>\<rparr>"

lemma demo_crashed_db:
  "s_db (w_wf demo_crashed) = Some [demo_row\<lparr>row_status := ''running''\<rparr>]" "w_cur demo_crashed = None"
  by (simp_all add: demo_crashed_def demo_world_def)

theorem workflow_running_row_stuck_witness:
  "\<exists>db'. s_db (w_wf demo_crashed) = Some db' \<and> demo_row\<lparr>row_status := ''running''\<rparr> \<in> set db' \<and>
     (\<forall>cl. w_cur demo_crashed = Some cl \<longrightarrow> cl_id cl \<noteq> row_id (demo_row\<lparr>row_status := ''running''\<rparr>))"
  by (rule workflow_running_row_stuck [OF sd.job_select_axioms demo_crashed_db])
    (simp_all add: wf_reach.init demo_row_length)

text \<open>
  When \<open>sqlite3_open\<close> fails it still stores a handle, and \<open>workflow_init\<close> keeps it: the next call
  reports success although there is no worker thread.
\<close>

lemma workflow_init_after_failure:
  assumes "s_db w = None" "\<not> s_running w"
  shows "case workflow_init w (Some db, False) create_ok thread_ok of (rc, w1) \<Rightarrow>
     rc = - 1 \<and> workflow_init w1 opened' create_ok' thread_ok' = (0, w1) \<and> \<not> s_running w1"
  using assms by (simp add: workflow_init_def)

end
