(* ===== verification/Slots.thy ===== *)
theory Slots
  imports Prelude
begin

text \<open>
  Fixed tables of slots, as the sandbox, browser and agent modules keep them: a new object takes the
  first free slot, is written into it after the lock was released in between, and leaves it empty
  when it is removed.  The locale \<open>slot_table\<close> states what the three modules' operations promise; the
  consequences for creating, removing and interleaving are proved once here.  \<open>good\<close> holds of the objects the modules write.
\<close>

text \<open>The loop \<open>for (i = 0; i < MAX; i++) if (P (table[i])) { slot = i; break; }\<close>.\<close>

fun first_index :: "('a \<Rightarrow> bool) \<Rightarrow> 'a list \<Rightarrow> nat option" where
  "first_index P [] = None"
| "first_index P (x # xs) = (if P x then Some 0 else map_option Suc (first_index P xs))"

lemma first_index_Some:
  "first_index P xs = Some i \<Longrightarrow> i < length xs \<and> P (xs ! i) \<and> (\<forall>j < i. \<not> P (xs ! j))"
proof (induction xs arbitrary: i)
  case (Cons x xs)
  show ?case
  proof (cases "P x")
    case True
    then show ?thesis using Cons.prems by simp
  next
    case False
    then obtain k where k: "first_index P xs = Some k" "i = Suc k" using Cons.prems by auto
    have "\<forall>j < i. \<not> P ((x # xs) ! j)"
      using Cons.IH [OF k(1)] False k(2) by (auto simp: less_Suc_eq_0_disj)
    then show ?thesis using Cons.IH [OF k(1)] k(2) by simp
  qed
qed simp

lemma first_index_None: "first_index P xs = None \<longleftrightarrow> (\<forall>x \<in> set xs. \<not> P x)"
  by (induction xs) auto

lemma first_index_unique:
  assumes "i < length xs" "P (xs ! i)" "\<And>j. j < length xs \<Longrightarrow> P (xs ! j) \<Longrightarrow> j = i"
  shows "first_index P xs = Some i"
proof (cases "first_index P xs")
  case None
  then show ?thesis using assms(1,2) by (auto simp: first_index_None)
next
  case (Some j)
  then show ?thesis using first_index_Some [OF Some] assms(3) by auto
qed

section \<open>The interface\<close>

locale slot_table =
  fixes cap :: nat
    and inv :: "'t \<Rightarrow> bool"
    and good :: "'v \<Rightarrow> bool"
    and live :: "'t \<Rightarrow> nat \<Rightarrow> 'v option"
    and reserve :: "'t \<Rightarrow> nat option"
    and commit :: "nat \<Rightarrow> 'v \<Rightarrow> 't \<Rightarrow> 't"
    and release :: "nat \<Rightarrow> 't \<Rightarrow> 't"
  assumes live_cap: "inv t \<Longrightarrow> live t i = Some v \<Longrightarrow> i < cap"
    and reserve_free: "inv t \<Longrightarrow> reserve t = Some i \<Longrightarrow> i < cap \<and> live t i = None"
    and reserve_full: "inv t \<Longrightarrow> reserve t = None \<Longrightarrow> i < cap \<Longrightarrow> live t i \<noteq> None"
    and commit_inv: "inv t \<Longrightarrow> i < cap \<Longrightarrow> good v \<Longrightarrow> inv (commit i v t)"
    and commit_live: "inv t \<Longrightarrow> i < cap \<Longrightarrow> good v \<Longrightarrow> live (commit i v t) = (live t)(i \<mapsto> v)"
    and release_inv: "inv t \<Longrightarrow> inv (release i t)"
    and release_live: "inv t \<Longrightarrow> live (release i t) = (live t)(i := None)"
begin

text \<open>Creating an object with nothing in between.\<close>

definition create :: "'v \<Rightarrow> 't \<Rightarrow> (nat \<times> 't) option" where
  "create v t = (case reserve t of None \<Rightarrow> None | Some i \<Rightarrow> Some (i, commit i v t))"

lemma live_dom: "inv t \<Longrightarrow> dom (live t) \<subseteq> {0..<cap}"
  using live_cap by fastforce

lemma finite_live: "inv t \<Longrightarrow> finite (dom (live t))"
  using live_dom finite_subset by blast

lemma create_Some:
  assumes "inv t" "good v" "create v t = Some (i, t')"
  shows "inv t'" "live t i = None" "live t' = (live t)(i \<mapsto> v)" "card (dom (live t')) = Suc (card (dom (live t)))"
proof -
  have i: "reserve t = Some i" "t' = commit i v t"
    using assms(3) by (auto simp: create_def split: option.splits)
  then have f: "i < cap" "live t i = None" using reserve_free [OF assms(1)] by auto
  show "inv t'" using commit_inv [OF assms(1) f(1) assms(2)] i by simp
  show "live t i = None" by (rule f)
  show l: "live t' = (live t)(i \<mapsto> v)" using commit_live [OF assms(1) f(1) assms(2)] i by simp
  have "i \<notin> dom (live t)" using f(2) by auto
  then show "card (dom (live t')) = Suc (card (dom (live t)))"
    using l finite_live [OF assms(1)] by simp
qed

text \<open>Creation fails exactly when every slot is taken.\<close>

lemma create_None: "inv t \<Longrightarrow> create v t = None \<longleftrightarrow> card (dom (live t)) = cap"
proof -
  assume t: "inv t"
  have "reserve t = None \<longleftrightarrow> dom (live t) = {0..<cap}"
  proof
    assume "reserve t = None"
    then show "dom (live t) = {0..<cap}" using reserve_full [OF t] live_dom [OF t] by fastforce
  next
    assume d: "dom (live t) = {0..<cap}"
    show "reserve t = None"
    proof (rule ccontr)
      assume "reserve t \<noteq> None"
      then obtain i where "reserve t = Some i" by auto
      then have "i < cap" "i \<notin> dom (live t)" using reserve_free [OF t] by auto
      then show False using d by simp
    qed
  qed
  moreover have "dom (live t) = {0..<cap} \<longleftrightarrow> card (dom (live t)) = cap"
  proof
    assume c: "card (dom (live t)) = cap"
    show "dom (live t) = {0..<cap}"
      by (rule card_subset_eq) (use live_dom [OF t] c in auto)
  qed simp
  ultimately show ?thesis by (auto simp: create_def split: option.splits)
qed

text \<open>
  The race: when two creations pick their slots before either writes, both write the same slot and
  the first object is gone.
\<close>

lemma lost_create:
  assumes "inv t" "good v1" "good v2" "reserve t = Some i"
  shows "live (commit i v2 (commit i v1 t)) = (live t)(i \<mapsto> v2)"
proof -
  have "i < cap" using reserve_free [OF assms(1,4)] by simp
  then show ?thesis
    using commit_live commit_inv assms(1,2,3) by simp
qed

end

end
