(* ===== verification/Sandbox.thy ===== *)
theory Sandbox
  imports Uuid Utils Slots
begin

text \<open>
  The sandbox engine of \<open>src/src/sandbox.c\<close>.

  State: the table of 32 slots, the handle of the SQLite database and the initialisation flag.
  System calls are outside the sources: their results are arguments, and the calls with an effect on
  processes, descriptors and namespaces appear in the result as a list of \<open>os_call\<close> in the order they
  are made.  The body of the namespace holder and of the process that runs the program are such
  lists as well.  Statements of the database can fail; whether they do is an argument too.  The code does
  not look at their results, so table and database can fall out of step.

  \<open>sandbox_create\<close> gives up the lock between choosing a slot and filling it, so it is composed of
  \<open>create_reserve\<close> and \<open>create_commit\<close>.
\<close>

section \<open>Data\<close>

abbreviation SANDBOX_ID_LEN :: nat where "SANDBOX_ID_LEN \<equiv> 37"
abbreviation SANDBOX_MAX :: nat where "SANDBOX_MAX \<equiv> 32"

datatype sandbox_state = SANDBOX_READY | SANDBOX_STOPPED | SANDBOX_ERROR

record sandbox =
  sb_id :: string
  ns_pid :: int
  ns_pid_fd :: int
  ns_net_fd :: int
  ns_mnt_fd :: int
  ns_uts_fd :: int
  ns_ipc_fd :: int
  sb_state :: sandbox_state
  net_enabled :: int

record sandbox_config =
  cfg_net_enabled :: int
  cfg_mem_limit :: int
  cfg_hostname :: "string option"

record sandbox_row =
  srow_id :: string
  srow_pid :: int
  srow_net :: int

text \<open>The database handle: not opened, open with its rows, or closed but still referred to.\<close>

datatype sandbox_db = DbNull | DbOpen "sandbox_row list" | DbClosed

record sandbox_mod =
  sbx_table :: "sandbox list"
  sbx_db :: sandbox_db
  sbx_initialised :: bool

datatype namespace = NEWNS | NEWUTS | NEWIPC | NEWNET | NEWPID

datatype os_call =
    Close int
  | Kill int string
  | WaitPid int
  | Setns int namespace
  | LoadFilter
  | Execv string "string list"
  | Exit int
  | Mount string
  | SetHostname string
  | SetRlimitAS int
  | WriteByte int
  | Pause

section \<open>Helpers\<close>

definition sandbox_gen_uuid :: "8 word list option \<Rightarrow> 64 word \<Rightarrow> 64 word \<Rightarrow> string" where
  "sandbox_gen_uuid urandom nsec pid = uuid_v4 SANDBOX_ID_LEN urandom nsec pid"

text \<open>\<open>opn\<close> is \<open>open\<close> on a path; -1 is a failure.\<close>

definition open_ns_fd :: "(string \<Rightarrow> int) \<Rightarrow> int \<Rightarrow> string \<Rightarrow> int" where
  "open_ns_fd opn pid ns_name = opn (take 63 (''/proc/'' @ int_str pid @ ''/ns/'' @ ns_name))"

definition seccomp_whitelist :: "string list" where
  "seccomp_whitelist =
     [''brk'', ''mmap'', ''munmap'', ''mprotect'', ''mremap'',
      ''read'', ''write'', ''readv'', ''writev'', ''pread64'', ''pwrite64'', ''lseek'', ''ioctl'',
      ''open'', ''openat'', ''close'', ''stat'', ''fstat'', ''lstat'', ''newfstatat'', ''access'',
      ''faccessat'', ''readlink'', ''readlinkat'', ''getdents64'', ''dup'', ''dup2'', ''dup3'',
      ''pipe'', ''pipe2'', ''fcntl'',
      ''execve'', ''exit'', ''exit_group'', ''wait4'', ''waitid'', ''getpid'', ''getppid'', ''getuid'',
      ''getgid'', ''geteuid'', ''getegid'', ''kill'', ''signal'', ''sigaction'', ''rt_sigaction'',
      ''rt_sigreturn'', ''rt_sigprocmask'',
      ''clock_gettime'', ''gettimeofday'', ''nanosleep'',
      ''uname'', ''arch_prctl'', ''set_robust_list'', ''futex'']"

datatype seccomp_action = ACT_ALLOW | ACT_ERRNO_EPERM

text \<open>The filter: the default action given to \<open>seccomp_init\<close> and a rule for each listed call.\<close>

definition seccomp_filter :: "string \<Rightarrow> seccomp_action" where
  "seccomp_filter call = (if call \<in> set seccomp_whitelist then ACT_ALLOW else ACT_ERRNO_EPERM)"

definition apply_seccomp :: "bool \<Rightarrow> int \<Rightarrow> int \<times> os_call list" where
  "apply_seccomp init_ok load_rc =
     (if \<not> init_ok then (- 1, [])
      else if load_rc \<noteq> 0 then (- 1, [])
      else (0, [LoadFilter]))"

record holder_args =
  ha_net_enabled :: int
  ha_mem_limit :: int
  ha_hostname :: string
  ha_ready_pipe_wr :: int

text \<open>The holder process: what it does before it sleeps for good.\<close>

definition ns_holder_fn :: "holder_args \<Rightarrow> os_call list" where
  "ns_holder_fn a =
     [Mount ''/proc''] @
     (if ha_hostname a \<noteq> [] then [SetHostname (ha_hostname a)] else []) @
     (if ha_mem_limit a > 0 then [SetRlimitAS (ha_mem_limit a)] else []) @
     [WriteByte (ha_ready_pipe_wr a), Close (ha_ready_pipe_wr a), Pause]"

section \<open>The database\<close>

definition sandbox_db_init :: "sandbox_row list option \<Rightarrow> bool \<Rightarrow> int \<times> sandbox_db" where
  "sandbox_db_init opened create_ok =
     (case opened of
        None \<Rightarrow> (- 1, DbOpen [])
      | Some rows \<Rightarrow> (if create_ok then 0 else - 1, DbOpen rows))"

text \<open>
  \<open>step_ok\<close> tells whether SQLite can carry out the statement (it may be locked, out of space or unable
  to read the file).  The primary key makes a second insert under the same identifier fail as well.
\<close>

definition db_save :: "bool \<Rightarrow> string \<Rightarrow> int \<Rightarrow> int \<Rightarrow> sandbox_db \<Rightarrow> (int \<times> sandbox_db) result" where
  "db_save step_ok sid pid net db =
     (case db of
        DbOpen rows \<Rightarrow>
          if \<not> step_ok \<or> sid \<in> srow_id ` set rows then Inr (- 1, db)
          else Inr (0, DbOpen (rows @ [\<lparr>srow_id = sid, srow_pid = pid, srow_net = net\<rparr>]))
      | _ \<Rightarrow> Inl NullDeref)"

definition delete_rows :: "bool \<Rightarrow> string \<Rightarrow> sandbox_row list \<Rightarrow> sandbox_row list" where
  "delete_rows step_ok sid rows = (if step_ok then filter (\<lambda>r. srow_id r \<noteq> sid) rows else rows)"

definition db_remove :: "bool \<Rightarrow> string \<Rightarrow> sandbox_db \<Rightarrow> (int \<times> sandbox_db) result" where
  "db_remove step_ok sid db =
     (case db of
        DbOpen rows \<Rightarrow> Inr (if step_ok then 0 else - 1, DbOpen (delete_rows step_ok sid rows))
      | _ \<Rightarrow> Inl NullDeref)"

text \<open>
  \<open>db_load_all\<close>: the rows are visited in turn as long as there is a slot; \<open>alive\<close> is the answer of
  \<open>kill(pid, 0)\<close>, \<open>removes\<close> whether the row of an identifier can be deleted, \<open>fetched\<close> the number of rows
  the query delivers before it ends or fails.  The result is the filled prefix of the table and the rows
  that are left.
\<close>

definition load_row :: "(string \<Rightarrow> int) \<Rightarrow> sandbox_row \<Rightarrow> sandbox" where
  "load_row opn r =
     (let pid = srow_pid r in
      \<lparr>sb_id = strncpy SANDBOX_ID_LEN (srow_id r), ns_pid = pid, ns_pid_fd = open_ns_fd opn pid ''pid'',
       ns_net_fd = open_ns_fd opn pid ''net'', ns_mnt_fd = open_ns_fd opn pid ''mnt'',
       ns_uts_fd = open_ns_fd opn pid ''uts'', ns_ipc_fd = open_ns_fd opn pid ''ipc'',
       sb_state = SANDBOX_READY, net_enabled = srow_net r\<rparr>)"

fun db_load_loop ::
  "(string \<Rightarrow> int) \<Rightarrow> (int \<Rightarrow> bool) \<Rightarrow> (string \<Rightarrow> bool) \<Rightarrow> nat \<Rightarrow> sandbox_row list \<Rightarrow> sandbox list \<Rightarrow> sandbox_row list \<Rightarrow>
   sandbox list \<times> sandbox_row list" where
  "db_load_loop opn alive removes i [] table rows = (table, rows)"
| "db_load_loop opn alive removes i (r # rs) table rows =
     (if \<not> i < SANDBOX_MAX then (table, rows)
      else if alive (srow_pid r)
      then db_load_loop opn alive removes (Suc i) rs (table[i := load_row opn r]) rows
      else db_load_loop opn alive removes i rs table (delete_rows (removes (srow_id r)) (srow_id r) rows))"

definition db_load_all ::
  "nat \<Rightarrow> (string \<Rightarrow> int) \<Rightarrow> (int \<Rightarrow> bool) \<Rightarrow> (string \<Rightarrow> bool) \<Rightarrow> sandbox_mod \<Rightarrow> sandbox_mod" where
  "db_load_all fetched opn alive removes m =
     (case sbx_db m of
        DbOpen rows \<Rightarrow>
          (let (table, rows') = db_load_loop opn alive removes 0 (take fetched rows) (sbx_table m) rows
           in m\<lparr>sbx_table := table, sbx_db := DbOpen rows'\<rparr>)
      | _ \<Rightarrow> m)"

section \<open>Start and stop\<close>

definition empty_slot :: sandbox where
  "empty_slot = \<lparr>sb_id = [], ns_pid = - 1, ns_pid_fd = 0, ns_net_fd = 0, ns_mnt_fd = 0, ns_uts_fd = 0,
                 ns_ipc_fd = 0, sb_state = SANDBOX_STOPPED, net_enabled = 0\<rparr>"

definition sandbox_module_init ::
  "sandbox_row list option \<Rightarrow> bool \<Rightarrow> nat \<Rightarrow> (string \<Rightarrow> int) \<Rightarrow> (int \<Rightarrow> bool) \<Rightarrow> (string \<Rightarrow> bool) \<Rightarrow> sandbox_mod \<Rightarrow>
   int \<times> sandbox_mod" where
  "sandbox_module_init opened create_ok fetched opn alive removes m =
     (if sbx_initialised m then (0, m)
      else let (rc, db) = sandbox_db_init opened create_ok;
               m1 = m\<lparr>sbx_table := replicate SANDBOX_MAX empty_slot, sbx_db := db\<rparr>
           in if rc \<noteq> 0 then (- 1, m1)
              else (0, (db_load_all fetched opn alive removes m1)\<lparr>sbx_initialised := True\<rparr>))"

definition close_fds :: "sandbox \<Rightarrow> os_call list" where
  "close_fds s =
     map Close (filter (\<lambda>fd. fd \<ge> 0) [ns_pid_fd s, ns_net_fd s, ns_mnt_fd s, ns_uts_fd s, ns_ipc_fd s])"

text \<open>The table keeps its contents and the closed handle is not cleared.\<close>

definition sandbox_module_shutdown :: "sandbox_mod \<Rightarrow> (os_call list \<times> sandbox_mod) result" where
  "sandbox_module_shutdown m =
     (case sbx_db m of
        DbClosed \<Rightarrow> Inl NullDeref
      | db \<Rightarrow>
          Inr (concat (map (\<lambda>s. if sb_state s = SANDBOX_READY \<and> ns_pid s > 0 then close_fds s else [])
                  (sbx_table m)),
               m\<lparr>sbx_db := (if db = DbNull then DbNull else DbClosed)\<rparr>))"

section \<open>Creating\<close>

definition create_reserve :: "sandbox list \<Rightarrow> nat option" where
  "create_reserve table = first_index (\<lambda>s. sb_state s = SANDBOX_STOPPED) table"

definition create_args :: "sandbox_config option \<Rightarrow> string \<Rightarrow> int \<Rightarrow> holder_args" where
  "create_args cfg new_id wr =
     \<lparr>ha_net_enabled = (case cfg of None \<Rightarrow> 0 | Some c \<Rightarrow> cfg_net_enabled c),
      ha_mem_limit = (case cfg of None \<Rightarrow> 0 | Some c \<Rightarrow> cfg_mem_limit c),
      ha_hostname = (case cfg of
                       None \<Rightarrow> ''brocolli-'' @ take 8 new_id
                     | Some c \<Rightarrow> (case cfg_hostname c of
                                    None \<Rightarrow> ''brocolli-'' @ take 8 new_id
                                  | Some h \<Rightarrow> strncpy 64 h)),
      ha_ready_pipe_wr = wr\<rparr>"

definition clone_flags :: "holder_args \<Rightarrow> namespace set" where
  "clone_flags a =
     {NEWPID, NEWNS, NEWUTS, NEWIPC} \<union> (if ha_net_enabled a = 0 then {NEWNET} else {})"

definition new_sandbox :: "(string \<Rightarrow> int) \<Rightarrow> holder_args \<Rightarrow> string \<Rightarrow> int \<Rightarrow> sandbox" where
  "new_sandbox opn a new_id holder_pid =
     \<lparr>sb_id = strncpy SANDBOX_ID_LEN new_id, ns_pid = holder_pid,
      ns_pid_fd = open_ns_fd opn holder_pid ''pid'', ns_net_fd = open_ns_fd opn holder_pid ''net'',
      ns_mnt_fd = open_ns_fd opn holder_pid ''mnt'', ns_uts_fd = open_ns_fd opn holder_pid ''uts'',
      ns_ipc_fd = open_ns_fd opn holder_pid ''ipc'', sb_state = SANDBOX_READY,
      net_enabled = ha_net_enabled a\<rparr>"

definition create_commit :: "nat \<Rightarrow> sandbox \<Rightarrow> sandbox list \<Rightarrow> sandbox list" where
  "create_commit slot s table = table[slot := s]"

text \<open>
  The results of the system calls made in between: the pipe, the stack, \<open>clone\<close>, the byte read from
  the pipe (\<open>None\<close> when the read fails or ends), \<open>open\<close>, and whether the row can be inserted.
\<close>

record create_env =
  ce_pipe :: "(int \<times> int) option"
  ce_stack :: bool
  ce_clone :: int
  ce_ready :: "nat option"
  ce_open :: "string \<Rightarrow> int"
  ce_save :: bool

datatype create_outcome = CreateFails | CreateHolder holder_args int

definition create_holder ::
  "create_env \<Rightarrow> sandbox_config option \<Rightarrow> string \<Rightarrow> create_outcome \<times> os_call list" where
  "create_holder env cfg new_id =
     (case ce_pipe env of
        None \<Rightarrow> (CreateFails, [])
      | Some (rd, wr) \<Rightarrow>
          if \<not> ce_stack env then (CreateFails, [Close rd, Close wr])
          else if ce_clone env < 0 then (CreateFails, [Close rd, Close wr])
          else if ce_ready env \<noteq> Some 1
          then (CreateFails, [Close wr, Kill (ce_clone env) ''SIGKILL'', WaitPid (ce_clone env), Close rd])
          else (CreateHolder (create_args cfg new_id wr) (ce_clone env), [Close wr, Close rd]))"

definition sandbox_create ::
  "create_env \<Rightarrow> sandbox_config option \<Rightarrow> string \<Rightarrow> sandbox_mod \<Rightarrow>
   (int \<times> string option \<times> os_call list \<times> sandbox_mod) result" where
  "sandbox_create env cfg new_id m =
     (if \<not> sbx_initialised m then Inr (- 1, None, [], m)
      else case create_reserve (sbx_table m) of
             None \<Rightarrow> Inr (- 1, None, [], m)
           | Some slot \<Rightarrow>
               (case create_holder env cfg new_id of
                  (CreateFails, calls) \<Rightarrow> Inr (- 1, None, calls, m)
                | (CreateHolder a pid, calls) \<Rightarrow>
                    bindR (db_save (ce_save env) new_id pid (ha_net_enabled a) (sbx_db m)) (\<lambda>(_, db).
                      Inr (0, Some (strncpy SANDBOX_ID_LEN new_id), calls,
                           m\<lparr>sbx_table := create_commit slot (new_sandbox (ce_open env) a new_id pid) (sbx_table m),
                             sbx_db := db\<rparr>))))"

section \<open>Finding and destroying\<close>

definition sandbox_matches :: "string \<Rightarrow> sandbox \<Rightarrow> bool" where
  "sandbox_matches sid s \<longleftrightarrow> sb_state s = SANDBOX_READY \<and> strncmp_eq SANDBOX_ID_LEN (sb_id s) sid"

text \<open>The pointer returned is a slot of the table.\<close>

definition sandbox_find :: "sandbox_mod \<Rightarrow> string \<Rightarrow> nat option" where
  "sandbox_find m sid = first_index (sandbox_matches sid) (sbx_table m)"

definition destroy_slot :: "nat \<Rightarrow> sandbox list \<Rightarrow> sandbox list" where
  "destroy_slot i table =
     (if i < length table then table[i := (table ! i)\<lparr>sb_state := SANDBOX_STOPPED, ns_pid := - 1\<rparr>] else table)"

definition sandbox_destroy :: "bool \<Rightarrow> string \<Rightarrow> sandbox_mod \<Rightarrow> (int \<times> os_call list \<times> sandbox_mod) result" where
  "sandbox_destroy step_ok sid m =
     (case first_index (sandbox_matches sid) (sbx_table m) of
        None \<Rightarrow> Inr (- 1, [], m)
      | Some found \<Rightarrow>
          (let s = sbx_table m ! found; pid = ns_pid s in
           bindR (db_remove step_ok sid (sbx_db m)) (\<lambda>(_, db).
             Inr (0, close_fds s @ (if pid > 0 then [Kill pid ''SIGKILL'', WaitPid pid] else []),
                  m\<lparr>sbx_table := destroy_slot found (sbx_table m), sbx_db := db\<rparr>))))"

section \<open>Executing\<close>

text \<open>
  The process that joins the namespaces.  \<open>setns_ok\<close> is the result of \<open>setns\<close>, \<open>inner\<close> that of the
  second \<open>fork\<close>, \<open>status\<close> what \<open>waitpid\<close> tells about the program (\<open>None\<close> when it did not exit by
  itself).  The list ends with the call that ends the process or replaces its image.
\<close>

fun join_all :: "(int \<Rightarrow> namespace \<Rightarrow> bool) \<Rightarrow> (int \<times> namespace) list \<Rightarrow> os_call list \<times> bool" where
  "join_all setns_ok [] = ([], True)"
| "join_all setns_ok ((fd, ns) # rest) =
     (if setns_ok fd ns
      then (let (calls, ok) = join_all setns_ok rest in (Setns fd ns # calls, ok))
      else ([Setns fd ns, Exit 127], False))"

definition join_list :: "sandbox \<Rightarrow> (int \<times> namespace) list" where
  "join_list s =
     [(ns_mnt_fd s, NEWNS), (ns_uts_fd s, NEWUTS), (ns_ipc_fd s, NEWIPC)] @
     (if ns_net_fd s \<ge> 0 \<and> net_enabled s = 0 then [(ns_net_fd s, NEWNET)] else []) @
     [(ns_pid_fd s, NEWPID)]"

definition exec_joiner :: "(int \<Rightarrow> namespace \<Rightarrow> bool) \<Rightarrow> int \<Rightarrow> int option \<Rightarrow> sandbox \<Rightarrow> os_call list" where
  "exec_joiner setns_ok inner status snap =
     (let (calls, ok) = join_all setns_ok (join_list snap) in
      if \<not> ok then calls
      else if inner < 0 then calls @ [Exit 127]
      else calls @ [WaitPid inner, Exit (case status of Some c \<Rightarrow> c | None \<Rightarrow> 126)])"

text \<open>The inner process, with the namespaces its parent has joined.\<close>

definition exec_inner ::
  "(int \<Rightarrow> namespace \<Rightarrow> bool) \<Rightarrow> bool \<Rightarrow> int \<Rightarrow> sandbox \<Rightarrow> string \<Rightarrow> string list \<Rightarrow> os_call list" where
  "exec_inner setns_ok init_ok load_rc snap path argv =
     (let (calls, ok) = join_all setns_ok (join_list snap) in
      if \<not> ok then calls
      else let (rc, fcalls) = apply_seccomp init_ok load_rc in
           calls @ fcalls @ (if rc \<noteq> 0 then [Exit 126] else [Execv path argv, Exit 127]))"

text \<open>
  The parent collects what the program writes.  \<open>chunks\<close> are the results of \<open>read\<close>; \<open>out\<close> is the
  caller's buffer, \<open>None\<close> if it passed none.
\<close>

fun capture_loop ::
  "byte list list \<Rightarrow> mem_block option \<Rightarrow> nat \<Rightarrow> nat \<Rightarrow> (mem_block option \<times> nat) result" where
  "capture_loop [] out len tot = Inr (out, tot)"
| "capture_loop (chunk # chunks) out len tot =
     bindR (case out of
              None \<Rightarrow> Inr None
            | Some blk \<Rightarrow> if tot + length chunk < len
                          then bindR (mem_write blk tot chunk) (\<lambda>blk'. Inr (Some blk'))
                          else Inr (Some blk))
       (\<lambda>out'. capture_loop chunks out' len (tot + length chunk))"

definition capture_end :: "mem_block option \<Rightarrow> nat \<Rightarrow> nat \<Rightarrow> mem_block option result" where
  "capture_end out len tot =
     (case out of
        None \<Rightarrow> Inr None
      | Some blk \<Rightarrow>
          if len > 0
          then bindR (mem_write blk (if tot < len then tot else len - 1) [NUL]) (\<lambda>blk'. Inr (Some blk'))
          else Inr (Some blk))"

datatype wait_result = WaitExited int | WaitSignaled | WaitEintr | WaitError

record exec_env =
  ee_pipe :: "(int \<times> int) option"
  ee_fork :: int
  ee_chunks :: "byte list list"
  ee_wait :: wait_result

datatype exec_error = ENOENT | ETIMEDOUT | ESYS

definition sandbox_exec ::
  "exec_env \<Rightarrow> sandbox_mod \<Rightarrow> string \<Rightarrow> mem_block option \<Rightarrow> nat \<Rightarrow>
   ((exec_error + int) \<times> mem_block option \<times> os_call list) result" where
  "sandbox_exec env m sid out len =
     (case first_index (sandbox_matches sid) (sbx_table m) of
        None \<Rightarrow> Inr (Inl ENOENT, out, [])
      | Some _ \<Rightarrow>
          (case ee_pipe env of
             None \<Rightarrow> Inr (Inl ESYS, out, [])
           | Some (rd, wr) \<Rightarrow>
               if ee_fork env < 0 then Inr (Inl ESYS, out, [Close rd, Close wr])
               else bindR (capture_loop (ee_chunks env) out len 0) (\<lambda>(out1, tot).
                    bindR (capture_end out1 len tot) (\<lambda>out2.
                      case ee_wait env of
                        WaitExited c \<Rightarrow> Inr (Inr c, out2, [Close wr, Close rd, WaitPid (ee_fork env)])
                      | WaitSignaled \<Rightarrow> Inr (Inr (- 1), out2, [Close wr, Close rd, WaitPid (ee_fork env)])
                      | WaitEintr \<Rightarrow> Inr (Inl ETIMEDOUT, out2,
                          [Close wr, Close rd, WaitPid (ee_fork env), Kill (ee_fork env) ''SIGKILL'',
                           WaitPid (ee_fork env)])
                      | WaitError \<Rightarrow> Inr (Inl ESYS, out2, [Close wr, Close rd, WaitPid (ee_fork env)])))))"

section \<open>The table as slots\<close>

definition table_inv :: "sandbox list \<Rightarrow> bool" where
  "table_inv table \<longleftrightarrow> length table = SANDBOX_MAX \<and> (\<forall>s \<in> set table. sb_state s \<noteq> SANDBOX_ERROR)"

definition table_live :: "sandbox list \<Rightarrow> nat \<Rightarrow> sandbox option" where
  "table_live table i =
     (if i < length table \<and> sb_state (table ! i) = SANDBOX_READY then Some (table ! i) else None)"

interpretation sbt: slot_table SANDBOX_MAX table_inv "\<lambda>s. sb_state s = SANDBOX_READY" table_live
  create_reserve create_commit destroy_slot
proof unfold_locales
  fix t i v
  assume "table_inv t" "table_live t i = Some v"
  then show "i < SANDBOX_MAX" by (auto simp: table_inv_def table_live_def split: if_splits)
next
  fix t i
  assume "table_inv t" "create_reserve t = Some i"
  then show "i < SANDBOX_MAX \<and> table_live t i = None"
    by (auto simp: table_inv_def table_live_def create_reserve_def dest: first_index_Some)
next
  fix t i
  assume t: "table_inv t" "create_reserve t = None" "i < SANDBOX_MAX"
  then have "t ! i \<in> set t" by (simp add: table_inv_def)
  then show "table_live t i \<noteq> None"
    using t by (cases "sb_state (t ! i)") (auto simp: table_inv_def table_live_def create_reserve_def first_index_None)
next
  fix t i and v :: sandbox
  assume "table_inv t" "sb_state v = SANDBOX_READY"
  then show "table_inv (create_commit i v t)"
    using set_update_subset_insert [of t i v] by (auto simp: table_inv_def create_commit_def)
next
  fix t i and v :: sandbox
  assume "table_inv t" "i < SANDBOX_MAX" "sb_state v = SANDBOX_READY"
  then show "table_live (create_commit i v t) = (table_live t)(i \<mapsto> v)"
    by (auto simp: table_inv_def table_live_def create_commit_def fun_eq_iff nth_list_update)
next
  fix t i
  assume t: "table_inv t"
  let ?s = "(t ! i)\<lparr>sb_state := SANDBOX_STOPPED, ns_pid := - 1\<rparr>"
  show "table_inv (destroy_slot i t)"
    using t set_update_subset_insert [of t i ?s] by (auto simp: table_inv_def destroy_slot_def)
next
  fix t i
  assume t: "table_inv t"
  then show "table_live (destroy_slot i t) = (table_live t)(i := None)"
    by (auto simp: table_inv_def table_live_def destroy_slot_def fun_eq_iff nth_list_update)
qed

section \<open>The invariant of the module\<close>

text \<open>
  Identifiers have their 36 characters, no two live sandboxes share one and no two rows of the database do.
  The results of \<open>db_save\<close> and \<open>db_remove\<close> are ignored, so that the rows need not be those of the live
  sandboxes; they are \<open>in_step\<close> as long as the statements succeed.
\<close>

definition row_of :: "sandbox \<Rightarrow> sandbox_row" where
  "row_of s = \<lparr>srow_id = sb_id s, srow_pid = ns_pid s, srow_net = net_enabled s\<rparr>"

definition live_ok :: "(nat \<Rightarrow> sandbox option) \<Rightarrow> bool" where
  "live_ok L \<longleftrightarrow>
     (\<forall>i s. L i = Some s \<longrightarrow> length (sb_id s) = 36) \<and>
     (\<forall>i j s t. L i = Some s \<longrightarrow> L j = Some t \<longrightarrow> sb_id s = sb_id t \<longrightarrow> i = j)"

definition db_ok :: "sandbox_db \<Rightarrow> bool" where
  "db_ok db \<longleftrightarrow>
     (\<exists>rows. db = DbOpen rows \<and> distinct (map srow_id rows) \<and> (\<forall>r \<in> set rows. length (srow_id r) = 36))"

definition db_rows :: "sandbox_mod \<Rightarrow> sandbox_row list" where
  "db_rows m = (case sbx_db m of DbOpen rows \<Rightarrow> rows | _ \<Rightarrow> [])"

definition table_ok :: "sandbox list \<Rightarrow> bool" where
  "table_ok table \<longleftrightarrow> table_inv table \<and> live_ok (table_live table)"

definition sandbox_inv :: "sandbox_mod \<Rightarrow> bool" where
  "sandbox_inv m \<longleftrightarrow> table_ok (sbx_table m) \<and> db_ok (sbx_db m)"

definition in_step :: "sandbox_mod \<Rightarrow> bool" where
  "in_step m \<longleftrightarrow> set (db_rows m) = row_of ` ran (table_live (sbx_table m))"

lemma sandbox_inv_table: "sandbox_inv m \<Longrightarrow> table_ok (sbx_table m)"
  by (simp add: sandbox_inv_def)

lemma live_okD: "live_ok L \<Longrightarrow> L i = Some s \<Longrightarrow> length (sb_id s) = 36"
  "live_ok L \<Longrightarrow> L i = Some s \<Longrightarrow> L j = Some t \<Longrightarrow> sb_id s = sb_id t \<Longrightarrow> i = j"
  unfolding live_ok_def by blast+

lemma live_ok_add:
  assumes "live_ok L" "length (sb_id s) = 36" "\<And>j x. L j = Some x \<Longrightarrow> sb_id x \<noteq> sb_id s"
  shows "live_ok (L(i \<mapsto> s))"
  unfolding live_ok_def
proof (intro conjI allI impI)
  fix j x
  assume "(L(i \<mapsto> s)) j = Some x"
  then show "length (sb_id x) = 36" using assms(2) live_okD(1) [OF assms(1)] by (auto split: if_splits)
next
  fix j k x y
  assume "(L(i \<mapsto> s)) j = Some x" "(L(i \<mapsto> s)) k = Some y" "sb_id x = sb_id y"
  then show "j = k"
    using assms(3) [of j x] assms(3) [of k y] live_okD(2) [OF assms(1), of j x k y] by (auto split: if_splits)
qed

lemma live_ok_del: "live_ok L \<Longrightarrow> live_ok (L(i := None))"
  unfolding live_ok_def by (auto split: if_splits)

lemma ran_add: "L i = None \<Longrightarrow> ran (L(i \<mapsto> v)) = insert v (ran L)"
  by (rule ran_map_upd)

lemma ran_del:
  assumes "live_ok L" "L i = Some s"
  shows "ran (L(i := None)) = {x \<in> ran L. sb_id x \<noteq> sb_id s}"
proof
  show "ran (L(i := None)) \<subseteq> {x \<in> ran L. sb_id x \<noteq> sb_id s}"
    using live_okD(2) [OF assms(1) _ assms(2)] by (auto simp: ran_def split: if_splits)
  show "{x \<in> ran L. sb_id x \<noteq> sb_id s} \<subseteq> ran (L(i := None))"
  proof
    fix x
    assume "x \<in> {x \<in> ran L. sb_id x \<noteq> sb_id s}"
    then obtain j where "L j = Some x" "sb_id x \<noteq> sb_id s" by (auto simp: ran_def)
    moreover from this have "j \<noteq> i" using assms(2) by auto
    ultimately show "x \<in> ran (L(i := None))" by (auto intro!: ranI [of _ j])
  qed
qed

lemma db_save_ok:
  assumes "db_ok (sbx_db m)" "length sid = 36"
  shows "\<exists>rc db'. db_save step_ok sid pid net (sbx_db m) = Inr (rc, db') \<and> db_ok db' \<and>
     db_rows (m\<lparr>sbx_db := db'\<rparr>) = db_rows m @
       (if step_ok \<and> sid \<notin> srow_id ` set (db_rows m) then [\<lparr>srow_id = sid, srow_pid = pid, srow_net = net\<rparr>] else [])"
  using assms by (auto simp: db_ok_def db_save_def db_rows_def)

lemma db_remove_ok:
  assumes "db_ok (sbx_db m)"
  shows "\<exists>rc db'. db_remove step_ok sid (sbx_db m) = Inr (rc, db') \<and> db_ok db' \<and>
     db_rows (m\<lparr>sbx_db := db'\<rparr>) = delete_rows step_ok sid (db_rows m)"
  using assms by (auto simp: db_ok_def db_remove_def db_rows_def delete_rows_def distinct_map_filter)

lemma db_rows_update [simp]:
  "db_rows (m\<lparr>sbx_table := t\<rparr>) = db_rows m" "db_rows (m\<lparr>sbx_initialised := b\<rparr>) = db_rows m"
  "db_rows (m\<lparr>sbx_db := DbOpen rows\<rparr>) = rows"
  by (simp_all add: db_rows_def)

lemma sandbox_matches_iff:
  assumes "table_ok (sbx_table m)" "i < SANDBOX_MAX"
  shows "sandbox_matches sid (sbx_table m ! i) \<longleftrightarrow> (\<exists>s. table_live (sbx_table m) i = Some s \<and> sb_id s = sid)"
proof -
  have len: "length (sbx_table m) = SANDBOX_MAX" using assms(1) by (simp add: table_ok_def table_inv_def)
  show ?thesis
  proof (cases "sb_state (sbx_table m ! i) = SANDBOX_READY")
    case True
    then have l: "table_live (sbx_table m) i = Some (sbx_table m ! i)"
      using len assms(2) by (simp add: table_live_def)
    then have "length (sb_id (sbx_table m ! i)) = 36"
      using assms(1) live_okD(1) by (auto simp: table_ok_def)
    then show ?thesis using True l by (simp add: sandbox_matches_def strncmp_eq_len)
  next
    case False
    then show ?thesis by (simp add: sandbox_matches_def table_live_def)
  qed
qed

text \<open>Looking up finds the one live sandbox with the identifier.\<close>

lemma first_match:
  assumes inv: "table_ok (sbx_table m)"
  shows "first_index (sandbox_matches sid) (sbx_table m) = Some i \<longleftrightarrow>
     (\<exists>s. table_live (sbx_table m) i = Some s \<and> sb_id s = sid)"
proof
  have len: "length (sbx_table m) = SANDBOX_MAX" using inv by (simp add: table_ok_def table_inv_def)
  {
    assume "first_index (sandbox_matches sid) (sbx_table m) = Some i"
    from first_index_Some [OF this] show "\<exists>s. table_live (sbx_table m) i = Some s \<and> sb_id s = sid"
      using sandbox_matches_iff [OF inv, of i sid] len by simp
  next
    assume "\<exists>s. table_live (sbx_table m) i = Some s \<and> sb_id s = sid"
    then obtain s where s: "table_live (sbx_table m) i = Some s" "sb_id s = sid" by blast
    then have i: "i < SANDBOX_MAX" using sbt.live_cap inv by (auto simp: table_ok_def)
    show "first_index (sandbox_matches sid) (sbx_table m) = Some i"
    proof (rule first_index_unique)
      show "i < length (sbx_table m)" using i len by simp
      show "sandbox_matches sid (sbx_table m ! i)" using sandbox_matches_iff [OF inv i] s by auto
      fix j
      assume j: "j < length (sbx_table m)" "sandbox_matches sid (sbx_table m ! j)"
      then obtain t where "table_live (sbx_table m) j = Some t" "sb_id t = sid"
        using sandbox_matches_iff [OF inv, of j sid] len by auto
      then show "j = i" using inv s live_okD(2) unfolding table_ok_def by metis
    qed
  }
qed

lemma sandbox_find_iff:
  assumes "table_ok (sbx_table m)"
  shows "sandbox_find m sid = Some i \<longleftrightarrow> (\<exists>s. table_live (sbx_table m) i = Some s \<and> sb_id s = sid)"
  unfolding sandbox_find_def by (rule first_match [OF assms])

lemma sandbox_find_None:
  assumes "table_ok (sbx_table m)"
  shows "sandbox_find m sid = None \<longleftrightarrow> (\<forall>s \<in> ran (table_live (sbx_table m)). sb_id s \<noteq> sid)"
proof (cases "sandbox_find m sid")
  case None
  then show ?thesis using sandbox_find_iff [OF assms, of sid] by (fastforce simp: ran_def)
next
  case (Some i)
  then show ?thesis using sandbox_find_iff [OF assms, of sid i] by (auto simp: ran_def)
qed

section \<open>Effect of the operations on the live sandboxes\<close>

lemma new_sandbox_simps [simp]:
  "sb_state (new_sandbox opn a sid pid) = SANDBOX_READY"
  "length sid = 36 \<Longrightarrow> sb_id (new_sandbox opn a sid pid) = sid"
  "ns_pid (new_sandbox opn a sid pid) = pid" "net_enabled (new_sandbox opn a sid pid) = ha_net_enabled a"
  by (simp_all add: new_sandbox_def strncpy_def)

text \<open>The only ways a creation can go once the module is initialised.\<close>

lemma sandbox_create_cases:
  assumes inv: "sandbox_inv m" and init: "sbx_initialised m" and len: "length sid = 36"
    and fresh: "sandbox_find m sid = None"
  obtains (full) "card (dom (table_live (sbx_table m))) = SANDBOX_MAX" "sandbox_create env cfg sid m = Inr (- 1, None, [], m)"
  | (fails) calls where "create_holder env cfg sid = (CreateFails, calls)"
      "sandbox_create env cfg sid m = Inr (- 1, None, calls, m)"
  | (made) slot a pid calls m' where "create_holder env cfg sid = (CreateHolder a pid, calls)"
      "sandbox_create env cfg sid m = Inr (0, Some sid, calls, m')"
      "sandbox_inv m'" "sbx_initialised m'" "table_live (sbx_table m) slot = None"
      "table_live (sbx_table m') = (table_live (sbx_table m))(slot \<mapsto> new_sandbox (ce_open env) a sid pid)"
      "db_rows m' = db_rows m @
         (if ce_save env \<and> sid \<notin> srow_id ` set (db_rows m) then [row_of (new_sandbox (ce_open env) a sid pid)] else [])"
proof -
  have t: "table_inv (sbx_table m)" and ok: "live_ok (table_live (sbx_table m))"
    and db: "db_ok (sbx_db m)"
    using inv by (simp_all add: sandbox_inv_def table_ok_def)
  show ?thesis
  proof (cases "create_reserve (sbx_table m)")
    case None
    have "sbt.create empty_slot (sbx_table m) = None" using None by (simp add: sbt.create_def)
    then have "card (dom (table_live (sbx_table m))) = SANDBOX_MAX" using sbt.create_None [OF t] by blast
    then show ?thesis using full None init by (simp add: sandbox_create_def)
  next
    case (Some slot)
    obtain o' calls where h: "create_holder env cfg sid = (o', calls)" by fastforce
    show ?thesis
    proof (cases o')
      case CreateFails
      then show ?thesis using fails h Some init by (simp add: sandbox_create_def)
    next
      case (CreateHolder a pid)
      let ?s = "new_sandbox (ce_open env) a sid pid"
      have free: "slot < SANDBOX_MAX" "table_live (sbx_table m) slot = None" using sbt.reserve_free [OF t Some] by auto
      have ne: "sb_id x \<noteq> sb_id ?s" if "table_live (sbx_table m) j = Some x" for j x
        using fresh sandbox_find_None [OF sandbox_inv_table [OF inv], of sid] that len by (auto simp: ran_def)
      have row: "row_of ?s = \<lparr>srow_id = sid, srow_pid = pid, srow_net = ha_net_enabled a\<rparr>" using len by (simp add: row_of_def)
      obtain rc db' where db': "db_save (ce_save env) sid pid (ha_net_enabled a) (sbx_db m) = Inr (rc, db')" "db_ok db'"
        "db_rows (m\<lparr>sbx_db := db'\<rparr>) = db_rows m @
           (if ce_save env \<and> sid \<notin> srow_id ` set (db_rows m) then [row_of ?s] else [])"
        using db_save_ok [OF db len, of "ce_save env" pid "ha_net_enabled a"] unfolding row by blast
      let ?m' = "m\<lparr>sbx_table := create_commit slot ?s (sbx_table m), sbx_db := db'\<rparr>"
      have live: "table_live (create_commit slot ?s (sbx_table m)) = (table_live (sbx_table m))(slot \<mapsto> ?s)"
        using sbt.commit_live [OF t free(1)] by simp
      have "sandbox_inv ?m'"
        unfolding sandbox_inv_def table_ok_def using sbt.commit_inv [OF t free(1)] live_ok_add [where s = ?s, OF ok] ne db'(2) len
        by (simp add: live)
      moreover have "sandbox_create env cfg sid m = Inr (0, Some sid, calls, ?m')"
        using h CreateHolder Some db'(1) init len by (simp add: sandbox_create_def strncpy_def)
      moreover have "db_rows ?m' = db_rows (m\<lparr>sbx_db := db'\<rparr>)" by (simp add: db_rows_def)
      ultimately show ?thesis using made [of a pid calls ?m' slot] h CreateHolder init live free(2) db'(3) by simp
    qed
  qed
qed

lemma sandbox_destroy_hit:
  assumes inv: "sandbox_inv m" and live: "table_live (sbx_table m) i = Some s"
  shows "\<exists>m'. sandbox_destroy step_ok (sb_id s) m =
       Inr (0, close_fds s @ (if ns_pid s > 0 then [Kill (ns_pid s) ''SIGKILL'', WaitPid (ns_pid s)] else []), m') \<and>
     sandbox_inv m' \<and> sbx_initialised m' = sbx_initialised m \<and>
     table_live (sbx_table m') = (table_live (sbx_table m))(i := None) \<and>
     db_rows m' = delete_rows step_ok (sb_id s) (db_rows m)"
proof -
  let ?t = "sbx_table m"
  have t: "table_inv ?t" and ok: "live_ok (table_live ?t)" and db: "db_ok (sbx_db m)"
    using inv by (simp_all add: sandbox_inv_def table_ok_def)
  have fi: "first_index (sandbox_matches (sb_id s)) ?t = Some i" using first_match [OF sandbox_inv_table [OF inv]] live by blast
  have si: "?t ! i = s" using live by (auto simp: table_live_def split: if_splits)
  obtain rc db' where db': "db_remove step_ok (sb_id s) (sbx_db m) = Inr (rc, db')" "db_ok db'"
    "db_rows (m\<lparr>sbx_db := db'\<rparr>) = delete_rows step_ok (sb_id s) (db_rows m)"
    using db_remove_ok [OF db] by blast
  let ?m' = "m\<lparr>sbx_table := destroy_slot i ?t, sbx_db := db'\<rparr>"
  have live': "table_live (destroy_slot i ?t) = (table_live ?t)(i := None)" using sbt.release_live [OF t] .
  have "sandbox_inv ?m'"
    unfolding sandbox_inv_def table_ok_def using sbt.release_inv [OF t] live_ok_del [OF ok] db'(2) by (simp add: live')
  moreover have "sandbox_destroy step_ok (sb_id s) m =
       Inr (0, close_fds s @ (if ns_pid s > 0 then [Kill (ns_pid s) ''SIGKILL'', WaitPid (ns_pid s)] else []), ?m')"
    using fi si db'(1) by (simp add: sandbox_destroy_def Let_def)
  moreover have "db_rows ?m' = delete_rows step_ok (sb_id s) (db_rows m)" using db'(3) by (simp add: db_rows_def)
  ultimately show ?thesis using live' by auto
qed

section \<open>Restarting\<close>

text \<open>The rows that are visited until \<open>k\<close> slots are filled.\<close>

fun reached :: "(int \<Rightarrow> bool) \<Rightarrow> nat \<Rightarrow> sandbox_row list \<Rightarrow> sandbox_row list" where
  "reached alive k [] = []"
| "reached alive k (r # rs) =
     (if k = 0 then [] else r # reached alive (if alive (srow_pid r) then k - 1 else k) rs)"

lemma reached_all: "length rs \<le> k \<Longrightarrow> reached alive k rs = rs"
  by (induction rs arbitrary: k) auto

lemma db_load_loop_eq:
  assumes "i \<le> SANDBOX_MAX" "length table = SANDBOX_MAX"
  shows "db_load_loop opn alive removes i rs table rows =
     (take i table @ map (load_row opn) (take (SANDBOX_MAX - i) (filter (\<lambda>r. alive (srow_pid r)) rs)) @
        drop (i + length (take (SANDBOX_MAX - i) (filter (\<lambda>r. alive (srow_pid r)) rs))) table,
      filter (\<lambda>x. \<forall>r \<in> set (reached alive (SANDBOX_MAX - i) rs).
                alive (srow_pid r) \<or> \<not> removes (srow_id r) \<or> srow_id x \<noteq> srow_id r) rows)"
  using assms
proof (induction rs arbitrary: i table rows)
  case Nil
  then show ?case by simp
next
  case (Cons r rs)
  show ?case
  proof (cases "i < SANDBOX_MAX")
    case False
    then show ?thesis using Cons.prems by simp
  next
    case i: True
    define k where "k = SANDBOX_MAX - Suc i"
    have k: "SANDBOX_MAX - i = Suc k" using i by (simp add: k_def)
    show ?thesis
    proof (cases "alive (srow_pid r)")
      case True
      let ?xs = "take k (filter (\<lambda>r. alive (srow_pid r)) rs)" and ?t = "table[i := load_row opn r]"
      have t: "take (Suc i) ?t = take i table @ [load_row opn r]"
        using i Cons.prems(2) by (simp add: take_Suc_conv_app_nth)
      have d: "drop (Suc i + n) ?t = drop (Suc i + n) table" for n by simp
      have "db_load_loop opn alive removes i (r # rs) table rows = db_load_loop opn alive removes (Suc i) rs ?t rows"
        using True i by simp
      also have "\<dots> = (take (Suc i) ?t @ map (load_row opn) ?xs @ drop (Suc i + length ?xs) ?t,
         filter (\<lambda>x. \<forall>r \<in> set (reached alive k rs). alive (srow_pid r) \<or> \<not> removes (srow_id r) \<or> srow_id x \<noteq> srow_id r) rows)"
        unfolding k_def using i Cons.prems by (intro Cons.IH) simp_all
      finally show ?thesis unfolding t d k using True by simp
    next
      case False
      have "db_load_loop opn alive removes i (r # rs) table rows =
          db_load_loop opn alive removes i rs table (delete_rows (removes (srow_id r)) (srow_id r) rows)"
        using False i by simp
      also note Cons.IH [OF Cons.prems]
      finally show ?thesis using False unfolding k by (cases "removes (srow_id r)") (simp_all add: delete_rows_def conj_commute)
    qed
  qed
qed

lemma length_rows:
  assumes "sandbox_inv m" "in_step m" "sbx_db m = DbOpen rows"
  shows "length rows \<le> SANDBOX_MAX"
proof -
  have t: "table_inv (sbx_table m)" using assms(1) by (simp add: sandbox_inv_def table_ok_def)
  have r: "distinct (map srow_id rows)" "set rows = row_of ` ran (table_live (sbx_table m))"
    using assms by (auto simp: sandbox_inv_def db_ok_def in_step_def db_rows_def)
  have sub: "ran (table_live (sbx_table m)) \<subseteq> (\<lambda>i. sbx_table m ! i) ` {0..<SANDBOX_MAX}"
    using t by (auto simp: ran_def table_live_def table_inv_def split: if_splits)
  have "distinct rows" using r(1) distinct_map by blast
  then have "length rows = card (set rows)" by (simp add: distinct_card)
  also have "\<dots> \<le> card (ran (table_live (sbx_table m)))"
    unfolding r(2) by (rule card_image_le) (simp add: finite_ran sbt.finite_live [OF t])
  also have "\<dots> \<le> card ((\<lambda>i. sbx_table m ! i) ` {0..<SANDBOX_MAX})"
    using sub by (rule card_mono [rotated]) simp
  also have "\<dots> \<le> card {0..<SANDBOX_MAX}" by (rule card_image_le) simp
  finally show ?thesis by simp
qed

lemma load_row_simps [simp]:
  "sb_state (load_row opn r) = SANDBOX_READY" "ns_pid (load_row opn r) = srow_pid r"
  "net_enabled (load_row opn r) = srow_net r" "length (srow_id r) \<le> 37 \<Longrightarrow> sb_id (load_row opn r) = srow_id r"
  by (simp_all add: load_row_def Let_def strncpy_def)

lemma live_loaded:
  "table_live (map (load_row opn) rows @ replicate k empty_slot) i =
     (if i < length rows then Some (load_row opn (rows ! i)) else None)"
proof (cases "i < length rows")
  case True
  then show ?thesis by (simp add: table_live_def nth_append)
next
  case False
  then have "i < length rows + k \<Longrightarrow> i - length rows < k" by linarith
  then show ?thesis using False by (auto simp: table_live_def nth_append empty_slot_def)
qed

lemma ran_loaded: "ran (\<lambda>i. if i < length xs then Some (f (xs ! i)) else None) = f ` set xs"
  by (auto simp: ran_def set_conv_nth)

lemma filter_dead:
  assumes "distinct (map srow_id rows)" "set vs \<subseteq> set rows"
  shows "filter (\<lambda>x. \<forall>r \<in> set vs. alive (srow_pid r) \<or> \<not> removes (srow_id r) \<or> srow_id x \<noteq> srow_id r) rows =
     filter (\<lambda>r. alive (srow_pid r) \<or> \<not> removes (srow_id r) \<or> r \<notin> set vs) rows"
proof (rule filter_cong [OF refl])
  fix x
  assume x: "x \<in> set rows"
  have "r = x" if "r \<in> set vs" "srow_id x = srow_id r" for r
    using assms x that by (metis distinct_map inj_onD subsetD)
  then show "(\<forall>r \<in> set vs. alive (srow_pid r) \<or> \<not> removes (srow_id r) \<or> srow_id x \<noteq> srow_id r) =
      (alive (srow_pid x) \<or> \<not> removes (srow_id x) \<or> x \<notin> set vs)"
    by blast
qed

lemma set_reached: "set (reached alive k rs) \<subseteq> set rs"
  by (induction rs arbitrary: k) auto

text \<open>The table that is filled from rows with different identifiers.\<close>

lemma loaded_ok:
  fixes opn
  assumes "distinct (map srow_id rs)" "\<forall>r \<in> set rs. length (srow_id r) = 36" "length rs \<le> SANDBOX_MAX"
  defines "t \<equiv> map (load_row opn) rs @ replicate (SANDBOX_MAX - length rs) empty_slot"
  shows "table_ok t" "row_of ` ran (table_live t) = set rs"
proof -
  have ran: "ran (table_live t) = load_row opn ` set rs"
    using ran_loaded [of rs "load_row opn"] by (simp only: t_def live_loaded [abs_def])
  have "row_of (load_row opn r) = r" if "r \<in> set rs" for r
    using assms(2) that by (auto simp: row_of_def)
  then show "row_of ` ran (table_live t) = set rs" unfolding ran by (force simp: image_image)
  have at: "i < length rs \<and> s = load_row opn (rs ! i) \<and> sb_id s = map srow_id rs ! i \<and> length (sb_id s) = 36"
    if "table_live t i = Some s" for i s
  proof -
    have "i < length rs" "s = load_row opn (rs ! i)" using that by (auto simp: t_def live_loaded split: if_splits)
    then show ?thesis using assms(2) by simp
  qed
  have "table_inv t" using assms(3) by (auto simp: t_def table_inv_def empty_slot_def)
  moreover have "live_ok (table_live t)"
    unfolding live_ok_def using at assms(1) by (metis length_map nth_eq_iff_index_eq)
  ultimately show "table_ok t" by (simp add: table_ok_def)
qed

lemma sandbox_init_loaded:
  assumes "\<not> sbx_initialised m0" "distinct (map srow_id rows)" "\<forall>r \<in> set rows. length (srow_id r) = 36"
  shows "\<exists>m. sandbox_module_init (Some rows) True fetched opn alive removes m0 = (0, m) \<and> sbx_initialised m \<and> sandbox_inv m \<and>
     row_of ` ran (table_live (sbx_table m)) = set (take SANDBOX_MAX (filter (\<lambda>r. alive (srow_pid r)) (take fetched rows))) \<and>
     db_rows m = filter (\<lambda>r. alive (srow_pid r) \<or> \<not> removes (srow_id r) \<or>
       r \<notin> set (reached alive SANDBOX_MAX (take fetched rows))) rows"
proof -
  let ?rs = "take SANDBOX_MAX (filter (\<lambda>r. alive (srow_pid r)) (take fetched rows))"
  let ?vs = "reached alive SANDBOX_MAX (take fetched rows)"
  let ?left = "filter (\<lambda>r. alive (srow_pid r) \<or> \<not> removes (srow_id r) \<or> r \<notin> set ?vs) rows"
  let ?t = "map (load_row opn) ?rs @ replicate (SANDBOX_MAX - length ?rs) empty_slot"
  let ?m = "m0\<lparr>sbx_table := ?t, sbx_db := DbOpen ?left, sbx_initialised := True\<rparr>"
  have sub: "set ?vs \<subseteq> set rows" using set_reached [of alive SANDBOX_MAX "take fetched rows"] set_take_subset by fastforce
  have "db_load_loop opn alive removes 0 (take fetched rows) (replicate SANDBOX_MAX empty_slot) rows = (?t, ?left)"
    using db_load_loop_eq [of 0 "replicate SANDBOX_MAX empty_slot" opn alive removes "take fetched rows" rows]
    unfolding diff_zero filter_dead [OF assms(2) sub] by simp
  then have init: "sandbox_module_init (Some rows) True fetched opn alive removes m0 = (0, ?m)"
    using assms(1) by (simp add: sandbox_module_init_def sandbox_db_init_def db_load_all_def)
  have "distinct (map srow_id ?rs)"
    using assms(2) by (metis distinct_map_filter distinct_take take_map)
  moreover have "\<forall>r \<in> set ?rs. length (srow_id r) = 36"
    using assms(3) by (meson filter_is_subset in_set_takeD subsetD)
  ultimately have t: "table_ok ?t" "row_of ` ran (table_live ?t) = set ?rs" by (intro loaded_ok; simp)+
  have "db_ok (DbOpen ?left)" using assms(2,3) by (simp add: db_ok_def distinct_map_filter)
  then have "sandbox_inv ?m" using t(1) by (simp add: sandbox_inv_def)
  then show ?thesis using init t(2) by (intro exI [of _ ?m]) (simp add: db_rows_def)
qed

section \<open>Collecting output\<close>

text \<open>The chunks that are copied: those before the first that does not fit.\<close>

fun fitting :: "nat \<Rightarrow> nat \<Rightarrow> byte list list \<Rightarrow> byte list" where
  "fitting len tot [] = []"
| "fitting len tot (c # cs) = (if tot + length c < len then c @ fitting len (tot + length c) cs else [])"

lemma fitting_skip: "len \<le> tot \<Longrightarrow> fitting len tot cs = []"
  by (cases cs) simp_all

lemma fitting_all: "tot + length (concat cs) < len \<Longrightarrow> fitting len tot cs = concat cs"
  by (induction cs arbitrary: tot) auto

lemma fitting_length: "tot + length (fitting len tot cs) < len \<or> fitting len tot cs = []"
proof (induction cs arbitrary: tot)
  case (Cons c cs)
  show ?case using Cons.IH [of "tot + length c"] by (cases "fitting len (tot + length c) cs") auto
qed simp

lemma capture_loop_ok:
  assumes "len \<le> length blk"
  shows "\<exists>blk'. capture_loop cs (Some blk) len tot = Inr (Some blk', tot + length (concat cs)) \<and>
     blk' = take tot blk @ map Some (fitting len tot cs) @ drop (tot + length (fitting len tot cs)) blk"
  using assms
proof (induction cs arbitrary: blk tot)
  case Nil
  then show ?case by simp
next
  case (Cons c cs)
  show ?case
  proof (cases "tot + length c < len")
    case True
    let ?b = "take tot blk @ block_of c @ drop (tot + length c) blk"
    have l: "length ?b = length blk" using True Cons.prems by (simp add: block_of_def)
    have w: "mem_write blk tot c = Inr ?b" using True Cons.prems by (simp add: mem_write_def)
    have t: "take (tot + length c) ?b = take tot blk @ map Some c"
      using True Cons.prems by (simp add: block_of_def)
    have d: "drop (tot + length c + n) ?b = drop (tot + length c + n) blk" for n
      using True Cons.prems by (simp add: block_of_def add.commute)
    show ?thesis
      using Cons.IH [of ?b "tot + length c"] True w l Cons.prems t d by (simp add: add.assoc)
  next
    case False
    then show ?thesis
      using Cons.IH [OF Cons.prems, of "tot + length c"] by (simp add: fitting_skip add.assoc)
  qed
qed

text \<open>The whole capture: copied prefix, terminator, and cells that are never written.\<close>

definition capture :: "byte list list \<Rightarrow> mem_block \<Rightarrow> nat \<Rightarrow> mem_block option result" where
  "capture cs blk len =
     bindR (capture_loop cs (Some blk) len 0) (\<lambda>(out, tot). capture_end out len tot)"

lemma capture_ok:
  assumes "0 < len" "len \<le> length blk"
  shows "\<exists>blk'. capture cs blk len = Inr (Some blk') \<and> length blk' = length blk \<and>
     take (length (fitting len 0 cs)) blk' = map Some (fitting len 0 cs) \<and>
     blk' ! min (length (concat cs)) (len - 1) = Some NUL \<and>
     (\<forall>j. length (fitting len 0 cs) \<le> j \<longrightarrow> j < length blk \<longrightarrow> j \<noteq> min (length (concat cs)) (len - 1) \<longrightarrow>
        blk' ! j = blk ! j)"
proof -
  let ?fit = "fitting len 0 cs" and ?tot = "length (concat cs)"
  define b where "b = map Some ?fit @ drop (length ?fit) blk"
  define p where "p = min ?tot (len - 1)"
  have loop: "capture_loop cs (Some blk) len 0 = Inr (Some b, ?tot)"
    using capture_loop_ok [OF assms(2), of cs 0] by (simp add: b_def)
  have fl: "length ?fit < len" using fitting_length [of 0 len cs] assms(1) by auto
  have pf: "length ?fit \<le> p"
    using fl fitting_all [of 0 cs len] assms(1) by (cases "?tot < len") (auto simp: p_def)
  have pl: "p < length blk" "(if ?tot < len then ?tot else len - 1) = p" using assms by (auto simp: p_def)
  have lb: "length b = length blk" using fl assms by (simp add: b_def)
  have bj: "b ! j = blk ! j" if "length ?fit \<le> j" "j < length blk" for j
    using that by (simp add: b_def nth_append)
  have bt: "take (length ?fit) b = map Some ?fit" by (simp add: b_def)
  have w: "mem_write b p [NUL] = Inr (b[p := Some NUL])"
    using pl(1) lb by (simp add: mem_write_def block_of_def upd_conv_take_nth_drop)
  have "capture cs blk len = Inr (Some (b[p := Some NUL]))"
    unfolding capture_def loop using assms(1) pl(2) w by (simp add: capture_end_def)
  moreover have "take (length ?fit) (b[p := Some NUL]) = map Some ?fit" using pf bt by simp
  ultimately show ?thesis
    unfolding p_def [symmetric] using lb pl(1) bj by (intro exI [of _ "b[p := Some NUL]"]) auto
qed

lemma join_all_ok:
  "snd (join_all setns_ok xs) \<Longrightarrow>
     fst (join_all setns_ok xs) = map (\<lambda>(fd, ns). Setns fd ns) xs \<and> (\<forall>(fd, ns) \<in> set xs. setns_ok fd ns)"
  by (induction setns_ok xs rule: join_all.induct) (auto split: if_splits prod.splits)

lemma join_all_no_exec: "Execv path argv \<notin> set (fst (join_all setns_ok xs))"
  by (induction setns_ok xs rule: join_all.induct) (auto split: prod.splits)


section \<open>Properties\<close>

text \<open>
  C2. The program is confined: when the inner process reaches \<open>execv\<close>, every \<open>setns\<close> of the sandbox's
  mount, UTS, IPC and PID namespace succeeded in this order, with that of the network namespace before the
  last one if its descriptor is open and the network is not shared, and the system call filter was
  set up and loaded after them without an error; the filter refuses the calls that could leave the namespaces or reach other
  processes' memory.
\<close>

theorem sandbox_exec_confined:
  assumes "Execv path argv \<in> set (exec_inner setns_ok init_ok load_rc s path argv)"
  shows "exec_inner setns_ok init_ok load_rc s path argv =
       [Setns (ns_mnt_fd s) NEWNS, Setns (ns_uts_fd s) NEWUTS, Setns (ns_ipc_fd s) NEWIPC] @
       (if 0 \<le> ns_net_fd s \<and> net_enabled s = 0 then [Setns (ns_net_fd s) NEWNET] else []) @
       [Setns (ns_pid_fd s) NEWPID, LoadFilter, Execv path argv, Exit 127] \<and>
     setns_ok (ns_mnt_fd s) NEWNS \<and> setns_ok (ns_uts_fd s) NEWUTS \<and> setns_ok (ns_ipc_fd s) NEWIPC \<and>
     (0 \<le> ns_net_fd s \<and> net_enabled s = 0 \<longrightarrow> setns_ok (ns_net_fd s) NEWNET) \<and> setns_ok (ns_pid_fd s) NEWPID \<and>
     init_ok \<and> load_rc = 0 \<and>
     (\<forall>call \<in> {''setns'', ''unshare'', ''mount'', ''umount2'', ''chroot'', ''ptrace'', ''clone'', ''socket'',
                ''bpf'', ''process_vm_writev''}. seccomp_filter call = ACT_ERRNO_EPERM)"
proof -
  obtain calls ok where j: "join_all setns_ok (join_list s) = (calls, ok)" by fastforce
  have no: "Execv path argv \<notin> set calls" using join_all_no_exec [of path argv setns_ok "join_list s"] j by simp
  have ok: ok using assms no by (cases ok) (simp_all add: exec_inner_def j)
  have sec: "apply_seccomp init_ok load_rc = (0, [LoadFilter])" "init_ok" "load_rc = 0"
    using assms no ok by (auto simp: exec_inner_def j apply_seccomp_def split: if_splits)
  have "calls = map (\<lambda>(fd, ns). Setns fd ns) (join_list s)" "\<forall>(fd, ns) \<in> set (join_list s). setns_ok fd ns"
    using join_all_ok [of setns_ok "join_list s"] ok by (simp_all add: j)
  moreover have "\<forall>call \<in> {''setns'', ''unshare'', ''mount'', ''umount2'', ''chroot'', ''ptrace'', ''clone'', ''socket'',
                ''bpf'', ''process_vm_writev''}. seccomp_filter call = ACT_ERRNO_EPERM"
    by (simp add: seccomp_filter_def seccomp_whitelist_def)
  ultimately show ?thesis
    using ok sec by (auto simp: exec_inner_def join_list_def j)
qed

definition demo_sandbox :: sandbox where
  "demo_sandbox = \<lparr>sb_id = replicate 36 CHR ''a'', ns_pid = 41, ns_pid_fd = 5, ns_net_fd = 6, ns_mnt_fd = 7,
                   ns_uts_fd = 8, ns_ipc_fd = 9, sb_state = SANDBOX_READY, net_enabled = 0\<rparr>"

theorem sandbox_exec_confined_witness:
  "exec_inner (\<lambda>_ _. True) True 0 demo_sandbox ''/bin/ls'' [''ls''] =
     [Setns 7 NEWNS, Setns 8 NEWUTS, Setns 9 NEWIPC, Setns 6 NEWNET, Setns 5 NEWPID, LoadFilter,
      Execv ''/bin/ls'' [''ls''], Exit 127]"
  using sandbox_exec_confined [of "''/bin/ls''" "[''ls'']" "\<lambda>_ _. True" True 0 demo_sandbox]
  by (simp add: demo_sandbox_def exec_inner_def join_list_def apply_seccomp_def)

text \<open>
  C36. When the network descriptor could not be opened at creation, the program is run all the same,
  in the network of the host although the sandbox was created without network.
\<close>

theorem sandbox_exec_host_network:
  assumes "ns_net_fd s < 0"
  shows "\<exists>calls. exec_inner (\<lambda>_ _. True) True 0 s path argv = calls @ [Execv path argv, Exit 127] \<and>
     (\<forall>fd. Setns fd NEWNET \<notin> set calls)"
  using assms
  by (intro exI [of _ "[Setns (ns_mnt_fd s) NEWNS, Setns (ns_uts_fd s) NEWUTS, Setns (ns_ipc_fd s) NEWIPC,
        Setns (ns_pid_fd s) NEWPID, LoadFilter]"])
    (simp add: exec_inner_def join_list_def apply_seccomp_def)

theorem sandbox_exec_host_network_witness:
  "\<exists>calls. exec_inner (\<lambda>_ _. True) True 0 (demo_sandbox\<lparr>ns_net_fd := - 1\<rparr>) ''/bin/sh'' [] =
       calls @ [Execv ''/bin/sh'' [], Exit 127] \<and> (\<forall>fd. Setns fd NEWNET \<notin> set calls)"
  by (rule sandbox_exec_host_network) simp

text \<open>
  C27. Creating a sandbox under a new identifier of 36 characters keeps the module's invariant.  It fails
  without a trace exactly when all 32 slots are taken or the holder cannot be started; otherwise the
  sandbox is found under its identifier with its holder, and every other sandbox is found as before.  The
  database then has one more row, that of the new sandbox, unless the insertion fails; in that case the
  creation is reported as a success all the same.  Table and database stay in step when it succeeds.
\<close>

theorem sandbox_create_correct:
  assumes "sandbox_inv m" "sbx_initialised m" "length sid = 36" "sandbox_find m sid = None"
  shows "\<exists>rc out calls m'. sandbox_create env cfg sid m = Inr (rc, out, calls, m') \<and> sandbox_inv m' \<and>
     (in_step m \<and> ce_save env \<longrightarrow> in_step m') \<and>
     (if rc = 0
      then \<exists>slot a pid. create_holder env cfg sid = (CreateHolder a pid, calls) \<and> out = Some sid \<and>
             sandbox_find m' sid = Some slot \<and> ns_pid (sbx_table m' ! slot) = pid \<and>
             (\<forall>other. other \<noteq> sid \<longrightarrow> sandbox_find m' other = sandbox_find m other) \<and>
             db_rows m' = db_rows m @
               (if ce_save env \<and> sid \<notin> srow_id ` set (db_rows m)
                then [\<lparr>srow_id = sid, srow_pid = pid, srow_net = ha_net_enabled a\<rparr>] else [])
      else m' = m \<and> (card (dom (table_live (sbx_table m))) = SANDBOX_MAX \<or>
                     create_holder env cfg sid = (CreateFails, calls)))"
  using assms
proof (cases rule: sandbox_create_cases [where env = env and cfg = cfg])
  case full
  then show ?thesis using assms(1) by simp
next
  case (fails calls)
  then show ?thesis using assms(1) by simp
next
  case (made slot a pid calls m')
  let ?s = "new_sandbox (ce_open env) a sid pid"
  have row: "row_of ?s = \<lparr>srow_id = sid, srow_pid = pid, srow_net = ha_net_enabled a\<rparr>" using assms(3) by (simp add: row_of_def)
  have t: "table_ok (sbx_table m)" "table_ok (sbx_table m')"
    using assms(1) made(3) sandbox_inv_table by auto
  have hit: "sandbox_find m' sid = Some slot"
    using sandbox_find_iff [OF t(2)] made(6) assms(3) by simp
  have "sbx_table m' ! slot = ?s"
    using made(6) by (metis (no_types, lifting) fun_upd_same option.inject option.simps(3) table_live_def)
  moreover have "sandbox_find m' other = sandbox_find m other" if "other \<noteq> sid" for other
  proof (cases "sandbox_find m other")
    case None
    then have "sandbox_find m' other = None"
      using sandbox_find_None [OF t(1), of other] sandbox_find_None [OF t(2), of other] made(5,6) that assms(3)
      by (auto simp: ran_map_upd)
    then show ?thesis using None by simp
  next
    case (Some i)
    then obtain x where x: "table_live (sbx_table m) i = Some x" "sb_id x = other"
      using sandbox_find_iff [OF t(1)] by blast
    then have "i \<noteq> slot" using made(5) by auto
    then show ?thesis using Some x sandbox_find_iff [OF t(2)] made(6) by simp
  qed
  moreover have "in_step m'" if "in_step m" "ce_save env"
  proof -
    have "sid \<notin> srow_id ` set (db_rows m)"
      using that(1) assms(4) sandbox_find_None [OF t(1), of sid] by (auto simp: in_step_def row_of_def)
    then show ?thesis using that made(5,6,7) by (simp add: in_step_def ran_map_upd)
  qed
  ultimately show ?thesis
    using made(1,2,3) made(7) [unfolded row] hit by auto
qed

definition empty_mod :: sandbox_mod where
  "empty_mod = \<lparr>sbx_table = replicate SANDBOX_MAX empty_slot, sbx_db = DbOpen [], sbx_initialised = True\<rparr>"

lemma live_empty: "table_live (replicate n empty_slot) = Map.empty"
  by (auto simp: table_live_def empty_slot_def fun_eq_iff)

lemma empty_mod_inv: "sandbox_inv empty_mod"
  by (auto simp: sandbox_inv_def table_ok_def table_inv_def live_ok_def db_ok_def empty_mod_def live_empty)
    (simp add: empty_slot_def)

lemma empty_mod_find: "sandbox_find empty_mod sid = None"
  using sandbox_find_None [OF sandbox_inv_table [OF empty_mod_inv]] by (simp add: empty_mod_def live_empty)

definition demo_env :: create_env where
  "demo_env = \<lparr>ce_pipe = Some (3, 4), ce_stack = True, ce_clone = 41, ce_ready = Some 1, ce_open = (\<lambda>_. 9),
               ce_save = True\<rparr>"

theorem sandbox_create_correct_witness:
  "\<exists>calls m'. sandbox_create demo_env None (replicate 36 CHR ''b'') empty_mod =
       Inr (0, Some (replicate 36 CHR ''b''), calls, m') \<and> sandbox_inv m' \<and> in_step m' \<and>
     sandbox_find m' (replicate 36 CHR ''b'') \<noteq> None \<and>
     db_rows m' = [\<lparr>srow_id = replicate 36 CHR ''b'', srow_pid = 41, srow_net = 0\<rparr>]"
proof -
  have e: "sbx_initialised empty_mod" "db_rows empty_mod = []" "in_step empty_mod"
    by (simp_all add: empty_mod_def db_rows_def in_step_def live_empty)
  have h: "create_holder demo_env None (replicate 36 CHR ''b'') =
      (CreateHolder (create_args None (replicate 36 CHR ''b'') 4) 41, [Close 4, Close 3])"
    by (simp add: create_holder_def demo_env_def)
  have "card (dom (table_live (sbx_table empty_mod))) = 0" by (simp add: empty_mod_def live_empty)
  then show ?thesis
    using sandbox_create_correct [OF empty_mod_inv e(1) _ empty_mod_find, of "replicate 36 CHR ''b''" demo_env None] e(2,3) h
    by (auto simp: demo_env_def create_args_def split: if_splits)
qed

text \<open>
  C28. Destroying a sandbox that is found closes its open descriptors, kills and reaps its holder, and
  keeps the invariant; afterwards it is no longer found and every other one is found as before.  Its row
  is deleted unless the deletion fails, which is not reported: then all rows stay.  An unknown identifier
  changes nothing.
\<close>

theorem sandbox_destroy_correct:
  assumes "sandbox_inv m"
  shows "\<exists>rc calls m'. sandbox_destroy step_ok sid m = Inr (rc, calls, m') \<and> sandbox_inv m' \<and>
     (in_step m \<and> step_ok \<longrightarrow> in_step m') \<and>
     (case sandbox_find m sid of
        None \<Rightarrow> rc = - 1 \<and> calls = [] \<and> m' = m
      | Some i \<Rightarrow> rc = 0 \<and> sandbox_find m' sid = None \<and>
          (\<forall>other. other \<noteq> sid \<longrightarrow> sandbox_find m' other = sandbox_find m other) \<and>
          db_rows m' = (if step_ok then filter (\<lambda>r. srow_id r \<noteq> sid) (db_rows m) else db_rows m) \<and>
          (let s = sbx_table m ! i in
           calls = close_fds s @ (if ns_pid s > 0 then [Kill (ns_pid s) ''SIGKILL'', WaitPid (ns_pid s)] else [])))"
proof (cases "sandbox_find m sid")
  case None
  then show ?thesis using assms by (simp add: sandbox_destroy_def sandbox_find_def)
next
  case (Some i)
  note t = sandbox_inv_table [OF assms]
  obtain s where s: "table_live (sbx_table m) i = Some s" "sb_id s = sid"
    using Some sandbox_find_iff [OF t] by blast
  have si: "sbx_table m ! i = s" using s(1) by (auto simp: table_live_def split: if_splits)
  obtain m' where m': "sandbox_destroy step_ok sid m =
       Inr (0, close_fds s @ (if ns_pid s > 0 then [Kill (ns_pid s) ''SIGKILL'', WaitPid (ns_pid s)] else []), m')"
     "sandbox_inv m'" "table_live (sbx_table m') = (table_live (sbx_table m))(i := None)"
     "db_rows m' = delete_rows step_ok sid (db_rows m)"
    using sandbox_destroy_hit [OF assms s(1)] s(2) by blast
  note t' = sandbox_inv_table [OF m'(2)]
  have ok: "live_ok (table_live (sbx_table m))" using t by (simp add: table_ok_def)
  have ran: "ran (table_live (sbx_table m')) = {x \<in> ran (table_live (sbx_table m)). sb_id x \<noteq> sid}"
    using ran_del [OF ok s(1)] s(2) m'(3) by simp
  have "sandbox_find m' sid = None" using sandbox_find_None [OF t', of sid] ran by simp
  moreover have "sandbox_find m' other = sandbox_find m other" if ne: "other \<noteq> sid" for other
  proof (cases "sandbox_find m other")
    case None
    then have "sandbox_find m' other = None"
      using sandbox_find_None [OF t', of other] sandbox_find_None [OF t, of other] ran by auto
    then show ?thesis using None by simp
  next
    case (Some j)
    then obtain x where x: "table_live (sbx_table m) j = Some x" "sb_id x = other"
      using sandbox_find_iff [OF t] by blast
    then have "j \<noteq> i" using s ne by auto
    then show ?thesis using Some x sandbox_find_iff [OF t'] m'(3) by simp
  qed
  moreover have "in_step m'" if "in_step m" "step_ok"
    using that m'(4) ran by (auto simp: in_step_def delete_rows_def row_of_def)
  ultimately show ?thesis using m' Some si by (auto simp: delete_rows_def)
qed

definition demo_row :: sandbox_row where
  "demo_row = \<lparr>srow_id = replicate 36 CHR ''a'', srow_pid = 41, srow_net = 0\<rparr>"

definition demo_mod :: sandbox_mod where
  "demo_mod = empty_mod\<lparr>sbx_table := (replicate SANDBOX_MAX empty_slot)[0 := demo_sandbox], sbx_db := DbOpen [demo_row]\<rparr>"

lemma replicate_32: "replicate (32 :: nat) x = x # replicate 31 x"
  using replicate_Suc [of 31 x] by simp

lemma demo_mod_find: "sandbox_find demo_mod (replicate 36 CHR ''a'') = Some 0"
  by (simp add: demo_mod_def sandbox_find_def sandbox_matches_def demo_sandbox_def replicate_32)

lemma demo_mod_table: "sbx_table demo_mod = demo_sandbox # replicate 31 empty_slot"
  by (simp add: demo_mod_def replicate_32)

lemma demo_mod_live: "table_live (sbx_table demo_mod) = [0 \<mapsto> demo_sandbox]"
  by (auto simp: demo_mod_table table_live_def fun_eq_iff nth_Cons' demo_sandbox_def empty_slot_def)

lemma demo_mod_inv: "sandbox_inv demo_mod" "in_step demo_mod" "sbx_db demo_mod = DbOpen [demo_row]"
proof -
  have "table_inv (sbx_table demo_mod)"
    by (simp add: table_inv_def demo_mod_table) (simp add: demo_sandbox_def empty_slot_def)
  moreover have "live_ok (table_live (sbx_table demo_mod))"
    by (auto simp: live_ok_def demo_mod_live demo_sandbox_def split: if_splits)
  moreover show db: "sbx_db demo_mod = DbOpen [demo_row]" by (simp add: demo_mod_def)
  ultimately show "sandbox_inv demo_mod" by (simp add: sandbox_inv_def table_ok_def db_ok_def demo_row_def)
  show "in_step demo_mod" using db by (simp add: in_step_def db_rows_def demo_mod_live row_of_def demo_row_def demo_sandbox_def)
qed

theorem sandbox_destroy_correct_witness:
  "\<exists>m'. sandbox_destroy True (replicate 36 CHR ''a'') demo_mod =
       Inr (0, [Close 5, Close 6, Close 7, Close 8, Close 9, Kill 41 ''SIGKILL'', WaitPid 41], m') \<and>
     sandbox_inv m' \<and> in_step m' \<and> sandbox_find m' (replicate 36 CHR ''a'') = None \<and> db_rows m' = []"
proof -
  have "sbx_table demo_mod ! 0 = demo_sandbox" "db_rows demo_mod = [demo_row]"
    using demo_mod_inv(3) by (simp_all add: demo_mod_table db_rows_def)
  then show ?thesis
    using sandbox_destroy_correct [OF demo_mod_inv(1), of True "replicate 36 CHR ''a''"] demo_mod_inv(2)
    by (auto simp: demo_mod_find demo_row_def demo_sandbox_def close_fds_def)
qed

text \<open>
  C29. Initialising a new process on any database that satisfies the invariant re-establishes it and restores, each
  with its identifier, holder and network setting, the first 32 of the rows the query delivers whose
  holder process still exists.  Exactly the rows of vanished holders that were visited and whose deletion
  succeeds are dropped.  If the other process left table and database in step and no statement fails,
  the sandboxes restored are exactly its sandboxes whose holder still exists, and the two are in step.
\<close>

theorem sandbox_restart:
  assumes "sandbox_inv m" "sbx_db m = DbOpen rows" "\<not> sbx_initialised m0"
  shows "\<exists>m'. sandbox_module_init (Some rows) True fetched opn alive removes m0 = (0, m') \<and> sandbox_inv m' \<and>
     row_of ` ran (table_live (sbx_table m')) =
       set (take SANDBOX_MAX (filter (\<lambda>r. alive (srow_pid r)) (take fetched rows))) \<and>
     db_rows m' = filter (\<lambda>r. alive (srow_pid r) \<or> \<not> removes (srow_id r) \<or>
       r \<notin> set (reached alive SANDBOX_MAX (take fetched rows))) rows \<and>
     (in_step m \<and> length rows \<le> fetched \<and> (\<forall>i. removes i) \<longrightarrow>
        in_step m' \<and> row_of ` ran (table_live (sbx_table m')) =
          {r \<in> row_of ` ran (table_live (sbx_table m)). alive (srow_pid r)})"
proof -
  have rows: "distinct (map srow_id rows)" "\<forall>r \<in> set rows. length (srow_id r) = 36"
    using assms(1,2) by (auto simp: sandbox_inv_def db_ok_def)
  obtain m' where m': "sandbox_module_init (Some rows) True fetched opn alive removes m0 = (0, m')" "sandbox_inv m'"
    "row_of ` ran (table_live (sbx_table m')) = set (take SANDBOX_MAX (filter (\<lambda>r. alive (srow_pid r)) (take fetched rows)))"
    "db_rows m' = filter (\<lambda>r. alive (srow_pid r) \<or> \<not> removes (srow_id r) \<or>
       r \<notin> set (reached alive SANDBOX_MAX (take fetched rows))) rows"
    using sandbox_init_loaded [OF assms(3) rows] by blast
  have "in_step m' \<and> row_of ` ran (table_live (sbx_table m')) = {r \<in> row_of ` ran (table_live (sbx_table m)). alive (srow_pid r)}"
    if step: "in_step m" "length rows \<le> fetched" "\<forall>i. removes i"
  proof -
    have l: "length rows \<le> SANDBOX_MAX" by (rule length_rows [OF assms(1) step(1) assms(2)])
    then have "length (filter (\<lambda>r. alive (srow_pid r)) rows) \<le> SANDBOX_MAX" using length_filter_le le_trans by blast
    then have "row_of ` ran (table_live (sbx_table m')) = {r \<in> set rows. alive (srow_pid r)}" using m'(3) step(2) by simp
    moreover have "set (db_rows m') = {r \<in> set rows. alive (srow_pid r)}" using m'(4) step(2,3) l by (auto simp: reached_all)
    moreover have "set rows = row_of ` ran (table_live (sbx_table m))" using step(1) assms(2) by (simp add: in_step_def db_rows_def)
    ultimately show ?thesis by (simp add: in_step_def)
  qed
  then show ?thesis using m' by blast
qed

theorem sandbox_restart_witness:
  "\<exists>m'. sandbox_module_init (Some [demo_row\<lparr>srow_id := replicate 36 CHR ''c'', srow_pid := 40\<rparr>, demo_row]) True 2 (\<lambda>_. 3)
       (\<lambda>pid. pid = 41) (\<lambda>_. True) (empty_mod\<lparr>sbx_initialised := False\<rparr>) = (0, m') \<and>
     sandbox_inv m' \<and> row_of ` ran (table_live (sbx_table m')) = {demo_row} \<and> db_rows m' = [demo_row]"
proof -
  let ?rows = "[demo_row\<lparr>srow_id := replicate 36 CHR ''c'', srow_pid := 40\<rparr>, demo_row]"
  have "sandbox_inv (empty_mod\<lparr>sbx_db := DbOpen ?rows\<rparr>)"
    using empty_mod_inv by (simp add: sandbox_inv_def db_ok_def demo_row_def replicate_eq_replicate)
  then show ?thesis
    using sandbox_restart [of "empty_mod\<lparr>sbx_db := DbOpen ?rows\<rparr>" ?rows "empty_mod\<lparr>sbx_initialised := False\<rparr>" 2 "\<lambda>_. 3"
        "\<lambda>pid. pid = 41" "\<lambda>_. True"]
    by (simp add: demo_row_def) blast
qed

text \<open>
  C35. Running a program in a sandbox never writes outside the caller's buffer and always terminates
  it.  Output shorter than the buffer is delivered completely; of longer output the chunks before the
  first one that does not fit are delivered, and the cells between them and the terminator at the end
  of the buffer keep whatever they held before.
\<close>

theorem sandbox_exec_output:
  assumes "sandbox_find m sid = Some i" "ee_pipe env = Some (rd, wr)" "0 \<le> ee_fork env"
    and "0 < len" "len \<le> length blk"
  shows "\<exists>res blk' calls. sandbox_exec env m sid (Some blk) len = Inr (res, Some blk', calls) \<and>
     length blk' = length blk \<and>
     take (length (fitting len 0 (ee_chunks env))) blk' = map Some (fitting len 0 (ee_chunks env)) \<and>
     (length (concat (ee_chunks env)) < len \<longrightarrow> fitting len 0 (ee_chunks env) = concat (ee_chunks env)) \<and>
     blk' ! min (length (concat (ee_chunks env))) (len - 1) = Some NUL \<and>
     (\<forall>j. length (fitting len 0 (ee_chunks env)) \<le> j \<longrightarrow> j < length blk \<longrightarrow>
        j \<noteq> min (length (concat (ee_chunks env))) (len - 1) \<longrightarrow> blk' ! j = blk ! j)"
proof -
  obtain blk' where b: "capture (ee_chunks env) blk len = Inr (Some blk')" "length blk' = length blk"
    "take (length (fitting len 0 (ee_chunks env))) blk' = map Some (fitting len 0 (ee_chunks env))"
    "blk' ! min (length (concat (ee_chunks env))) (len - 1) = Some NUL"
    "\<forall>j. length (fitting len 0 (ee_chunks env)) \<le> j \<longrightarrow> j < length blk \<longrightarrow>
        j \<noteq> min (length (concat (ee_chunks env))) (len - 1) \<longrightarrow> blk' ! j = blk ! j"
    using capture_ok [OF assms(4,5), of "ee_chunks env"] by blast
  obtain o1 tot where o1: "capture_loop (ee_chunks env) (Some blk) len 0 = Inr (o1, tot)"
    "capture_end o1 len tot = Inr (Some blk')"
    using b(1) by (auto simp: capture_def bindR_Inr_iff split: prod.splits)
  have "\<exists>res calls. sandbox_exec env m sid (Some blk) len = Inr (res, Some blk', calls)"
    using assms(1,2,3) o1
    by (cases "ee_wait env") (simp_all add: sandbox_exec_def sandbox_find_def)
  then show ?thesis using b fitting_all [of 0 "ee_chunks env" len] by auto
qed

definition demo_exec :: exec_env where
  "demo_exec = \<lparr>ee_pipe = Some (3, 4), ee_fork = 50, ee_chunks = [''ab'', ''cdef''], ee_wait = WaitExited 0\<rparr>"

theorem sandbox_exec_output_witness:
  "\<exists>res blk' calls. sandbox_exec demo_exec demo_mod (replicate 36 CHR ''a'') (Some (replicate 6 None)) 6 =
       Inr (res, Some blk', calls) \<and>
     take 2 blk' = map Some ''ab'' \<and> blk' ! 2 = None \<and> blk' ! 5 = Some NUL"
proof -
  have c: "fitting 6 0 (ee_chunks demo_exec) = ''ab''" "length (concat (ee_chunks demo_exec)) = 6"
    by (simp_all add: demo_exec_def)
  have e: "ee_pipe demo_exec = Some (3, 4)" "0 \<le> ee_fork demo_exec" by (simp_all add: demo_exec_def)
  obtain res blk' calls where r: "sandbox_exec demo_exec demo_mod (replicate 36 CHR ''a'') (Some (replicate 6 None)) 6 =
       Inr (res, Some blk', calls)" "take (length ''ab'') blk' = map Some ''ab''" "blk' ! min 6 (6 - 1) = Some NUL"
     "\<forall>j. length ''ab'' \<le> j \<longrightarrow> j < length (replicate 6 None) \<longrightarrow> j \<noteq> min 6 (6 - 1) \<longrightarrow> blk' ! j = replicate 6 None ! j"
    using sandbox_exec_output [OF demo_mod_find e, of 6 "replicate 6 None", unfolded c] by auto
  have "blk' ! 2 = None" using r(4) [rule_format, of 2] by simp
  then show ?thesis using r by (auto simp: numeral_2_eq_2)
qed

text \<open>
  Two creations that overlap can lose a sandbox: if both choose their slot before either fills it,
  the second overwrites the first, which is then not found although its holder runs and its row is in
  the database.
\<close>

theorem sandbox_create_race:
  assumes "sandbox_inv m" "create_reserve (sbx_table m) = Some slot"
    and "length id1 = 36" "length id2 = 36" "id1 \<noteq> id2" "sandbox_find m id1 = None" "sandbox_find m id2 = None"
    and "table = create_commit slot (new_sandbox opn2 a2 id2 pid2)
           (create_commit slot (new_sandbox opn1 a1 id1 pid1) (sbx_table m))"
  shows "sandbox_find (m\<lparr>sbx_table := table\<rparr>) id2 = Some slot \<and> sandbox_find (m\<lparr>sbx_table := table\<rparr>) id1 = None"
proof -
  let ?L = "table_live (sbx_table m)" and ?s2 = "new_sandbox opn2 a2 id2 pid2"
  have t: "table_inv (sbx_table m)" "live_ok ?L" using assms(1) by (simp_all add: sandbox_inv_def table_ok_def)
  have slot: "slot < SANDBOX_MAX" "?L slot = None" using sbt.reserve_free [OF t(1) assms(2)] by auto
  have live: "table_live table = ?L(slot \<mapsto> ?s2)"
    unfolding assms(8) by (rule sbt.lost_create [OF t(1) _ _ assms(2)]) simp_all
  have none: "\<forall>x \<in> ran ?L. sb_id x \<noteq> id1" "\<forall>x \<in> ran ?L. sb_id x \<noteq> id2"
    using assms(6,7) sandbox_find_None [OF sandbox_inv_table [OF assms(1)]] by auto
  have "table_inv table" unfolding assms(8) by (intro sbt.commit_inv t slot) simp_all
  moreover have "live_ok (table_live table)"
    unfolding live using none(2) assms(4) by (intro live_ok_add [OF t(2)]) (auto simp: ran_def)
  ultimately have ok: "table_ok (sbx_table (m\<lparr>sbx_table := table\<rparr>))" by (simp add: table_ok_def)
  show ?thesis
    using sandbox_find_iff [OF ok, of id2 slot] sandbox_find_None [OF ok, of id1] none(1) assms(3,4,5) slot
    by (simp add: live ran_map_upd)
qed

theorem sandbox_create_race_witness:
  "sandbox_find (empty_mod\<lparr>sbx_table :=
       create_commit 0 (new_sandbox (\<lambda>_. 5) (create_args None [] 4) (replicate 36 CHR ''b'') 8)
         (create_commit 0 (new_sandbox (\<lambda>_. 5) (create_args None [] 4) (replicate 36 CHR ''a'') 7) (sbx_table empty_mod))\<rparr>)
     (replicate 36 CHR ''b'') = Some 0 \<and>
   sandbox_find (empty_mod\<lparr>sbx_table :=
       create_commit 0 (new_sandbox (\<lambda>_. 5) (create_args None [] 4) (replicate 36 CHR ''b'') 8)
         (create_commit 0 (new_sandbox (\<lambda>_. 5) (create_args None [] 4) (replicate 36 CHR ''a'') 7) (sbx_table empty_mod))\<rparr>)
     (replicate 36 CHR ''a'') = None"
  by (rule sandbox_create_race [OF empty_mod_inv])
    (simp_all add: empty_mod_find, simp add: empty_mod_def create_reserve_def empty_slot_def replicate_32)

end
