(* ===== verification/Browser.thy ===== *)
theory Browser
  imports Uuid Utils Slots
begin

text \<open>
  The browser engine of \<open>src/src/browser.c\<close>: a table of 16 Chromium processes.  The results of \<open>fork\<close>
  and of the random source are arguments; the calls that signal and reap the process are listed in
  the result.  A pointer to a browser is the index of its slot.  \<open>browser_launch\<close> gives up the lock
  between choosing the slot and filling it.
\<close>

abbreviation BROWSER_ID_LEN :: nat where "BROWSER_ID_LEN \<equiv> 37"
abbreviation BROWSER_MAX :: nat where "BROWSER_MAX \<equiv> 16"

record browser =
  br_id :: string
  br_port :: int
  br_pid :: int
  br_ws_handle :: bool

record browser_mod =
  s_browsers :: "browser list"
  br_initialised :: bool

datatype proc_call = SigTerm int | Reap int

definition browser_gen_uuid :: "8 word list option \<Rightarrow> 64 word \<Rightarrow> 64 word \<Rightarrow> string" where
  "browser_gen_uuid urandom nsec pid = uuid_v4 BROWSER_ID_LEN urandom nsec pid"

definition no_browser :: browser where
  "no_browser = \<lparr>br_id = [], br_port = 0, br_pid = - 1, br_ws_handle = False\<rparr>"

definition browser_module_init :: "browser_mod \<Rightarrow> int \<times> browser_mod" where
  "browser_module_init m =
     (if br_initialised m then (0, m)
      else (0, m\<lparr>s_browsers := replicate BROWSER_MAX no_browser, br_initialised := True\<rparr>))"

definition launch_reserve :: "browser list \<Rightarrow> nat option" where
  "launch_reserve bs = first_index (\<lambda>b. br_pid b = - 1) bs"

text \<open>The command line of the child; the second program name is tried when the first fails.\<close>

definition chromium_argv :: "int \<Rightarrow> string list" where
  "chromium_argv port =
     [''chromium'', ''--headless'', ''--disable-gpu'', ''--no-sandbox'',
      take 31 (''--remote-debugging-port='' @ int_str port)]"

definition new_browser :: "string \<Rightarrow> int \<Rightarrow> int \<Rightarrow> browser" where
  "new_browser bid port pid =
     \<lparr>br_id = strncpy BROWSER_ID_LEN bid, br_port = port, br_pid = pid, br_ws_handle = False\<rparr>"

definition launch_commit :: "nat \<Rightarrow> browser \<Rightarrow> browser list \<Rightarrow> browser list" where
  "launch_commit slot b bs = bs[slot := b]"

definition browser_launch :: "string \<Rightarrow> int \<Rightarrow> int \<Rightarrow> browser_mod \<Rightarrow> nat option \<times> browser_mod" where
  "browser_launch bid fork_rc port m =
     (if \<not> br_initialised m then (None, m)
      else case launch_reserve (s_browsers m) of
             None \<Rightarrow> (None, m)
           | Some slot \<Rightarrow>
               if fork_rc < 0 then (None, m)
               else (Some slot,
                     m\<lparr>s_browsers := launch_commit slot (new_browser bid port fork_rc) (s_browsers m)\<rparr>))"

definition br_dead :: "browser_mod \<Rightarrow> nat option \<Rightarrow> bool" where
  "br_dead m b = (case b of None \<Rightarrow> True | Some i \<Rightarrow> br_pid (s_browsers m ! i) = - 1)"

text \<open>Both only log so far.\<close>

definition browser_navigate :: "browser_mod \<Rightarrow> nat option \<Rightarrow> string \<Rightarrow> int" where
  "browser_navigate m b url = (if br_dead m b then - 1 else 0)"

definition browser_screenshot :: "browser_mod \<Rightarrow> nat option \<Rightarrow> int" where
  "browser_screenshot m b = (if br_dead m b then - 1 else 0)"

definition close_slot :: "nat \<Rightarrow> browser list \<Rightarrow> browser list" where
  "close_slot i bs = (if i < length bs then bs[i := (bs ! i)\<lparr>br_pid := - 1, br_id := []\<rparr>] else bs)"

definition browser_close :: "nat option \<Rightarrow> browser_mod \<Rightarrow> int \<times> proc_call list \<times> browser_mod" where
  "browser_close b m =
     (case b of
        None \<Rightarrow> (- 1, [], m)
      | Some i \<Rightarrow>
          if br_pid (s_browsers m ! i) = - 1 then (- 1, [], m)
          else (0, [SigTerm (br_pid (s_browsers m ! i)), Reap (br_pid (s_browsers m ! i))],
                m\<lparr>s_browsers := close_slot i (s_browsers m)\<rparr>))"

section \<open>The table as slots\<close>

definition browsers_inv :: "browser list \<Rightarrow> bool" where
  "browsers_inv bs \<longleftrightarrow> length bs = BROWSER_MAX"

definition browsers_live :: "browser list \<Rightarrow> nat \<Rightarrow> browser option" where
  "browsers_live bs i = (if i < length bs \<and> br_pid (bs ! i) \<noteq> - 1 then Some (bs ! i) else None)"

interpretation brt: slot_table BROWSER_MAX browsers_inv "\<lambda>b. br_pid b \<noteq> - 1" browsers_live
  launch_reserve launch_commit close_slot
proof unfold_locales
  fix t i v
  assume "browsers_inv t" "browsers_live t i = Some v"
  then show "i < BROWSER_MAX" by (auto simp: browsers_inv_def browsers_live_def split: if_splits)
next
  fix t i
  assume "browsers_inv t" "launch_reserve t = Some i"
  then show "i < BROWSER_MAX \<and> browsers_live t i = None"
    by (auto simp: browsers_inv_def browsers_live_def launch_reserve_def dest: first_index_Some)
next
  fix t i
  assume t: "browsers_inv t" "launch_reserve t = None" "i < BROWSER_MAX"
  then have "t ! i \<in> set t" by (simp add: browsers_inv_def)
  then show "browsers_live t i \<noteq> None"
    using t by (auto simp: browsers_inv_def browsers_live_def launch_reserve_def first_index_None)
qed (auto simp: browsers_inv_def browsers_live_def launch_commit_def close_slot_def fun_eq_iff nth_list_update)

section \<open>Properties\<close>

text \<open>
  Launching uses the first free slot: it fails exactly when the module is not initialised, all 16
  slots are in use or the process cannot be started, and otherwise adds one browser and leaves the
  others alone.  Closing it signals and reaps its process and gives back the table as it was.
\<close>

theorem browser_launch_close:
  assumes "browsers_inv (s_browsers m)" "br_initialised m" "0 < fork_rc"
  shows "case browser_launch bid fork_rc port m of (b, m') \<Rightarrow>
     browsers_inv (s_browsers m') \<and>
     (case b of
        None \<Rightarrow> m' = m \<and> card (dom (browsers_live (s_browsers m))) = BROWSER_MAX
      | Some i \<Rightarrow> browsers_live (s_browsers m) i = None \<and>
          browsers_live (s_browsers m') = (browsers_live (s_browsers m))(i \<mapsto> new_browser bid port fork_rc) \<and>
          browser_navigate m' b url = 0 \<and>
          (case browser_close b m' of (rc, calls, m'') \<Rightarrow>
             rc = 0 \<and> calls = [SigTerm fork_rc, Reap fork_rc] \<and>
             browsers_live (s_browsers m'') = browsers_live (s_browsers m)))"
proof -
  let ?b = "new_browser bid port fork_rc"
  have good: "br_pid ?b \<noteq> - 1" using assms(3) by (simp add: new_browser_def)
  show ?thesis
  proof (cases "launch_reserve (s_browsers m)")
    case None
    then have "brt.create ?b (s_browsers m) = None" by (simp add: brt.create_def)
    then show ?thesis
      using None assms brt.create_None [OF assms(1)] by (simp add: browser_launch_def)
  next
    case (Some i)
    let ?m' = "m\<lparr>s_browsers := launch_commit i ?b (s_browsers m)\<rparr>"
    have free: "i < BROWSER_MAX" "browsers_live (s_browsers m) i = None"
      using brt.reserve_free [OF assms(1) Some] by auto
    have inv: "browsers_inv (launch_commit i ?b (s_browsers m))"
      and live: "browsers_live (launch_commit i ?b (s_browsers m)) = (browsers_live (s_browsers m))(i \<mapsto> ?b)"
      by (rule brt.commit_inv [OF assms(1) free(1) good], rule brt.commit_live [OF assms(1) free(1) good])
    have slot: "launch_commit i ?b (s_browsers m) ! i = ?b"
      using free(1) assms(1) by (simp add: launch_commit_def browsers_inv_def)
    have undo: "(browsers_live (s_browsers m))(i \<mapsto> ?b, i := None) = browsers_live (s_browsers m)"
      using free(2) by auto
    show ?thesis
      using Some assms free good inv live slot undo brt.release_live [OF inv, of i]
      by (simp add: browser_launch_def browser_close_def browser_navigate_def br_dead_def new_browser_def)
  qed
qed

definition demo_browsers :: browser_mod where
  "demo_browsers = \<lparr>s_browsers = replicate BROWSER_MAX no_browser, br_initialised = True\<rparr>"

theorem browser_launch_close_witness:
  "case browser_launch (replicate 36 CHR ''a'') 77 9222 demo_browsers of (b, m') \<Rightarrow>
     browsers_inv (s_browsers m') \<and>
     (case b of
        None \<Rightarrow> m' = demo_browsers \<and> card (dom (browsers_live (s_browsers demo_browsers))) = BROWSER_MAX
      | Some i \<Rightarrow> browsers_live (s_browsers demo_browsers) i = None \<and>
          browsers_live (s_browsers m') =
            (browsers_live (s_browsers demo_browsers))(i \<mapsto> new_browser (replicate 36 CHR ''a'') 9222 77) \<and>
          browser_navigate m' b ''u'' = 0 \<and>
          (case browser_close b m' of (rc, calls, m'') \<Rightarrow>
             rc = 0 \<and> calls = [SigTerm 77, Reap 77] \<and>
             browsers_live (s_browsers m'') = browsers_live (s_browsers demo_browsers)))"
  by (rule browser_launch_close) (simp_all add: demo_browsers_def browsers_inv_def)

text \<open>
  Overlapping launches choose the same slot, and the process of the first is no longer tracked.
\<close>

lemma browser_launch_race:
  assumes "browsers_inv bs" "launch_reserve bs = Some i" "0 < pid1" "0 < pid2"
  shows "browsers_live (launch_commit i (new_browser id2 p2 pid2) (launch_commit i (new_browser id1 p1 pid1) bs)) =
     (browsers_live bs)(i \<mapsto> new_browser id2 p2 pid2)"
  using assms by (intro brt.lost_create) (simp_all add: new_browser_def)

end
