(* ===== verification/Agent.thy ===== *)
theory Agent
  imports Uuid Slots
begin

text \<open>
  The agent engine of \<open>src/src/agent.c\<close>: a table of 32 tasks; a slot is free when its \<open>ws_handle\<close> is
  null.  A pointer to a task is the index of its slot.  The connection to the gateway is not written
  yet, so a task only gets its identifier and a placeholder handle.
\<close>

abbreviation AGENT_TASK_ID_LEN :: nat where "AGENT_TASK_ID_LEN \<equiv> 37"
abbreviation AGENT_MAX_TASKS :: nat where "AGENT_MAX_TASKS \<equiv> 32"

record agent_task =
  at_id :: string
  at_ws_handle :: "nat option"

record agent_mod =
  s_tasks :: "agent_task list"
  ag_initialised :: bool

definition agent_gen_uuid :: "8 word list option \<Rightarrow> 64 word \<Rightarrow> 64 word \<Rightarrow> string" where
  "agent_gen_uuid urandom nsec pid = uuid_v4 AGENT_TASK_ID_LEN urandom nsec pid"

definition no_task :: agent_task where
  "no_task = \<lparr>at_id = [], at_ws_handle = None\<rparr>"

definition agent_module_init :: "agent_mod \<Rightarrow> int \<times> agent_mod" where
  "agent_module_init m =
     (if ag_initialised m then (0, m)
      else (0, m\<lparr>s_tasks := replicate AGENT_MAX_TASKS no_task, ag_initialised := True\<rparr>))"

definition task_reserve :: "agent_task list \<Rightarrow> nat option" where
  "task_reserve ts = first_index (\<lambda>t. at_ws_handle t = None) ts"

definition task_commit :: "nat \<Rightarrow> string \<Rightarrow> agent_task list \<Rightarrow> agent_task list" where
  "task_commit slot tid ts =
     ts[slot := (ts ! slot)\<lparr>at_id := strncpy AGENT_TASK_ID_LEN tid, at_ws_handle := Some 1\<rparr>]"

definition agent_task_create :: "string \<Rightarrow> string \<Rightarrow> agent_mod \<Rightarrow> nat option \<times> agent_mod" where
  "agent_task_create tid goal m =
     (if \<not> ag_initialised m then (None, m)
      else case task_reserve (s_tasks m) of
             None \<Rightarrow> (None, m)
           | Some slot \<Rightarrow> (Some slot, m\<lparr>s_tasks := task_commit slot tid (s_tasks m)\<rparr>))"

definition agent_task_status :: "agent_mod \<Rightarrow> nat option \<Rightarrow> int" where
  "agent_task_status m t =
     (case t of None \<Rightarrow> - 1 | Some i \<Rightarrow> if at_ws_handle (s_tasks m ! i) = None then - 1 else 0)"

definition task_clear :: "nat \<Rightarrow> agent_task list \<Rightarrow> agent_task list" where
  "task_clear i ts = (if i < length ts then ts[i := (ts ! i)\<lparr>at_ws_handle := None, at_id := []\<rparr>] else ts)"

definition agent_task_cancel :: "nat option \<Rightarrow> agent_mod \<Rightarrow> int \<times> agent_mod" where
  "agent_task_cancel t m =
     (case t of
        None \<Rightarrow> (- 1, m)
      | Some i \<Rightarrow> if at_ws_handle (s_tasks m ! i) = None then (- 1, m)
                  else (0, m\<lparr>s_tasks := task_clear i (s_tasks m)\<rparr>))"

section \<open>The table as slots\<close>

definition tasks_inv :: "agent_task list \<Rightarrow> bool" where
  "tasks_inv ts \<longleftrightarrow> length ts = AGENT_MAX_TASKS"

text \<open>The identifier of the task in a slot.\<close>

definition tasks_live :: "agent_task list \<Rightarrow> nat \<Rightarrow> string option" where
  "tasks_live ts i = (if i < length ts \<and> at_ws_handle (ts ! i) \<noteq> None then Some (at_id (ts ! i)) else None)"

interpretation agt: slot_table AGENT_MAX_TASKS tasks_inv "\<lambda>tid. length tid \<le> 37" tasks_live
  task_reserve task_commit task_clear
proof unfold_locales
  fix t i v
  assume "tasks_inv t" "tasks_live t i = Some v"
  then show "i < AGENT_MAX_TASKS" by (auto simp: tasks_inv_def tasks_live_def split: if_splits)
next
  fix t i
  assume "tasks_inv t" "task_reserve t = Some i"
  then show "i < AGENT_MAX_TASKS \<and> tasks_live t i = None"
    by (auto simp: tasks_inv_def tasks_live_def task_reserve_def dest: first_index_Some)
next
  fix t i
  assume t: "tasks_inv t" "task_reserve t = None" "i < AGENT_MAX_TASKS"
  then have "t ! i \<in> set t" by (simp add: tasks_inv_def)
  then show "tasks_live t i \<noteq> None"
    using t by (auto simp: tasks_inv_def tasks_live_def task_reserve_def first_index_None)
qed (auto simp: tasks_inv_def tasks_live_def task_commit_def task_clear_def fun_eq_iff nth_list_update strncpy_def)

fun create_all :: "string list \<Rightarrow> agent_mod \<Rightarrow> nat option list \<times> agent_mod" where
  "create_all [] m = ([], m)"
| "create_all (tid # tids) m =
     (let (r, m1) = agent_task_create tid [] m; (rs, m2) = create_all tids m1 in (r # rs, m2))"

lemma agent_task_create_eq:
  assumes "ag_initialised m"
  shows "agent_task_create tid goal m =
     (case agt.create tid (s_tasks m) of None \<Rightarrow> (None, m) | Some (i, ts) \<Rightarrow> (Some i, m\<lparr>s_tasks := ts\<rparr>))"
  using assms by (simp add: agent_task_create_def agt.create_def split: option.splits)

lemma fst_create_all:
  "fst (create_all (tid # tids) m) =
     fst (agent_task_create tid [] m) # fst (create_all tids (snd (agent_task_create tid [] m)))"
  by (simp add: Let_def split: prod.splits)

lemma create_all_count:
  assumes "tasks_inv (s_tasks m)" "ag_initialised m" "\<forall>tid \<in> set tids. length tid \<le> 37"
  shows "length (filter (\<lambda>r. r \<noteq> None) (fst (create_all tids m))) =
     min (length tids) (AGENT_MAX_TASKS - card (dom (tasks_live (s_tasks m))))"
  using assms
proof (induction tids arbitrary: m)
  case Nil
  then show ?case by simp
next
  case (Cons tid tids)
  have inv: "tasks_inv (s_tasks m)" and good: "length tid \<le> 37" using Cons.prems by auto
  show ?case
  proof (cases "agt.create tid (s_tasks m)")
    case None
    then have "card (dom (tasks_live (s_tasks m))) = AGENT_MAX_TASKS" using agt.create_None [OF inv] by blast
    then show ?thesis
      using Cons None by (simp add: fst_create_all agent_task_create_eq del: create_all.simps)
  next
    case (Some p)
    then obtain i ts where p: "agt.create tid (s_tasks m) = Some (i, ts)" by (cases p) auto
    note c = agt.create_Some [OF inv good p]
    have "card (dom (tasks_live (s_tasks m))) \<noteq> AGENT_MAX_TASKS"
      using agt.create_None [OF inv, of tid] p by auto
    moreover have "card (dom (tasks_live (s_tasks m))) \<le> AGENT_MAX_TASKS"
      using card_mono [OF _ agt.live_dom [OF inv]] by simp
    ultimately have "card (dom (tasks_live (s_tasks m))) < AGENT_MAX_TASKS" by simp
    then show ?thesis
      using Cons.IH [of "m\<lparr>s_tasks := ts\<rparr>"] Cons.prems c(1,4) p
      by (simp add: fst_create_all agent_task_create_eq del: create_all.simps)
  qed
qed

section \<open>Properties\<close>

text \<open>
  Of any sequence of task creations exactly as many succeed as there are free slots: since no route
  cancels a task, the engine accepts 32 tasks in the life of the process and refuses every later one.
\<close>

theorem agent_tasks_exhausted:
  assumes "\<not> ag_initialised m" "\<forall>tid \<in> set tids. length tid \<le> 37"
  shows "length (filter (\<lambda>r. r \<noteq> None) (fst (create_all tids (snd (agent_module_init m))))) = min (length tids) 32"
proof -
  let ?m = "snd (agent_module_init m)"
  have "tasks_live (s_tasks ?m) = Map.empty"
    using assms(1) by (auto simp: agent_module_init_def tasks_live_def no_task_def fun_eq_iff)
  moreover have "tasks_inv (s_tasks ?m)" "ag_initialised ?m"
    using assms(1) by (simp_all add: agent_module_init_def tasks_inv_def)
  ultimately show ?thesis using create_all_count [of ?m tids] assms(2) by simp
qed

theorem agent_tasks_exhausted_witness:
  "length (filter (\<lambda>r. r \<noteq> None)
     (fst (create_all (replicate 40 ''t'') (snd (agent_module_init \<lparr>s_tasks = [], ag_initialised = False\<rparr>))))) =
   min (length (replicate 40 ''t'')) 32"
  by (rule agent_tasks_exhausted) simp_all

end
