(* ===== verification/Routes.thy ===== *)
theory Routes
  imports Buf Workflow Sandbox Browser Agent
begin

text \<open>
  The HTTP handlers of \<open>src/src/brocolli.c\<close> on top of the engines.

  A handler gets the request (method, the \<open>id\<close> argument, the body buffer) and the state of the
  engines, and returns the status and body of its reply together with the new state, or the fault
  it runs into.  The body pointer is null when the request has no content, as \<open>http.c\<close> leaves it.
  The vendored cJSON library is a parameter: \<open>cj_parse\<close> for \<open>cJSON_Parse\<close> and \<open>cj_print\<close> for
  \<open>cJSON_PrintUnformatted\<close>; its values are the datatype \<open>cj\<close>, with the integer value and the double
  value cut to a \<open>long\<close> of a number.
\<close>

section \<open>Requests\<close>

datatype http_method = METHOD_GET | METHOD_POST | METHOD_DELETE | METHOD_OTHER

record http_req =
  rq_method :: http_method
  rq_id :: "string option"
  rq_body :: "kore_buf option"

type_synonym reply = "nat \<times> string"

type_synonym handler_fn = "string \<Rightarrow> string \<Rightarrow> string \<Rightarrow> int"

record server =
  sv_sandbox :: sandbox_mod
  sv_browser :: browser_mod
  sv_agent :: agent_mod
  sv_workflow :: "handler_fn workflow"

datatype cj =
    CjNull
  | CjBool bool
  | CjNumber int int
  | CjString string
  | CjArray "cj list"
  | CjObject "(string \<times> cj) list"

text \<open>\<open>cJSON_GetObjectItem\<close> ignores case.\<close>

definition get_object_item :: "cj \<Rightarrow> string \<Rightarrow> cj option" where
  "get_object_item obj name =
     (case obj of
        CjObject kvs \<Rightarrow> map_option snd (find (\<lambda>(k, _). map tolower k = map tolower name) kvs)
      | _ \<Rightarrow> None)"

definition json_reply :: "nat \<Rightarrow> string \<Rightarrow> reply" where
  "json_reply status body = (status, body)"

definition quote :: string where
  "quote = [CHR 0x22]"

definition squote :: "string \<Rightarrow> string" where
  "squote s = [CHR 0x27] @ s @ [CHR 0x27]"

definition json_field :: "string \<Rightarrow> string \<Rightarrow> string" where
  "json_field k v = quote @ k @ quote @ '':'' @ quote @ v @ quote"

definition error_body :: "string \<Rightarrow> string" where
  "error_body msg = ''{'' @ json_field ''error'' msg @ ''}''"

text \<open>\<open>make_error\<close> with \<open>snprintf\<close> into \<open>len\<close> bytes.\<close>

definition make_error :: "nat \<Rightarrow> string \<Rightarrow> string" where
  "make_error len msg = take (len - 1) (error_body msg)"

text \<open>The body is copied with a terminator and handed on as a C string.\<close>

definition body_text :: "http_req \<Rightarrow> string result" where
  "body_text req =
     (case rq_body req of
        None \<Rightarrow> Inl NullDeref
      | Some body \<Rightarrow>
          bindR (mem_read (case buf_data body of None \<Rightarrow> [] | Some blk \<Rightarrow> blk) 0 (buf_length body)) (\<lambda>data.
          bindR (kore_buf_append (kore_buf_alloc (buf_length body + 1)) data) (\<lambda>buf1.
          bindR (kore_buf_append buf1 [NUL]) (\<lambda>buf2.
            Inr (cstring (buf_bytes buf2))))))"

section \<open>Start and stop\<close>

definition handle_sandbox_job :: handler_fn where
  "handle_sandbox_job jid type payload = 0"

text \<open>
  \<open>kore_parent_configure\<close>: the results of the database and thread calls are arguments, as in the
  engines.  The queue's worker is started before the handler is registered.
\<close>

definition kore_parent_configure ::
  "sandbox_row list option \<Rightarrow> bool \<Rightarrow> nat \<Rightarrow> (string \<Rightarrow> int) \<Rightarrow> (int \<Rightarrow> bool) \<Rightarrow> (string \<Rightarrow> bool) \<Rightarrow>
   db option \<times> bool \<Rightarrow> bool \<Rightarrow> bool \<Rightarrow> server \<Rightarrow> server result" where
  "kore_parent_configure sopened screate fetched opn alive removes jopened jcreate thread_ok srv =
     (let (rc1, sb) = sandbox_module_init sopened screate fetched opn alive removes (sv_sandbox srv) in
      if rc1 \<noteq> 0 then Inl (Fatal ''sandbox_module_init failed'')
      else let (rc2, br) = browser_module_init (sv_browser srv) in
      if rc2 \<noteq> 0 then Inl (Fatal ''browser_module_init failed'')
      else let (rc3, ag) = agent_module_init (sv_agent srv) in
      if rc3 \<noteq> 0 then Inl (Fatal ''agent_module_init failed'')
      else let (rc4, w) = workflow_init (sv_workflow srv) jopened jcreate thread_ok in
      if rc4 \<noteq> 0 then Inl (Fatal ''workflow_init failed'')
      else let (_, w') = workflow_register w ''sandbox.exec'' handle_sandbox_job in
           Inr (srv\<lparr>sv_sandbox := sb, sv_browser := br, sv_agent := ag, sv_workflow := w'\<rparr>))"

definition kore_parent_teardown :: "server \<Rightarrow> (os_call list \<times> server) result" where
  "kore_parent_teardown srv =
     bindR (workflow_shutdown (sv_workflow srv)) (\<lambda>w.
     bindR (sandbox_module_shutdown (sv_sandbox srv)) (\<lambda>(calls, sb).
       Inr (calls, srv\<lparr>sv_workflow := w, sv_sandbox := sb\<rparr>)))"

section \<open>Sandbox routes\<close>

definition long_range :: "int \<Rightarrow> bool" where
  "long_range i \<longleftrightarrow> - (2 ^ 63) \<le> i \<and> i < 2 ^ 63"

text \<open>The options found in the body; the product may overflow a \<open>long\<close>.\<close>

definition create_config :: "cj option \<Rightarrow> sandbox_config result" where
  "create_config root =
     (let dflt = \<lparr>cfg_net_enabled = 0, cfg_mem_limit = 128 * 1024 * 1024, cfg_hostname = None\<rparr> in
      case root of
        None \<Rightarrow> Inr dflt
      | Some r \<Rightarrow>
          (let c1 = (case get_object_item r ''net_enabled'' of
                       Some (CjBool b) \<Rightarrow> dflt\<lparr>cfg_net_enabled := (if b then 1 else 0)\<rparr>
                     | Some (CjNumber i _) \<Rightarrow> dflt\<lparr>cfg_net_enabled := i\<rparr>
                     | _ \<Rightarrow> dflt);
               c3 = (\<lambda>c2. case get_object_item r ''hostname'' of
                            Some (CjString h) \<Rightarrow> c2\<lparr>cfg_hostname := Some h\<rparr>
                          | _ \<Rightarrow> c2)
           in case get_object_item r ''mem_limit_mb'' of
                Some (CjNumber _ l) \<Rightarrow>
                  if long_range (l * 1024 * 1024) then Inr (c3 (c1\<lparr>cfg_mem_limit := l * 1024 * 1024\<rparr>))
                  else Inl Indeterminate
              | _ \<Rightarrow> Inr (c3 c1)))"

definition id_reply :: "(cj \<Rightarrow> string) \<Rightarrow> string \<Rightarrow> reply" where
  "id_reply cj_print i = json_reply 201 (cj_print (CjObject [(''id'', CjString i)]))"

definition route_sandbox_create ::
  "(string \<Rightarrow> cj option) \<Rightarrow> (cj \<Rightarrow> string) \<Rightarrow> create_env \<Rightarrow> string \<Rightarrow> http_req \<Rightarrow> server \<Rightarrow>
   (reply \<times> server) result" where
  "route_sandbox_create cj_parse cj_print env sid req srv =
     (if rq_method req \<noteq> METHOD_POST then Inr (json_reply 405 (error_body ''method not allowed''), srv)
      else bindR (body_text req) (\<lambda>text.
           bindR (create_config (cj_parse text)) (\<lambda>cfg.
           bindR (sandbox_create env (Some cfg) sid (sv_sandbox srv)) (\<lambda>(rc, out, _, sb).
             let srv' = srv\<lparr>sv_sandbox := sb\<rparr> in
             if rc \<noteq> 0 then Inr (json_reply 500 (make_error 128 ''failed to create sandbox''), srv')
             else Inr (id_reply cj_print (case out of Some i \<Rightarrow> i | None \<Rightarrow> []), srv')))))"

text \<open>Reading a C string out of a block.\<close>

fun read_cstring :: "mem_block \<Rightarrow> string result" where
  "read_cstring [] = Inl OutOfBounds"
| "read_cstring (None # cells) = Inl Indeterminate"
| "read_cstring (Some c # cells) =
     (if c = NUL then Inr [] else bindR (read_cstring cells) (\<lambda>s. Inr (c # s)))"

abbreviation SANDBOX_OUT_MAX :: nat where "SANDBOX_OUT_MAX \<equiv> 262144"

definition exec_argv :: "string \<Rightarrow> cj option \<Rightarrow> string list" where
  "exec_argv path args =
     path # (case args of
               Some (CjArray xs) \<Rightarrow> map (\<lambda>a. case a of CjString s \<Rightarrow> s | _ \<Rightarrow> []) xs
             | _ \<Rightarrow> [])"

text \<open>The output buffer is an array on the stack without initial value.\<close>

definition route_sandbox_exec ::
  "(string \<Rightarrow> cj option) \<Rightarrow> (cj \<Rightarrow> string) \<Rightarrow> (exec_error \<Rightarrow> string) \<Rightarrow>
   (string \<Rightarrow> string list \<Rightarrow> exec_env) \<Rightarrow> http_req \<Rightarrow> server \<Rightarrow> (reply \<times> server) result" where
  "route_sandbox_exec cj_parse cj_print strerror env req srv =
     (if rq_method req \<noteq> METHOD_POST then Inr (json_reply 405 (error_body ''method not allowed''), srv)
      else case rq_id req of
             None \<Rightarrow> Inr (json_reply 400 (error_body ''missing sandbox id''), srv)
           | Some sid \<Rightarrow>
               bindR (body_text req) (\<lambda>text.
                 case cj_parse text of
                   None \<Rightarrow> Inr (json_reply 400 (error_body ''invalid json body''), srv)
                 | Some root \<Rightarrow>
                     (case get_object_item root ''path'' of
                        Some (CjString path) \<Rightarrow>
                          bindR (sandbox_exec (env path (exec_argv path (get_object_item root ''args'')))
                                   (sv_sandbox srv) sid (Some (replicate SANDBOX_OUT_MAX None)) SANDBOX_OUT_MAX)
                            (\<lambda>(res, out, _).
                               case res of
                                 Inl e \<Rightarrow> Inr (json_reply 500 (take 127 (error_body (''exec failed: '' @ strerror e))), srv)
                               | Inr code \<Rightarrow>
                                   bindR (read_cstring (case out of Some blk \<Rightarrow> blk | None \<Rightarrow> [])) (\<lambda>output.
                                     Inr (json_reply 200 (cj_print (CjObject
                                            [(''exit_code'', CjNumber code code), (''output'', CjString output)])), srv)))
                      | _ \<Rightarrow> Inr (json_reply 400 (error_body (''missing or invalid '' @ squote ''path'')), srv))))"

definition route_sandbox_destroy :: "bool \<Rightarrow> http_req \<Rightarrow> server \<Rightarrow> (reply \<times> server) result" where
  "route_sandbox_destroy step_ok req srv =
     (if rq_method req \<noteq> METHOD_DELETE then Inr (json_reply 405 (error_body ''method not allowed''), srv)
      else case rq_id req of
             None \<Rightarrow> Inr (json_reply 400 (error_body ''missing sandbox id''), srv)
           | Some sid \<Rightarrow>
               bindR (sandbox_destroy step_ok sid (sv_sandbox srv)) (\<lambda>(rc, _, sb).
                 let srv' = srv\<lparr>sv_sandbox := sb\<rparr> in
                 if rc \<noteq> 0 then Inr (json_reply 404 (error_body ''sandbox not found''), srv')
                 else Inr (json_reply 200 (''{'' @ json_field ''status'' ''destroyed'' @ ''}''), srv')))"

section \<open>Job routes\<close>








section \<open>Agent route\<close>

definition route_agent_task_create ::
  "(string \<Rightarrow> cj option) \<Rightarrow> (cj \<Rightarrow> string) \<Rightarrow> string \<Rightarrow> http_req \<Rightarrow> server \<Rightarrow> (reply \<times> server) result" where
  "route_agent_task_create cj_parse cj_print tid req srv =
     (if rq_method req \<noteq> METHOD_POST then Inr (json_reply 405 (error_body ''method not allowed''), srv)
      else bindR (body_text req) (\<lambda>text.
        case cj_parse text of
          None \<Rightarrow> Inr (json_reply 400 (error_body ''invalid json body''), srv)
        | Some root \<Rightarrow>
            (case get_object_item root ''goal'' of
               Some (CjString goal) \<Rightarrow>
                 (case agent_task_create tid goal (sv_agent srv) of
                    (None, ag) \<Rightarrow> Inr (json_reply 500 (error_body ''failed to create agent task''), srv\<lparr>sv_agent := ag\<rparr>)
                  | (Some i, ag) \<Rightarrow> Inr (id_reply cj_print (at_id (s_tasks ag ! i)), srv\<lparr>sv_agent := ag\<rparr>))
             | _ \<Rightarrow> Inr (json_reply 400 (error_body (''missing or invalid '' @ squote ''goal'')), srv))))"

section \<open>Lemmas\<close>

lemma read_cstring_prefix:
  "NUL \<notin> set s \<Longrightarrow> read_cstring (map Some s @ Some NUL # rest) = Inr s"
  by (induction s) auto

lemma read_cstring_gap: "NUL \<notin> set s \<Longrightarrow> read_cstring (map Some s @ None # rest) = Inl Indeterminate"
  by (induction s) auto

lemma cstring_snoc_NUL: "cstring (xs @ [NUL]) = cstring xs"
  by (induction xs) (auto simp: cstring_def)

text \<open>A completely received body is handed on unchanged up to its first NUL.\<close>

lemma body_text_complete:
  assumes "rq_body req = Some b" "buf_data b = Some (map Some xs)" "buf_length b = length xs" "length xs + 2 < 2 ^ 63"
  shows "body_text req = Inr (cstring xs)"
proof -
  have "buf_room (kore_buf_alloc (length xs + 1)) (length xs + 1)"
    using assms(4) by (simp add: buf_room_def)
  from kb.append_room [OF this] obtain b1 where
    b1: "kore_buf_append (kore_buf_alloc (length xs + 1)) xs = Inr b1" "buf_bytes b1 = xs" "buf_room b1 (length [NUL] + 0)"
    by auto
  from kb.append_room [OF b1(3)] obtain b2 where
    b2: "kore_buf_append b1 [NUL] = Inr b2" "buf_bytes b2 = xs @ [NUL]" using b1(2) by auto
  have "mem_read (map Some xs) 0 (length xs) = Inr xs" by (auto simp: mem_read_def comp_def)
  then show ?thesis
    using assms b1 b2 by (simp add: body_text_def cstring_snoc_NUL)
qed


lemma find_map_same:
  assumes "\<And>x. x \<in> set xs \<Longrightarrow> P (f x) = P x"
  shows "find P (map f xs) = map_option f (find P xs)"
  using assms by (induction xs) auto

section \<open>Properties\<close>

definition post :: "kore_buf option \<Rightarrow> http_req" where
  "post b = \<lparr>rq_method = METHOD_POST, rq_id = None, rq_body = b\<rparr>"


definition delete_id :: "string \<Rightarrow> http_req" where
  "delete_id i = \<lparr>rq_method = METHOD_DELETE, rq_id = Some i, rq_body = None\<rparr>"


definition demo_server :: server where
  "demo_server = \<lparr>sv_sandbox = empty_mod, sv_browser = demo_browsers,
     sv_agent = \<lparr>s_tasks = replicate AGENT_MAX_TASKS no_task, ag_initialised = True\<rparr>,
     sv_workflow = \<lparr>s_handlers = [], s_db = Some [], s_stop = False, s_running = True\<rparr>\<rparr>"


text \<open>
  The life of a sandbox over HTTP: when the body is received completely, a slot is free and the
  holder starts, the request is answered with 201 and the sandbox exists; deleting it is answered with
  200 and removes it, and deleting it again with 404.
\<close>

theorem sandbox_http_lifecycle:
  assumes inv: "sandbox_inv (sv_sandbox srv)" and init: "sbx_initialised (sv_sandbox srv)"
    and sid: "length sid = 36" "sandbox_find (sv_sandbox srv) sid = None"
    and free: "card (dom (table_live (sbx_table (sv_sandbox srv)))) < SANDBOX_MAX"
    and body: "buf_data b = Some (map Some xs)" "buf_length b = length xs" "length xs + 2 < 2 ^ 63"
    and cfg: "create_config (cj_parse (cstring xs)) = Inr cfg"
    and holder: "create_holder env (Some cfg) sid = (CreateHolder a pid, calls)"
  shows "\<exists>s1 s2 s3. route_sandbox_create cj_parse cj_print env sid (post (Some b)) srv =
       Inr ((201, cj_print (CjObject [(''id'', CjString sid)])), s1) \<and>
     sandbox_find (sv_sandbox s1) sid \<noteq> None \<and>
     route_sandbox_destroy ok1 (delete_id sid) s1 = Inr ((200, ''{'' @ json_field ''status'' ''destroyed'' @ ''}''), s2) \<and>
     sandbox_find (sv_sandbox s2) sid = None \<and>
     route_sandbox_destroy ok2 (delete_id sid) s2 = Inr ((404, error_body ''sandbox not found''), s3)"
proof -
  have bt: "body_text (post (Some b)) = Inr (cstring xs)"
    using body by (intro body_text_complete) (simp_all add: post_def)
  from inv init sid show ?thesis
  proof (cases rule: sandbox_create_cases [where env = env and cfg = "Some cfg"])
    case full
    then show ?thesis using free by simp
  next
    case (fails calls')
    then show ?thesis using holder by simp
  next
    case (made slot a' pid' calls' m1)
    let ?s1 = "srv\<lparr>sv_sandbox := m1\<rparr>"
    have c: "route_sandbox_create cj_parse cj_print env sid (post (Some b)) srv =
        Inr ((201, cj_print (CjObject [(''id'', CjString sid)])), ?s1)"
      using bt cfg made(2) by (simp add: route_sandbox_create_def post_def id_reply_def json_reply_def)
    have live: "table_live (sbx_table m1) slot = Some (new_sandbox (ce_open env) a' sid pid')"
      using made(6) by simp
    have idn: "sb_id (new_sandbox (ce_open env) a' sid pid') = sid" using sid(1) by simp
    have f1: "sandbox_find m1 sid = Some slot"
      using sandbox_find_iff [OF sandbox_inv_table [OF made(3)]] live idn by blast
    obtain calls2 m2 where d: "sandbox_destroy ok1 sid m1 = Inr (0, calls2, m2)" "sandbox_inv m2"
      "table_live (sbx_table m2) = (table_live (sbx_table m1))(slot := None)"
      using sandbox_destroy_hit [OF made(3) live, of ok1] unfolding idn by blast
    have "ran (table_live (sbx_table m2)) = {x \<in> ran (table_live (sbx_table m1)). sb_id x \<noteq> sid}"
      using ran_del [of "table_live (sbx_table m1)" slot] live made(3) idn d(3)
      by (simp add: sandbox_inv_def table_ok_def)
    then have f2: "sandbox_find m2 sid = None"
      using sandbox_find_None [OF sandbox_inv_table [OF d(2)], of sid] by simp
    then have d2: "sandbox_destroy ok2 sid m2 = Inr (- 1, [], m2)"
      by (simp add: sandbox_destroy_def sandbox_find_def)
    show ?thesis
      by (rule exI [of _ ?s1], rule exI [of _ "?s1\<lparr>sv_sandbox := m2\<rparr>"], rule exI [of _ "?s1\<lparr>sv_sandbox := m2\<rparr>"])
        (simp add: c f1 f2 d(1) d2 route_sandbox_destroy_def delete_id_def json_reply_def)
  qed
qed

definition demo_body :: kore_buf where
  "demo_body = \<lparr>buf_data = Some (map Some ''{}''), buf_length = 2, buf_offset = 2, buf_owner_api = False\<rparr>"

theorem sandbox_http_lifecycle_witness:
  "\<exists>s1 s2 s3. route_sandbox_create (\<lambda>_. None) (\<lambda>_. ''j'') demo_env (replicate 36 CHR ''b'') (post (Some demo_body)) demo_server =
       Inr ((201, (\<lambda>_. ''j'') (CjObject [(''id'', CjString (replicate 36 CHR ''b''))])), s1) \<and>
     sandbox_find (sv_sandbox s1) (replicate 36 CHR ''b'') \<noteq> None \<and>
     route_sandbox_destroy True (delete_id (replicate 36 CHR ''b'')) s1 =
       Inr ((200, ''{'' @ json_field ''status'' ''destroyed'' @ ''}''), s2) \<and>
     sandbox_find (sv_sandbox s2) (replicate 36 CHR ''b'') = None \<and>
     route_sandbox_destroy True (delete_id (replicate 36 CHR ''b'')) s2 = Inr ((404, error_body ''sandbox not found''), s3)"
proof -
  let ?cfg = "\<lparr>cfg_net_enabled = 0, cfg_mem_limit = 128 * 1024 * 1024, cfg_hostname = None\<rparr>"
  have sb: "sv_sandbox demo_server = empty_mod" by (simp add: demo_server_def)
  have h: "create_holder demo_env (Some ?cfg) (replicate 36 CHR ''b'') =
      (CreateHolder (create_args (Some ?cfg) (replicate 36 CHR ''b'') 4) 41, [Close 4, Close 3])"
    by (simp add: create_holder_def demo_env_def)
  show ?thesis
    by (rule sandbox_http_lifecycle [where cfg = ?cfg and xs = "''{}''", OF _ _ _ _ _ _ _ _ _ h])
      (simp_all add: sb empty_mod_inv empty_mod_find demo_body_def create_config_def Let_def,
       simp_all add: empty_mod_def live_empty)
qed

text \<open>
  Running a program over HTTP: the reply carries the exit status and exactly the output when the
  output is shorter than the 256 KB buffer.  When a longer output leaves a gap before the end of the
  buffer, building the reply reads bytes of the stack that were never written.
\<close>

theorem route_sandbox_exec_output:
  assumes req: "rq_method req = METHOD_POST" "rq_id req = Some sid" "body_text req = Inr bt"
    and json: "cj_parse bt = Some root" "get_object_item root ''path'' = Some (CjString path)"
    and found: "sandbox_find (sv_sandbox srv) sid = Some i"
    and env: "env path (exec_argv path (get_object_item root ''args'')) = e"
      "ee_pipe e = Some (rd, wr)" "0 \<le> ee_fork e" "ee_wait e = WaitExited code" "NUL \<notin> set (concat (ee_chunks e))"
  shows "(length (concat (ee_chunks e)) < SANDBOX_OUT_MAX \<longrightarrow>
        route_sandbox_exec cj_parse cj_print strerror env req srv =
          Inr ((200, cj_print (CjObject [(''exit_code'', CjNumber code code),
                                         (''output'', CjString (concat (ee_chunks e)))])), srv)) \<and>
     (SANDBOX_OUT_MAX \<le> length (concat (ee_chunks e)) \<longrightarrow>
      length (fitting SANDBOX_OUT_MAX 0 (ee_chunks e)) < SANDBOX_OUT_MAX - 1 \<longrightarrow>
        route_sandbox_exec cj_parse cj_print strerror env req srv = Inl Indeterminate)"
proof -
  let ?fit = "fitting SANDBOX_OUT_MAX 0 (ee_chunks e)" and ?n = "length (concat (ee_chunks e))"
  let ?blk = "replicate SANDBOX_OUT_MAX None :: mem_block"
  obtain blk' where b: "capture (ee_chunks e) ?blk SANDBOX_OUT_MAX = Inr (Some blk')" "length blk' = SANDBOX_OUT_MAX"
    "take (length ?fit) blk' = map Some ?fit" "blk' ! min ?n (SANDBOX_OUT_MAX - 1) = Some NUL"
    "\<And>j. length ?fit \<le> j \<Longrightarrow> j < SANDBOX_OUT_MAX \<Longrightarrow> j \<noteq> min ?n (SANDBOX_OUT_MAX - 1) \<Longrightarrow> blk' ! j = None"
    using capture_ok [of SANDBOX_OUT_MAX ?blk "ee_chunks e"] by auto
  obtain o1 tot where o1: "capture_loop (ee_chunks e) (Some ?blk) SANDBOX_OUT_MAX 0 = Inr (o1, tot)"
    "capture_end o1 SANDBOX_OUT_MAX tot = Inr (Some blk')"
    using b(1) by (auto simp: capture_def bindR_Inr_iff split: prod.splits)
  have "\<exists>calls. sandbox_exec e (sv_sandbox srv) sid (Some ?blk) SANDBOX_OUT_MAX = Inr (Inr code, Some blk', calls)"
    using found env(2,3,4) o1 by (simp add: sandbox_exec_def sandbox_find_def)
  then have route: "route_sandbox_exec cj_parse cj_print strerror env req srv =
      bindR (read_cstring blk') (\<lambda>output. Inr (json_reply 200 (cj_print (CjObject
         [(''exit_code'', CjNumber code code), (''output'', CjString output)])), srv))"
    using req json env(1) by (auto simp: route_sandbox_exec_def)
  have split: "length ?fit < length blk' \<Longrightarrow>
      blk' = map Some ?fit @ blk' ! length ?fit # drop (Suc (length ?fit)) blk'"
    using id_take_nth_drop [of "length ?fit" blk'] b(3) by simp
  have nul: "NUL \<notin> set ?fit"
  proof -
    have "set (fitting len tot cs) \<subseteq> set (concat cs)" for len tot cs
      by (induction cs arbitrary: tot) (auto split: if_splits)
    then show ?thesis using env(5) by blast
  qed
  show ?thesis
  proof (intro conjI impI)
    assume lt: "?n < SANDBOX_OUT_MAX"
    then have fit: "?fit = concat (ee_chunks e)" by (intro fitting_all) simp
    have "blk' ! length ?fit = Some NUL" using b(4) lt by (simp add: fit min_def)
    then have "read_cstring blk' = Inr (concat (ee_chunks e))"
      using split lt b(2) nul read_cstring_prefix [of ?fit] by (metis fit)
    then show "route_sandbox_exec cj_parse cj_print strerror env req srv =
          Inr ((200, cj_print (CjObject [(''exit_code'', CjNumber code code),
                                         (''output'', CjString (concat (ee_chunks e)))])), srv)"
      unfolding route by (simp add: json_reply_def)
  next
    assume ge: "SANDBOX_OUT_MAX \<le> ?n" "length ?fit < SANDBOX_OUT_MAX - 1"
    then have "blk' ! length ?fit = None" using b(5) [of "length ?fit"] by simp
    then have "read_cstring blk' = Inl Indeterminate"
      using split ge(2) b(2) nul read_cstring_gap [of ?fit] by (metis less_imp_diff_less less_trans diff_less zero_less_one zero_less_numeral)
    then show "route_sandbox_exec cj_parse cj_print strerror env req srv = Inl Indeterminate"
      unfolding route by simp
  qed
qed

theorem route_sandbox_exec_output_witness:
  "route_sandbox_exec (\<lambda>_. Some (CjObject [(''path'', CjString ''/bin/ls'')])) (\<lambda>_. ''ok'') (\<lambda>_. [])
     (\<lambda>_ _. demo_exec) \<lparr>rq_method = METHOD_POST, rq_id = Some (replicate 36 CHR ''a''), rq_body = Some demo_body\<rparr>
     (demo_server\<lparr>sv_sandbox := demo_mod\<rparr>) = Inr ((200, ''ok''), demo_server\<lparr>sv_sandbox := demo_mod\<rparr>)"
proof -
  let ?req = "\<lparr>rq_method = METHOD_POST, rq_id = Some (replicate 36 CHR ''a''), rq_body = Some demo_body\<rparr>"
  have bt: "body_text ?req = Inr (cstring ''{}'')"
    by (rule body_text_complete [where b = demo_body]) (simp_all add: demo_body_def)
  have f: "sandbox_find (sv_sandbox (demo_server\<lparr>sv_sandbox := demo_mod\<rparr>)) (replicate 36 CHR ''a'') = Some 0"
    using demo_mod_find by simp
  show ?thesis
    using route_sandbox_exec_output [where req = ?req and srv = "demo_server\<lparr>sv_sandbox := demo_mod\<rparr>" and
        cj_parse = "\<lambda>_. Some (CjObject [(''path'', CjString ''/bin/ls'')])" and cj_print = "\<lambda>_. ''ok''" and
        env = "\<lambda>_ _. demo_exec" and e = demo_exec and strerror = "\<lambda>_. []", OF _ _ bt _ _ f]
    by (simp add: demo_exec_def get_object_item_def)
qed

end
