(* ===== verification/Spec2Isabelle.thy ===== *)
theory Spec2Isabelle
  imports Base64 Json_Correct Timer Pool Websocket Files CJson_Compare Routes
begin

text \<open>
  Verification of brocolli: the Kore web framework and the engines built on it.  All sources are C files
  under \<open>src/src\<close>; a file name below is relative to that directory.

  \<^bold>\<open>The program and its parts.\<close>  A worker process runs an event loop.  Sockets are read and written
  through the queues of \<open>net.c\<close>; \<open>http.c\<close> turns the bytes of a connection into requests, which
  \<open>domain.c\<close>, \<open>route.c\<close>, \<open>validator.c\<close> and \<open>auth.c\<close> assign to a handler and check; \<open>websocket.c\<close> takes over
  a connection after a handshake, for which it uses \<open>sha1.c\<close> and the base64 coder of \<open>utils.c\<close>.
  Timers are in \<open>timer.c\<close>, memory comes from the pools of \<open>pool.c\<close>, text is built in the buffers of
  \<open>buf.c\<close>, \<open>json.c\<close> reads and writes JSON, bodies are hashed with \<open>sha2.c\<close>.  The handlers of
  \<open>brocolli.c\<close> offer four engines over HTTP: a durable job queue in SQLite (\<open>workflow.c\<close>), sandboxes made
  of Linux namespaces (\<open>sandbox.c\<close>), browser processes (\<open>browser.c\<close>) and agent tasks (\<open>agent.c\<close>).

  \<^bold>\<open>Conventions\<close> (theory \<open>Prelude\<close>).  A C function is a HOL function of its arguments and the state it
  touches.  \<open>'a result\<close> is either a \<open>fault\<close> (a call of \<open>fatal\<close>, an access out of bounds, a null
  dereference, a read of an indeterminate byte) or a value; \<open>bindR\<close> sequences.  Memory blocks are lists
  of optional bytes, so that what has not been written can be told apart; \<open>size_t\<close> arithmetic wraps at 64
  bits.  A pointer that may be null is an option, a linked list a list.  System calls appear as lists
  of results that the kernel will return or as logs of what was done.  A loop that need not end is a
  \<open>partial_function\<close> whose value \<open>None\<close> means that it does not return; every other loop is a
  terminating recursion, so no fuel is used anywhere.

  \<^bold>\<open>The theories.\<close>
  \<^item> \<open>Utils\<close>: \<open>kore_strlcpy\<close>, \<open>kore_strtonum\<close>, \<open>kore_strtonum64\<close>, \<open>kore_split_string\<close>,
    \<open>kore_mem_find\<close>, \<open>kore_date_to_time\<close>, the trimming of text and the C library routines they use.
    Splitting returns the non-empty fields, searching the first occurrence, numbers are read back as
    printed.
  \<^item> \<open>Base64\<close>: \<open>kore_base64_encode\<close>, \<open>kore_base64_decode\<close> and the URL variants.  The locale
    \<open>b64_alphabet\<close> holds what coder and decoder need of an alphabet; both alphabets interpret it.
    Decoding inverts encoding; unpadded text whose length is a multiple of four is refused.
  \<^item> \<open>Buf\<close>: \<open>struct kore_buf\<close> and all functions of \<open>buf.c\<close>, with \<open>kore_malloc\<close> and \<open>kore_realloc\<close>.
    The locale \<open>octet_buffer\<close> is what the clients of a buffer rely on: appending concatenates.
    Replacement ends and replaces every occurrence.
  \<^item> \<open>Json\<close>, \<open>Json_Correct\<close>: reader, writer, constructors and path search of \<open>json.c\<close>.  The reader is
    total, stays inside the text and returns well-formed trees.  A tree that is created with \<open>kore_json_create_item\<close>, written and
    read back holds the values it was created from; names that need escapes and floating point numbers are excluded.
  \<^item> \<open>Uuid\<close>, \<open>Slots\<close>: the identifiers and the fixed tables that the engines share.  The locale
    \<open>slot_table\<close> is interpreted by the tables of sandboxes, browsers and agent tasks.
  \<^item> \<open>Workflow\<close>: the table of jobs, the public functions, the worker, and the interleavings of both as
    an inductive step relation (locale \<open>job_select\<close> for the selection of a due job).  No job is
    attempted more than five times, rows change state only along the intended transitions, due jobs
    are drained, and a row left running by a crash stays so.
  \<^item> \<open>Sandbox\<close>: creation with its namespaces, execution, destruction, the database and a restart.  The
    invariant of table and database is kept, also when statements fail; rows and sandboxes agree (\<open>in_step\<close>) as long as none does.  A
    program runs only after the namespaces were joined and the filter was loaded.
  \<^item> \<open>Browser\<close>, \<open>Agent\<close>: the two tables of processes and tasks.
  \<^item> \<open>Routes\<close>: the handlers of \<open>brocolli.c\<close> over the engines, with the life of jobs and sandboxes over
    HTTP.  The vendored cJSON library is a parameter (\<open>cj_parse\<close>, \<open>cj_print\<close>), so that the handlers can be
    read alone; the end of this theory puts the library in its place.
  \<^item> \<open>Timer\<close>: the ordered list of timers.  A callback may change its own timer, the list and the world.  A run ends and
    calls every due timer once if callbacks leave other timers alone and add none that is due, and repeated timers advance; with two due repeating timers
    of interval 0 it does not end.
  \<^item> \<open>Pool\<close>: the pools with and without guard pages.  Entries in use never overlap.
  \<^item> \<open>Hashing\<close>, \<open>Sha1\<close>, \<open>Sha2\<close>: the hash functions as written, unrolled and in place, against the
    definitions of FIPS 180-4.  The locale \<open>stream_hash\<close> states that hashing pieces hashes their
    concatenation; \<open>sha2_counter\<close> abstracts from the two counters of SHA-2.  A little-endian machine is
    assumed, as in the branch of the sources that is modelled, and pieces of less than \<open>2^61\<close> bytes.
  \<^item> \<open>Net\<close>: the queues of \<open>net.c\<close> without TLS, \<open>kore_platform_sendfile\<close> of \<open>linux.c\<close> and
    \<open>kore_connection_disconnect\<close>.  Sending is a first-in first-out queue for every behaviour of the
    kernel; the locale \<open>recv_callbacks\<close> shows that receiving does not depend on how bytes arrive.
  \<^item> \<open>Websocket\<close>: all of \<open>websocket.c\<close>.  Frames masked as in RFC 6455 are delivered once, in order and
    unmasked; the handshake computes the accept value of the RFC.
  \<^item> \<open>Http\<close>: \<open>http.c\<close> from the bytes to the complete request, and the lookups and checks of the routing
    files.  Limits and callbacks are the fields of \<open>http_env\<close>.  Received headers contain only the
    characters of the standard, a request written as the standard prescribes is read back, bodies arrive complete and hashed, percent-encoding is inverted; the
    counter of missing bytes can wrap around, and two comparisons of prefixes accept too much.
  \<^item> \<open>Files\<close>: \<open>fileref.c\<close>, \<open>filemap.c\<close>, and the media types and \<open>http_response_fileref\<close> of \<open>http.c\<close>.  The file system
    is a field of \<open>file_env\<close> that may differ in every call.  References are counted exactly under every order
    of calls; only files below the name of the mapped directory are sent, which includes siblings whose
    names begin with it.
  \<^item> \<open>CJson\<close>, \<open>CJson_Print\<close>, \<open>CJson_Correct\<close>, \<open>CJson_Tree\<close> and \<open>CJson_Compare\<close>: the parser and the printer of the vendored \<open>cJSON.c\<close>,
    and its functions that look up, create, edit, copy, compare and minify.  Items are the C structure with the
    list of children.  The fuel of the loops is the length of the text and that of the nesting is the limit
    of the code plus one; both are shown to be enough.  The parser stays inside the text and inside the
    blocks it allocates and returns well-formed items; the printer stays inside its buffer and writes exactly the
    text of an item, which the parser reads back up to the digits that were printed of its numbers.  Minifying a formatted text gives the
    unformatted one unless a string ends in a backslash, when white space in a later string is lost.  A copy compares equal to its original unless an object has two members of one
    name.  Floating point numbers are the parameter \<open>float_ops\<close>.

  \<^bold>\<open>How the parts are composed.\<close>  \<open>Routes\<close> runs the definitions of the engine theories; \<open>Websocket\<close>
  runs those of \<open>Net\<close>, \<open>Sha1\<close> and \<open>Base64\<close>; \<open>Http\<close> those of \<open>Buf\<close>, \<open>Sha2\<close> and \<open>Utils\<close>; \<open>Files\<close> the
  decoding of \<open>Http\<close>; \<open>Json\<close> and
  \<open>Base64\<close> those of \<open>Buf\<close>.  The definitions below run \<open>Routes\<close> with the parser and the printer of cJSON and behind the parser of \<open>Http\<close>: lookups agree, the
  program and the arguments a client printed are those the sandbox runs and the reply is read back as its result, and a \<open>POST\<close> with an
  empty body makes the handlers dereference a null pointer.  Their properties rest on the interpretations named above.

  \<^bold>\<open>Constants.\<close>  The headers of the framework are not part of the sources.  Values that RFC 6455, RFC 7230
  or FIPS 180-4 fix are written out; every other limit is a parameter.

  \<^bold>\<open>Not modelled.\<close>
  \<^item> The rest of \<open>http.c\<close> (other responses, multipart forms, the queues of requests and their
    run loop), the construction of the routing tables, and \<open>config.c\<close>, which fills them.
  \<^item> \<open>jsonrpc.c\<close>, \<open>msg.c\<close>, \<open>accesslog.c\<close>, \<open>log.c\<close>, the size classes of
    \<open>mem.c\<close>, and the functions of cJSON that add references or constant keys or change a value in place.
  \<^item> Processes and the platform: \<open>kore.c\<close>, \<open>worker.c\<close>, \<open>connection.c\<close> and \<open>linux.c\<close> beyond the functions
    named above, \<open>bsd.c\<close>, \<open>seccomp.c\<close>, \<open>tasks.c\<close>, \<open>module.c\<close>, \<open>runtime.c\<close>: sequences of system calls,
    threads and dynamic loading with no state of their own that the kernel could check.
  \<^item> Bindings to other software: \<open>acme.c\<close>, \<open>keymgr_openssl.c\<close>, \<open>tls_openssl.c\<close>, \<open>tls_none.c\<close>, \<open>curl.c\<close>,
    \<open>pgsql.c\<close>, \<open>python.c\<close>, \<open>lua.c\<close>, and the project tool \<open>cli.c\<close>.
\<close>

section \<open>The routes with the vendored JSON library and the HTTP parser\<close>

text \<open>
  The handlers see an item through the values of \<open>Routes\<close>; \<open>tolong\<close> is the conversion of a double to a \<open>long\<close>.
\<close>

primrec cj_of :: "('d \<Rightarrow> int) \<Rightarrow> 'd cJSON \<Rightarrow> cj" where
  "cj_of tolong (Item t vi vd vs s cs) =
     (case t of
        cJSON_False \<Rightarrow> CjBool False
      | cJSON_True \<Rightarrow> CjBool True
      | cJSON_Number \<Rightarrow> CjNumber vi (tolong vd)
      | cJSON_String \<Rightarrow> CjString (the vs)
      | cJSON_Array \<Rightarrow> CjArray (map (cj_of tolong) cs)
      | cJSON_Object \<Rightarrow> CjObject (zip (map (\<lambda>c. the (item_string c)) cs) (map (cj_of tolong) cs))
      | _ \<Rightarrow> CjNull)"


text \<open>
  The items of a reply and the text they are printed as.  A handler passes on what \<open>cJSON_PrintUnformatted\<close> returns without a check;
  here a failure for want of memory gives the empty text.
\<close>

primrec item_of :: "'d float_ops \<Rightarrow> cj \<Rightarrow> 'd cJSON" where
  "item_of fo CjNull = cJSON_CreateNull fo"
| "item_of fo (CjBool b) = cJSON_CreateBool fo b"
| "item_of fo (CjNumber i l) = cJSON_CreateNumber fo (fo_of_int fo i)"
| "item_of fo (CjString s) = new_item fo cJSON_String 0 (Some s) []"
| "item_of fo (CjArray vs) = new_item fo cJSON_Array 0 None (map (item_of fo) vs)"
| "item_of fo (CjObject kvs) = new_item fo cJSON_Object 0 None (map (\<lambda>(k, it). named k it) (map (map_prod id (item_of fo)) kvs))"


definition exec_result :: "int \<Rightarrow> int \<Rightarrow> string \<Rightarrow> cj" where
  "exec_result code l outp = CjObject [(''exit_code'', CjNumber code l), (''output'', CjString outp)]"



text \<open>What a handler of \<open>brocolli.c\<close> sees of a request.\<close>

definition handler_req :: "http_request \<Rightarrow> http_req" where
  "handler_req req =
     \<lparr>rq_method = (case hr_method req of HTTP_METHOD_GET \<Rightarrow> METHOD_GET | HTTP_METHOD_POST \<Rightarrow> METHOD_POST
                   | HTTP_METHOD_DELETE \<Rightarrow> METHOD_DELETE | _ \<Rightarrow> METHOD_OTHER),
      rq_id = http_argument_get req ''id'', rq_body = hr_body req\<rparr>"

lemma find_child_unnamed: "\<forall>c \<in> set cs. item_string c = None \<Longrightarrow> find_child False k cs = None"
  by (induction cs) (auto simp: case_insensitive_equal_def)

lemma find_child_named:
  "\<forall>c \<in> set cs. item_string c \<noteq> None \<Longrightarrow> map_option (cj_of tolong) (find_child False k cs) =
     map_option snd (find (\<lambda>(n, _). map tolower n = map tolower k) (zip (map (\<lambda>c. the (item_string c)) cs) (map (cj_of tolong) cs)))"
proof (induction cs)
  case (Cons c cs)
  then obtain n where "item_string c = Some n" by auto
  then show ?case using Cons by (auto simp: case_insensitive_equal_def)
qed simp

text \<open>
  C17. The lookup that the handlers use is that of the library: on every item the parser can return, the member that
  \<open>cJSON_GetObjectItem\<close> finds is the value that the model of the handlers finds.
\<close>

theorem get_object_item_refines:
  assumes "cj_wf fo it"
  shows "map_option (cj_of tolong) (cJSON_GetObjectItem (Some it) (Some k)) = get_object_item (cj_of tolong it) k"
proof -
  obtain t vi vd vs s cs where it: "it = Item t vi vd vs s cs" by (cases it)
  show ?thesis
  proof (cases t)
    case cJSON_Object
    then have "\<forall>c \<in> set cs. item_string c \<noteq> None" using assms by (auto simp: it list_all_iff)
    from find_child_named [OF this] show ?thesis
      using cJSON_Object by (simp add: it cJSON_GetObjectItem_def get_object_child_def get_object_item_def)
  next
    case cJSON_Array
    then have "\<forall>c \<in> set cs. item_string c = None" using assms by (auto simp: it list_all_iff)
    from find_child_unnamed [OF this] show ?thesis
      using cJSON_Array by (simp add: it cJSON_GetObjectItem_def get_object_child_def get_object_item_def)
  qed (use assms in \<open>simp_all add: it cJSON_GetObjectItem_def get_object_child_def get_object_item_def\<close>)
qed

theorem get_object_item_refines_witness:
  "map_option (cj_of id) (cJSON_GetObjectItem (Some (new_item int_ops cJSON_Object 0 None [named ''Goal'' (new_item int_ops cJSON_True 1 None [])])) (Some ''gOAL'')) =
     Some (CjBool True)"
proof -
  define it where "it = new_item int_ops cJSON_Object 0 None [named ''Goal'' (new_item int_ops cJSON_True 1 None [])]"
  have "cj_wf int_ops it" by (simp add: it_def new_item_def cstr_def)
  from get_object_item_refines [OF this, of id "''gOAL''"]
  have "map_option (cj_of id) (cJSON_GetObjectItem (Some it) (Some ''gOAL'')) = get_object_item (cj_of id it) ''gOAL''" .
  also have "\<dots> = get_object_item (CjObject [(''Goal'', CjBool True)]) ''gOAL''" by (simp add: it_def new_item_def)
  also have "\<dots> = Some (CjBool True)" by code_simp
  finally show ?thesis by (simp only: it_def)
qed

text \<open>The calls by which the handler puts the reply together give this item.\<close>

lemma exec_result_item:
  "cJSON_AddStringToObject fo
     (cJSON_AddNumberToObject fo (Some (cJSON_CreateObject fo)) (Some ''exit_code'') (fo_of_int fo code)) (Some ''output'') (Some outp) =
   Some (item_of fo (exec_result code l outp))"
  by (simp add: exec_result_def cJSON_AddStringToObject_def cJSON_AddNumberToObject_def cJSON_CreateObject_def cJSON_CreateString_def
      cJSON_CreateNumber_def add_item_to_object_def add_item_to_array_def new_item_def)












text \<open>
  C37. A client sends a \<open>POST\<close> request, written as the standard prescribes, that announces a body of no bytes, to a route the server
  has.  The server takes it for complete, and whichever of the three handlers that read a body it is passed to, with any
  arguments (for the execution of a program with an identifier among them), dereferences a null pointer.
\<close>

theorem empty_post_faults:
  assumes path: "path \<noteq> []" "CHR ''?'' \<notin> set path" "word_ok (target_text path query)"
    and hs: "header_wf (''host'', host)" "list_all (\<lambda>(n, v). header_wf (map tolower n, v)) hs" "length hs + 2 < e_req_header_max env"
    and acc: "accepts env c host HTTP_METHOD_POST path query rt"
    and len: "find (\<lambda>(n, v). strcase_eq n ''content-length'') (map (\<lambda>(n, v). (map tolower n, v)) hs) = Some (n, v)" "e_u64 env v = Some 0"
      "e_body_max env \<noteq> 0"
  shows "\<exists>req c'. http_header_recv env (crlf_join (render_lines ''POST'' (target_text path query) ''HTTP/1.1'' host hs) @ CRLF @ CRLF @ later) c =
      Inr (True, Some req, c') \<and> hr_complete req \<and> hr_path req = path \<and>
    (\<forall>args. let r = handler_req (req\<lparr>hr_arguments := args\<rparr>) in
       route_sandbox_create cj_parse cj_print cenv sid r srv = Inl NullDeref \<and>
       route_agent_task_create cj_parse cj_print tid r srv = Inl NullDeref \<and>
       (rq_id r \<noteq> None \<longrightarrow> route_sandbox_exec cj_parse cj_print strerror xenv r srv = Inl NullDeref))"
proof -
  obtain req where req: "http_header_recv env (crlf_join (render_lines ''POST'' (target_text path query) ''HTTP/1.1'' host hs) @ CRLF @ CRLF @ later) c =
      Inr (True, Some req, c\<lparr>hs_count := hs_count c + 1, hs_timeout := 0\<rparr>)"
    "hr_method req = HTTP_METHOD_POST" "hr_path req = path" "hr_complete req" "hr_body req = None"
    using http_header_recv_empty_post [OF path hs acc len] by blast
  have "let r = handler_req (req\<lparr>hr_arguments := args\<rparr>) in
       route_sandbox_create cj_parse cj_print cenv sid r srv = Inl NullDeref \<and>
       route_agent_task_create cj_parse cj_print tid r srv = Inl NullDeref \<and>
       (rq_id r \<noteq> None \<longrightarrow> route_sandbox_exec cj_parse cj_print strerror xenv r srv = Inl NullDeref)" for args
    using req(2,5)
    by (auto simp: handler_req_def Let_def route_sandbox_create_def route_agent_task_create_def route_sandbox_exec_def body_text_def)
  then show ?thesis using req by blast
qed

theorem empty_post_faults_witness:
  "\<exists>req c'. http_header_recv sample_env
      (crlf_join (render_lines ''POST'' (target_text ''/'' None) ''HTTP/1.1'' ''a'' [(''Content-Length'', ''0'')]) @ CRLF @ CRLF @ []) sample_state =
      Inr (True, Some req, c') \<and>
    route_sandbox_create (\<lambda>_. None) (\<lambda>_. []) demo_env ''i'' (handler_req (req\<lparr>hr_arguments := []\<rparr>)) demo_server = Inl NullDeref"
proof -
  have "header_wf (''host'', ''a'')" "header_wf (map tolower ''Content-Length'', ''0'')"
    by (simp_all add: header_wf_def token_char_def Http.printable_def tolower_def)
  moreover have "accepts sample_env sample_state ''a'' HTTP_METHOD_POST ''/'' None sample_route"
    by (simp add: accepts_def sample_env_def sample_state_def target_text_def host_name_def kore_domain_lookup_def
        kore_route_lookup_def route_matches_def sample_route_def)
  moreover have "map tolower ''Content-Length'' = ''content-length''" by (simp add: tolower_def char_of_eq_iff)
  then have "find (\<lambda>(n, v). strcase_eq n ''content-length'') (map (\<lambda>(n, v). (map tolower n, v)) [(''Content-Length'', ''0'')]) =
      Some (''content-length'', ''0'')"
    by (simp only: list.map prod.case find.simps strcase_eq_def) simp
  moreover have "e_u64 sample_env ''0'' = Some 0"
    by code_simp
  ultimately show ?thesis
    using empty_post_faults [of "''/''" None "''a''" "[(''Content-Length'', ''0'')]" sample_env sample_state sample_route "''content-length''" "''0''" "[]"
        "\<lambda>_. None" "\<lambda>_. []" demo_env "''i''" demo_server]
    by (force simp: word_ok_def target_text_def sample_env_def Let_def)
qed

end
